(* ===== verification/KPrelude.thy ===== *)
theory KPrelude
  imports Main "HOL-Library.Word"
begin

text \<open>
  Shared vocabulary of the development: machine integer types of the C code, the kernel's
  error numbers, C results that may be an error number or an access outside an object, reads
  of a byte buffer at an offset, and the list and word lemmas several components use.

  Widths: \<open>unsigned int\<close> is 32 bits, \<open>unsigned long\<close>, \<open>size_t\<close> and pointers are 64 bits (the LP64
  model of the 64-bit architectures), multi-byte host-order fields are little endian.
\<close>

unbundle bit_operations_syntax

type_synonym u8 = "8 word"
type_synonym u16 = "16 word"
type_synonym u32 = "32 word"
type_synonym u64 = "64 word"

named_theorems seg_simps \<open>reads of byte buffers\<close>

subsection \<open>Error numbers\<close>

text \<open>\<open>include/asm-generic/errno-base.h\<close>, and the numbers of \<open>errno.h\<close> the components return.\<close>

datatype errno =
    EPERM | ENOENT | ESRCH | EINTR | EIO | ENXIO | E2BIG | ENOEXEC | EBADF | ECHILD
  | EAGAIN | ENOMEM | EACCES | EFAULT | ENOTBLK | EBUSY | EEXIST | EXDEV | ENODEV | ENOTDIR
  | EISDIR | EINVAL | ENFILE | EMFILE | ENOTTY | ETXTBSY | EFBIG | ENOSPC | ESPIPE | EROFS
  | EMLINK | EPIPE | EDOM | ERANGE
  | EDEADLK | ENOLCK | ENOSYS | ENOMSG | EIDRM | EOVERFLOW | EMSGSIZE | EOPNOTSUPP

primrec errno_code :: "errno \<Rightarrow> int" where
  "errno_code EPERM = 1"
| "errno_code ENOENT = 2"
| "errno_code ESRCH = 3"
| "errno_code EINTR = 4"
| "errno_code EIO = 5"
| "errno_code ENXIO = 6"
| "errno_code E2BIG = 7"
| "errno_code ENOEXEC = 8"
| "errno_code EBADF = 9"
| "errno_code ECHILD = 10"
| "errno_code EAGAIN = 11"
| "errno_code ENOMEM = 12"
| "errno_code EACCES = 13"
| "errno_code EFAULT = 14"
| "errno_code ENOTBLK = 15"
| "errno_code EBUSY = 16"
| "errno_code EEXIST = 17"
| "errno_code EXDEV = 18"
| "errno_code ENODEV = 19"
| "errno_code ENOTDIR = 20"
| "errno_code EISDIR = 21"
| "errno_code EINVAL = 22"
| "errno_code ENFILE = 23"
| "errno_code EMFILE = 24"
| "errno_code ENOTTY = 25"
| "errno_code ETXTBSY = 26"
| "errno_code EFBIG = 27"
| "errno_code ENOSPC = 28"
| "errno_code ESPIPE = 29"
| "errno_code EROFS = 30"
| "errno_code EMLINK = 31"
| "errno_code EPIPE = 32"
| "errno_code EDOM = 33"
| "errno_code ERANGE = 34"
| "errno_code EDEADLK = 35"
| "errno_code ENOLCK = 37"
| "errno_code ENOSYS = 38"
| "errno_code ENOMSG = 42"
| "errno_code EIDRM = 43"
| "errno_code EOVERFLOW = 75"
| "errno_code EMSGSIZE = 90"
| "errno_code EOPNOTSUPP = 95"

lemma errno_code_inject: "errno_code a = errno_code b \<longleftrightarrow> a = b"
  by (cases a; cases b; simp)

lemma errno_code_pos: "0 < errno_code e"
  by (cases e) auto

text \<open>
  The outcome of a C function: a value, a negative error number, or \<open>Trap\<close>: the code hits a
  \<open>BUG()\<close>, or accesses memory outside the object it works on.
\<close>

datatype 'a outcome = Val 'a | Err errno | Trap

primrec bind_outcome :: "'a outcome \<Rightarrow> ('a \<Rightarrow> 'b outcome) \<Rightarrow> 'b outcome" where
  "bind_outcome (Val a) f = f a"
| "bind_outcome (Err e) f = Err e"
| "bind_outcome Trap f = Trap"

lemma bind_outcome_Val_iff [simp]:
  "bind_outcome r f = Val b \<longleftrightarrow> (\<exists>a. r = Val a \<and> f a = Val b)"
  by (cases r) auto

lemma bind_outcome_Trap_iff [simp]:
  "bind_outcome r f = Trap \<longleftrightarrow> r = Trap \<or> (\<exists>a. r = Val a \<and> f a = Trap)"
  by (cases r) auto

subsection \<open>Byte buffers\<close>

definition seg :: "nat \<Rightarrow> nat \<Rightarrow> 'a list \<Rightarrow> 'a list" where
  "seg i n xs = take n (drop i xs)"

text \<open>\<open>rd_bytes xs off n\<close>: \<open>n\<close> bytes at offset \<open>off\<close>, \<open>None\<close> when they are not all inside.\<close>

definition rd_bytes :: "'a list \<Rightarrow> int \<Rightarrow> int \<Rightarrow> 'a list option" where
  "rd_bytes xs off n =
     (if 0 \<le> off \<and> 0 \<le> n \<and> off + n \<le> int (length xs)
      then Some (seg (nat off) (nat n) xs) else None)"

lemma length_seg [simp]: "length (seg i n xs) = min n (length xs - i)"
  by (simp add: seg_def)

lemma seg_0_all [simp]: "length xs \<le> n \<Longrightarrow> seg 0 n xs = xs"
  by (simp add: seg_def)

lemma seg_zero [simp]: "seg i 0 xs = []"
  by (simp add: seg_def)

lemma seg_append_left [seg_simps]:
  "i + n \<le> length xs \<Longrightarrow> seg i n (xs @ ys) = seg i n xs"
  by (simp add: seg_def)

lemma seg_append_right [seg_simps]:
  "length xs \<le> i \<Longrightarrow> seg i n (xs @ ys) = seg (i - length xs) n ys"
  by (simp add: seg_def)

lemma seg_append_mid [seg_simps]:
  "i \<le> length xs \<Longrightarrow> length xs \<le> i + n \<Longrightarrow>
   seg i n (xs @ ys) = drop i xs @ take (i + n - length xs) ys"
  by (simp add: seg_def) (metis Nat.add_diff_assoc2 Nat.diff_diff_right add.commute)

lemma seg_split: "seg i (m + n) xs = seg i m xs @ seg (i + m) n xs"
  by (simp add: seg_def take_add add.commute)

lemma seg_seg: "i' + n' \<le> n \<Longrightarrow> seg i' n' (seg i n xs) = seg (i + i') n' xs"
  by (simp add: seg_def drop_take add.commute min_def)

lemma nth_seg [simp]:
  "j < n \<Longrightarrow> i + n \<le> length xs \<Longrightarrow> seg i n xs ! j = xs ! (i + j)"
  by (simp add: seg_def)

lemma rd_bytes_Some:
  "rd_bytes xs off n = Some ys \<longleftrightarrow>
   0 \<le> off \<and> 0 \<le> n \<and> off + n \<le> int (length xs) \<and> ys = seg (nat off) (nat n) xs"
  by (auto simp: rd_bytes_def)

lemma rd_bytes_None:
  "rd_bytes xs off n = None \<longleftrightarrow> \<not> (0 \<le> off \<and> 0 \<le> n \<and> off + n \<le> int (length xs))"
  by (auto simp: rd_bytes_def)

lemma rd_bytes_length: "rd_bytes xs off n = Some ys \<Longrightarrow> length ys = nat n"
  by (auto simp: rd_bytes_Some)

text \<open>\<open>rd\<close> and \<open>wr_bytes\<close>: a read and a write at an offset, \<open>Trap\<close> when they leave the buffer.\<close>

definition wr_bytes :: "u8 list \<Rightarrow> nat \<Rightarrow> u8 list \<Rightarrow> u8 list outcome" where
  "wr_bytes xs off bs =
     (if off + length bs \<le> length xs then Val (take off xs @ bs @ drop (off + length bs) xs) else Trap)"

definition rd :: "u8 list \<Rightarrow> nat \<Rightarrow> nat \<Rightarrow> u8 list outcome" where
  "rd xs off n = (if off + n \<le> length xs then Val (seg off n xs) else Trap)"

lemma wr_bytes_append: "wr_bytes xs p bs = Val ys \<Longrightarrow> wr_bytes (xs @ zs) p bs = Val (ys @ zs)"
  by (auto simp: wr_bytes_def split: if_splits)

lemma wr_bytes_length: "wr_bytes xs p bs = Val ys \<Longrightarrow> length ys = length xs"
  by (auto simp: wr_bytes_def split: if_splits)

subsection \<open>Multi-byte values\<close>

fun be_val :: "u8 list \<Rightarrow> nat" where
  "be_val bs = fold (\<lambda>b acc. acc * 256 + unat b) bs 0"

primrec le_val :: "u8 list \<Rightarrow> nat" where
  "le_val [] = 0"
| "le_val (b # bs) = unat b + 256 * le_val bs"

lemma unat_of_nat_u16: "n < 2 ^ 16 \<Longrightarrow> unat (of_nat n :: u16) = n"
  by (simp add: unsigned_of_nat take_bit_nat_eq_self)

lemma unat_of_nat_u32: "n < 2 ^ 32 \<Longrightarrow> unat (of_nat n :: u32) = n"
  by (simp add: unsigned_of_nat take_bit_nat_eq_self)

lemma unat_u8_less [simp]: "unat (b :: u8) < 256"
  using unsigned_less [of b, where 'a = nat] by simp

lemma le_val_bound: "le_val bs < 256 ^ length bs"
proof (induction bs)
  case Nil
  show ?case by simp
next
  case (Cons b bs)
  have "unat b < 256" by simp
  then have "unat b + 256 * le_val bs < 256 * Suc (le_val bs)" by simp
  also have "\<dots> \<le> 256 * 256 ^ length bs"
    using Cons.IH by (intro mult_le_mono2) simp
  finally show ?case by simp
qed

text \<open>The little-endian encoding, least significant byte first.\<close>

primrec le_bytes :: "nat \<Rightarrow> nat \<Rightarrow> u8 list" where
  "le_bytes 0 v = []"
| "le_bytes (Suc n) v = of_nat v # le_bytes n (v div 256)"

lemma length_le_bytes [simp]: "length (le_bytes n v) = n"
  by (induction n arbitrary: v) simp_all

lemma le_val_le_bytes: "le_val (le_bytes n v) = v mod 256 ^ n"
proof (induction n arbitrary: v)
  case (Suc n)
  have "unat (of_nat v :: u8) = v mod 256" by (simp add: unsigned_of_nat take_bit_eq_mod)
  with Suc show ?case by (simp add: mod_mult2_eq)
qed simp

lemma wr_bytes_at: "length xs = n \<Longrightarrow> length old = length bs \<Longrightarrow>
  wr_bytes (xs @ old @ ys) n bs = Val (xs @ bs @ ys)"
  by (simp add: wr_bytes_def)

lemma rd_at: "length xs = n \<Longrightarrow> length bs = m \<Longrightarrow> rd (xs @ bs @ ys) n m = Val bs"
  by (simp add: rd_def seg_def)

end
