(* ===== verification/Reciprocal.thy ===== *)
theory Reciprocal
  imports KPrelude
begin

text \<open>
  Reciprocal division (\<open>lib/reciprocal_div.c\<close>, \<open>include/linux/reciprocal_div.h\<close>): a division by a
  run-time constant replaced by a multiplication with its 32-bit reciprocal and a shift.
  The filter checker stores the reciprocal in a division instruction and the interpreter multiplies.
  The lemmas say where the result is the quotient, that it is at most one too large for a divisor of
  two or more, and that a divisor of one yields zero, because its reciprocal does not fit 32 bits.
\<close>

text \<open>\<open>do_div\<close> traps on a zero divisor: \<open>None\<close>.\<close>

definition reciprocal_value :: "u32 \<Rightarrow> u32 option" where
  "reciprocal_value k =
     (let val = push_bit 32 (1 :: u64) + ucast (k - 1) in
      if k = 0 then None else Some (ucast (val div ucast k)))"

definition reciprocal_divide :: "u32 \<Rightarrow> u32 \<Rightarrow> u32" where
  "reciprocal_divide A R = ucast (drop_bit 32 (ucast A * ucast R :: u64))"

lemma unat_u32_less: "unat (w :: u32) < 4294967296"
  using unsigned_less [of w, where 'a = nat] by simp

lemma unat_ucast_u32_u64 [simp]: "unat (ucast (w :: u32) :: u64) = unat w"
proof -
  have "unat w < 2 ^ 64" using unat_u32_less [of w] by simp
  then show ?thesis by (simp add: unsigned_ucast_eq take_bit_nat_eq_self_iff)
qed

lemma unat_reciprocal_divide:
  "unat (reciprocal_divide A R) = unat A * unat R div 2 ^ 32"
proof -
  have "unat A * unat R < 2 ^ 64"
    using mult_strict_mono [of "unat A" "2 ^ 32" "unat R" "2 ^ 32"] unat_u32_less [of A] unat_u32_less [of R]
    by simp
  then have "unat (ucast A * ucast R :: u64) = unat A * unat R"
    by (simp add: unat_word_ariths)
  moreover have "unat A * unat R div 2 ^ 32 < 2 ^ 32"
    using \<open>unat A * unat R < 2 ^ 64\<close> by (simp add: less_mult_imp_div_less)
  ultimately show ?thesis
    by (simp add: reciprocal_divide_def unsigned_ucast_eq drop_bit_eq_div unat_div
        take_bit_nat_eq_self_iff)
qed

lemma unat_reciprocal_value:
  assumes "2 \<le> unat k" and "reciprocal_value k = Some R"
  shows "unat R = (2 ^ 32 + unat k - 1) div unat k"
proof -
  have k0: "k \<noteq> 0" "1 \<le> k" using assms(1) by (auto simp: word_le_nat_alt)
  have km1: "unat (k - 1) = unat k - 1" using k0 by (simp add: unat_sub)
  have lt: "unat k < 4294967296" by (rule unat_u32_less)
  have "unat (push_bit 32 (1 :: u64) + ucast (k - 1)) = 2 ^ 32 + unat k - 1"
    using assms(1) lt by (simp add: unat_word_ariths km1)
  then have v: "unat ((push_bit 32 (1 :: u64) + ucast (k - 1)) div ucast k) =
      (2 ^ 32 + unat k - 1) div unat k"
    by (simp add: unat_div)
  have "(2 ^ 32 + unat k - 1) div unat k \<le> (2 ^ 32 + unat k - 1) div 2"
    using assms(1) by (intro div_le_mono2) auto
  also have "\<dots> < 2 ^ 32" using lt by simp
  finally have "(2 ^ 32 + unat k - 1) div unat k < 2 ^ 32" .
  then show ?thesis
    using assms(2) k0 v
    by (auto simp: reciprocal_value_def Let_def unsigned_ucast_eq take_bit_nat_eq_self_iff)
qed

text \<open>The arithmetic behind both bounds, on natural numbers: \<open>r\<close> is \<open>2 ^ 32 / k\<close> rounded up.\<close>

lemma ceil_recip:
  fixes k :: nat
  assumes "0 < k" and "r = (2 ^ 32 + k - 1) div k"
  obtains e where "r * k = 2 ^ 32 + e" and "e < k"
proof -
  let ?m = "(2 ^ 32 + k - 1) mod k"
  have "r * k + ?m = 2 ^ 32 + k - 1" unfolding assms(2) by (rule div_mult_mod_eq)
  moreover have "?m < k" using assms(1) by simp
  ultimately have "r * k = 2 ^ 32 + (k - 1 - ?m)" "k - 1 - ?m < k"
    using assms(1) by linarith+
  then show ?thesis using that by blast
qed

lemma dividend_less_next:
  fixes a k :: nat
  assumes "0 < k"
  shows "a < (a div k + 1) * k"
  using dividend_less_div_times [OF assms, of a] by (simp add: algebra_simps)

lemma recip_quotient_lower:
  fixes a k r e :: nat
  assumes "0 < k" and "r * k = 2 ^ 32 + e"
  shows "a div k \<le> a * r div 2 ^ 32"
proof -
  have "(a div k) * 2 ^ 32 * k \<le> a * 2 ^ 32"
    using div_times_less_eq_dividend [of a k] by (simp add: algebra_simps)
  also have "\<dots> \<le> a * r * k"
    using assms(2) by (simp add: mult.assoc algebra_simps)
  finally have "(a div k) * 2 ^ 32 \<le> a * r" using assms(1) by simp
  then show ?thesis by (simp add: less_eq_div_iff_mult_less_eq)
qed

lemma recip_quotient_upper:
  fixes a k r e :: nat
  assumes "0 < k" and "r * k = 2 ^ 32 + e" and "a * e < 2 ^ 32 * d"
    and "a + d \<le> (a div k + c) * k"
  shows "a * r div 2 ^ 32 < a div k + c"
proof -
  have "a * r * k = a * 2 ^ 32 + a * e" using assms(2) by (simp add: mult.assoc algebra_simps)
  also have "\<dots> < 2 ^ 32 * (a + d)" using assms(3) by (simp add: algebra_simps)
  also have "\<dots> \<le> 2 ^ 32 * ((a div k + c) * k)" using assms(4) by (rule mult_le_mono2)
  finally have "a * r * k < ((a div k + c) * 2 ^ 32) * k" by (simp add: algebra_simps)
  then have "a * r < (a div k + c) * 2 ^ 32" by simp
  then show ?thesis by (simp add: less_mult_imp_div_less)
qed

text \<open>
  The reciprocal quotient is never too small, is exact while \<open>A * (k - 1)\<close> stays below \<open>2 ^ 32\<close>, and
  is never more than one too large.
\<close>

lemma reciprocal_divide_bounds:
  assumes k: "2 \<le> unat k" and R: "reciprocal_value k = Some R"
  shows "unat A div unat k \<le> unat (reciprocal_divide A R)"
    and "unat (reciprocal_divide A R) \<le> Suc (unat A div unat k)"
proof -
  have k0: "0 < unat k" using k by simp
  obtain e where e: "unat R * unat k = 2 ^ 32 + e" "e < unat k"
    using ceil_recip [OF k0 unat_reciprocal_value [OF k R]] .
  show "unat A div unat k \<le> unat (reciprocal_divide A R)"
    using recip_quotient_lower [OF k0 e(1), of "unat A"] by (simp add: unat_reciprocal_divide)
  have "unat A * e < 2 ^ 32 * unat k"
    using mult_strict_mono [of "unat A" "2 ^ 32" e "unat k"] unat_u32_less [of A] e(2) k0 by simp
  moreover have "unat A + unat k \<le> (unat A div unat k + 2) * unat k"
    using dividend_less_next [OF k0, of "unat A"] by simp
  ultimately have "unat A * unat R div 2 ^ 32 < unat A div unat k + 2"
    by (rule recip_quotient_upper [OF k0 e(1)])
  then show "unat (reciprocal_divide A R) \<le> Suc (unat A div unat k)"
    by (simp add: unat_reciprocal_divide)
qed

lemma reciprocal_divide_exact:
  assumes k: "2 \<le> unat k" and R: "reciprocal_value k = Some R"
    and small: "unat A * (unat k - 1) < 2 ^ 32"
  shows "reciprocal_divide A R = A div k"
proof -
  have k0: "0 < unat k" using k by simp
  obtain e where e: "unat R * unat k = 2 ^ 32 + e" "e < unat k"
    using ceil_recip [OF k0 unat_reciprocal_value [OF k R]] .
  have "unat A * e \<le> unat A * (unat k - 1)" using e(2) by (intro mult_le_mono2) simp
  also note small
  finally have "unat A * e < 2 ^ 32 * 1" by simp
  moreover have "unat A + 1 \<le> (unat A div unat k + 1) * unat k"
    using dividend_less_next [OF k0, of "unat A"] by simp
  ultimately have "unat A * unat R div 2 ^ 32 < unat A div unat k + 1"
    by (rule recip_quotient_upper [OF k0 e(1)])
  then have "unat (reciprocal_divide A R) = unat A div unat k"
    using reciprocal_divide_bounds(1) [OF k R, of A] by (simp add: unat_reciprocal_divide)
  then show ?thesis by (simp add: word_unat_eq_iff unat_div)
qed

lemma reciprocal_divide_by_one:
  "reciprocal_value 1 = Some 0" "reciprocal_divide A 0 = 0"
  by (simp_all add: reciprocal_value_def reciprocal_divide_def Let_def)

subsection \<open>Properties\<close>

text \<open>
  For every divisor of at least 2, dividing by multiplication with the reciprocal never gives less
  than the quotient and at most one more; it is the quotient for every dividend \<open>A\<close> with
  \<open>A * (k - 1) < 2^32\<close>.
\<close>

theorem reciprocal_divide_correct:
  assumes "2 \<le> unat k"
  shows "\<exists>R. reciprocal_value k = Some R \<and>
           unat (reciprocal_divide A R) \<in> {unat A div unat k, Suc (unat A div unat k)} \<and>
           (unat A * (unat k - 1) < 2 ^ 32 \<longrightarrow> reciprocal_divide A R = A div k)"
proof -
  have "k \<noteq> 0" using assms by auto
  then obtain R where R: "reciprocal_value k = Some R"
    by (auto simp: reciprocal_value_def Let_def)
  show ?thesis
    using R reciprocal_divide_bounds [OF assms R, of A] reciprocal_divide_exact [OF assms R, of A] by auto
qed

theorem reciprocal_divide_correct_witness:
  "\<exists>R. reciprocal_value 10 = Some R \<and> reciprocal_divide 1234 R = 123"
proof -
  have "2 \<le> unat (10 :: u32)" by simp
  from reciprocal_divide_correct [OF this, of 1234] show ?thesis by auto
qed

text \<open>
  The bound on the divisor is needed: the reciprocal of 1 wraps to 0, and every division by it
  gives 0.
\<close>

theorem reciprocal_of_one: "reciprocal_value 1 = Some 0 \<and> reciprocal_divide A 0 = 0"
  by (simp add: reciprocal_divide_by_one)

end
