(* ===== verification/Skbuff.thy ===== *)
theory Skbuff
  imports KPrelude
begin

text \<open>
  Socket buffers, as far as packet filters read them (\<open>include/linux/skbuff.h\<close>,
  \<open>net/core/skbuff.c\<close>). A buffer has a linear area (\<open>head\<close>, with \<open>data\<close> and \<open>tail\<close> as offsets into
  it), an array of page fragments and a list of further buffers; \<open>len\<close> and \<open>data_len\<close> are stored
  fields, and \<open>skb_wf\<close> says how they relate to the contents. The main result is that
  \<open>skb_copy_bits\<close> delivers the requested range of the packet's bytes exactly when it lies inside.
\<close>

record skb_frag =
  page :: "u8 list"
  page_offset :: nat
  frag_size :: nat

record net_device =
  ifindex :: int
  dev_type :: u16

record skb_info =
  network_header :: int
  mac_header :: int
  protocol :: u16
  pkt_type :: "3 word"
  mark :: u32
  queue_mapping :: u16
  rxhash :: u32
  dev :: "net_device option"

datatype sk_buff = Sk_buff
  (skb_len: nat)
  (skb_data_len: nat)
  (skb_head: "u8 list")
  (skb_data: nat)
  (skb_tail: nat)
  (skb_frags: "skb_frag list")
  (skb_frag_list: "sk_buff list")
  (skb_info: skb_info)

definition skb_is_nonlinear :: "sk_buff \<Rightarrow> bool" where
  "skb_is_nonlinear skb \<longleftrightarrow> skb_data_len skb \<noteq> 0"

definition skb_headlen :: "sk_buff \<Rightarrow> int" where
  "skb_headlen skb = int (skb_len skb) - int (skb_data_len skb)"

subsection \<open>Copying a range of the packet\<close>

text \<open>
  The loop over \<open>frags[]\<close>. \<open>Inl\<close> is the early \<open>return 0\<close> with the bytes copied, \<open>Inr\<close> the values of
  \<open>start\<close>, \<open>offset\<close>, \<open>len\<close> and the bytes copied so far when the loop ends.
\<close>

fun copy_frags ::
  "skb_frag list \<Rightarrow> int \<Rightarrow> int \<Rightarrow> int \<Rightarrow> u8 list \<Rightarrow> (u8 list + int \<times> int \<times> int \<times> u8 list) outcome" where
  "copy_frags [] start offset len out = Val (Inr (start, offset, len, out))"
| "copy_frags (f # fs) start offset len out =
     (let end = start + int (frag_size f); copy = end - offset in
      if copy > 0 then
        (let copy = (if copy > len then len else copy) in
         case rd_bytes (page f) (int (page_offset f) + offset - start) copy of
           None \<Rightarrow> Trap
         | Some bs \<Rightarrow>
             if len - copy = 0 then Val (Inl (out @ bs))
             else copy_frags fs end (offset + copy) (len - copy) (out @ bs))
      else copy_frags fs end offset len out)"

text \<open>\<open>skb_copy_bits\<close> and its loop over the list of further buffers (\<open>skb_walk_frags\<close>).\<close>

fun skb_copy_bits :: "sk_buff \<Rightarrow> int \<Rightarrow> int \<Rightarrow> u8 list outcome"
and copy_frag_list ::
  "sk_buff list \<Rightarrow> int \<Rightarrow> int \<Rightarrow> int \<Rightarrow> u8 list \<Rightarrow> u8 list outcome" where
  "skb_copy_bits (Sk_buff slen sdlen head data tail frags fl info) offset len =
     (let start = int slen - int sdlen; copy = start - offset in
      if offset > int slen - len then Err EFAULT
      else
        let copy' = (if copy > len then len else copy) in
        case (if copy > 0
              then (case rd_bytes head (int data + offset) copy' of
                      None \<Rightarrow> Trap
                    | Some bs \<Rightarrow> if len - copy' = 0 then Val (Inl bs)
                                else Val (Inr (start, offset + copy', len - copy', bs)))
              else Val (Inr (start, offset, len, []))) of
          Trap \<Rightarrow> Trap
        | Err e \<Rightarrow> Err e
        | Val (Inl out) \<Rightarrow> Val out
        | Val (Inr (start, offset, len, out)) \<Rightarrow>
           (case copy_frags frags start offset len out of
              Trap \<Rightarrow> Trap
            | Err e \<Rightarrow> Err e
            | Val (Inl out) \<Rightarrow> Val out
            | Val (Inr (start, offset, len, out)) \<Rightarrow> copy_frag_list fl start offset len out))"
| "copy_frag_list [] start offset len out = (if len = 0 then Val out else Err EFAULT)"
| "copy_frag_list (s # ss) start offset len out =
     (let end = start + int (skb_len s); copy = end - offset in
      if copy > 0 then
        (let copy = (if copy > len then len else copy) in
         case skb_copy_bits s (offset - start) copy of
           Trap \<Rightarrow> Trap
         | Err e \<Rightarrow> Err EFAULT
         | Val bs \<Rightarrow>
             if len - copy = 0 then Val (out @ bs)
             else copy_frag_list ss end (offset + copy) (len - copy) (out @ bs))
      else copy_frag_list ss end offset len out)"

text \<open>
  \<open>skb_header_pointer\<close> returns a pointer to \<open>len\<close> readable bytes: into the linear area, or to the
  caller's buffer after copying, or \<open>NULL\<close>. The model returns the bytes behind the pointer.
\<close>

definition skb_header_pointer :: "sk_buff \<Rightarrow> int \<Rightarrow> int \<Rightarrow> u8 list option outcome" where
  "skb_header_pointer skb offset len =
     (let hlen = skb_headlen skb in
      if hlen - offset \<ge> len then
        (case rd_bytes (skb_head skb) (int (skb_data skb) + offset) len of
           None \<Rightarrow> Trap
         | Some bs \<Rightarrow> Val (Some bs))
      else
        (case skb_copy_bits skb offset len of
           Trap \<Rightarrow> Trap
         | Err e \<Rightarrow> Val None
         | Val bs \<Rightarrow> Val (Some bs)))"

text \<open>
  The linear area ends where \<open>head\<close> ends. \<open>skb_put\<close> extends the data by \<open>len\<close> bytes and returns the old
  tail; a paged buffer or a buffer without room is a \<open>BUG\<close>.
\<close>

definition skb_tailroom :: "sk_buff \<Rightarrow> int" where
  "skb_tailroom skb =
     (if skb_is_nonlinear skb then 0 else int (length (skb_head skb)) - int (skb_tail skb))"

fun skb_put :: "sk_buff \<Rightarrow> nat \<Rightarrow> (nat \<times> sk_buff) outcome" where
  "skb_put (Sk_buff slen sdlen head data tail frags fl info) len =
     (if sdlen \<noteq> 0 then Trap
      else if tail + len > length head then Trap
      else Val (tail, Sk_buff (slen + len) sdlen head data (tail + len) frags fl info))"

subsection \<open>Contents and well-formedness\<close>

definition frag_bytes :: "skb_frag \<Rightarrow> u8 list" where
  "frag_bytes f = seg (page_offset f) (frag_size f) (page f)"

definition frag_wf :: "skb_frag \<Rightarrow> bool" where
  "frag_wf f \<longleftrightarrow> page_offset f + frag_size f \<le> length (page f)"

definition linear_bytes :: "sk_buff \<Rightarrow> u8 list" where
  "linear_bytes skb = seg (skb_data skb) (skb_tail skb - skb_data skb) (skb_head skb)"

fun skb_bytes :: "sk_buff \<Rightarrow> u8 list" where
  "skb_bytes (Sk_buff slen sdlen head data tail frags fl info) =
     seg data (tail - data) head @ concat (map frag_bytes frags) @ concat (map skb_bytes fl)"

fun skb_wf :: "sk_buff \<Rightarrow> bool" where
  "skb_wf (Sk_buff slen sdlen head data tail frags fl info) \<longleftrightarrow>
     data \<le> tail \<and> tail \<le> length head \<and> slen < 2 ^ 31 \<and>
     slen = (tail - data) + sdlen \<and>
     sdlen = sum_list (map frag_size frags) + sum_list (map skb_len fl) \<and>
     list_all frag_wf frags \<and> list_all skb_wf fl"

lemma length_frag_bytes [simp]: "frag_wf f \<Longrightarrow> length (frag_bytes f) = frag_size f"
  by (simp add: frag_bytes_def frag_wf_def)

lemma length_concat_frags:
  "list_all frag_wf fs \<Longrightarrow> length (concat (map frag_bytes fs)) = sum_list (map frag_size fs)"
  by (induction fs) auto

lemma length_skb_bytes: "skb_wf skb \<Longrightarrow> length (skb_bytes skb) = skb_len skb"
proof (induction skb)
  case (Sk_buff slen sdlen head data tail frags fl info)
  have "\<forall>s \<in> set fl. length (skb_bytes s) = skb_len s"
    using Sk_buff by (auto simp: list_all_iff)
  then have "length (concat (map skb_bytes fl)) = sum_list (map skb_len fl)"
    by (induction fl) auto
  with Sk_buff.prems show ?case
    by (auto simp: length_concat_frags)
qed

lemma length_concat_skbs:
  "list_all skb_wf ss \<Longrightarrow> length (concat (map skb_bytes ss)) = sum_list (map skb_len ss)"
  by (induction ss) (auto simp: length_skb_bytes)

text \<open>
  What one chunked copy step leaves: with \<open>n\<close> bytes skipped, either the whole request is inside the
  chunk sequence \<open>T\<close>, or everything from \<open>n\<close> on has been taken.
\<close>

lemma copy_frags_eq:
  assumes "list_all frag_wf fs" and "T = concat (map frag_bytes fs)"
    and "start \<le> offset" and "0 \<le> len" and "n = nat (offset - start)"
  shows "copy_frags fs start offset len out =
     (if n < length T \<and> n + nat len \<le> length T
      then Val (Inl (out @ seg n (nat len) T))
      else Val (Inr (start + int (length T), offset + int (length T - n),
                     len - int (length T - n), out @ drop n T)))"
  using assms
proof (induction fs arbitrary: T start offset len n out)
  case Nil
  then show ?case by simp
next
  case (Cons f fs)
  define T' where "T' = concat (map frag_bytes fs)"
  have T: "T = frag_bytes f @ T'" using Cons.prems(2) by (simp add: T'_def)
  have wf: "frag_wf f" "list_all frag_wf fs" using Cons.prems(1) by auto
  have lf: "length (frag_bytes f) = frag_size f" using wf by simp
  have off: "offset = start + int n" using Cons.prems(3,5) by simp
  show ?case
  proof (cases "n < frag_size f")
    case False
    have "copy_frags (f # fs) start offset len out =
          copy_frags fs (start + int (frag_size f)) offset len out"
      using False off by simp
    also have "\<dots> = (if n - frag_size f < length T' \<and> n - frag_size f + nat len \<le> length T'
      then Val (Inl (out @ seg (n - frag_size f) (nat len) T'))
      else Val (Inr (start + int (frag_size f) + int (length T'),
                     offset + int (length T' - (n - frag_size f)),
                     len - int (length T' - (n - frag_size f)), out @ drop (n - frag_size f) T')))"
      by (rule Cons.IH [OF wf(2) T'_def]) (use False off Cons.prems(4) in auto)
    finally show ?thesis
      using False lf by (auto simp: T seg_def)
  next
    case True
    show ?thesis
    proof (cases "n + nat len \<le> frag_size f")
      case True
      then show ?thesis
        using \<open>n < frag_size f\<close> off Cons.prems(4) wf(1) lf
        by (auto simp: T frag_wf_def frag_bytes_def seg_seg seg_append_left nat_add_distrib
            rd_bytes_def Let_def)
    next
      case False
      define c where "c = frag_size f - n"
      have cl: "int c < len" "0 < c" using False True Cons.prems(4) by (auto simp: c_def)
      have rd: "rd_bytes (page f) (int (page_offset f) + offset - start) (int c) =
                Some (drop n (frag_bytes f))"
        using True wf(1)
        by (auto simp: frag_wf_def frag_bytes_def seg_def c_def drop_take nat_add_distrib off
            add.commute nat_diff_distrib rd_bytes_Some)
      have e: "start + int (frag_size f) - offset = int c" "offset < start + int (frag_size f)"
        using True by (simp_all add: off c_def)
      have "copy_frags (f # fs) start offset len out =
            copy_frags fs (start + int (frag_size f)) (offset + int c) (len - int c)
              (out @ drop n (frag_bytes f))"
        using cl by (simp add: Let_def e rd)
      also have "\<dots> = (if 0 < length T' \<and> 0 + nat (len - int c) \<le> length T'
        then Val (Inl ((out @ drop n (frag_bytes f)) @ seg 0 (nat (len - int c)) T'))
        else Val (Inr (start + int (frag_size f) + int (length T'),
                     offset + int c + int (length T' - 0),
                     len - int c - int (length T' - 0), (out @ drop n (frag_bytes f)) @ drop 0 T')))"
        by (rule Cons.IH [OF wf(2) T'_def]) (use True off cl in \<open>auto simp: c_def\<close>)
      finally show ?thesis
        using True False lf cl by (auto simp: T seg_def c_def nat_diff_distrib)
    qed
  qed
qed

text \<open>The law one buffer of the list obeys, as the loop over the list uses it.\<close>

definition copies_exactly :: "sk_buff \<Rightarrow> bool" where
  "copies_exactly s \<longleftrightarrow>
     (\<forall>off len. 0 \<le> off \<longrightarrow> 0 \<le> len \<longrightarrow>
        skb_copy_bits s off len =
          (if off + len \<le> int (skb_len s)
           then Val (seg (nat off) (nat len) (skb_bytes s)) else Err EFAULT))"

lemma copies_exactlyD:
  "copies_exactly s \<Longrightarrow> 0 \<le> off \<Longrightarrow> 0 \<le> len \<Longrightarrow> off + len \<le> int (skb_len s) \<Longrightarrow>
   skb_copy_bits s off len = Val (seg (nat off) (nat len) (skb_bytes s))"
  by (simp add: copies_exactly_def)

lemma copy_frag_list_eq:
  assumes "list_all skb_wf ss" and "list_all copies_exactly ss"
    and "T = concat (map skb_bytes ss)"
    and "start \<le> offset" and "0 \<le> len" and "n = nat (offset - start)"
  shows "copy_frag_list ss start offset len out =
     (if n + nat len \<le> length T \<or> len = 0 then Val (out @ seg n (nat len) T) else Err EFAULT)"
  using assms
proof (induction ss arbitrary: T start offset len n out)
  case Nil
  then show ?case by simp
next
  case (Cons s ss)
  define T' where "T' = concat (map skb_bytes ss)"
  have T: "T = skb_bytes s @ T'" using Cons.prems(3) by (simp add: T'_def)
  have wf: "skb_wf s" "list_all skb_wf ss" "copies_exactly s" "list_all copies_exactly ss"
    using Cons.prems(1,2) by auto
  have ls: "length (skb_bytes s) = skb_len s" using wf by (simp add: length_skb_bytes)
  have off: "offset = start + int n" using Cons.prems(4,6) by simp
  show ?case
  proof (cases "n < skb_len s")
    case False
    have "copy_frag_list (s # ss) start offset len out =
          copy_frag_list ss (start + int (skb_len s)) offset len out"
      using False off by simp
    also have "\<dots> = (if n - skb_len s + nat len \<le> length T' \<or> len = 0
      then Val (out @ seg (n - skb_len s) (nat len) T') else Err EFAULT)"
      by (rule Cons.IH [OF wf(2,4) T'_def]) (use False off Cons.prems(5) in auto)
    finally show ?thesis
      using False ls by (auto simp: T seg_append_right)
  next
    case True
    note in_s = True
    show ?thesis
    proof (cases "n + nat len \<le> skb_len s")
      case True
      have "skb_copy_bits s (offset - start) len = Val (seg n (nat len) (skb_bytes s))"
        using copies_exactlyD [OF wf(3), of "int n" len] True Cons.prems(5) off by auto
      moreover have "\<not> start + int (skb_len s) - offset < len" "start + int (skb_len s) - offset > 0"
        using True in_s off Cons.prems(5) by auto
      ultimately show ?thesis
        using True ls Cons.prems(5) off by (auto simp: T seg_append_left Let_def)
    next
      case False
      define c where "c = skb_len s - n"
      have cl: "int c < len" "0 < c" using False in_s Cons.prems(5) by (auto simp: c_def)
      have rd: "skb_copy_bits s (offset - start) (int c) = Val (drop n (skb_bytes s))"
        using copies_exactlyD [OF wf(3), of "int n" "int c"] in_s off ls
        by (simp add: c_def seg_def)
      have e: "start + int (skb_len s) - offset = int c" "offset < start + int (skb_len s)"
        using in_s by (simp_all add: off c_def)
      have "copy_frag_list (s # ss) start offset len out =
            copy_frag_list ss (start + int (skb_len s)) (offset + int c) (len - int c)
              (out @ drop n (skb_bytes s))"
        using cl by (simp add: Let_def e rd)
      also have "\<dots> = (if 0 + nat (len - int c) \<le> length T' \<or> len - int c = 0
        then Val ((out @ drop n (skb_bytes s)) @ seg 0 (nat (len - int c)) T') else Err EFAULT)"
        by (rule Cons.IH [OF wf(2,4) T'_def]) (use in_s off cl in \<open>auto simp: c_def\<close>)
      finally show ?thesis
        using in_s False ls cl by (auto simp: T seg_def c_def nat_diff_distrib)
    qed
  qed
qed

lemma copy_rest_eq:
  assumes "list_all frag_wf frags" and "list_all skb_wf fl" and "list_all copies_exactly fl"
    and F: "F = concat (map frag_bytes frags)" and L: "L = concat (map skb_bytes fl)"
    and "start \<le> offset" and "0 \<le> len" and n: "n = nat (offset - start)"
    and inside: "n + nat len \<le> length F + length L"
  shows "(case copy_frags frags start offset len out of
            Trap \<Rightarrow> Trap | Err e \<Rightarrow> Err e | Val (Inl out) \<Rightarrow> Val out
          | Val (Inr (start, offset, len, out)) \<Rightarrow> copy_frag_list fl start offset len out) =
         Val (out @ seg n (nat len) (F @ L))"
proof (cases "n < length F \<and> n + nat len \<le> length F")
  case True
  then show ?thesis
    by (simp add: copy_frags_eq [OF assms(1) F assms(6,7) n] seg_append_left)
next
  case False
  let ?o = "offset + int (length F - n)" and ?l = "len - int (length F - n)"
  have nn: "n - length F = nat (?o - (start + int (length F)))"
    using assms(6) n by auto
  have l: "0 \<le> ?l" "nat ?l = nat len - (length F - n)"
    using False assms(7) by auto
  have in_L: "n - length F + nat ?l \<le> length L"
    using inside l by arith
  have ge: "start + int (length F) \<le> ?o"
    using assms(6) n by auto
  have "copy_frag_list fl (start + int (length F)) ?o ?l (out @ drop n F) =
        Val ((out @ drop n F) @ seg (n - length F) (nat ?l) L)"
    using in_L by (subst copy_frag_list_eq [OF assms(2,3) L ge l(1) nn]) simp
  then show ?thesis
    using False l by (subst copy_frags_eq [OF assms(1) F assms(6,7) n]) (auto simp: seg_def)
qed

lemma skb_copy_bits_step:
  assumes wf: "skb_wf (Sk_buff slen sdlen head data tail frags fl info)"
    and ce: "list_all copies_exactly fl"
  shows "copies_exactly (Sk_buff slen sdlen head data tail frags fl info)"
  unfolding copies_exactly_def
proof (intro allI impI)
  fix off len :: int
  assume nn: "0 \<le> off" "0 \<le> len"
  let ?s = "Sk_buff slen sdlen head data tail frags fl info"
  define H where "H = seg data (tail - data) head"
  define F where "F = concat (map frag_bytes frags)"
  define L where "L = concat (map skb_bytes fl)"
  have bytes: "skb_bytes ?s = H @ F @ L" by (simp add: H_def F_def L_def)
  have wfs: "list_all frag_wf frags" "list_all skb_wf fl" using wf by auto
  have lens: "int slen - int sdlen = int (length H)" "length F + length L = sdlen"
      "slen = length H + sdlen"
    using wf by (auto simp: H_def F_def L_def length_concat_frags length_concat_skbs)
  note rest = copy_rest_eq [OF wfs ce F_def L_def]
  have hd: "rd_bytes head (int data + off) l = Some (seg (nat off) (nat l) H)"
    if "0 \<le> l" "off + l \<le> int (length H)" for l
    using wf that nn by (auto simp: H_def nat_add_distrib seg_seg rd_bytes_Some)
  show "skb_copy_bits ?s off len =
    (if off + len \<le> int (skb_len ?s) then Val (seg (nat off) (nat len) (skb_bytes ?s)) else Err EFAULT)"
  proof (cases "off + len \<le> int slen")
    case False
    then show ?thesis by (simp add: Let_def)
  next
    case True
    consider (inh) "off < int (length H)" "off + len \<le> int (length H)"
      | (split) "off < int (length H)" "int (length H) < off + len" | (out) "int (length H) \<le> off"
      by linarith
    then show ?thesis
    proof cases
      case inh
      then have "(if int (length H) - off > len then len else int (length H) - off) = len"
        by simp
      with inh have "skb_copy_bits ?s off len = Val (seg (nat off) (nat len) H)"
        using True nn hd [of len] by (simp add: Let_def lens(1))
      then show ?thesis
        using inh True nn by (simp del: skb_bytes.simps add: bytes seg_append_left)
    next
      case split
      let ?c = "int (length H) - off"
      have "skb_copy_bits ?s off len = Val (seg (nat off) (nat ?c) H @ seg 0 (nat (len - ?c)) (F @ L))"
        using True nn split hd [of ?c] rest [of "int (length H)" "off + ?c" "len - ?c" 0] lens
        by (simp add: Let_def lens(1))
      then show ?thesis
        using split True nn
        by (auto simp del: skb_bytes.simps skb_copy_bits.simps
            simp: bytes seg_append_mid seg_def nat_diff_distrib)
    next
      case out
      have e: "nat (off - int (length H)) = nat off - length H" by simp
      have "skb_copy_bits ?s off len = Val (seg (nat off - length H) (nat len) (F @ L))"
        using True nn out rest [of "int (length H)" off len "nat off - length H" "[]"] lens
        by (simp add: Let_def lens(1) e)
      then show ?thesis
        using out True nn
        by (auto simp del: skb_bytes.simps skb_copy_bits.simps simp: bytes seg_append_right)
    qed
  qed
qed

lemma skb_wf_copies_exactly: "skb_wf skb \<Longrightarrow> copies_exactly skb"
proof (induction skb)
  case (Sk_buff slen sdlen head data tail frags fl info)
  then have "list_all copies_exactly fl"
    by (auto simp: list_all_iff)
  with Sk_buff.prems show ?case by (rule skb_copy_bits_step)
qed

lemma skb_copy_bits_exact:
  assumes "skb_wf skb" and "0 \<le> off" and "0 \<le> len"
  shows "skb_copy_bits skb off len =
     (if off + len \<le> int (skb_len skb)
      then Val (seg (nat off) (nat len) (skb_bytes skb)) else Err EFAULT)"
  using skb_wf_copies_exactly [OF assms(1)] assms(2,3) by (simp add: copies_exactly_def)

lemma skb_headlen_linear:
  "skb_wf skb \<Longrightarrow> skb_headlen skb = int (length (linear_bytes skb))"
  by (cases skb) (auto simp: skb_headlen_def linear_bytes_def)

lemma skb_bytes_linear: "skb_wf skb \<Longrightarrow> \<exists>rest. skb_bytes skb = linear_bytes skb @ rest"
  by (cases skb) (auto simp: linear_bytes_def)

lemma linear_read:
  assumes "skb_wf skb" and "0 \<le> off" and "0 \<le> len"
    and "off + len \<le> int (length (linear_bytes skb))"
  shows "rd_bytes (skb_head skb) (int (skb_data skb) + off) len =
         Some (seg (nat off) (nat len) (linear_bytes skb))"
  using assms
  by (cases skb) (auto simp: linear_bytes_def rd_bytes_Some nat_add_distrib seg_seg)

lemma skb_len_linear: "skb_wf skb \<Longrightarrow> length (linear_bytes skb) \<le> skb_len skb"
  by (cases skb) (auto simp: linear_bytes_def)

lemma skb_header_pointer_exact:
  assumes wf: "skb_wf skb" and "0 \<le> off" and "0 \<le> len"
  shows "skb_header_pointer skb off len =
     Val (if off + len \<le> int (skb_len skb)
          then Some (seg (nat off) (nat len) (skb_bytes skb)) else None)"
proof (cases "len \<le> skb_headlen skb - off")
  case True
  obtain rest where rest: "skb_bytes skb = linear_bytes skb @ rest"
    using skb_bytes_linear [OF wf] by blast
  have fits: "off + len \<le> int (length (linear_bytes skb))"
    using True by (simp add: skb_headlen_linear [OF wf])
  then show ?thesis
    using True skb_len_linear [OF wf] assms(2,3)
    by (simp add: skb_header_pointer_def linear_read [OF assms fits] rest seg_append_left)
next
  case False
  then show ?thesis
    by (simp add: skb_header_pointer_def skb_copy_bits_exact [OF assms])
qed

subsection \<open>Properties\<close>

text \<open>
  C34. On a well-formed packet, however its bytes are spread over the linear area, page fragments and
  further buffers, \<open>skb_copy_bits\<close> delivers exactly the requested bytes when the range lies inside the
  packet, and fails with EFAULT otherwise; it never reads outside a fragment.
\<close>

theorem skb_copy_bits_range:
  assumes "skb_wf skb" and "0 \<le> off" and "0 \<le> len"
  shows "skb_copy_bits skb off len =
     (if off + len \<le> int (skb_len skb)
      then Val (seg (nat off) (nat len) (skb_bytes skb)) else Err EFAULT)"
  by (rule skb_copy_bits_exact [OF assms])

definition sample_info :: skb_info where
  "sample_info = \<lparr>network_header = 0, mac_header = 0, protocol = 8, pkt_type = 0, mark = 0,
     queue_mapping = 0, rxhash = 0, dev = None\<rparr>"

definition sample_skb :: sk_buff where
  "sample_skb = Sk_buff 6 3 [0, 1, 2, 3, 0] 1 4
     [\<lparr>page = [0, 0, 4, 5], page_offset = 2, frag_size = 2\<rparr>]
     [Sk_buff 1 0 [6] 0 1 [] [] sample_info] sample_info"

theorem skb_copy_bits_range_witness:
  "skb_wf sample_skb \<and> skb_copy_bits sample_skb 2 4 = Val [3, 4, 5, 6] \<and>
   skb_copy_bits sample_skb 4 3 = Err EFAULT"
proof -
  have wf: "skb_wf sample_skb" by (simp add: sample_skb_def frag_wf_def)
  show ?thesis
    using wf skb_copy_bits_range [OF wf, of 2 4] skb_copy_bits_range [OF wf, of 4 3]
    by (simp add: sample_skb_def seg_def frag_bytes_def)
qed

end
