(* ===== verification/Nlattr.thy ===== *)
theory Nlattr
  imports Skbuff
begin

text \<open>
  Netlink attributes (\<open>lib/nlattr.c\<close>, \<open>include/net/netlink.h\<close>): streams of attributes with a 16-bit
  length, a 16-bit type, a payload and padding to four bytes. An attribute pointer is an offset into
  the byte buffer that holds the stream; a read outside that buffer is \<open>Trap\<close>.

  Shown: the stream walk stops and stays inside the bytes it was given, \<open>nla_find\<close> returns the first
  attribute of the type, and a stream built by \<open>nla_put\<close> is walked back attribute by attribute.
\<close>

subsection \<open>Attribute headers\<close>

definition rd_u16 :: "u8 list \<Rightarrow> int \<Rightarrow> nat option" where
  "rd_u16 mem off = map_option le_val (rd_bytes mem off 2)"

definition nla_align :: "int \<Rightarrow> int" where
  "nla_align len = (len + 4 - 1) AND NOT (4 - 1)"

abbreviation (input) NLA_HDRLEN :: int where "NLA_HDRLEN \<equiv> 4"

definition nla_attr_size :: "int \<Rightarrow> int" where
  "nla_attr_size payload = NLA_HDRLEN + payload"

definition nla_total_size :: "int \<Rightarrow> int" where
  "nla_total_size payload = nla_align (nla_attr_size payload)"

definition nla_padlen :: "int \<Rightarrow> int" where
  "nla_padlen payload = nla_total_size payload - nla_attr_size payload"

definition NLA_TYPE_MASK :: int where
  "NLA_TYPE_MASK = NOT (push_bit 15 1 OR push_bit 14 1)"

definition nla_type :: "u8 list \<Rightarrow> int \<Rightarrow> int outcome" where
  "nla_type mem nla =
     (case rd_u16 mem (nla + 2) of
        None \<Rightarrow> Trap
      | Some t \<Rightarrow> Val (int t AND NLA_TYPE_MASK))"

definition nla_data :: "int \<Rightarrow> int" where
  "nla_data nla = nla + NLA_HDRLEN"

definition nla_len :: "u8 list \<Rightarrow> int \<Rightarrow> int outcome" where
  "nla_len mem nla =
     (case rd_u16 mem nla of None \<Rightarrow> Trap | Some l \<Rightarrow> Val (int l - NLA_HDRLEN))"

definition nla_ok :: "u8 list \<Rightarrow> int \<Rightarrow> int \<Rightarrow> bool outcome" where
  "nla_ok mem nla remaining =
     (if remaining \<ge> 4 then
        (case rd_u16 mem nla of
           None \<Rightarrow> Trap
         | Some l \<Rightarrow> Val (l \<ge> 4 \<and> int l \<le> remaining))
      else Val False)"

definition nla_next :: "u8 list \<Rightarrow> int \<Rightarrow> int \<Rightarrow> (int \<times> int) outcome" where
  "nla_next mem nla remaining =
     (case rd_u16 mem nla of
        None \<Rightarrow> Trap
      | Some l \<Rightarrow> (let totlen = nla_align (int l) in Val (nla + totlen, remaining - totlen)))"

subsection \<open>The stream walk\<close>

lemma and_not_mask_div: "(x :: int) AND NOT (mask n) = 2 ^ n * (x div 2 ^ n)"
proof -
  have "x AND NOT (mask n) = push_bit n (drop_bit n x)"
    by (rule bit_eqI) (auto simp: bit_simps)
  then show ?thesis by (simp add: push_bit_eq_mult drop_bit_eq_div)
qed

lemma nla_align_eq: "nla_align len = 4 * ((len + 3) div 4)"
  using and_not_mask_div [of "len + 3" 2] 
  by (simp add: nla_align_def mask_eq_exp_minus_1 add.commute)

lemma nla_align_bounds: "len \<le> nla_align len" "nla_align len \<le> len + 3"
  by (simp_all add: nla_align_eq)

lemma nla_next_decreases:
  assumes "nla_ok mem pos rem = Val True" and "nla_next mem pos rem = Val (pos', rem')"
  shows "rem' < rem" and "0 \<le> rem" and "rem' - rem = pos - pos'" and "-3 \<le> rem'"
  using assms
  by (auto simp: nla_ok_def nla_next_def Let_def nla_align_eq split: if_splits option.splits)

text \<open>
  \<open>nla_for_each_attr\<close>: the body gets the position and a loop state; \<open>Inl\<close> leaves the loop, \<open>Inr\<close>
  goes on. The loop ends with the bytes remaining and the last loop state.
\<close>

function nla_for_each_attr ::
  "u8 list \<Rightarrow> (int \<Rightarrow> 's \<Rightarrow> ('r + 's) outcome) \<Rightarrow> int \<Rightarrow> int \<Rightarrow> 's \<Rightarrow> ('r + int \<times> 's) outcome" where
  "nla_for_each_attr mem body pos rem s =
     (case nla_ok mem pos rem of
        Trap \<Rightarrow> Trap
      | Err e \<Rightarrow> Err e
      | Val ok \<Rightarrow>
         (if \<not> ok then Val (Inr (rem, s))
          else case body pos s of
             Trap \<Rightarrow> Trap
           | Err e \<Rightarrow> Err e
           | Val (Inl r) \<Rightarrow> Val (Inl r)
           | Val (Inr s') \<Rightarrow>
              (case nla_next mem pos rem of
                 Trap \<Rightarrow> Trap
               | Err e \<Rightarrow> Err e
               | Val (pos', rem') \<Rightarrow> nla_for_each_attr mem body pos' rem' s')))"
  by pat_completeness auto

termination
  by (relation "measure (\<lambda>(mem, body, pos, rem, s). nat (rem + 4))")
     (auto dest: nla_next_decreases)

subsection \<open>Finding, validating and parsing\<close>

definition find_body :: "u8 list \<Rightarrow> int \<Rightarrow> int \<Rightarrow> unit \<Rightarrow> (int + unit) outcome" where
  "find_body mem attrtype pos s =
     bind_outcome (nla_type mem pos) (\<lambda>t. Val (if t = attrtype then Inl pos else Inr ()))"

definition nla_find :: "u8 list \<Rightarrow> int \<Rightarrow> int \<Rightarrow> int \<Rightarrow> int option outcome" where
  "nla_find mem head len attrtype =
     bind_outcome (nla_for_each_attr mem (find_body mem attrtype) head len ())
       (\<lambda>r. Val (case r of Inl pos \<Rightarrow> Some pos | Inr _ \<Rightarrow> None))"

definition nla_find_nested :: "u8 list \<Rightarrow> int \<Rightarrow> int \<Rightarrow> int option outcome" where
  "nla_find_nested mem nla attrtype =
     bind_outcome (nla_len mem nla) (\<lambda>len. nla_find mem (nla_data nla) len attrtype)"

record nla_policy =
  np_type :: nat
  np_len :: nat

abbreviation (input) NLA_UNSPEC :: nat where "NLA_UNSPEC \<equiv> 0"
abbreviation (input) NLA_U8 :: nat where "NLA_U8 \<equiv> 1"
abbreviation (input) NLA_U16 :: nat where "NLA_U16 \<equiv> 2"
abbreviation (input) NLA_U32 :: nat where "NLA_U32 \<equiv> 3"
abbreviation (input) NLA_U64 :: nat where "NLA_U64 \<equiv> 4"
abbreviation (input) NLA_STRING :: nat where "NLA_STRING \<equiv> 5"
abbreviation (input) NLA_FLAG :: nat where "NLA_FLAG \<equiv> 6"
abbreviation (input) NLA_MSECS :: nat where "NLA_MSECS \<equiv> 7"
abbreviation (input) NLA_NESTED :: nat where "NLA_NESTED \<equiv> 8"
abbreviation (input) NLA_NESTED_COMPAT :: nat where "NLA_NESTED_COMPAT \<equiv> 9"
abbreviation (input) NLA_NUL_STRING :: nat where "NLA_NUL_STRING \<equiv> 10"
abbreviation (input) NLA_BINARY :: nat where "NLA_BINARY \<equiv> 11"
abbreviation (input) NLA_TYPE_MAX :: nat where "NLA_TYPE_MAX \<equiv> 11"

definition nla_attr_minlen :: "int list" where
  "nla_attr_minlen = (replicate 12 0)
     [NLA_U8 := 1, NLA_U16 := 2, NLA_U32 := 4, NLA_U64 := 8, NLA_MSECS := 8,
      NLA_NESTED := NLA_HDRLEN]"

text \<open>\<open>memchr\<close> of \<open>lib/string.c\<close>: it stops at the first match.\<close>

fun memchr :: "u8 list \<Rightarrow> int \<Rightarrow> u8 \<Rightarrow> nat \<Rightarrow> int option outcome" where
  "memchr mem s c 0 = Val None"
| "memchr mem s c (Suc n) =
     (case rd_bytes mem s 1 of
        Some (b # _) \<Rightarrow> if c = b then Val (Some s) else memchr mem (s + 1) c n
      | _ \<Rightarrow> Trap)"

definition validate_string :: "u8 list \<Rightarrow> int \<Rightarrow> int \<Rightarrow> nla_policy \<Rightarrow> unit outcome" where
  "validate_string mem nla attrlen pt =
     (if attrlen < 1 then Err ERANGE
      else if np_len pt \<noteq> 0 then
        (case rd_bytes mem (nla_data nla + attrlen - 1) 1 of
           Some (b # _) \<Rightarrow>
             (let attrlen = (if b = 0 then attrlen - 1 else attrlen) in
              if attrlen > int (np_len pt) then Err ERANGE else Val ())
         | _ \<Rightarrow> Trap)
      else Val ())"

definition validate_nested_compat :: "u8 list \<Rightarrow> int \<Rightarrow> int \<Rightarrow> nla_policy \<Rightarrow> unit outcome" where
  "validate_nested_compat mem nla attrlen pt =
     (let plen = int (np_len pt) in
      if attrlen < plen then Err ERANGE
      else if attrlen < nla_align plen then Val ()
      else if attrlen < nla_align plen + NLA_HDRLEN then Err ERANGE
      else bind_outcome (nla_len mem (nla_data nla + nla_align plen))
             (\<lambda>inner. if attrlen < nla_align plen + NLA_HDRLEN + inner then Err ERANGE else Val ()))"

definition validate_minlen :: "int \<Rightarrow> nla_policy \<Rightarrow> unit outcome" where
  "validate_minlen attrlen pt =
     (let minlen = (if np_len pt \<noteq> 0 then int (np_len pt)
                    else if np_type pt \<noteq> NLA_UNSPEC then nla_attr_minlen ! np_type pt
                    else 0) in
      if attrlen < minlen then Err ERANGE else Val ())"

definition validate_nla :: "u8 list \<Rightarrow> int \<Rightarrow> int \<Rightarrow> nla_policy list \<Rightarrow> unit outcome" where
  "validate_nla mem nla maxtype policy =
     bind_outcome (nla_len mem nla) (\<lambda>attrlen. bind_outcome (nla_type mem nla) (\<lambda>type.
       if type \<le> 0 \<or> type > maxtype then Val ()
       else if nat type \<ge> length policy then Trap
       else
         let pt = policy ! nat type in
         if np_type pt > NLA_TYPE_MAX then Trap
         else if np_type pt = NLA_FLAG then
           (if attrlen > 0 then Err ERANGE else Val ())
         else if np_type pt = NLA_NUL_STRING then
           (let minlen = (if np_len pt \<noteq> 0 then min attrlen (int (np_len pt) + 1) else attrlen) in
            if minlen = 0 then Err EINVAL
            else bind_outcome (memchr mem (nla_data nla) 0 (unat (word_of_int minlen :: u64)))
                   (\<lambda>r. if r = None then Err EINVAL else validate_string mem nla attrlen pt))
         else if np_type pt = NLA_STRING then validate_string mem nla attrlen pt
         else if np_type pt = NLA_BINARY then
           (if np_len pt \<noteq> 0 \<and> attrlen > int (np_len pt) then Err ERANGE else Val ())
         else if np_type pt = NLA_NESTED_COMPAT then validate_nested_compat mem nla attrlen pt
         else if np_type pt = NLA_NESTED \<and> attrlen = 0 then Val ()
         else validate_minlen attrlen pt))"

text \<open>A validation error leaves the loop with its error number (\<open>goto errout\<close>).\<close>

definition validate_body ::
  "u8 list \<Rightarrow> int \<Rightarrow> nla_policy list \<Rightarrow> int \<Rightarrow> unit \<Rightarrow> (errno + unit) outcome" where
  "validate_body mem maxtype policy pos s =
     (case validate_nla mem pos maxtype policy of
        Trap \<Rightarrow> Trap | Err e \<Rightarrow> Val (Inl e) | Val _ \<Rightarrow> Val (Inr ()))"

definition nla_validate :: "u8 list \<Rightarrow> int \<Rightarrow> int \<Rightarrow> int \<Rightarrow> nla_policy list \<Rightarrow> unit outcome" where
  "nla_validate mem head len maxtype policy =
     bind_outcome (nla_for_each_attr mem (validate_body mem maxtype policy) head len ())
       (\<lambda>r. case r of Inl e \<Rightarrow> Err e | Inr _ \<Rightarrow> Val ())"

fun nla_policy_len :: "nla_policy list \<Rightarrow> nat \<Rightarrow> int outcome" where
  "nla_policy_len p 0 = Val 0"
| "nla_policy_len [] (Suc n) = Trap"
| "nla_policy_len (p # ps) (Suc n) =
     (if np_len p \<noteq> 0 then
        bind_outcome (nla_policy_len ps n) (\<lambda>len. Val (nla_total_size (int (np_len p)) + len))
      else if np_type p > NLA_TYPE_MAX then Trap
      else if nla_attr_minlen ! np_type p \<noteq> 0 then
        bind_outcome (nla_policy_len ps n)
          (\<lambda>len. Val (nla_total_size (nla_attr_minlen ! np_type p) + len))
      else nla_policy_len ps n)"

text \<open>
  \<open>nla_parse\<close> fills the table \<open>tb\<close> of \<open>maxtype + 1\<close> entries, a store outside it is a \<open>Trap\<close>; after a validation error the entries set so far stay, so the
  result is the error number, if any, together with the table.
\<close>

definition parse_body ::
  "u8 list \<Rightarrow> int \<Rightarrow> nla_policy list option \<Rightarrow> int \<Rightarrow> int option list \<Rightarrow>
   ((errno \<times> int option list) + int option list) outcome" where
  "parse_body mem maxtype policy pos tb =
     bind_outcome (nla_type mem pos) (\<lambda>type.
       if type > 0 \<and> type \<le> maxtype then
         (case (case policy of None \<Rightarrow> Val () | Some p \<Rightarrow> validate_nla mem pos maxtype p) of
            Trap \<Rightarrow> Trap
          | Err e \<Rightarrow> Val (Inl (e, tb))
          | Val _ \<Rightarrow> if nat type < length tb then Val (Inr (tb[nat type := Some pos])) else Trap)
       else Val (Inr tb))"

definition nla_parse ::
  "u8 list \<Rightarrow> int \<Rightarrow> int \<Rightarrow> int \<Rightarrow> nla_policy list option \<Rightarrow> (errno option \<times> int option list) outcome" where
  "nla_parse mem maxtype head len policy =
     bind_outcome
       (nla_for_each_attr mem (parse_body mem maxtype policy) head len (replicate (nat (maxtype + 1)) None))
       (\<lambda>r. Val (case r of Inl (e, tb) \<Rightarrow> (Some e, tb) | Inr (rem, tb) \<Rightarrow> (None, tb)))"

subsection \<open>Payload access\<close>

text \<open>
  \<open>nla_strlcpy\<close> returns the source length and the new contents of the destination buffer
  (\<open>None\<close> when \<open>dstsize\<close> is 0 and the buffer is not touched).
\<close>

definition nla_strlcpy :: "u8 list \<Rightarrow> int \<Rightarrow> nat \<Rightarrow> (nat \<times> u8 list option) outcome" where
  "nla_strlcpy mem nla dstsize =
     bind_outcome (nla_len mem nla) (\<lambda>l.
       let srclen = unat (word_of_int l :: u64); src = nla_data nla in
       bind_outcome
         (if srclen > 0 then
            (case rd_bytes mem (src + int srclen - 1) 1 of
               Some (b # _) \<Rightarrow> Val (if b = 0 then srclen - 1 else srclen)
             | _ \<Rightarrow> Trap)
          else Val srclen)
         (\<lambda>srclen.
            if dstsize > 0 then
              (let len = (if srclen \<ge> dstsize then dstsize - 1 else srclen) in
               case rd_bytes mem src (int len) of
                 None \<Rightarrow> Trap
               | Some bs \<Rightarrow> Val (srclen, Some (bs @ replicate (dstsize - len) 0)))
            else Val (srclen, None)))"

definition nla_memcpy :: "u8 list \<Rightarrow> int \<Rightarrow> int \<Rightarrow> (int \<times> u8 list) outcome" where
  "nla_memcpy mem src count =
     bind_outcome (nla_len mem src) (\<lambda>l.
       let minlen = min count l in
       case rd_bytes mem (nla_data src) minlen of
         None \<Rightarrow> Trap
       | Some bs \<Rightarrow> Val (minlen, bs))"

text \<open>The differences of lengths are \<open>int\<close>s, cut to 32 bits. \<open>memcmp\<close> of \<open>lib/string.c\<close>: the difference of the first bytes that differ.\<close>

fun memcmp :: "u8 list \<Rightarrow> u8 list \<Rightarrow> int" where
  "memcmp (a # as) (b # bs) = (if a \<noteq> b then uint a - uint b else memcmp as bs)"
| "memcmp _ _ = 0"

definition nla_memcmp :: "u8 list \<Rightarrow> int \<Rightarrow> u8 list \<Rightarrow> int outcome" where
  "nla_memcmp mem nla data =
     bind_outcome (nla_len mem nla) (\<lambda>l.
       let d = sint (word_of_int (l - int (length data)) :: 32 word) in
       if d = 0 then
         (case rd_bytes mem (nla_data nla) (int (length data)) of
            None \<Rightarrow> Trap
          | Some bs \<Rightarrow> Val (memcmp bs data))
       else Val d)"

text \<open>\<open>str\<close> without its terminating NUL.\<close>

definition nla_strcmp :: "u8 list \<Rightarrow> int \<Rightarrow> u8 list \<Rightarrow> int outcome" where
  "nla_strcmp mem nla str =
     bind_outcome (nla_len mem nla) (\<lambda>l.
       let len = sint (word_of_int (int (length str) + 1) :: 32 word); d = l - len in
       if d = 0 then
         (case rd_bytes mem (nla_data nla) len of
            None \<Rightarrow> Trap
          | Some bs \<Rightarrow> Val (memcmp bs (str @ [0])))
       else Val d)"

subsection \<open>Building a stream\<close>

definition le16 :: "u16 \<Rightarrow> u8 list" where
  "le16 w = [ucast w, ucast (drop_bit 8 w)]"

text \<open>A store of \<open>bs\<close> at offset \<open>pos\<close> of the linear area.\<close>

fun skb_store :: "sk_buff \<Rightarrow> nat \<Rightarrow> u8 list \<Rightarrow> sk_buff outcome" where
  "skb_store (Sk_buff slen sdlen head data tail frags fl info) pos bs =
     (if pos + length bs > length head then Trap
      else Val (Sk_buff slen sdlen (take pos head @ bs @ drop (pos + length bs) head) data tail frags fl info))"

definition c_uint :: "int \<Rightarrow> nat" where
  "c_uint i = unat (word_of_int i :: u32)"

definition nla_reserve_unchecked :: "sk_buff \<Rightarrow> int \<Rightarrow> int \<Rightarrow> (nat \<times> sk_buff) outcome" where
  "nla_reserve_unchecked skb attrtype attrlen =
     bind_outcome (skb_put skb (c_uint (nla_total_size attrlen))) (\<lambda>(nla, skb).
     let len = word_of_int (nla_attr_size attrlen) :: u16 in
     bind_outcome (skb_store skb nla (le16 len @ le16 (word_of_int attrtype))) (\<lambda>skb.
     bind_outcome (skb_store skb (nla + unat len) (replicate (c_uint (nla_padlen attrlen)) 0)) (\<lambda>skb.
     Val (nla, skb))))"

definition nla_reserve_nohdr_unchecked :: "sk_buff \<Rightarrow> int \<Rightarrow> (nat \<times> sk_buff) outcome" where
  "nla_reserve_nohdr_unchecked skb attrlen =
     bind_outcome (skb_put skb (c_uint (nla_align attrlen))) (\<lambda>(start, skb).
     bind_outcome (skb_store skb start (replicate (c_uint (nla_align attrlen)) 0)) (\<lambda>skb.
     Val (start, skb)))"

definition nla_reserve :: "sk_buff \<Rightarrow> int \<Rightarrow> int \<Rightarrow> (nat \<times> sk_buff) option outcome" where
  "nla_reserve skb attrtype attrlen =
     (if skb_tailroom skb < nla_total_size attrlen then Val None
      else bind_outcome (nla_reserve_unchecked skb attrtype attrlen) (\<lambda>r. Val (Some r)))"

definition nla_reserve_nohdr :: "sk_buff \<Rightarrow> int \<Rightarrow> (nat \<times> sk_buff) option outcome" where
  "nla_reserve_nohdr skb attrlen =
     (if skb_tailroom skb < nla_align attrlen then Val None
      else bind_outcome (nla_reserve_nohdr_unchecked skb attrlen) (\<lambda>r. Val (Some r)))"

definition nla_put_unchecked :: "sk_buff \<Rightarrow> int \<Rightarrow> int \<Rightarrow> u8 list \<Rightarrow> sk_buff outcome" where
  "nla_put_unchecked skb attrtype attrlen data =
     bind_outcome (nla_reserve_unchecked skb attrtype attrlen) (\<lambda>(nla, skb).
     case rd_bytes data 0 attrlen of
       None \<Rightarrow> Trap
     | Some bs \<Rightarrow> skb_store skb (nla + 4) bs)"

definition nla_put_nohdr_unchecked :: "sk_buff \<Rightarrow> int \<Rightarrow> u8 list \<Rightarrow> sk_buff outcome" where
  "nla_put_nohdr_unchecked skb attrlen data =
     bind_outcome (nla_reserve_nohdr_unchecked skb attrlen) (\<lambda>(start, skb).
     case rd_bytes data 0 attrlen of
       None \<Rightarrow> Trap
     | Some bs \<Rightarrow> skb_store skb start bs)"

definition nla_put :: "sk_buff \<Rightarrow> int \<Rightarrow> int \<Rightarrow> u8 list \<Rightarrow> sk_buff outcome" where
  "nla_put skb attrtype attrlen data =
     (if skb_tailroom skb < nla_total_size attrlen then Err EMSGSIZE
      else nla_put_unchecked skb attrtype attrlen data)"

definition nla_put_nohdr :: "sk_buff \<Rightarrow> int \<Rightarrow> u8 list \<Rightarrow> sk_buff outcome" where
  "nla_put_nohdr skb attrlen data =
     (if skb_tailroom skb < nla_align attrlen then Err EMSGSIZE
      else nla_put_nohdr_unchecked skb attrlen data)"

definition nla_append :: "sk_buff \<Rightarrow> int \<Rightarrow> u8 list \<Rightarrow> sk_buff outcome" where
  "nla_append skb attrlen data =
     (if skb_tailroom skb < nla_align attrlen then Err EMSGSIZE
      else bind_outcome (skb_put skb (c_uint attrlen)) (\<lambda>(start, skb).
        case rd_bytes data 0 attrlen of
          None \<Rightarrow> Trap
        | Some bs \<Rightarrow> skb_store skb start bs))"

subsection \<open>The walk as a list of positions\<close>

text \<open>
  \<open>attr_in mem pos\<close>: an attribute lies at \<open>pos\<close>, all of it inside the buffer. \<open>nla_attrs\<close> lists
  the positions of a stream: the specification of the walk.
\<close>

definition attr_len :: "u8 list \<Rightarrow> int \<Rightarrow> int" where
  "attr_len mem pos = int (le_val (seg (nat pos) 2 mem))"

definition attr_type :: "u8 list \<Rightarrow> int \<Rightarrow> int" where
  "attr_type mem pos = int (le_val (seg (nat (pos + 2)) 2 mem) mod 2 ^ 14)"

definition attr_in :: "u8 list \<Rightarrow> int \<Rightarrow> bool" where
  "attr_in mem pos \<longleftrightarrow>
     0 \<le> pos \<and> 4 \<le> attr_len mem pos \<and> pos + attr_len mem pos \<le> int (length mem)"

function nla_attrs :: "u8 list \<Rightarrow> int \<Rightarrow> int \<Rightarrow> int list" where
  "nla_attrs mem pos rem =
     (if 4 \<le> rem \<and> 4 \<le> attr_len mem pos \<and> attr_len mem pos \<le> rem
      then pos # nla_attrs mem (pos + nla_align (attr_len mem pos)) (rem - nla_align (attr_len mem pos))
      else [])"
  by pat_completeness auto
termination
  by (relation "measure (\<lambda>(mem, pos, rem). nat (rem + 4))") (auto simp: nla_align_eq)

declare nla_attrs.simps [simp del]
declare nla_for_each_attr.simps [simp del]

abbreviation stream_in :: "u8 list \<Rightarrow> int \<Rightarrow> int \<Rightarrow> bool" where
  "stream_in mem pos rem \<equiv> 0 \<le> pos \<and> pos + rem \<le> int (length mem)"

lemma rd_u16_in: "0 \<le> off \<Longrightarrow> off + 2 \<le> int (length mem) \<Longrightarrow> rd_u16 mem off = Some (le_val (seg (nat off) 2 mem))"
  by (simp add: rd_u16_def rd_bytes_def)

lemma nla_ok_in:
  "stream_in mem pos rem \<Longrightarrow>
   nla_ok mem pos rem = Val (4 \<le> rem \<and> 4 \<le> attr_len mem pos \<and> attr_len mem pos \<le> rem)"
  by (auto simp: nla_ok_def rd_u16_in attr_len_def)

lemma nla_ok_attr_in:
  "stream_in mem pos rem \<Longrightarrow> nla_ok mem pos rem = Val True \<Longrightarrow> attr_in mem pos"
  by (auto simp: nla_ok_in attr_in_def)

lemma nla_next_in:
  "attr_in mem pos \<Longrightarrow>
   nla_next mem pos rem = Val (pos + nla_align (attr_len mem pos), rem - nla_align (attr_len mem pos))"
  by (simp add: nla_next_def rd_u16_in attr_in_def attr_len_def Let_def)

lemma bit_NLA_TYPE_MASK: "bit NLA_TYPE_MASK i \<longleftrightarrow> i \<noteq> 14 \<and> i \<noteq> 15"
  unfolding NLA_TYPE_MASK_def bit_not_iff bit_or_iff bit_push_bit_iff bit_1_iff by auto

lemma type_mask: "int t AND NLA_TYPE_MASK = int (t mod 2 ^ 14)"
  if "t < 2 ^ 16"
proof -
  have "int t AND NLA_TYPE_MASK = take_bit 14 (int t)"
  proof (rule bit_eqI)
    fix i :: nat
    have hi: "\<not> bit (int t) i" if "16 \<le> i"
    proof -
      have "int t = take_bit 16 (int t)"
        using \<open>t < 2 ^ 16\<close> by (simp add: take_bit_int_eq_self)
      then have "bit (int t) i = bit (take_bit 16 (int t)) i" by simp
      then show ?thesis using that by (simp add: bit_take_bit_iff)
    qed
    consider "i < 14" | "i = 14" | "i = 15" | "16 \<le> i" by linarith
    then show "bit (int t AND NLA_TYPE_MASK) i = bit (take_bit 14 (int t)) i"
      by cases (auto simp: bit_and_iff bit_take_bit_iff bit_NLA_TYPE_MASK hi)
  qed
  then show ?thesis by (simp add: take_bit_eq_mod zmod_int)
qed

lemma le_val_u16: "length bs = 2 \<Longrightarrow> le_val bs < 2 ^ 16"
  using le_val_bound [of bs] by simp

lemma nla_type_in: "nla_type mem pos = Val (attr_type mem pos)" if "attr_in mem pos"
proof -
  let ?t = "le_val (seg (nat (pos + 2)) 2 mem)"
  have "?t < 2 ^ 16" using that by (intro le_val_u16) (auto simp: attr_in_def)
  then show ?thesis
    using that type_mask [of ?t] by (simp add: nla_type_def rd_u16_in attr_in_def attr_type_def)
qed

lemma nla_len_in: "attr_in mem pos \<Longrightarrow> nla_len mem pos = Val (attr_len mem pos - 4)"
  by (simp add: nla_len_def rd_u16_in attr_in_def attr_len_def)

text \<open>
  The contract of a loop body: on an attribute inside the buffer and a loop state that satisfies its invariant
  it does not trap and keeps the invariant. The walk of any
  such body does not trap, and a body that always computes \<open>step\<close> runs \<open>step\<close> over \<open>nla_attrs\<close>.
\<close>

locale nla_body =
  fixes mem :: "u8 list"
    and body :: "int \<Rightarrow> 's \<Rightarrow> ('r + 's) outcome"
    and inv :: "'s \<Rightarrow> bool"
  assumes body_no_trap: "attr_in mem pos \<Longrightarrow> inv s \<Longrightarrow> body pos s \<noteq> Trap"
    and body_inv: "attr_in mem pos \<Longrightarrow> inv s \<Longrightarrow> body pos s = Val (Inr s') \<Longrightarrow> inv s'"
begin

lemma walk_no_trap:
  "stream_in mem pos rem \<Longrightarrow> inv s \<Longrightarrow> nla_for_each_attr mem body pos rem s \<noteq> Trap"
proof (induction "nat (rem + 4)" arbitrary: pos rem s rule: less_induct)
  case less
  show ?case
  proof (cases "nla_ok mem pos rem = Val True")
    case False
    then show ?thesis
      using less.prems by (auto simp: nla_for_each_attr.simps [of _ _ pos] nla_ok_in)
  next
    case True
    have a: "attr_in mem pos" using nla_ok_attr_in [OF less.prems(1) True] .
    have al: "4 \<le> rem" "4 \<le> attr_len mem pos" "attr_len mem pos \<le> rem"
      using True less.prems by (auto simp: nla_ok_in)
    let ?p = "pos + nla_align (attr_len mem pos)" and ?r = "rem - nla_align (attr_len mem pos)"
    have "nla_for_each_attr mem body ?p ?r s' \<noteq> Trap" if "body pos s = Val (Inr s')" for s'
      using less.prems al nla_align_bounds [of "attr_len mem pos"] body_inv [OF a less.prems(2) that]
      by (intro less.hyps) auto
    then show ?thesis
      using True body_no_trap [OF a less.prems(2)]
      by (auto simp: nla_for_each_attr.simps [of _ _ pos] nla_next_in [OF a] split: outcome.splits sum.splits)
  qed
qed

end

fun run_steps :: "(int \<Rightarrow> 's \<Rightarrow> 'r + 's) \<Rightarrow> int list \<Rightarrow> 's \<Rightarrow> 'r + 's" where
  "run_steps step [] s = Inr s"
| "run_steps step (p # ps) s = (case step p s of Inl r \<Rightarrow> Inl r | Inr s' \<Rightarrow> run_steps step ps s')"

locale nla_total_body =
  fixes mem :: "u8 list"
    and body :: "int \<Rightarrow> 's \<Rightarrow> ('r + 's) outcome"
    and inv :: "'s \<Rightarrow> bool"
    and step :: "int \<Rightarrow> 's \<Rightarrow> 'r + 's"
  assumes body_step: "attr_in mem pos \<Longrightarrow> inv s \<Longrightarrow> body pos s = Val (step pos s)"
    and step_inv: "attr_in mem pos \<Longrightarrow> inv s \<Longrightarrow> step pos s = Inr s' \<Longrightarrow> inv s'"
begin

lemma walk_steps:
  "stream_in mem pos rem \<Longrightarrow> inv s \<Longrightarrow>
   \<exists>rem'. nla_for_each_attr mem body pos rem s =
     Val (case run_steps step (nla_attrs mem pos rem) s of Inl r \<Rightarrow> Inl r | Inr s' \<Rightarrow> Inr (rem', s'))"
proof (induction "nat (rem + 4)" arbitrary: pos rem s rule: less_induct)
  case less
  show ?case
  proof (cases "nla_ok mem pos rem = Val True")
    case False
    then show ?thesis
      using less.prems
      by (auto simp: nla_for_each_attr.simps [of _ _ pos] nla_attrs.simps [of _ pos] nla_ok_in)
  next
    case True
    have a: "attr_in mem pos" using nla_ok_attr_in [OF less.prems(1) True] .
    have al: "4 \<le> rem" "4 \<le> attr_len mem pos" "attr_len mem pos \<le> rem"
      using True less.prems by (auto simp: nla_ok_in)
    let ?p = "pos + nla_align (attr_len mem pos)" and ?r = "rem - nla_align (attr_len mem pos)"
    have "\<exists>rem'. nla_for_each_attr mem body ?p ?r s' =
       Val (case run_steps step (nla_attrs mem ?p ?r) s' of Inl r \<Rightarrow> Inl r | Inr s' \<Rightarrow> Inr (rem', s'))"
      if "step pos s = Inr s'" for s'
      using less.prems al nla_align_bounds [of "attr_len mem pos"] step_inv [OF a less.prems(2) that]
      by (intro less.hyps) auto
    then show ?thesis
      using True al body_step [OF a less.prems(2)]
      by (auto simp: nla_for_each_attr.simps [of _ _ pos] nla_attrs.simps [of _ pos] nla_next_in [OF a]
          split: sum.splits)
  qed
qed

end

sublocale nla_total_body \<subseteq> nla_body
  by unfold_locales (auto simp: body_step intro: step_inv)

interpretation find_loop: nla_total_body mem "find_body mem t" "\<lambda>_. True"
    "\<lambda>pos s. if attr_type mem pos = t then Inl pos else Inr ()" for mem t
  by unfold_locales (simp add: find_body_def nla_type_in)

lemma run_steps_find:
  "run_steps (\<lambda>pos s. if P pos then Inl pos else Inr ()) ps () =
   (case find P ps of None \<Rightarrow> Inr () | Some p \<Rightarrow> Inl p)"
  by (induction ps) auto

text \<open>\<open>nla_find\<close> is the first attribute of the stream with the type.\<close>

lemma nla_find_first:
  assumes "stream_in mem head len"
  shows "nla_find mem head len t = Val (find (\<lambda>p. attr_type mem p = t) (nla_attrs mem head len))"
  using find_loop.walk_steps [OF assms, where s = "()" and t = t]
  by (auto simp: nla_find_def run_steps_find split: option.splits)

lemma nla_attrs_in:
  assumes "stream_in mem pos rem" and "p \<in> set (nla_attrs mem pos rem)"
  shows "attr_in mem p" and "pos \<le> p" and "p + attr_len mem p \<le> pos + rem"
proof -
  have "attr_in mem p \<and> pos \<le> p \<and> p + attr_len mem p \<le> pos + rem"
    using assms
  proof (induction mem pos rem rule: nla_attrs.induct)
    case (1 mem pos rem)
    show ?case
    proof (cases "4 \<le> rem \<and> 4 \<le> attr_len mem pos \<and> attr_len mem pos \<le> rem")
      case False
      then show ?thesis using "1.prems" by (simp add: nla_attrs.simps [of mem pos])
    next
      case True
      show ?thesis
      proof (cases "p = pos")
        case True
        then show ?thesis
          using \<open>4 \<le> rem \<and> _\<close> "1.prems"(1) by (auto simp: attr_in_def)
      next
        case False
        then have "p \<in> set (nla_attrs mem (pos + nla_align (attr_len mem pos))
                        (rem - nla_align (attr_len mem pos)))"
          using True "1.prems"(2) by (simp add: nla_attrs.simps [of mem pos])
        from "1.IH" [OF True _ this] show ?thesis
          using True "1.prems"(1) nla_align_bounds [of "attr_len mem pos"] by auto
      qed
    qed
  qed
  then show "attr_in mem p" "pos \<le> p" "p + attr_len mem p \<le> pos + rem" by auto
qed

subsection \<open>Validation and parsing stay inside the stream\<close>

definition policy_ok :: "int \<Rightarrow> nla_policy list \<Rightarrow> bool" where
  "policy_ok maxtype policy \<longleftrightarrow>
     maxtype < int (length policy) \<and> (\<forall>p \<in> set policy. np_type p \<le> NLA_TYPE_MAX)"

lemma rd_byte_in:
  assumes "0 \<le> off" and "off < int (length mem)"
  shows "\<exists>b. rd_bytes mem off 1 = Some [b]"
  using assms
  by (auto simp: rd_bytes_def seg_def take_Suc_conv_app_nth One_nat_def intro!: exI [of _ "mem ! nat off"])

lemma memchr_no_trap: "0 \<le> s \<Longrightarrow> s + int n \<le> int (length mem) \<Longrightarrow> memchr mem s c n \<noteq> Trap"
proof (induction n arbitrary: s)
  case 0
  then show ?case by simp
next
  case (Suc n)
  then obtain b where "rd_bytes mem s 1 = Some [b]" using rd_byte_in [of s mem] by auto
  with Suc.prems Suc.IH [of "s + 1"] show ?case by simp
qed

lemma unat_word_of_int_u64: "0 \<le> i \<Longrightarrow> i < 2 ^ 63 \<Longrightarrow> unat (word_of_int i :: u64) = nat i"
  by (simp add: unsigned_of_int take_bit_int_eq_self)

lemma attr_len_u16: "attr_len mem pos < 2 ^ 16"
proof -
  have "le_val (seg (nat pos) 2 mem) < 256 ^ length (seg (nat pos) 2 mem)" by (rule le_val_bound)
  also have "\<dots> \<le> 256 ^ 2" by (rule power_increasing) auto
  finally show ?thesis by (simp add: attr_len_def)
qed

lemma validate_string_no_trap:
  assumes "attr_in mem pos"
  shows "validate_string mem pos (attr_len mem pos - 4) pt \<noteq> Trap"
proof (cases "attr_len mem pos - 4 < 1")
  case True
  then show ?thesis by (simp add: validate_string_def)
next
  case False
  then obtain b where "rd_bytes mem (nla_data pos + (attr_len mem pos - 4) - 1) 1 = Some [b]"
    using assms rd_byte_in [of "nla_data pos + (attr_len mem pos - 4) - 1" mem]
    by (auto simp: attr_in_def nla_data_def)
  then show ?thesis by (simp add: validate_string_def Let_def)
qed

lemma validate_nested_compat_no_trap:
  assumes "attr_in mem pos"
  shows "validate_nested_compat mem pos (attr_len mem pos - 4) pt \<noteq> Trap"
proof -
  have "nla_len mem (nla_data pos + nla_align (int (np_len pt))) \<noteq> Trap"
    if "nla_align (int (np_len pt)) + 4 \<le> attr_len mem pos - 4"
    using assms that nla_align_bounds(1) [of "int (np_len pt)"]
    by (auto simp: nla_len_def rd_u16_in nla_data_def attr_in_def)
  then show ?thesis
    by (auto simp: validate_nested_compat_def Let_def split: if_splits)
qed

lemma validate_nla_no_trap:
  assumes a: "attr_in mem pos" and p: "policy_ok maxtype policy"
  shows "validate_nla mem pos maxtype policy \<noteq> Trap"
proof -
  let ?al = "attr_len mem pos - 4"
  have ok: "np_type (policy ! nat t) \<le> NLA_TYPE_MAX" "nat t < length policy" if "0 < t" "t \<le> maxtype" for t
    using p that by (auto simp: policy_ok_def)
  have str: "memchr mem (nla_data pos) 0 (unat (word_of_int m :: u64)) \<noteq> Trap" if "0 \<le> m" "m \<le> ?al" for m
    using a that attr_len_u16 [of mem pos]
    by (intro memchr_no_trap) (auto simp: attr_in_def nla_data_def unat_word_of_int_u64)
  have al: "0 \<le> ?al" using a by (simp add: attr_in_def)
  define t where "t = attr_type mem pos"
  show ?thesis
  proof (cases "t \<le> 0 \<or> t > maxtype")
    case True
    then show ?thesis
      by (auto simp: validate_nla_def nla_len_in [OF a] nla_type_in [OF a] t_def)
  next
    case False
    define pt where "pt = policy ! nat t"
    have f: "np_type pt \<le> NLA_TYPE_MAX" "nat t < length policy"
      using ok [of t] False by (auto simp: pt_def)
    have e: "validate_nla mem pos maxtype policy =
      (if np_type pt = NLA_FLAG then (if ?al > 0 then Err ERANGE else Val ())
       else if np_type pt = NLA_NUL_STRING then
         (let minlen = (if np_len pt \<noteq> 0 then min ?al (int (np_len pt) + 1) else ?al) in
          if minlen = 0 then Err EINVAL
          else bind_outcome (memchr mem (nla_data pos) 0 (unat (word_of_int minlen :: u64)))
                 (\<lambda>r. if r = None then Err EINVAL else validate_string mem pos ?al pt))
       else if np_type pt = NLA_STRING then validate_string mem pos ?al pt
       else if np_type pt = NLA_BINARY then
         (if np_len pt \<noteq> 0 \<and> ?al > int (np_len pt) then Err ERANGE else Val ())
       else if np_type pt = NLA_NESTED_COMPAT then validate_nested_compat mem pos ?al pt
       else if np_type pt = NLA_NESTED \<and> ?al = 0 then Val ()
       else validate_minlen ?al pt)"
      using False f
      by (simp add: validate_nla_def nla_len_in [OF a] nla_type_in [OF a] Let_def
          flip: t_def pt_def)
    show ?thesis
      unfolding e Let_def
      using str al validate_string_no_trap [OF a, of pt] validate_nested_compat_no_trap [OF a, of pt]
      by (auto simp: validate_minlen_def Let_def min_def)
  qed
qed

lemma validate_body_ok: "policy_ok maxtype policy \<Longrightarrow> nla_body mem (validate_body mem maxtype policy) (\<lambda>_. True)"
  by unfold_locales
     (use validate_nla_no_trap in \<open>auto simp: validate_body_def split: outcome.splits\<close>)

abbreviation full_table :: "int \<Rightarrow> int option list \<Rightarrow> bool" where
  "full_table maxtype tb \<equiv> int (length tb) = maxtype + 1"

lemma parse_body_ok:
  "(\<And>p. policy = Some p \<Longrightarrow> policy_ok maxtype p) \<Longrightarrow>
   nla_body mem (parse_body mem maxtype policy) (full_table maxtype)"
  by unfold_locales
     (use validate_nla_no_trap in \<open>auto simp: parse_body_def nla_type_in nat_less_iff
        split: outcome.splits option.splits if_splits\<close>)

lemma nla_parse_no_trap:
  assumes "stream_in mem head len" and "\<And>p. policy = Some p \<Longrightarrow> policy_ok maxtype p" and "0 \<le> maxtype"
  shows "nla_parse mem maxtype head len policy \<noteq> Trap"
  using nla_body.walk_no_trap [OF parse_body_ok [OF assms(2)] assms(1), where s = "replicate (nat (maxtype + 1)) None"] assms(3)
  by (auto simp: nla_parse_def)

lemma nla_validate_no_trap:
  assumes "stream_in mem head len" and "policy_ok maxtype policy"
  shows "nla_validate mem head len maxtype policy \<noteq> Trap"
  using nla_body.walk_no_trap [OF validate_body_ok [OF assms(2)] assms(1)]
  by (auto simp: nla_validate_def split: sum.splits)

text \<open>What \<open>nla_parse\<close> does with one attribute inside the buffer, and the table it leaves.\<close>

definition attr_valid :: "u8 list \<Rightarrow> int \<Rightarrow> nla_policy list option \<Rightarrow> int \<Rightarrow> unit outcome" where
  "attr_valid mem maxtype policy p =
     (case policy of None \<Rightarrow> Val () | Some pol \<Rightarrow> validate_nla mem p maxtype pol)"

definition parse_step ::
  "u8 list \<Rightarrow> int \<Rightarrow> nla_policy list option \<Rightarrow> int \<Rightarrow> int option list \<Rightarrow>
   (errno \<times> int option list) + int option list" where
  "parse_step mem maxtype policy p tb =
     (if 0 < attr_type mem p \<and> attr_type mem p \<le> maxtype then
        (case attr_valid mem maxtype policy p of
           Err e \<Rightarrow> Inl (e, tb) | _ \<Rightarrow> Inr (tb[nat (attr_type mem p) := Some p]))
      else Inr tb)"

lemma parse_body_step:
  assumes "\<And>p. policy = Some p \<Longrightarrow> policy_ok maxtype p"
  shows "nla_total_body mem (parse_body mem maxtype policy) (full_table maxtype) (parse_step mem maxtype policy)"
proof
  fix pos s s'
  assume a: "attr_in mem pos" and f: "full_table maxtype s"
  have "attr_valid mem maxtype policy pos \<noteq> Trap"
    using assms validate_nla_no_trap [OF a] by (auto simp: attr_valid_def split: option.splits)
  then show "parse_body mem maxtype policy pos s = Val (parse_step mem maxtype policy pos s)"
    using f by (auto simp: parse_body_def parse_step_def attr_valid_def nla_type_in [OF a] nat_less_iff
        split: option.splits outcome.splits)
  show "full_table maxtype s'" if "parse_step mem maxtype policy pos s = Inr s'"
    using that f by (auto simp: parse_step_def split: if_splits outcome.splits)
qed

lemma run_steps_parse:
  assumes "run_steps (parse_step mem maxtype policy) ps tb = Inr tb'" and "int (length tb) = maxtype + 1"
  shows "length tb' = length tb \<and>
    (\<forall>t. 0 < t \<and> t \<le> maxtype \<longrightarrow>
       tb' ! nat t = (case find (\<lambda>p. attr_type mem p = t) (rev ps) of None \<Rightarrow> tb ! nat t | Some p \<Rightarrow> Some p)) \<and>
    (\<forall>p \<in> set ps. 0 < attr_type mem p \<and> attr_type mem p \<le> maxtype \<longrightarrow>
       (\<forall>e. attr_valid mem maxtype policy p \<noteq> Err e))"
  using assms
proof (induction ps arbitrary: tb)
  case Nil
  then show ?case by simp
next
  case (Cons p ps)
  have find_snoc: "find P (xs @ [x]) = (case find P xs of None \<Rightarrow> if P x then Some x else None | Some y \<Rightarrow> Some y)"
    for P and xs :: "int list" and x by (induction xs) auto
  obtain tb1 where s: "parse_step mem maxtype policy p tb = Inr tb1"
      and rest: "run_steps (parse_step mem maxtype policy) ps tb1 = Inr tb'"
    using Cons.prems(1) by (auto split: sum.splits)
  have tb1: "length tb1 = length tb"
      "\<And>t. 0 < t \<Longrightarrow> t \<le> maxtype \<Longrightarrow> tb1 ! nat t = (if attr_type mem p = t then Some p else tb ! nat t)"
    using s Cons.prems(2)
    by (auto simp: parse_step_def nth_list_update split: if_splits outcome.splits)
  have "0 < attr_type mem p \<Longrightarrow> attr_type mem p \<le> maxtype \<Longrightarrow> attr_valid mem maxtype policy p \<noteq> Err e" for e
    using s by (auto simp: parse_step_def)
  with Cons.IH [OF rest] tb1 Cons.prems(2) show ?case
    by (auto simp: find_snoc split: option.splits)
qed

lemma nla_parse_table:
  assumes "stream_in mem head len" and pol: "\<And>p. policy = Some p \<Longrightarrow> policy_ok maxtype p" and "0 \<le> maxtype"
    and "nla_parse mem maxtype head len policy = Val (None, tb)" and "0 < t" and "t \<le> maxtype"
  shows "tb ! nat t = find (\<lambda>p. attr_type mem p = t) (rev (nla_attrs mem head len))"
    and "p \<in> set (nla_attrs mem head len) \<Longrightarrow> attr_type mem p = t \<Longrightarrow> attr_valid mem maxtype policy p = Val ()"
proof -
  let ?tb0 = "replicate (nat (maxtype + 1)) None :: int option list"
  have body: "nla_total_body mem (parse_body mem maxtype policy) (full_table maxtype) (parse_step mem maxtype policy)"
    by (rule parse_body_step) (rule pol)
  obtain rem' where w: "nla_for_each_attr mem (parse_body mem maxtype policy) head len ?tb0 =
      Val (case run_steps (parse_step mem maxtype policy) (nla_attrs mem head len) ?tb0 of
             Inl r \<Rightarrow> Inl r | Inr s' \<Rightarrow> Inr (rem', s'))"
    using nla_total_body.walk_steps [OF body assms(1), where s = ?tb0] assms(3) by auto
  have r: "run_steps (parse_step mem maxtype policy) (nla_attrs mem head len) ?tb0 = Inr tb"
    using assms(4) unfolding nla_parse_def w by (auto split: sum.splits prod.splits)
  note parse = run_steps_parse [OF r]
  show "tb ! nat t = find (\<lambda>p. attr_type mem p = t) (rev (nla_attrs mem head len))"
    using parse assms(3,5,6) by (auto split: option.splits)
  show "attr_valid mem maxtype policy p = Val ()"
    if p: "p \<in> set (nla_attrs mem head len)" "attr_type mem p = t"
  proof -
    have "attr_valid mem maxtype policy p \<noteq> Trap"
      using validate_nla_no_trap [OF nla_attrs_in(1) [OF assms(1) p(1)]] pol
      by (auto simp: attr_valid_def split: option.splits)
    then show ?thesis
      using parse p assms(3,5,6) by (cases "attr_valid mem maxtype policy p") auto
  qed
qed


subsection \<open>What is put is what is walked\<close>

text \<open>The bytes of one attribute, and of a list of attributes.\<close>

definition nla_encode :: "u16 \<times> u8 list \<Rightarrow> u8 list" where
  "nla_encode a =
     le16 (of_nat (4 + length (snd a))) @ le16 (fst a) @ snd a @
     replicate (nat (nla_padlen (int (length (snd a))))) 0"

lemma length_le16 [simp]: "length (le16 w) = 2"
  by (simp add: le16_def)

lemma le_val_le16 [simp]: "le_val (le16 w) = unat w"
proof -
  have "unat (ucast w :: u8) = unat w mod 256"
    by (simp add: unsigned_ucast_eq take_bit_eq_mod)
  moreover have "unat (ucast (drop_bit 8 w) :: u8) = unat w div 256"
  proof -
    have "unat w < 65536" using unsigned_less [of w, where 'a = nat] by simp
    then have "unat w div 256 < 256" by simp
    then show ?thesis
      by (simp add: unsigned_ucast_eq drop_bit_eq_div unat_div take_bit_nat_eq_self)
  qed
  ultimately show ?thesis by (simp add: le16_def)
qed

lemma padlen_bounds: "0 \<le> nla_padlen n" "nla_padlen n < 4"
  by (simp_all add: nla_padlen_def nla_total_size_def nla_attr_size_def nla_align_eq)

lemma length_nla_encode:
  "int (length (nla_encode a)) = nla_align (4 + int (length (snd a)))"
  using padlen_bounds [of "int (length (snd a))"]
  by (simp add: nla_encode_def nla_padlen_def nla_total_size_def nla_attr_size_def)

lemma encoded_attr:
  assumes "length d + 4 < 2 ^ 16" and "mem = pre @ nla_encode (t, d) @ post"
  shows "attr_len mem (int (length pre)) = 4 + int (length d)"
    and "attr_type mem (int (length pre)) = int (unat t mod 2 ^ 14)"
proof -
  have u: "unat (of_nat (4 + length d) :: u16) = 4 + length d"
    using assms(1) by (intro unat_of_nat_u16) simp
  show l: "attr_len mem (int (length pre)) = 4 + int (length d)"
    using u by (simp add: attr_len_def assms(2) nla_encode_def seg_def)
  have "nat (int (length pre) + 2) = length pre + 2" by simp
  then show "attr_type mem (int (length pre)) = int (unat t mod 2 ^ 14)"
    by (simp add: attr_type_def assms(2) nla_encode_def seg_def)
qed

text \<open>A reader of a stream: \<open>nla_for_each_attr\<close> with a body that takes the type and the payload of each attribute.\<close>

definition read_body :: "u8 list \<Rightarrow> int \<Rightarrow> (int \<times> u8 list) list \<Rightarrow> (unit + (int \<times> u8 list) list) outcome" where
  "read_body mem pos as =
     bind_outcome (nla_type mem pos) (\<lambda>type.
     bind_outcome (nla_memcpy mem pos 65535) (\<lambda>(len, bs). Val (Inr (as @ [(type, bs)]))))"

lemma attr_in_encoded:
  assumes "length d + 4 < 2 ^ 16" and "mem = pre @ nla_encode (t, d) @ post"
  shows "attr_in mem (int (length pre))"
  using encoded_attr(1) [OF assms] assms(2) by (simp add: attr_in_def nla_encode_def)

lemma read_body_encoded:
  assumes "length d + 4 < 2 ^ 16" and "mem = pre @ nla_encode (t, d) @ post"
  shows "read_body mem (int (length pre)) as = Val (Inr (as @ [(int (unat t mod 2 ^ 14), d)]))"
proof -
  note e = encoded_attr [OF assms] and a = attr_in_encoded [OF assms]
  have "rd_bytes mem (int (length pre) + 4) (int (length d)) = Some d"
    by (simp add: rd_bytes_def assms(2) nla_encode_def seg_def nat_add_distrib)
  then have "nla_memcpy mem (int (length pre)) 65535 = Val (int (length d), d)"
    using assms(1) e(1) nla_len_in [OF a] by (simp add: nla_memcpy_def nla_data_def)
  then show ?thesis using nla_type_in [OF a] e(2) by (simp add: read_body_def)
qed

lemma walk_encoded:
  assumes "list_all (\<lambda>(t, d). length d + 4 < 2 ^ 16) as"
    and "mem = pre @ concat (map nla_encode as) @ post"
  shows "nla_for_each_attr mem (read_body mem) (int (length pre)) (int (length (concat (map nla_encode as)))) s =
         Val (Inr (0, s @ map (\<lambda>(t, d). (int (unat t mod 2 ^ 14), d)) as))"
  using assms
proof (induction as arbitrary: pre s)
  case Nil
  then show ?case by (simp add: nla_for_each_attr.simps nla_ok_def)
next
  case (Cons a as)
  obtain t d where a: "a = (t, d)" by (cases a)
  have short: "length d + 4 < 2 ^ 16" using Cons.prems(1) a by simp
  have m1: "mem = pre @ nla_encode (t, d) @ (concat (map nla_encode as) @ post)"
    using Cons.prems(2) a by simp
  have m2: "mem = (pre @ nla_encode (t, d)) @ concat (map nla_encode as) @ post"
    using Cons.prems(2) a by simp
  let ?p = "int (length pre)" and ?rest = "concat (map nla_encode as)"
  note e = encoded_attr(1) [OF short m1] and i = attr_in_encoded [OF short m1]
  have le: "int (length (nla_encode (t, d))) = nla_align (attr_len mem ?p)"
    by (simp add: length_nla_encode e)
  have bounds: "4 + int (length d) \<le> int (length (nla_encode (t, d)))"
    using nla_align_bounds(1) [of "4 + int (length d)"] le e by simp
  have ok: "nla_ok mem ?p (int (length (concat (map nla_encode (a # as))))) = Val True"
    using nla_ok_in [where mem = mem and pos = ?p and rem = "int (length (concat (map nla_encode (a # as))))"] e bounds m1 a by simp
  have "nla_next mem ?p (int (length (concat (map nla_encode (a # as))))) =
      Val (int (length (pre @ nla_encode (t, d))), int (length ?rest))"
    using nla_next_in [OF i] le a by simp
  moreover have "nla_for_each_attr mem (read_body mem) (int (length (pre @ nla_encode (t, d)))) (int (length ?rest))
        (s @ [(int (unat t mod 2 ^ 14), d)]) =
      Val (Inr (0, (s @ [(int (unat t mod 2 ^ 14), d)]) @ map (\<lambda>(t, d). (int (unat t mod 2 ^ 14), d)) as))"
    using Cons.prems(1) by (intro Cons.IH [OF _ m2]) simp
  ultimately show ?case
    using ok read_body_encoded [OF short m1] by (subst nla_for_each_attr.simps) (simp add: a)
qed

lemma c_uint_id: "0 \<le> i \<Longrightarrow> i < 2 ^ 32 \<Longrightarrow> c_uint i = nat i"
  by (simp add: c_uint_def unsigned_of_int take_bit_int_eq_self)

lemma skb_store_mid:
  assumes "length old = length new" and "pos = length X"
  shows "skb_store (Sk_buff slen sdlen (X @ old @ Y) data tail frags fl info) pos new =
         Val (Sk_buff slen sdlen (X @ new @ Y) data tail frags fl info)"
  using assms by simp

lemma nla_put_layout:
  fixes d :: "u8 list"
  defines "p \<equiv> nat (nla_padlen (int (length d)))"
  defines "N \<equiv> 4 + length d + p"
  assumes len: "length d + 4 < 2 ^ 16"
    and R: "length z4 = 4" "length zd = length d" "length zp = p"
  shows "nla_put (Sk_buff slen 0 (P @ z4 @ zd @ zp @ rest) data (length P) frags fl info) t (int (length d)) d =
         Val (Sk_buff (slen + N) 0 (P @ nla_encode (word_of_int t, d) @ rest) data (length P + N) frags fl info)"
proof -
  let ?n = "int (length d)"
  let ?hdr = "le16 (word_of_int (nla_attr_size ?n)) @ le16 (word_of_int t)"
  let ?s = "Sk_buff slen 0 (P @ z4 @ zd @ zp @ rest) data (length P) frags fl info"
  let ?S = "\<lambda>h. Sk_buff (slen + N) 0 h data (length P + N) frags fl info"
  have up: "nla_padlen ?n = int p" using padlen_bounds [of ?n] by (simp add: p_def)
  have tot: "nla_total_size ?n = int N"
    using up by (simp add: N_def nla_padlen_def nla_attr_size_def)
  have small: "N < 2 ^ 32" using len padlen_bounds [of ?n] by (simp add: N_def p_def)
  have w: "(word_of_int (nla_attr_size ?n) :: u16) = of_nat (4 + length d)"
    by (simp add: nla_attr_size_def)
  have u: "unat (word_of_int (nla_attr_size ?n) :: u16) = 4 + length d"
    unfolding w using len by (intro unat_of_nat_u16) simp
  have cN: "c_uint (nla_total_size ?n) = N" using small by (simp add: c_uint_id tot)
  have put: "skb_put ?s (c_uint (nla_total_size ?n)) = Val (length P, ?S (P @ z4 @ zd @ zp @ rest))"
    using R cN by (simp add: N_def)
  have st1: "skb_store (?S (P @ z4 @ zd @ zp @ rest)) (length P) ?hdr = Val (?S (P @ ?hdr @ zd @ zp @ rest))"
    using R(1) by (intro skb_store_mid) auto
  have st2: "skb_store (?S ((P @ ?hdr @ zd) @ zp @ rest)) (length P + (4 + length d)) (replicate p 0) =
             Val (?S ((P @ ?hdr @ zd) @ replicate p 0 @ rest))"
    using R(2,3) by (intro skb_store_mid) auto
  have st3: "skb_store (?S ((P @ ?hdr) @ zd @ replicate p 0 @ rest)) (length P + 4) d =
             Val (?S ((P @ ?hdr) @ d @ replicate p 0 @ rest))"
    using R(2) by (intro skb_store_mid) auto
  have cp: "c_uint (nla_padlen ?n) = p" using small by (simp add: up c_uint_id N_def)
  have "nla_reserve_unchecked ?s t ?n = Val (length P, ?S ((P @ ?hdr @ zd) @ replicate p 0 @ rest))"
    using st2 by (simp only: nla_reserve_unchecked_def put bind_outcome.simps prod.case Let_def st1 u cp
        append_assoc)
  moreover have "rd_bytes d 0 ?n = Some d" by (simp add: rd_bytes_def)
  ultimately have "nla_put_unchecked ?s t ?n d = Val (?S ((P @ ?hdr) @ d @ replicate p 0 @ rest))"
    using st3 by (simp only: nla_put_unchecked_def bind_outcome.simps prod.case option.case append_assoc)
  moreover have "\<not> skb_tailroom ?s < nla_total_size ?n"
    using R by (simp add: skb_tailroom_def skb_is_nonlinear_def tot N_def)
  ultimately show ?thesis
    by (simp add: nla_put_def nla_encode_def w up)
qed

lemma drop_parts:
  assumes "a + b + c \<le> length xs"
  obtains x y z rest where "xs = x @ y @ z @ rest" "length x = a" "length y = b" "length z = c"
proof
  show "xs = take a xs @ take b (drop a xs) @ take c (drop (a + b) xs) @ drop (a + b + c) xs"
    by (metis append_take_drop_id drop_drop add.commute add.assoc)
qed (use assms in auto)

text \<open>\<open>nla_put\<close> appends the encoding to the packet's data, when there is room for it.\<close>

lemma nla_put_appends:
  assumes wf: "skb_wf skb" and small: "length (skb_head skb) < 2 ^ 31" and len: "length d + 4 < 2 ^ 16"
    and room: "nla_total_size (int (length d)) \<le> skb_tailroom skb"
  shows "\<exists>skb'. nla_put skb t (int (length d)) d = Val skb' \<and>
           linear_bytes skb' = linear_bytes skb @ nla_encode (word_of_int t, d) \<and>
           skb_wf skb' \<and> length (skb_head skb') = length (skb_head skb) \<and>
           skb_tailroom skb' = skb_tailroom skb - nla_total_size (int (length d))"
proof -
  obtain slen sdlen head data tail frags fl info
    where s: "skb = Sk_buff slen sdlen head data tail frags fl info" by (cases skb)
  let ?p = "nat (nla_padlen (int (length d)))"
  have tot: "nla_total_size (int (length d)) = int (4 + length d + ?p)"
    using padlen_bounds [of "int (length d)"] by (simp add: nla_padlen_def nla_attr_size_def)
  have lin: "sdlen = 0" and rm: "4 + length d + ?p \<le> length (drop tail head)"
    using room tot wf by (auto simp: skb_tailroom_def skb_is_nonlinear_def s split: if_splits)
  have dt: "data \<le> tail" "tail \<le> length head" using wf s by auto
  obtain z4 zd zp rest where R: "drop tail head = z4 @ zd @ zp @ rest"
      "length z4 = 4" "length zd = length d" "length zp = ?p"
    using drop_parts [OF rm] by metis
  define P where "P = take tail head"
  have head: "head = P @ z4 @ zd @ zp @ rest" "length P = tail"
    using R(1) dt append_take_drop_id [of tail head] by (auto simp: P_def)
  have "nla_put skb t (int (length d)) d =
     Val (Sk_buff (slen + (4 + length d + ?p)) 0 (P @ nla_encode (word_of_int t, d) @ rest) data
           (tail + (4 + length d + ?p)) frags fl info)"
    using nla_put_layout [OF len R(2-4), of slen P rest data frags fl info t] head lin by (simp add: s)
  moreover have "length (nla_encode (word_of_int t, d)) = 4 + length d + ?p"
    by (simp add: nla_encode_def)
  moreover have "slen = tail - data" "sum_list (map frag_size frags) + sum_list (map skb_len fl) = 0"
      "list_all frag_wf frags" "list_all skb_wf fl"
    using wf lin by (auto simp: s)
  moreover have "length head < 2 ^ 31" using small by (simp add: s)
  ultimately show ?thesis
    using dt head tot lin R(2-4)
    by (auto simp: s linear_bytes_def seg_def skb_tailroom_def skb_is_nonlinear_def)
qed

text \<open>A message built by a sequence of \<open>nla_put\<close> calls.\<close>

fun put_all :: "sk_buff \<Rightarrow> (int \<times> u8 list) list \<Rightarrow> sk_buff outcome" where
  "put_all skb [] = Val skb"
| "put_all skb ((t, d) # as) = bind_outcome (nla_put skb t (int (length d)) d) (\<lambda>skb. put_all skb as)"

definition put_size :: "(int \<times> u8 list) list \<Rightarrow> int" where
  "put_size as = sum_list (map (\<lambda>(t, d). nla_total_size (int (length d))) as)"

lemma nla_total_size_nonneg: "0 \<le> nla_total_size (int n)"
  by (simp add: nla_total_size_def nla_attr_size_def nla_align_eq)

lemma put_size_nonneg: "0 \<le> put_size as"
  by (induction as) (auto simp: put_size_def nla_total_size_nonneg)

lemma put_all_appends:
  assumes "skb_wf skb" and "length (skb_head skb) < 2 ^ 31" and "list_all (\<lambda>(t, d). length d + 4 < 2 ^ 16) as"
    and "put_size as \<le> skb_tailroom skb"
  shows "\<exists>skb'. put_all skb as = Val skb' \<and> skb_wf skb' \<and>
           linear_bytes skb' = linear_bytes skb @ concat (map (\<lambda>(t, d). nla_encode (word_of_int t, d)) as)"
  using assms
proof (induction as arbitrary: skb)
  case Nil
  then show ?case by simp
next
  case (Cons a as)
  obtain t d where a: "a = (t, d)" by (cases a)
  have size: "put_size (a # as) = nla_total_size (int (length d)) + put_size as"
    by (simp add: put_size_def a)
  have "nla_total_size (int (length d)) \<le> skb_tailroom skb"
    using Cons.prems(4) size put_size_nonneg [of as] by simp
  then obtain skb1 where one: "nla_put skb t (int (length d)) d = Val skb1"
      "linear_bytes skb1 = linear_bytes skb @ nla_encode (word_of_int t, d)"
      "skb_wf skb1" "length (skb_head skb1) = length (skb_head skb)"
      "skb_tailroom skb1 = skb_tailroom skb - nla_total_size (int (length d))"
    using nla_put_appends [OF Cons.prems(1,2), of d t] Cons.prems(3) a by auto
  have "\<exists>skb'. put_all skb1 as = Val skb' \<and> skb_wf skb' \<and>
      linear_bytes skb' = linear_bytes skb1 @ concat (map (\<lambda>(t, d). nla_encode (word_of_int t, d)) as)"
    using one Cons.prems size by (intro Cons.IH) auto
  then show ?case using one by (auto simp: a)
qed

lemma put_all_walk:
  assumes "skb_wf skb" and "length (skb_head skb) < 2 ^ 31" and small: "list_all (\<lambda>(t, d). length d + 4 < 2 ^ 16) as"
    and "put_size as \<le> skb_tailroom skb"
  shows "\<exists>skb'. put_all skb as = Val skb' \<and> skb_wf skb' \<and>
           nla_for_each_attr (linear_bytes skb') (read_body (linear_bytes skb')) (int (length (linear_bytes skb)))
             (int (length (linear_bytes skb')) - int (length (linear_bytes skb))) [] =
           Val (Inr (0, map (\<lambda>(t, d). (t mod 2 ^ 14, d)) as))"
proof -
  define as' :: "(u16 \<times> u8 list) list" where "as' = map (\<lambda>(t, d). (word_of_int t, d)) as"
  have enc: "concat (map (\<lambda>(t, d). nla_encode (word_of_int t, d)) as) = concat (map nla_encode as')"
    unfolding as'_def map_map by (intro arg_cong [of _ _ concat] map_cong) auto
  obtain skb' where p: "put_all skb as = Val skb'" "skb_wf skb'"
      "linear_bytes skb' = linear_bytes skb @ concat (map nla_encode as') @ []"
    using put_all_appends [OF assms] enc by auto
  have "list_all (\<lambda>(t, d). length d + 4 < 2 ^ 16) as'"
    using small by (auto simp: as'_def list_all_iff)
  note walk = walk_encoded [OF this p(3), of "[]"]
  have "int (unat (word_of_int t :: u16) mod 2 ^ 14) = t mod 2 ^ 14" for t
    by (simp add: unsigned_of_int zmod_int take_bit_eq_mod mod_mod_cancel)
  then have "map (\<lambda>(t, d). (int (unat t mod 2 ^ 14), d)) as' = map (\<lambda>(t, d). (t mod 2 ^ 14, d)) as"
    by (auto simp: as'_def)
  then show ?thesis using p walk by simp
qed

subsection \<open>Properties\<close>

text \<open>
  \<open>nla_find\<close> on a stream inside the buffer returns the first attribute of the wanted type among
  the attributes the stream really holds, and nothing when there is none; every attribute it can
  return lies wholly inside the stream, whatever the length fields of the message say.
\<close>

theorem nla_find_first_match:
  assumes "0 \<le> head" and "head + len \<le> int (length mem)"
  shows "nla_find mem head len t = Val (find (\<lambda>p. attr_type mem p = t) (nla_attrs mem head len)) \<and>
    (\<forall>p \<in> set (nla_attrs mem head len). head \<le> p \<and> 4 \<le> attr_len mem p \<and> p + attr_len mem p \<le> head + len)"
proof -
  have s: "stream_in mem head len" using assms by simp
  then show ?thesis
    using nla_find_first [OF s, of t] nla_attrs_in [OF s] by (auto simp: attr_in_def)
qed

definition sample_stream :: "u8 list" where
  "sample_stream = [5, 0, 1, 0, 42, 0, 0, 0, 8, 0, 2, 0, 1, 2, 3, 4, 6, 0, 2, 0, 9, 9, 0, 0]"

lemmas sample_eval = sample_stream_def attr_len_def attr_type_def seg_def nla_align_eq

lemma sample_attrs: "nla_attrs sample_stream 0 24 = [0, 8, 16]"
  by (simp add: nla_attrs.simps [of _ 0] nla_attrs.simps [of _ 8] nla_attrs.simps [of _ 16]
      nla_attrs.simps [of _ 24] sample_eval)

lemma sample_types:
  "attr_type sample_stream 0 = 1" "attr_type sample_stream 8 = 2" "attr_type sample_stream 16 = 2"
  by (simp_all add: sample_eval)

theorem nla_find_first_match_witness:
  "nla_find sample_stream 0 24 2 = Val (Some 8) \<and> nla_find sample_stream 0 24 3 = Val None"
proof -
  have b: "(0 :: int) \<le> 0" "0 + 24 \<le> int (length sample_stream)" by (simp_all add: sample_stream_def)
  show ?thesis
    using nla_find_first_match [OF b, of 2] nla_find_first_match [OF b, of 3]
    by (simp add: sample_attrs sample_types)
qed

text \<open>
  C36. \<open>nla_parse\<close> never reads outside the buffer, and when it succeeds each table entry is the last
  attribute of its type in the stream, checked against the policy.
\<close>

theorem nla_parse_last_wins:
  assumes "0 \<le> head" and "head + len \<le> int (length mem)" and "policy_ok maxtype policy" and "0 \<le> maxtype"
  shows "nla_parse mem maxtype head len (Some policy) \<noteq> Trap \<and>
    (\<forall>tb t. nla_parse mem maxtype head len (Some policy) = Val (None, tb) \<and> 0 < t \<and> t \<le> maxtype \<longrightarrow>
       tb ! nat t = find (\<lambda>p. attr_type mem p = t) (rev (nla_attrs mem head len)) \<and>
       (\<forall>p \<in> set (nla_attrs mem head len). attr_type mem p = t \<longrightarrow>
          validate_nla mem p maxtype policy = Val ()))"
proof -
  have s: "stream_in mem head len" using assms by simp
  have pol: "Some policy = Some p \<Longrightarrow> policy_ok maxtype p" for p using assms(3) by simp
  have trap: "nla_parse mem maxtype head len (Some policy) \<noteq> Trap"
    by (rule nla_parse_no_trap [OF s pol assms(4)])
  note table = nla_parse_table [where policy = "Some policy", OF s pol assms(4), unfolded attr_valid_def option.case]
  show ?thesis using trap table by blast
qed

definition sample_policy :: "nla_policy list" where
  "sample_policy = [\<lparr>np_type = 0, np_len = 0\<rparr>, \<lparr>np_type = 1, np_len = 0\<rparr>, \<lparr>np_type = 0, np_len = 2\<rparr>]"

theorem nla_parse_last_wins_witness:
  "nla_parse sample_stream 2 0 24 (Some sample_policy) = Val (None, [None, Some 0, Some 16]) \<and>
   validate_nla sample_stream 8 2 sample_policy = Val ()"
proof -
  have b: "(0 :: int) \<le> 0" "0 + 24 \<le> int (length sample_stream)" "policy_ok 2 sample_policy" "(0 :: int) \<le> 2"
    by (simp_all add: sample_stream_def policy_ok_def sample_policy_def)
  have rep: "replicate 3 x = [x, x, x]" for x :: "int option" by (simp add: numeral_eq_Suc)
  have run: "nla_parse sample_stream 2 0 24 (Some sample_policy) = Val (None, [None, Some 0, Some 16])"
    by (simp add: nla_parse_def nla_for_each_attr.simps [of _ _ 0] nla_for_each_attr.simps [of _ _ 8]
        nla_for_each_attr.simps [of _ _ 16] nla_for_each_attr.simps [of _ _ 24] nla_ok_def rd_u16_def
        rd_bytes_def sample_stream_def seg_def nla_next_def nla_align_eq parse_body_def nla_type_def
        NLA_TYPE_MASK_def validate_nla_def validate_minlen_def nla_len_def sample_policy_def nla_attr_minlen_def rep)
  have "8 \<in> set (nla_attrs sample_stream 0 24)" by (simp add: sample_attrs)
  then show ?thesis
    using nla_parse_last_wins [OF b, THEN conjunct2, THEN spec, THEN spec, of "[None, Some 0, Some 16]" 2]
      run sample_types by simp
qed

text \<open>
  C37. A message built by any sequence of \<open>nla_put\<close> calls, with payloads that fit the 16-bit length field and together fit into
  the free space of a well-formed buffer below 2 GB, is read back by
  \<open>nla_for_each_attr\<close>: its steps \<open>nla_ok\<close> and \<open>nla_next\<close> meet the same attributes in the same order and leave no bytes over,
  \<open>nla_type\<close> gives their types modulo the two flag bits, and \<open>nla_memcpy\<close> their payloads byte for byte.
\<close>

theorem nla_put_roundtrip:
  assumes "skb_wf skb" and "length (skb_head skb) < 2 ^ 31"
    and "list_all (\<lambda>(t, d). length d + 4 < 2 ^ 16) as" and "put_size as \<le> skb_tailroom skb"
  shows "\<exists>skb'. put_all skb as = Val skb' \<and> skb_wf skb' \<and>
           nla_for_each_attr (linear_bytes skb') (read_body (linear_bytes skb')) (int (length (linear_bytes skb)))
             (int (length (linear_bytes skb')) - int (length (linear_bytes skb))) [] =
           Val (Inr (0, map (\<lambda>(t, d). (t mod 2 ^ 14, d)) as))"
  by (rule put_all_walk [OF assms])

definition empty_skb :: sk_buff where
  "empty_skb = Sk_buff 0 0 (replicate 32 0) 4 4 [] [] sample_info"

theorem nla_put_roundtrip_witness:
  "\<exists>skb'. put_all empty_skb [(1, [42]), (7, [1, 2, 3, 4, 5])] = Val skb' \<and>
     nla_for_each_attr (linear_bytes skb') (read_body (linear_bytes skb')) 0 (int (length (linear_bytes skb'))) [] =
       Val (Inr (0, [(1, [42]), (7, [1, 2, 3, 4, 5])]))"
proof -
  let ?as = "[(1, [42]), (7, [1, 2, 3, 4, 5])] :: (int \<times> u8 list) list"
  have "skb_wf empty_skb" "length (skb_head empty_skb) < 2 ^ 31"
    by (simp_all add: empty_skb_def)
  moreover have "list_all (\<lambda>(t, d). length d + 4 < 2 ^ 16) ?as" "put_size ?as \<le> skb_tailroom empty_skb"
    by (simp_all add: put_size_def nla_total_size_def nla_attr_size_def nla_align_eq skb_tailroom_def
        empty_skb_def skb_is_nonlinear_def)
  moreover have "length (linear_bytes empty_skb) = 0" by (simp add: empty_skb_def linear_bytes_def)
  ultimately show ?thesis using nla_put_roundtrip [of empty_skb ?as] by auto
qed

end
