(* ===== verification/Bpf_Run.thy ===== *)
theory Bpf_Run
  imports Bpf_Insn Nlattr
begin

text \<open>
  The filter interpreter (\<open>sk_run_filter\<close> in \<open>net/core/filter.c\<close>), with \<open>A\<close>, \<open>X\<close>, \<open>mem[]\<close> and the
  position of \<open>fentry\<close> as the state. A run either returns a value or
  ends in a fault: the places where the C code would leave the program, read or write outside the
  scratch memory, read a scratch cell never written, shift a 32-bit value by 32 or more (undefined in
  C), or access memory outside the packet.

  Every instruction moves the program counter forward, so a run is a terminating function of any
  program, checked or not.
\<close>

datatype bpf_fault = Bad_pc | Bad_mem | Uninit_mem | Shift_range | Bad_packet

datatype bpf_result = Ret u32 | Flt bpf_fault

record bpf_state =
  acc :: u32
  idx :: u32
  cells :: "u32 option list"
  bpc :: nat

text \<open>
  What a run reads besides the program: the buffer (\<open>None\<close> for the NULL pointer seccomp passes),
  the processor number, and the words of the system call (\<open>seccomp_bpf_load\<close>).
\<close>

record bpf_ctx =
  ctx_skb :: "sk_buff option"
  smp_processor_id :: u32
  seccomp_load :: "u32 \<Rightarrow> u32 outcome"

subsection \<open>Packet loads\<close>

definition bpf_internal_load_pointer_neg_helper :: "sk_buff \<Rightarrow> int \<Rightarrow> int \<Rightarrow> u8 list option outcome" where
  "bpf_internal_load_pointer_neg_helper s k sz =
     (let ptr = (if k \<ge> SKF_NET_OFF then Some (network_header (skb_info s) + k - SKF_NET_OFF)
                 else if k \<ge> SKF_LL_OFF then Some (mac_header (skb_info s) + k - SKF_LL_OFF)
                 else None) in
      case ptr of
        None \<Rightarrow> Val None
      | Some p \<Rightarrow>
          if p \<ge> 0 \<and> p + sz \<le> int (skb_tail s)
          then (case rd_bytes (skb_head s) p sz of None \<Rightarrow> Trap | Some bs \<Rightarrow> Val (Some bs))
          else Val None)"

definition load_pointer :: "sk_buff \<Rightarrow> int \<Rightarrow> int \<Rightarrow> u8 list option outcome" where
  "load_pointer s k sz =
     (if k \<ge> 0 then skb_header_pointer s k sz
      else bpf_internal_load_pointer_neg_helper s k sz)"

definition ntohs :: "u16 \<Rightarrow> u16" where
  "ntohs w = push_bit 8 w OR drop_bit 8 w"

abbreviation fault :: "bpf_fault \<Rightarrow> bpf_state + bpf_result" where
  "fault f \<equiv> Inr (Flt f)"

abbreviation (input) ret :: "u32 \<Rightarrow> bpf_state + bpf_result" where
  "ret v \<equiv> Inr (Ret v)"

text \<open>\<open>continue\<close> at the end of a case: the loop's \<open>fentry++\<close>.\<close>

definition continue :: "bpf_state \<Rightarrow> bpf_state + bpf_result" where
  "continue st = Inl (st\<lparr>bpc := bpc st + 1\<rparr>)"

definition jump :: "bpf_state \<Rightarrow> nat \<Rightarrow> bpf_state + bpf_result" where
  "jump st off = Inl (st\<lparr>bpc := bpc st + off + 1\<rparr>)"

text \<open>The labels \<open>load_w\<close>, \<open>load_h\<close> and \<open>load_b\<close>: \<open>sz\<close> (the size) is 4, 2 or 1.\<close>

definition load_A :: "bpf_ctx \<Rightarrow> u32 \<Rightarrow> int \<Rightarrow> bpf_state \<Rightarrow> bpf_state + bpf_result" where
  "load_A ctx off sz st =
     (case ctx_skb ctx of
        None \<Rightarrow> fault Bad_packet
      | Some s \<Rightarrow>
         (case load_pointer s (sint off) sz of
            Val (Some bs) \<Rightarrow> continue (st\<lparr>acc := of_nat (be_val bs)\<rparr>)
          | Val None \<Rightarrow> ret 0
          | _ \<Rightarrow> fault Bad_packet))"

definition load_msh :: "bpf_ctx \<Rightarrow> u32 \<Rightarrow> bpf_state \<Rightarrow> bpf_state + bpf_result" where
  "load_msh ctx K st =
     (case ctx_skb ctx of
        None \<Rightarrow> fault Bad_packet
      | Some s \<Rightarrow>
         (case load_pointer s (sint K) 1 of
            Val (Some bs) \<Rightarrow> continue (st\<lparr>idx := push_bit 2 (ucast (hd bs AND 0xf))\<rparr>)
          | Val None \<Rightarrow> ret 0
          | _ \<Rightarrow> fault Bad_packet))"

subsection \<open>Arithmetic and jumps\<close>

definition alu :: "bpf_state \<Rightarrow> u32 \<Rightarrow> bpf_state + bpf_result" where
  "alu st v = continue (st\<lparr>acc := v\<rparr>)"

definition shift_alu :: "bpf_state \<Rightarrow> u32 \<Rightarrow> (nat \<Rightarrow> u32 \<Rightarrow> u32) \<Rightarrow> bpf_state + bpf_result" where
  "shift_alu st amount sh =
     (if amount < 32 then alu st (sh (unat amount) (acc st)) else fault Shift_range)"

definition cond_jump :: "bpf_state \<Rightarrow> sock_filter \<Rightarrow> bool \<Rightarrow> bpf_state + bpf_result" where
  "cond_jump st f b = jump st (unat (if b then sf_jt f else sf_jf f))"

definition exec_alu_jmp :: "bpf_s \<Rightarrow> sock_filter \<Rightarrow> bpf_state \<Rightarrow> (bpf_state + bpf_result) option" where
  "exec_alu_jmp c f st =
     (let K = sf_k f in
      case c of
        BPF_S_ALU_ADD_X \<Rightarrow> Some (alu st (acc st + idx st))
      | BPF_S_ALU_ADD_K \<Rightarrow> Some (alu st (acc st + K))
      | BPF_S_ALU_SUB_X \<Rightarrow> Some (alu st (acc st - idx st))
      | BPF_S_ALU_SUB_K \<Rightarrow> Some (alu st (acc st - K))
      | BPF_S_ALU_MUL_X \<Rightarrow> Some (alu st (acc st * idx st))
      | BPF_S_ALU_MUL_K \<Rightarrow> Some (alu st (acc st * K))
      | BPF_S_ALU_DIV_X \<Rightarrow> Some (if idx st = 0 then ret 0 else alu st (acc st div idx st))
      | BPF_S_ALU_DIV_K \<Rightarrow> Some (alu st (reciprocal_divide (acc st) K))
      | BPF_S_ALU_AND_X \<Rightarrow> Some (alu st (acc st AND idx st))
      | BPF_S_ALU_AND_K \<Rightarrow> Some (alu st (acc st AND K))
      | BPF_S_ALU_OR_X \<Rightarrow> Some (alu st (acc st OR idx st))
      | BPF_S_ALU_OR_K \<Rightarrow> Some (alu st (acc st OR K))
      | BPF_S_ALU_LSH_X \<Rightarrow> Some (shift_alu st (idx st) push_bit)
      | BPF_S_ALU_LSH_K \<Rightarrow> Some (shift_alu st K push_bit)
      | BPF_S_ALU_RSH_X \<Rightarrow> Some (shift_alu st (idx st) drop_bit)
      | BPF_S_ALU_RSH_K \<Rightarrow> Some (shift_alu st K drop_bit)
      | BPF_S_ALU_NEG \<Rightarrow> Some (alu st (- acc st))
      | BPF_S_JMP_JA \<Rightarrow> Some (jump st (unat K))
      | BPF_S_JMP_JGT_K \<Rightarrow> Some (cond_jump st f (acc st > K))
      | BPF_S_JMP_JGE_K \<Rightarrow> Some (cond_jump st f (acc st \<ge> K))
      | BPF_S_JMP_JEQ_K \<Rightarrow> Some (cond_jump st f (acc st = K))
      | BPF_S_JMP_JSET_K \<Rightarrow> Some (cond_jump st f (acc st AND K \<noteq> 0))
      | BPF_S_JMP_JGT_X \<Rightarrow> Some (cond_jump st f (acc st > idx st))
      | BPF_S_JMP_JGE_X \<Rightarrow> Some (cond_jump st f (acc st \<ge> idx st))
      | BPF_S_JMP_JEQ_X \<Rightarrow> Some (cond_jump st f (acc st = idx st))
      | BPF_S_JMP_JSET_X \<Rightarrow> Some (cond_jump st f (acc st AND idx st \<noteq> 0))
      | _ \<Rightarrow> None)"

subsection \<open>Loads, stores and returns\<close>

definition load_cell :: "bpf_state \<Rightarrow> u32 \<Rightarrow> (u32 \<Rightarrow> bpf_state) \<Rightarrow> bpf_state + bpf_result" where
  "load_cell st K upd =
     (if unat K \<ge> length (cells st) then fault Bad_mem
      else case cells st ! unat K of
             None \<Rightarrow> fault Uninit_mem
           | Some v \<Rightarrow> continue (upd v))"

definition store_cell :: "bpf_state \<Rightarrow> u32 \<Rightarrow> u32 \<Rightarrow> bpf_state + bpf_result" where
  "store_cell st K v =
     (if unat K \<ge> length (cells st) then fault Bad_mem
      else continue (st\<lparr>cells := (cells st)[unat K := Some v]\<rparr>))"

definition with_skb :: "bpf_ctx \<Rightarrow> (sk_buff \<Rightarrow> bpf_state + bpf_result) \<Rightarrow> bpf_state + bpf_result" where
  "with_skb ctx g = (case ctx_skb ctx of None \<Rightarrow> fault Bad_packet | Some s \<Rightarrow> g s)"

definition exec_load_store ::
  "bpf_s \<Rightarrow> bpf_ctx \<Rightarrow> sock_filter \<Rightarrow> bpf_state \<Rightarrow> (bpf_state + bpf_result) option" where
  "exec_load_store c ctx f st =
     (let K = sf_k f in
      case c of
        BPF_S_LD_W_ABS \<Rightarrow> Some (load_A ctx K 4 st)
      | BPF_S_LD_H_ABS \<Rightarrow> Some (load_A ctx K 2 st)
      | BPF_S_LD_B_ABS \<Rightarrow> Some (load_A ctx K 1 st)
      | BPF_S_LD_W_LEN \<Rightarrow> Some (with_skb ctx (\<lambda>s. continue (st\<lparr>acc := of_nat (skb_len s)\<rparr>)))
      | BPF_S_LDX_W_LEN \<Rightarrow> Some (with_skb ctx (\<lambda>s. continue (st\<lparr>idx := of_nat (skb_len s)\<rparr>)))
      | BPF_S_LD_W_IND \<Rightarrow> Some (load_A ctx (idx st + K) 4 st)
      | BPF_S_LD_H_IND \<Rightarrow> Some (load_A ctx (idx st + K) 2 st)
      | BPF_S_LD_B_IND \<Rightarrow> Some (load_A ctx (idx st + K) 1 st)
      | BPF_S_LDX_B_MSH \<Rightarrow> Some (load_msh ctx K st)
      | BPF_S_LD_IMM \<Rightarrow> Some (continue (st\<lparr>acc := K\<rparr>))
      | BPF_S_LDX_IMM \<Rightarrow> Some (continue (st\<lparr>idx := K\<rparr>))
      | BPF_S_LD_MEM \<Rightarrow> Some (load_cell st K (\<lambda>v. st\<lparr>acc := v\<rparr>))
      | BPF_S_LDX_MEM \<Rightarrow> Some (load_cell st K (\<lambda>v. st\<lparr>idx := v\<rparr>))
      | BPF_S_MISC_TAX \<Rightarrow> Some (continue (st\<lparr>idx := acc st\<rparr>))
      | BPF_S_MISC_TXA \<Rightarrow> Some (continue (st\<lparr>acc := idx st\<rparr>))
      | BPF_S_RET_K \<Rightarrow> Some (ret K)
      | BPF_S_RET_A \<Rightarrow> Some (ret (acc st))
      | BPF_S_ST \<Rightarrow> Some (store_cell st K (acc st))
      | BPF_S_STX \<Rightarrow> Some (store_cell st K (idx st))
      | _ \<Rightarrow> None)"

subsection \<open>Ancillary data\<close>

text \<open>
  The attribute search works on the packet's linear data with offsets from \<open>skb->data\<close>. The guards are
  written with the widths C gives them: \<open>skb->len - sizeof(struct nlattr)\<close> is a 64-bit unsigned
  difference, \<open>skb->len - A\<close> and \<open>A - skb->len\<close> are 32-bit ones.
\<close>

definition found_attr :: "bpf_state \<Rightarrow> int option outcome \<Rightarrow> bpf_state + bpf_result" where
  "found_attr st r =
     (case r of
        Val (Some p) \<Rightarrow> continue (st\<lparr>acc := word_of_int p\<rparr>)
      | Val None \<Rightarrow> continue (st\<lparr>acc := 0\<rparr>)
      | _ \<Rightarrow> fault Bad_packet)"

definition exec_nlattr :: "sk_buff \<Rightarrow> bpf_state \<Rightarrow> bpf_state + bpf_result" where
  "exec_nlattr s st =
     (if skb_is_nonlinear s then ret 0
      else if (ucast (acc st) :: u64) > of_nat (skb_len s) - 4 then ret 0
      else found_attr st
        (nla_find (linear_bytes s) (uint (acc st)) (sint (of_nat (skb_len s) - acc st :: u32)) (sint (idx st))))"

definition exec_nlattr_nest :: "sk_buff \<Rightarrow> bpf_state \<Rightarrow> bpf_state + bpf_result" where
  "exec_nlattr_nest s st =
     (if skb_is_nonlinear s then ret 0
      else if (ucast (acc st) :: u64) > of_nat (skb_len s) - 4 then ret 0
      else case rd_u16 (linear_bytes s) (uint (acc st)) of
             None \<Rightarrow> fault Bad_packet
           | Some l \<Rightarrow>
               if of_nat l > acc st - of_nat (skb_len s) then ret 0
               else found_attr st (nla_find_nested (linear_bytes s) (uint (acc st)) (sint (idx st))))"

definition exec_anc :: "bpf_s \<Rightarrow> bpf_ctx \<Rightarrow> sock_filter \<Rightarrow> bpf_state \<Rightarrow> bpf_state + bpf_result" where
  "exec_anc c ctx f st =
     (case c of
        BPF_S_ANC_PROTOCOL \<Rightarrow> with_skb ctx (\<lambda>s. alu st (ucast (ntohs (protocol (skb_info s)))))
      | BPF_S_ANC_PKTTYPE \<Rightarrow> with_skb ctx (\<lambda>s. alu st (ucast (pkt_type (skb_info s))))
      | BPF_S_ANC_IFINDEX \<Rightarrow> with_skb ctx (\<lambda>s.
          case dev (skb_info s) of None \<Rightarrow> ret 0 | Some d \<Rightarrow> alu st (word_of_int (ifindex d)))
      | BPF_S_ANC_MARK \<Rightarrow> with_skb ctx (\<lambda>s. alu st (mark (skb_info s)))
      | BPF_S_ANC_QUEUE \<Rightarrow> with_skb ctx (\<lambda>s. alu st (ucast (queue_mapping (skb_info s))))
      | BPF_S_ANC_HATYPE \<Rightarrow> with_skb ctx (\<lambda>s.
          case dev (skb_info s) of None \<Rightarrow> ret 0 | Some d \<Rightarrow> alu st (ucast (dev_type d)))
      | BPF_S_ANC_RXHASH \<Rightarrow> with_skb ctx (\<lambda>s. alu st (rxhash (skb_info s)))
      | BPF_S_ANC_CPU \<Rightarrow> alu st (smp_processor_id ctx)
      | BPF_S_ANC_ALU_XOR_X \<Rightarrow> alu st (acc st XOR idx st)
      | BPF_S_ANC_NLATTR \<Rightarrow> with_skb ctx (\<lambda>s. exec_nlattr s st)
      | BPF_S_ANC_NLATTR_NEST \<Rightarrow> with_skb ctx (\<lambda>s. exec_nlattr_nest s st)
      | BPF_S_ANC_SECCOMP_LD_W \<Rightarrow>
          (case seccomp_load ctx (sf_k f) of Val v \<Rightarrow> alu st v | _ \<Rightarrow> fault Bad_packet)
      | _ \<Rightarrow> ret 0)"

subsection \<open>The run\<close>

text \<open>One iteration of the loop; a code that is no enumerator is the \<open>default\<close> case (return 0).\<close>

definition exec_insn :: "bpf_ctx \<Rightarrow> sock_filter \<Rightarrow> bpf_state \<Rightarrow> bpf_state + bpf_result" where
  "exec_insn ctx f st =
     (case bpf_s_of (sf_code f) of
        None \<Rightarrow> ret 0
      | Some c \<Rightarrow>
         (case exec_alu_jmp c f st of
            Some r \<Rightarrow> r
          | None \<Rightarrow> (case exec_load_store c ctx f st of
                      Some r \<Rightarrow> r
                    | None \<Rightarrow> exec_anc c ctx f st)))"

lemmas exec_defs =
  exec_alu_jmp_def exec_load_store_def exec_anc_def alu_def shift_alu_def cond_jump_def
  continue_def jump_def load_cell_def store_cell_def with_skb_def

lemma load_pc:
  "load_A ctx off n st = Inl st' \<Longrightarrow> bpc st' = bpc st + 1"
  "load_msh ctx K st = Inl st' \<Longrightarrow> bpc st' = bpc st + 1"
  by (auto simp: load_A_def load_msh_def continue_def split: option.splits outcome.splits)

lemma nlattr_pc:
  "exec_nlattr s st = Inl st' \<Longrightarrow> bpc st' = bpc st + 1"
  "exec_nlattr_nest s st = Inl st' \<Longrightarrow> bpc st' = bpc st + 1"
  by (auto simp: exec_nlattr_def exec_nlattr_nest_def found_attr_def continue_def
      split: option.splits outcome.splits if_splits)

lemma exec_insn_pc: "exec_insn ctx f st = Inl st' \<Longrightarrow> bpc st < bpc st'"
  by (cases "bpf_s_of (sf_code f)"; cases "the (bpf_s_of (sf_code f))")
     (auto simp: exec_insn_def exec_defs Let_def dest!: load_pc nlattr_pc
       split: option.splits outcome.splits if_splits)

function bpf_run :: "bpf_ctx \<Rightarrow> sock_filter list \<Rightarrow> bpf_state \<Rightarrow> bpf_result" where
  "bpf_run ctx prog st =
     (if bpc st \<ge> length prog then Flt Bad_pc
      else case exec_insn ctx (prog ! bpc st) st of
             Inl st' \<Rightarrow> bpf_run ctx prog st'
           | Inr r \<Rightarrow> r)"
  by pat_completeness auto
termination
  by (relation "measure (\<lambda>(ctx, prog, st). length prog - bpc st)")
     (auto dest!: exec_insn_pc intro: diff_less_mono2)

declare bpf_run.simps [simp del]

text \<open>\<open>mem[]\<close> is an uninitialised local array.\<close>

definition sk_run_filter :: "bpf_ctx \<Rightarrow> sock_filter list \<Rightarrow> bpf_result" where
  "sk_run_filter ctx prog =
     bpf_run ctx prog \<lparr>acc = 0, idx = 0, cells = replicate BPF_MEMWORDS None, bpc = 0\<rparr>"

end
