(* ===== verification/Bpf_Check.thy ===== *)
theory Bpf_Check
  imports Bpf_Run
begin

text \<open>
  The filter checker (\<open>sk_chk_filter\<close> and \<open>check_load_and_stores\<close> in \<open>net/core/filter.c\<close>) and its
  soundness. The checker rewrites a user program in place: opcodes become internal codes, divisors
  become reciprocals. An accepted program never leaves its instructions, never touches a scratch cell
  outside the array, and never reads a scratch cell it has not written on the path taken; every run of
  it returns, but for the two things the checker does not look at: shift amounts, and the bounds of
  the netlink attribute search.
\<close>

subsection \<open>The checker\<close>

text \<open>The groups of case labels the checker treats alike.\<close>

abbreviation (input) mem_stores :: "bpf_s set" where
  "mem_stores \<equiv> {BPF_S_ST, BPF_S_STX}"

abbreviation (input) mem_loads :: "bpf_s set" where
  "mem_loads \<equiv> {BPF_S_LD_MEM, BPF_S_LDX_MEM}"

abbreviation (input) mem_insns :: "bpf_s set" where
  "mem_insns \<equiv> {BPF_S_LD_MEM, BPF_S_LDX_MEM, BPF_S_ST, BPF_S_STX}"

abbreviation (input) cond_jumps :: "bpf_s set" where
  "cond_jumps \<equiv> {BPF_S_JMP_JEQ_K, BPF_S_JMP_JEQ_X, BPF_S_JMP_JGE_K, BPF_S_JMP_JGE_X,
     BPF_S_JMP_JGT_K, BPF_S_JMP_JGT_X, BPF_S_JMP_JSET_X, BPF_S_JMP_JSET_K}"

abbreviation (input) abs_loads :: "bpf_s set" where
  "abs_loads \<equiv> {BPF_S_LD_W_ABS, BPF_S_LD_H_ABS, BPF_S_LD_B_ABS}"

text \<open>\<open>mask_and masks i m\<close>: \<open>masks[i] &= m\<close>.\<close>

definition mask_and :: "u16 list \<Rightarrow> nat \<Rightarrow> u16 \<Rightarrow> u16 list outcome" where
  "mask_and masks i m =
     (if i < length masks then Val (masks[i := masks ! i AND m]) else Trap)"

text \<open>\<open>1 << k\<close> in the type \<open>int\<close>, cut to the 16 bits of a mask; undefined from 32 on.\<close>

definition cell_bit :: "u32 \<Rightarrow> u16 outcome" where
  "cell_bit k = (if k < 32 then Val (push_bit (unat k) 1) else Trap)"

definition cls_insn :: "sock_filter \<Rightarrow> nat \<Rightarrow> u16 list \<Rightarrow> u16 \<Rightarrow> (u16 list \<times> u16) outcome" where
  "cls_insn f pc masks memvalid =
     (case bpf_s_of (sf_code f) of
        None \<Rightarrow> Val (masks, memvalid)
      | Some c \<Rightarrow>
          if c \<in> mem_stores then
            bind_outcome (cell_bit (sf_k f)) (\<lambda>b. Val (masks, memvalid OR b))
          else if c \<in> mem_loads then
            bind_outcome (cell_bit (sf_k f))
              (\<lambda>b. if memvalid AND b = 0 then Err EINVAL else Val (masks, memvalid))
          else if c = BPF_S_JMP_JA then
            bind_outcome (mask_and masks (pc + 1 + unat (sf_k f)) memvalid) (\<lambda>masks. Val (masks, - 1))
          else if c \<in> cond_jumps then
            bind_outcome (mask_and masks (pc + 1 + unat (sf_jt f)) memvalid) (\<lambda>masks.
            bind_outcome (mask_and masks (pc + 1 + unat (sf_jf f)) memvalid) (\<lambda>masks.
            Val (masks, - 1)))
          else Val (masks, memvalid))"

function cls_loop :: "sock_filter list \<Rightarrow> nat \<Rightarrow> u16 list \<Rightarrow> u16 \<Rightarrow> unit outcome" where
  "cls_loop fprog pc masks memvalid =
     (if pc < length fprog then
        bind_outcome (cls_insn (fprog ! pc) pc masks (memvalid AND masks ! pc))
          (\<lambda>(masks, memvalid). cls_loop fprog (pc + 1) masks memvalid)
      else Val ())"
  by pat_completeness auto
termination
  by (relation "measure (\<lambda>(fprog, pc, masks, memvalid). length fprog - pc)") auto

declare cls_loop.simps [simp del]

text \<open>\<open>alloc\<close>: whether \<open>kmalloc\<close> of the mask array succeeds.\<close>

definition check_load_and_stores :: "bool \<Rightarrow> sock_filter list \<Rightarrow> unit outcome" where
  "check_load_and_stores alloc fprog =
     (if \<not> alloc then Err ENOMEM
      else cls_loop fprog 0 (replicate (length fprog) (- 1)) 0)"

text \<open>The switch over \<open>ftest->k\<close> for absolute loads: \<open>ANCILLARY(CODE)\<close>.\<close>

definition ancillary_codes :: "(u32 \<times> bpf_s) list" where
  "ancillary_codes =
     [(word_of_int (SKF_AD_OFF + 0), BPF_S_ANC_PROTOCOL),
      (word_of_int (SKF_AD_OFF + 4), BPF_S_ANC_PKTTYPE),
      (word_of_int (SKF_AD_OFF + 8), BPF_S_ANC_IFINDEX),
      (word_of_int (SKF_AD_OFF + 12), BPF_S_ANC_NLATTR),
      (word_of_int (SKF_AD_OFF + 16), BPF_S_ANC_NLATTR_NEST),
      (word_of_int (SKF_AD_OFF + 20), BPF_S_ANC_MARK),
      (word_of_int (SKF_AD_OFF + 24), BPF_S_ANC_QUEUE),
      (word_of_int (SKF_AD_OFF + 28), BPF_S_ANC_HATYPE),
      (word_of_int (SKF_AD_OFF + 32), BPF_S_ANC_RXHASH),
      (word_of_int (SKF_AD_OFF + 36), BPF_S_ANC_CPU),
      (word_of_int (SKF_AD_OFF + 40), BPF_S_ANC_ALU_XOR_X)]"

definition ancillary :: "u32 \<Rightarrow> bpf_s \<Rightarrow> bpf_s" where
  "ancillary k c = (case map_of ancillary_codes k of Some a \<Rightarrow> a | None \<Rightarrow> c)"

text \<open>One iteration of the checker's loop: the rewritten instruction, or \<open>-EINVAL\<close>.\<close>

definition chk_insn :: "nat \<Rightarrow> nat \<Rightarrow> sock_filter \<Rightarrow> sock_filter outcome" where
  "chk_insn flen pc ftest =
     (if unat (sf_code ftest) \<ge> codes_size then Err EINVAL
      else case codes (sf_code ftest) of
        None \<Rightarrow> Err EINVAL
      | Some c \<Rightarrow>
          if c = BPF_S_ALU_DIV_K then
            (case reciprocal_value (sf_k ftest) of
               None \<Rightarrow> Err EINVAL
             | Some r \<Rightarrow> Val (ftest\<lparr>sf_code := bpf_s_code c, sf_k := r\<rparr>))
          else if c \<in> mem_insns \<and> sf_k ftest \<ge> of_nat BPF_MEMWORDS then Err EINVAL
          else if c = BPF_S_JMP_JA \<and> sf_k ftest \<ge> of_nat (flen - pc - 1) then Err EINVAL
          else if c \<in> cond_jumps \<and>
            (pc + unat (sf_jt ftest) + 1 \<ge> flen \<or> pc + unat (sf_jf ftest) + 1 \<ge> flen) then Err EINVAL
          else if c \<in> abs_loads then
            Val (ftest\<lparr>sf_code := bpf_s_code (ancillary (sf_k ftest) c)\<rparr>)
          else Val (ftest\<lparr>sf_code := bpf_s_code c\<rparr>))"

primrec chk_insns :: "nat \<Rightarrow> nat \<Rightarrow> sock_filter list \<Rightarrow> sock_filter list outcome" where
  "chk_insns flen pc [] = Val []"
| "chk_insns flen pc (f # fs) =
     bind_outcome (chk_insn flen pc f) (\<lambda>f'.
     bind_outcome (chk_insns flen (pc + 1) fs) (\<lambda>fs'. Val (f' # fs')))"

definition sk_chk_filter :: "bool \<Rightarrow> sock_filter list \<Rightarrow> sock_filter list outcome" where
  "sk_chk_filter alloc fprog =
     (let flen = length fprog in
      if flen = 0 \<or> flen > BPF_MAXINSNS then Err EINVAL
      else bind_outcome (chk_insns flen 0 fprog) (\<lambda>fprog.
        if bpf_s_of (sf_code (fprog ! (flen - 1))) \<in> {Some BPF_S_RET_K, Some BPF_S_RET_A}
        then bind_outcome (check_load_and_stores alloc fprog) (\<lambda>_. Val fprog)
        else Err EINVAL))"

subsection \<open>What an accepted instruction looks like\<close>

definition insn_ok :: "nat \<Rightarrow> nat \<Rightarrow> sock_filter \<Rightarrow> bool" where
  "insn_ok flen pc f \<longleftrightarrow>
     (case bpf_s_of (sf_code f) of
        None \<Rightarrow> False
      | Some c \<Rightarrow>
          (c \<in> mem_insns \<longrightarrow> unat (sf_k f) < BPF_MEMWORDS) \<and>
          (c = BPF_S_JMP_JA \<longrightarrow> pc + 1 + unat (sf_k f) < flen) \<and>
          (c \<in> cond_jumps \<longrightarrow> pc + 1 + unat (sf_jt f) < flen \<and> pc + 1 + unat (sf_jf f) < flen))"

text \<open>The code only seccomp introduces.\<close>

definition sock_insn :: "sock_filter \<Rightarrow> bool" where
  "sock_insn f \<longleftrightarrow> bpf_s_of (sf_code f) \<noteq> Some BPF_S_ANC_SECCOMP_LD_W"

lemma codes_no_seccomp: "codes c = Some s \<Longrightarrow> s \<noteq> BPF_S_ANC_SECCOMP_LD_W"
  unfolding codes_def by (drule map_of_SomeD) (auto simp: codes_entries_def)

lemma unat_ge_of_nat_u32:
  "n < 2 ^ 32 \<Longrightarrow> of_nat n \<le> (w :: u32) \<longleftrightarrow> n \<le> unat w"
  by (simp add: word_le_nat_alt unat_of_nat_u32)

lemma ancillary_plain:
  assumes "c \<in> abs_loads"
  shows "ancillary k c \<notin> mem_insns \<union> cond_jumps \<union> {BPF_S_JMP_JA, BPF_S_ANC_SECCOMP_LD_W}"
proof (cases "map_of ancillary_codes k")
  case None
  then show ?thesis using assms by (auto simp: ancillary_def)
next
  case (Some a)
  then have "a \<in> snd ` set ancillary_codes" using map_of_SomeD by force
  then show ?thesis using Some by (auto simp: ancillary_def ancillary_codes_def)
qed

lemma chk_insn_ok:
  assumes "chk_insn flen pc f = Val f'" and "pc < flen" and "flen < 2 ^ 31"
  shows "insn_ok flen pc f' \<and> sock_insn f'"
proof -
  obtain c where c: "codes (sf_code f) = Some c" and sz: "\<not> unat (sf_code f) \<ge> codes_size"
    using assms(1) by (auto simp: chk_insn_def split: if_splits option.splits)
  have ns: "c \<noteq> BPF_S_ANC_SECCOMP_LD_W" using codes_no_seccomp [OF c] .
  have le: "of_nat (flen - Suc pc) \<le> sf_k f \<longleftrightarrow> flen - Suc pc \<le> unat (sf_k f)"
    using assms(3) by (intro unat_ge_of_nat_u32) simp
  have le16: "(16 :: u32) \<le> sf_k f \<longleftrightarrow> 16 \<le> unat (sf_k f)"
    by (simp add: word_le_nat_alt)
  note chk = assms(1) [unfolded chk_insn_def c option.case if_not_P [OF sz]]
  show ?thesis
  proof (cases "c \<in> abs_loads")
    case True
    then have "f' = f\<lparr>sf_code := bpf_s_code (ancillary (sf_k f) c)\<rparr>"
      using chk by auto
    then show ?thesis
      using ancillary_plain [OF True, of "sf_k f"] by (simp add: insn_ok_def sock_insn_def)
  next
    case False
    show ?thesis
    proof (cases "c = BPF_S_ALU_DIV_K")
      case True
      then show ?thesis using chk by (auto simp: insn_ok_def sock_insn_def split: option.splits)
    next
      case nodiv: False
      have f': "f' = f\<lparr>sf_code := bpf_s_code c\<rparr>"
        using chk False nodiv by (simp split: if_splits)
      have h: "c \<in> mem_insns \<Longrightarrow> unat (sf_k f) < 16" "c = BPF_S_JMP_JA \<Longrightarrow> unat (sf_k f) < flen - Suc pc"
          "c \<in> cond_jumps \<Longrightarrow> pc + 1 + unat (sf_jt f) < flen \<and> pc + 1 + unat (sf_jf f) < flen"
        using chk nodiv le le16 by (simp_all del: of_nat_diff add: not_le split: if_splits)
      have "Suc (pc + unat (sf_k f)) < flen" if "c = BPF_S_JMP_JA"
        using h(2) [OF that] by linarith
      then show ?thesis
        using ns h(1,3) by (simp add: insn_ok_def sock_insn_def f')
    qed
  qed
qed

lemma chk_insns_ok:
  "chk_insns flen pc fs = Val fs' \<Longrightarrow> pc + length fs = flen \<Longrightarrow> flen < 2 ^ 31 \<Longrightarrow>
   length fs' = length fs \<and> list_all sock_insn fs' \<and> (\<forall>i < length fs. insn_ok flen (pc + i) (fs' ! i))"
proof (induction fs arbitrary: pc fs')
  case Nil
  then show ?case by simp
next
  case (Cons f fs)
  then obtain f' fs'' where f: "chk_insn flen pc f = Val f'"
      and fs: "chk_insns flen (pc + 1) fs = Val fs''" and e: "fs' = f' # fs''"
    by auto
  have "insn_ok flen pc f' \<and> sock_insn f'" using chk_insn_ok [OF f] Cons.prems by simp
  moreover have "length fs'' = length fs \<and> list_all sock_insn fs'' \<and>
      (\<forall>i < length fs. insn_ok flen (pc + 1 + i) (fs'' ! i))"
    using Cons.prems by (intro Cons.IH [OF fs]) auto
  ultimately show ?case
    by (auto simp: e nth_Cons split: nat.splits)
qed

subsection \<open>Initialised scratch cells\<close>

definition covers :: "u32 option list \<Rightarrow> u16 \<Rightarrow> bool" where
  "covers cs m \<longleftrightarrow> length cs = BPF_MEMWORDS \<and> (\<forall>i < BPF_MEMWORDS. bit m i \<longrightarrow> cs ! i \<noteq> None)"

lemma covers_and: "covers cs m \<Longrightarrow> covers cs (m AND n)" "covers cs m \<Longrightarrow> covers cs (n AND m)"
  by (auto simp: covers_def bit_and_iff)

lemma bit_cell: "i < 16 \<Longrightarrow> bit ((2 :: u16) ^ n) i \<longleftrightarrow> n = i"
  by (auto simp: bit_exp_iff)

lemma covers_store:
  "covers cs m \<Longrightarrow> n < 16 \<Longrightarrow> covers (cs[n := Some v]) (m OR 2 ^ n)"
  by (auto simp: covers_def bit_or_iff nth_list_update bit_cell)

lemma cell_bit_lt: "unat k < 16 \<Longrightarrow> cell_bit k = Val (2 ^ unat k)"
  by (simp add: cell_bit_def word_less_nat_alt)

lemma and_cell_bit: "i < 16 \<Longrightarrow> (w :: u16) AND 2 ^ i = 0 \<longleftrightarrow> \<not> bit w i"
  using bit_iff_and_push_bit_not_eq_0 [of w i] by simp

lemma covers_load: "covers cs m \<Longrightarrow> i < 16 \<Longrightarrow> m AND 2 ^ i \<noteq> 0 \<Longrightarrow> \<exists>v. cs ! i = Some v"
  by (auto simp: covers_def and_cell_bit)

lemma mask_and_Val:
  "mask_and masks i m = Val masks' \<longleftrightarrow> i < length masks \<and> masks' = masks[i := masks ! i AND m]"
  by (auto simp: mask_and_def)

lemma covers_masked:
  "covers cs (masks ! j) \<Longrightarrow> j < length masks \<Longrightarrow> covers cs (masks[i := masks ! i AND m] ! j)"
  by (cases "i = j") (auto simp: covers_and)

lemma cls_insn_shrinks:
  assumes "cls_insn f pc masks m = Val (masks', m')"
  shows "length masks' = length masks \<and>
         (\<forall>cs j. covers cs (masks ! j) \<longrightarrow> j < length masks \<longrightarrow> covers cs (masks' ! j))"
proof (cases "bpf_s_of (sf_code f)")
  case None
  then show ?thesis using assms by (simp add: cls_insn_def)
next
  case (Some c)
  have two: "covers cs (masks[i := masks ! i AND m, i' := masks[i := masks ! i AND m] ! i' AND m] ! j)"
    if "covers cs (masks ! j)" "j < length masks" for cs j i i'
    using that by (intro covers_masked) auto
  show ?thesis
    using assms Some
    by (auto simp: cls_insn_def mask_and_Val covers_masked two split: if_splits)
qed

subsection \<open>One instruction of an accepted program\<close>

text \<open>\<open>uses prog S\<close>: an instruction of the program has one of the codes \<open>S\<close>.\<close>

definition uses :: "sock_filter list \<Rightarrow> bpf_s list \<Rightarrow> bool" where
  "uses prog S \<longleftrightarrow> list_ex (\<lambda>f. bpf_s_of (sf_code f) \<in> Some ` set S) prog"

abbreviation (input) shift_codes :: "bpf_s list" where
  "shift_codes \<equiv> [BPF_S_ALU_LSH_K, BPF_S_ALU_LSH_X, BPF_S_ALU_RSH_K, BPF_S_ALU_RSH_X]"

abbreviation (input) nlattr_codes :: "bpf_s list" where
  "nlattr_codes \<equiv> [BPF_S_ANC_NLATTR, BPF_S_ANC_NLATTR_NEST]"

definition benign :: "sock_filter list \<Rightarrow> bpf_result \<Rightarrow> bool" where
  "benign prog r \<longleftrightarrow>
     (case r of
        Ret v \<Rightarrow> True
      | Flt f \<Rightarrow> f = Shift_range \<and> uses prog shift_codes \<or> f = Bad_packet \<and> uses prog nlattr_codes)"

lemma load_pointer_no_trap:
  assumes "skb_wf s" and "0 \<le> sz"
  shows "\<exists>r. load_pointer s k sz = Val r"
proof (cases "0 \<le> k")
  case True
  then show ?thesis
    using assms by (simp add: load_pointer_def skb_header_pointer_exact)
next
  case False
  have t: "skb_tail s \<le> length (skb_head s)" using assms(1) by (cases s) auto
  have "rd_bytes (skb_head s) p sz = Some (seg (nat p) (nat sz) (skb_head s))"
    if "0 \<le> p" "p + sz \<le> int (skb_tail s)" for p
    using that t assms(2) by (simp add: rd_bytes_def)
  then show ?thesis
    using False
    by (simp add: load_pointer_def bpf_internal_load_pointer_neg_helper_def Let_def)
qed

lemma load_A_cases:
  assumes "ctx_skb ctx = Some s" and "skb_wf s" and "0 \<le> sz"
  shows "load_A ctx off sz st = Inr (Ret 0) \<or> (\<exists>a. load_A ctx off sz st = continue (st\<lparr>acc := a\<rparr>))"
  using load_pointer_no_trap [OF assms(2,3), of "sint off"] assms(1)
  by (auto simp: load_A_def split: option.splits)

lemma load_msh_cases:
  assumes "ctx_skb ctx = Some s" and "skb_wf s"
  shows "load_msh ctx off st = Inr (Ret 0) \<or> (\<exists>x. load_msh ctx off st = continue (st\<lparr>idx := x\<rparr>))"
  using load_pointer_no_trap [OF assms(2), of 1 "sint off"] assms(1)
  by (auto simp: load_msh_def split: option.splits)

lemma nlattr_cases:
  "(\<exists>a. exec_nlattr s st = continue (st\<lparr>acc := a\<rparr>)) \<or> exec_nlattr s st \<in> {Inr (Ret 0), Inr (Flt Bad_packet)}"
  "(\<exists>a. exec_nlattr_nest s st = continue (st\<lparr>acc := a\<rparr>)) \<or>
   exec_nlattr_nest s st \<in> {Inr (Ret 0), Inr (Flt Bad_packet)}"
  by (auto simp: exec_nlattr_def exec_nlattr_nest_def found_attr_def split: option.splits outcome.splits)

text \<open>
  The runs of one accepted instruction: it ends the run benignly, or goes on to the next one with the
  cells the checker counts as valid, or jumps inside the program.
\<close>

definition insn_safe ::
  "sock_filter list \<Rightarrow> sock_filter \<Rightarrow> nat \<Rightarrow> u16 list \<Rightarrow> u16 \<Rightarrow> bpf_state + bpf_result \<Rightarrow> bool" where
  "insn_safe prog f pc masks' m' r \<longleftrightarrow>
     (case r of
        Inr res \<Rightarrow> benign prog res
      | Inl st' \<Rightarrow>
          bpf_s_of (sf_code f) \<notin> {Some BPF_S_RET_K, Some BPF_S_RET_A} \<and>
          (bpc st' = pc + 1 \<and> covers (cells st') m' \<or>
           pc < bpc st' \<and> bpc st' < length prog \<and> covers (cells st') (masks' ! bpc st')))"

lemma insn_safe_simps [simp]:
  "insn_safe prog f pc masks' m' (Inr (Ret v))"
  "insn_safe prog f pc masks' m' (Inr (Flt Shift_range)) \<longleftrightarrow> uses prog shift_codes"
  "insn_safe prog f pc masks' m' (Inr (Flt Bad_packet)) \<longleftrightarrow> uses prog nlattr_codes"
  by (auto simp: insn_safe_def benign_def)

lemma insn_safe_continue:
  assumes "bpf_s_of (sf_code f) \<notin> {Some BPF_S_RET_K, Some BPF_S_RET_A}" and "covers (cells st) m'"
    and "bpc st = pc"
  shows "insn_safe prog f pc masks' m' (continue st)"
  using assms by (simp add: insn_safe_def continue_def)

lemma insn_safe_jump:
  assumes "bpf_s_of (sf_code f) \<notin> {Some BPF_S_RET_K, Some BPF_S_RET_A}" and "bpc st = pc"
    and "pc + 1 + off < length prog" and "covers (cells st) (masks' ! (pc + 1 + off))"
  shows "insn_safe prog f pc masks' m' (jump st off)"
  using assms by (simp add: insn_safe_def jump_def add.commute add.left_commute)

lemma uses_nth:
  "i < length prog \<Longrightarrow> bpf_s_of (sf_code (prog ! i)) = Some c \<Longrightarrow> c \<in> set S \<Longrightarrow> uses prog S"
  by (auto simp: uses_def list_ex_iff intro!: bexI [of _ "prog ! i"])

definition plain_step :: "bpf_s \<Rightarrow> bpf_state \<Rightarrow> bpf_state + bpf_result \<Rightarrow> bool" where
  "plain_step c st r \<longleftrightarrow>
     (\<exists>st'. r = continue st' \<and> cells st' = cells st \<and> bpc st' = bpc st \<and> c \<notin> {BPF_S_RET_K, BPF_S_RET_A}) \<or>
     (\<exists>v. r = Inr (Ret v)) \<or> r = Inr (Flt Shift_range) \<and> c \<in> set shift_codes \<or>
     r = Inr (Flt Bad_packet) \<and> c \<in> set nlattr_codes"

lemma plain_stepI:
  "c \<notin> {BPF_S_RET_K, BPF_S_RET_A} \<Longrightarrow> plain_step c st (continue (st\<lparr>acc := a\<rparr>))"
  "c \<notin> {BPF_S_RET_K, BPF_S_RET_A} \<Longrightarrow> plain_step c st (continue (st\<lparr>idx := x\<rparr>))"
  "c \<notin> {BPF_S_RET_K, BPF_S_RET_A} \<Longrightarrow> plain_step c st (alu st a)"
  "plain_step c st (Inr (Ret v))"
  "c \<in> set shift_codes \<Longrightarrow> plain_step c st (shift_alu st a sh)"
  by (auto simp: plain_step_def alu_def shift_alu_def)

lemma plain_step_loads:
  assumes skb: "ctx_skb ctx = Some s" "skb_wf s" and "c \<notin> {BPF_S_RET_K, BPF_S_RET_A}"
  shows "0 \<le> sz \<Longrightarrow> plain_step c st (load_A ctx off sz st)"
    and "plain_step c st (load_msh ctx off st)"
    and "c \<in> set nlattr_codes \<Longrightarrow> plain_step c st (exec_nlattr s st)"
    and "c \<in> set nlattr_codes \<Longrightarrow> plain_step c st (exec_nlattr_nest s st)"
  using load_A_cases [OF skb, of sz off st] load_msh_cases [OF skb, of off st]
    nlattr_cases [of s st] assms(3)
  by (auto simp: plain_step_def)

lemma exec_insn_plain:
  assumes skb: "ctx_skb ctx = Some s" "skb_wf s"
    and c: "bpf_s_of (sf_code f) = Some c"
    and "c \<notin> mem_insns \<union> cond_jumps \<union> {BPF_S_JMP_JA, BPF_S_ANC_SECCOMP_LD_W}"
  shows "plain_step c st (exec_insn ctx f st)"
  using assms(4)
  by (cases c)
     (simp_all add: exec_insn_def c exec_alu_jmp_def exec_load_store_def exec_anc_def Let_def
       with_skb_def skb plain_stepI plain_step_loads [OF skb] split: option.split)

subsection \<open>Runs of an accepted program\<close>

text \<open>
  The program counter is at the position the checker's loop has reached and the cells its mask
  allows are written, or it is ahead and the cells of the mask recorded for it are.
\<close>

definition ahead :: "sock_filter list \<Rightarrow> nat \<Rightarrow> u16 list \<Rightarrow> u16 \<Rightarrow> bpf_state \<Rightarrow> bool" where
  "ahead prog pc masks m st \<longleftrightarrow>
     bpc st < length prog \<and>
     (bpc st = pc \<and> covers (cells st) (m AND masks ! pc) \<or>
      pc < bpc st \<and> covers (cells st) (masks ! bpc st))"

text \<open>
  The interface between the checked program and what it runs on: in a good environment, every
  instruction that is allowed there and neither touches the scratch cells nor jumps either goes on,
  returns, or faults in one of the two ways the checker leaves open. Socket filters and seccomp
  filters are the two providers; the soundness of the checker is proved once for both.
\<close>

locale filter_env =
  fixes env_ok :: "bpf_ctx \<Rightarrow> bool"
    and allowed :: "sock_filter \<Rightarrow> bool"
  assumes plain: "env_ok ctx \<Longrightarrow> allowed f \<Longrightarrow> bpf_s_of (sf_code f) = Some c \<Longrightarrow>
     c \<notin> mem_insns \<union> cond_jumps \<union> {BPF_S_JMP_JA} \<Longrightarrow> plain_step c st (exec_insn ctx f st)"
begin

lemma exec_insn_safe:
  assumes env: "env_ok ctx" "allowed f"
    and pc: "pc < length prog" "f = prog ! pc" "bpc st = pc"
    and ok: "insn_ok (length prog) pc f"
    and cls: "cls_insn f pc masks m = Val (masks', m')" "length masks = length prog"
    and cov: "covers (cells st) m"
  shows "insn_safe prog f pc masks' m' (exec_insn ctx f st)"
proof -
  obtain c where c: "bpf_s_of (sf_code f) = Some c"
    using ok by (auto simp: insn_ok_def split: option.splits)
  note u = uses_nth [OF pc(1), folded pc(2), OF c]
  have len: "length (cells st) = 16" using cov by (simp add: covers_def)
  consider (mem) "c \<in> mem_insns" | (ja) "c = BPF_S_JMP_JA" | (cond) "c \<in> cond_jumps"
    | (other) "c \<notin> mem_insns \<union> cond_jumps \<union> {BPF_S_JMP_JA}" by blast
  then show ?thesis
  proof cases
    case mem
    then have kk: "unat (sf_k f) < 16" using ok c by (auto simp: insn_ok_def)
    then obtain v where "c \<in> mem_loads \<Longrightarrow> cells st ! unat (sf_k f) = Some v"
      using cls(1) covers_load [OF cov kk] c mem
      by (auto simp: cls_insn_def cell_bit_lt split: if_splits)
    then show ?thesis
      using mem cls(1) kk len cov pc(3) covers_store [OF cov kk]
      by (auto simp: c exec_insn_def exec_alu_jmp_def exec_load_store_def load_cell_def store_cell_def
          cls_insn_def cell_bit_lt split: if_splits intro!: insn_safe_continue)
  next
    case ja
    then have t: "pc + 1 + unat (sf_k f) < length prog" using ok c by (auto simp: insn_ok_def)
    then have "covers (cells st) (masks' ! (pc + 1 + unat (sf_k f)))"
      using cls cov ja c by (auto simp: cls_insn_def mask_and_Val covers_and)
    then show ?thesis
      using ja t pc(3) by (auto simp: c exec_insn_def exec_alu_jmp_def intro!: insn_safe_jump)
  next
    case cond
    then have t: "pc + 1 + unat (sf_jt f) < length prog" "pc + 1 + unat (sf_jf f) < length prog"
      using ok c by (auto simp: insn_ok_def)
    have cv: "covers (cells st) (masks' ! (pc + 1 + unat (sf_jt f)))"
        "covers (cells st) (masks' ! (pc + 1 + unat (sf_jf f)))"
      using cls cov cond c t
      by (auto simp: cls_insn_def mask_and_Val covers_and nth_list_update)
    have nr: "c \<notin> {BPF_S_RET_K, BPF_S_RET_A}" using cond by auto
    have "insn_safe prog f pc masks' m' (cond_jump st f b)" for b
      unfolding cond_jump_def using t cv pc(3) nr c by (intro insn_safe_jump) auto
    then show ?thesis
      using cond by (auto simp: c exec_insn_def exec_alu_jmp_def)
  next
    case other
    then have "plain_step c st (exec_insn ctx f st)"
      by (rule plain [OF env c])
    moreover have "masks' = masks" "m' = m" using cls(1) other c by (auto simp: cls_insn_def)
    ultimately show ?thesis
      using cov pc(3) u c by (auto simp: plain_step_def intro!: insn_safe_continue)
  qed
qed

lemma cls_loop_sound:
  assumes env: "env_ok ctx" "list_all allowed prog"
    and ok: "\<And>i. i < length prog \<Longrightarrow> insn_ok (length prog) i (prog ! i)"
    and ret: "bpf_s_of (sf_code (prog ! (length prog - 1))) \<in> {Some BPF_S_RET_K, Some BPF_S_RET_A}"
    and "cls_loop prog pc masks m = Val ()" and "length masks = length prog"
    and "ahead prog pc masks m st"
  shows "benign prog (bpf_run ctx prog st)"
  using assms(5-)
proof (induction "length prog - pc" arbitrary: pc masks m st)
  case 0
  then show ?case by (auto simp: ahead_def)
next
  case (Suc n)
  have pc: "pc < length prog" using Suc.hyps(2) by simp
  obtain masks' m' where cls: "cls_insn (prog ! pc) pc masks (m AND masks ! pc) = Val (masks', m')"
      and rest: "cls_loop prog (pc + 1) masks' m' = Val ()"
    using Suc.prems(1) pc by (subst (asm) cls_loop.simps) auto
  note shr = cls_insn_shrinks [OF cls]
  have IH: "benign prog (bpf_run ctx prog st')" if "ahead prog (pc + 1) masks' m' st'" for st'
    using Suc.hyps(2) shr Suc.prems(2) that by (intro Suc.hyps(1) [OF _ rest]) auto
  show ?case
  proof (cases "bpc st = pc")
    case False
    have "covers (cells st) (masks' ! bpc st)" "pc < bpc st" "bpc st < length prog"
      using Suc.prems(2,3) shr False by (auto simp: ahead_def)
    then have "ahead prog (pc + 1) masks' m' st"
      by (cases "bpc st = pc + 1") (auto simp: ahead_def intro: covers_and)
    then show ?thesis by (rule IH)
  next
    case True
    have al: "allowed (prog ! pc)" using env(2) pc by (simp add: list_all_length)
    have cov: "covers (cells st) (m AND masks ! pc)"
      using Suc.prems(3) True by (simp add: ahead_def)
    have safe: "insn_safe prog (prog ! pc) pc masks' m' (exec_insn ctx (prog ! pc) st)"
      by (rule exec_insn_safe [OF env(1) al pc refl True ok [OF pc] cls Suc.prems(2) cov])
    have run: "bpf_run ctx prog st =
        (case exec_insn ctx (prog ! pc) st of Inl st' \<Rightarrow> bpf_run ctx prog st' | Inr r \<Rightarrow> r)"
      using pc True by (subst bpf_run.simps) simp
    show ?thesis
    proof (cases "exec_insn ctx (prog ! pc) st")
      case (Inr r)
      then show ?thesis using safe by (simp add: run insn_safe_def)
    next
      case (Inl st')
      have "pc \<noteq> length prog - 1" using safe Inl ret by (auto simp: insn_safe_def)
      then have "ahead prog (pc + 1) masks' m' st'"
        using safe Inl pc
        by (cases "bpc st' = pc + 1") (auto simp: insn_safe_def ahead_def intro: covers_and)
      then show ?thesis using Inl by (simp add: run IH)
    qed
  qed
qed

lemma run_sound:
  assumes env: "env_ok ctx" "list_all allowed prog"
    and ok: "\<And>i. i < length prog \<Longrightarrow> insn_ok (length prog) i (prog ! i)"
    and ret: "bpf_s_of (sf_code (prog ! (length prog - 1))) \<in> {Some BPF_S_RET_K, Some BPF_S_RET_A}"
    and cls: "cls_loop prog 0 (replicate (length prog) (- 1)) 0 = Val ()" and "prog \<noteq> []"
  shows "benign prog (sk_run_filter ctx prog)"
proof -
  have "ahead prog 0 (replicate (length prog) (- 1)) 0
      \<lparr>acc = 0, idx = 0, cells = replicate BPF_MEMWORDS None, bpc = 0\<rparr>"
    using assms(6) by (simp add: ahead_def covers_def)
  then show ?thesis
    unfolding sk_run_filter_def
    by (intro cls_loop_sound [OF env ok ret cls]) auto
qed

end

definition sock_env :: "bpf_ctx \<Rightarrow> bool" where
  "sock_env ctx \<longleftrightarrow> (case ctx_skb ctx of None \<Rightarrow> False | Some s \<Rightarrow> skb_wf s)"

interpretation sock: filter_env sock_env sock_insn
  by unfold_locales
     (auto simp: sock_env_def sock_insn_def split: option.splits intro!: exec_insn_plain)

lemma sk_chk_filter_Val:
  assumes "sk_chk_filter alloc prog = Val prog'"
  shows "prog' \<noteq> []" "length prog' = length prog" "length prog \<le> BPF_MAXINSNS"
    and "list_all sock_insn prog'"
    and "\<forall>i < length prog'. insn_ok (length prog') i (prog' ! i)"
    and "bpf_s_of (sf_code (prog' ! (length prog' - 1))) \<in> {Some BPF_S_RET_K, Some BPF_S_RET_A}"
    and "cls_loop prog' 0 (replicate (length prog') (- 1)) 0 = Val ()"
proof -
  have len: "0 < length prog" "length prog \<le> BPF_MAXINSNS"
      and chk: "chk_insns (length prog) 0 prog = Val prog'"
      and ret: "bpf_s_of (sf_code (prog' ! (length prog - 1))) \<in> {Some BPF_S_RET_K, Some BPF_S_RET_A}"
      and cls: "cls_loop prog' 0 (replicate (length prog') (- 1)) 0 = Val ()"
    using assms by (auto simp: sk_chk_filter_def Let_def check_load_and_stores_def split: if_splits)
  have ok: "length prog' = length prog" "list_all sock_insn prog'"
      "\<forall>i < length prog'. insn_ok (length prog') i (prog' ! i)"
    using chk_insns_ok [OF chk] len by auto
  show "prog' \<noteq> []" "length prog' = length prog" "length prog \<le> BPF_MAXINSNS" "list_all sock_insn prog'"
    "bpf_s_of (sf_code (prog' ! (length prog' - 1))) \<in> {Some BPF_S_RET_K, Some BPF_S_RET_A}"
    "cls_loop prog' 0 (replicate (length prog') (- 1)) 0 = Val ()"
    "\<forall>i < length prog'. insn_ok (length prog') i (prog' ! i)"
    using ok ret cls len by auto
qed

lemma sk_chk_filter_sound:
  assumes "sk_chk_filter alloc prog = Val prog'" and "sock_env ctx"
  shows "benign prog' (sk_run_filter ctx prog')"
  using sk_chk_filter_Val [OF assms(1)] assms(2) by (intro sock.run_sound) auto

subsection \<open>Properties\<close>

text \<open>
  C1. A program accepted by \<open>sk_chk_filter\<close> runs to a return value on every well-formed packet: it
  never leaves the program, never touches a scratch cell outside the array and never reads one that
  was not written. The two faults the checker does not exclude are a shift by 32 or more, in a
  program with a shift instruction, and an attribute search outside the packet, in a program with one
  of the two netlink attribute instructions.
\<close>

theorem accepted_filter_runs:
  assumes "sk_chk_filter alloc prog = Val prog'" and "ctx_skb ctx = Some s" and "skb_wf s"
  shows "case sk_run_filter ctx prog' of
           Ret v \<Rightarrow> True
         | Flt f \<Rightarrow> f = Shift_range \<and> uses prog' shift_codes \<or> f = Bad_packet \<and> uses prog' nlattr_codes"
  using sk_chk_filter_sound [OF assms(1), of ctx] assms(2,3) by (simp add: sock_env_def benign_def)

definition sample_ctx :: "sk_buff \<Rightarrow> bpf_ctx" where
  "sample_ctx s = \<lparr>ctx_skb = Some s, smp_processor_id = 0, seccomp_load = (\<lambda>k. Trap)\<rparr>"

definition insn :: "u16 \<Rightarrow> u8 \<Rightarrow> u8 \<Rightarrow> u32 \<Rightarrow> sock_filter" where
  "insn c jt jf k = \<lparr>sf_code = c, sf_jt = jt, sf_jf = jf, sf_k = k\<rparr>"

definition sample_prog :: "sock_filter list" where
  "sample_prog = [insn (BPF_LD OR BPF_B OR BPF_ABS) 0 0 2, insn BPF_ST 0 0 3,
     insn (BPF_JMP OR BPF_JEQ OR BPF_K) 1 0 3, insn (BPF_RET OR BPF_K) 0 0 0,
     insn (BPF_LD OR BPF_MEM) 0 0 3, insn (BPF_RET OR BPF_A) 0 0 0]"

definition sample_checked :: "sock_filter list" where
  "sample_checked = [insn (bpf_s_code BPF_S_LD_B_ABS) 0 0 2, insn (bpf_s_code BPF_S_ST) 0 0 3,
     insn (bpf_s_code BPF_S_JMP_JEQ_K) 1 0 3, insn (bpf_s_code BPF_S_RET_K) 0 0 0,
     insn (bpf_s_code BPF_S_LD_MEM) 0 0 3, insn (bpf_s_code BPF_S_RET_A) 0 0 0]"

lemma sample_chk: "sk_chk_filter True sample_prog = Val sample_checked"
  by (simp add: sk_chk_filter_def sample_prog_def sample_checked_def insn_def chk_insn_def codes_def
      codes_entries_def codes_size_def ancillary_def ancillary_codes_def check_load_and_stores_def
      cls_loop.simps cls_insn_def mask_and_def cell_bit_def Let_def)

theorem accepted_filter_runs_witness:
  "sk_chk_filter True sample_prog = Val sample_checked \<and>
   (\<exists>v. sk_run_filter (sample_ctx sample_skb) sample_checked = Ret v)"
proof -
  have "skb_wf sample_skb" by (simp add: sample_skb_def frag_wf_def)
  moreover have "\<not> uses sample_checked shift_codes" "\<not> uses sample_checked nlattr_codes"
    by (simp_all add: uses_def sample_checked_def insn_def)
  ultimately show ?thesis
    using accepted_filter_runs [OF sample_chk, of "sample_ctx sample_skb" sample_skb] sample_chk
    by (auto simp: sample_ctx_def split: bpf_result.splits)
qed

definition nlattr_prog :: "u32 \<Rightarrow> u32 \<Rightarrow> sock_filter list" where
  "nlattr_prog a k = [insn (BPF_LD OR BPF_IMM) 0 0 a, insn (BPF_LD OR BPF_B OR BPF_ABS) 0 0 k,
     insn (BPF_RET OR BPF_A) 0 0 0]"

definition nlattr_checked :: "u32 \<Rightarrow> bpf_s \<Rightarrow> u32 \<Rightarrow> sock_filter list" where
  "nlattr_checked a c k = [insn (bpf_s_code BPF_S_LD_IMM) 0 0 a, insn (bpf_s_code c) 0 0 k,
     insn (bpf_s_code BPF_S_RET_A) 0 0 0]"

lemma nlattr_chk:
  "sk_chk_filter True (nlattr_prog a 0xfffff00c) = Val (nlattr_checked a BPF_S_ANC_NLATTR 0xfffff00c)"
  "sk_chk_filter True (nlattr_prog a 0xfffff010) = Val (nlattr_checked a BPF_S_ANC_NLATTR_NEST 0xfffff010)"
  by (simp_all add: sk_chk_filter_def nlattr_prog_def nlattr_checked_def insn_def chk_insn_def codes_def
      codes_entries_def codes_size_def ancillary_def ancillary_codes_def check_load_and_stores_def
      cls_loop.simps cls_insn_def Let_def)

lemmas run_eval = sk_run_filter_def bpf_run.simps exec_insn_def exec_defs Let_def insn_def

definition short_skb :: "u8 list \<Rightarrow> sk_buff" where
  "short_skb bs = Sk_buff (length bs) 0 bs 0 (length bs) [] [] sample_info"

text \<open>
  C40. The second of these faults is real: the guard of \<open>BPF_S_ANC_NLATTR\<close> compares with
  \<open>skb->len - sizeof(struct nlattr)\<close>, which wraps for packets shorter than a header. An accepted program reads
  far outside a two-byte packet.
\<close>

theorem nlattr_guard_wraps:
  "sk_chk_filter True (nlattr_prog 0x80000004 0xfffff00c) =
     Val (nlattr_checked 0x80000004 BPF_S_ANC_NLATTR 0xfffff00c) \<and>
   skb_wf (short_skb [0, 0]) \<and>
   sk_run_filter (sample_ctx (short_skb [0, 0])) (nlattr_checked 0x80000004 BPF_S_ANC_NLATTR 0xfffff00c) =
     Flt Bad_packet"
proof -
  have "nla_find [0, 0] 2147483652 2147483646 0 = Trap"
    by (simp add: nla_find_def nla_for_each_attr.simps nla_ok_def rd_u16_def rd_bytes_def)
  then show ?thesis
    by (simp add: nlattr_chk run_eval nlattr_checked_def sample_ctx_def short_skb_def with_skb_def
        exec_nlattr_def skb_is_nonlinear_def linear_bytes_def seg_def found_attr_def)
qed

text \<open>
  The guard of \<open>BPF_S_ANC_NLATTR_NEST\<close> on the outer attribute's length subtracts in the wrong order
  (\<open>A - skb->len\<close>), so an outer attribute that claims to be longer than the packet is searched: an
  accepted program reads outside a four-byte packet.
\<close>

theorem nlattr_nest_guard_swapped:
  "sk_chk_filter True (nlattr_prog 0 0xfffff010) = Val (nlattr_checked 0 BPF_S_ANC_NLATTR_NEST 0xfffff010) \<and>
   skb_wf (short_skb [200, 0, 1, 0]) \<and>
   sk_run_filter (sample_ctx (short_skb [200, 0, 1, 0])) (nlattr_checked 0 BPF_S_ANC_NLATTR_NEST 0xfffff010) =
     Flt Bad_packet"
proof -
  have "nla_find_nested [200, 0, 1, 0] 0 0 = Trap"
    by (simp add: nla_find_nested_def nla_find_def nla_for_each_attr.simps nla_ok_def rd_u16_def rd_bytes_def
        nla_data_def nla_len_def seg_def)
  then show ?thesis
    by (simp add: nlattr_chk run_eval nlattr_checked_def sample_ctx_def short_skb_def with_skb_def
        exec_nlattr_nest_def skb_is_nonlinear_def linear_bytes_def seg_def found_attr_def rd_u16_def rd_bytes_def)
qed

end
