(* ===== verification/Seccomp.thy ===== *)
theory Seccomp
  imports Bpf_Check
begin

text \<open>
  Secure computing (\<open>kernel/seccomp.c\<close>, \<open>include/linux/seccomp.h\<close>): system call filters are socket
  filter programs, accepted by \<open>sk_chk_filter\<close> and then rewritten so that their loads read the
  system call's data. A task carries a chain of filters, the newest first; a system call runs all of
  them and takes the least permissive action.

  Shown: a program accepted for seccomp never touches a packet and never reads outside the system
  call's data; the action of a chain is the least of its filters' actions; attaching a filter never
  makes a task more permissive; the mode of a task is never changed once set; reference counts of the
  shared filter tree stay exact.
\<close>

subsection \<open>Return values and the data a filter sees\<close>

abbreviation (input) SECCOMP_RET_KILL :: u32 where "SECCOMP_RET_KILL \<equiv> 0x00000000"
abbreviation (input) SECCOMP_RET_TRAP :: u32 where "SECCOMP_RET_TRAP \<equiv> 0x00030000"
abbreviation (input) SECCOMP_RET_ERRNO :: u32 where "SECCOMP_RET_ERRNO \<equiv> 0x00050000"
abbreviation (input) SECCOMP_RET_TRACE :: u32 where "SECCOMP_RET_TRACE \<equiv> 0x7ff00000"
abbreviation (input) SECCOMP_RET_ALLOW :: u32 where "SECCOMP_RET_ALLOW \<equiv> 0x7fff0000"
abbreviation (input) SECCOMP_RET_ACTION :: u32 where "SECCOMP_RET_ACTION \<equiv> 0x7fff0000"
abbreviation (input) SECCOMP_RET_DATA :: u32 where "SECCOMP_RET_DATA \<equiv> 0x0000ffff"

abbreviation (input) seccomp_data_size :: nat where "seccomp_data_size \<equiv> 64"

text \<open>The system call of the current task, as the architecture's accessors give it.\<close>

record syscall_info =
  syscall_nr :: u32
  syscall_arch :: u32
  syscall_ip :: u64
  syscall_args :: "nat \<Rightarrow> u64"

definition get_u32 :: "u64 \<Rightarrow> int \<Rightarrow> u32" where
  "get_u32 data index = (if index = 0 then ucast data else ucast (drop_bit 32 data))"

definition seccomp_bpf_load :: "syscall_info \<Rightarrow> int \<Rightarrow> u32 outcome" where
  "seccomp_bpf_load sc off =
     (if off = 0 then Val (syscall_nr sc)
      else if off = 4 then Val (syscall_arch sc)
      else if off \<ge> 16 \<and> off < 64 then
        (let arg = (off - 16) div 8; index = (if off mod 8 \<noteq> 0 then 1 else 0) in
         Val (get_u32 (syscall_args sc (nat arg)) index))
      else if off = 8 then Val (get_u32 (syscall_ip sc) 0)
      else if off = 12 then Val (get_u32 (syscall_ip sc) 1)
      else Trap)"

subsection \<open>Checking and rewriting a program for seccomp\<close>

definition seccomp_allowed :: "bpf_s list" where
  "seccomp_allowed =
     [BPF_S_RET_K, BPF_S_RET_A, BPF_S_ALU_ADD_K, BPF_S_ALU_ADD_X, BPF_S_ALU_SUB_K, BPF_S_ALU_SUB_X,
      BPF_S_ALU_MUL_K, BPF_S_ALU_MUL_X, BPF_S_ALU_DIV_X, BPF_S_ALU_AND_K, BPF_S_ALU_AND_X,
      BPF_S_ALU_OR_K, BPF_S_ALU_OR_X, BPF_S_ALU_LSH_K, BPF_S_ALU_LSH_X, BPF_S_ALU_RSH_K,
      BPF_S_ALU_RSH_X, BPF_S_ALU_NEG, BPF_S_LD_IMM, BPF_S_LDX_IMM, BPF_S_MISC_TAX, BPF_S_MISC_TXA,
      BPF_S_ALU_DIV_K, BPF_S_LD_MEM, BPF_S_LDX_MEM, BPF_S_ST, BPF_S_STX, BPF_S_JMP_JA,
      BPF_S_JMP_JEQ_K, BPF_S_JMP_JEQ_X, BPF_S_JMP_JGE_K, BPF_S_JMP_JGE_X, BPF_S_JMP_JGT_K,
      BPF_S_JMP_JGT_X, BPF_S_JMP_JSET_K, BPF_S_JMP_JSET_X]"

definition seccomp_check_insn :: "sock_filter \<Rightarrow> sock_filter outcome" where
  "seccomp_check_insn ftest =
     (let k = sf_k ftest in
      case bpf_s_of (sf_code ftest) of
        None \<Rightarrow> Err EINVAL
      | Some c \<Rightarrow>
          if c = BPF_S_LD_W_ABS then
            (if k \<ge> of_nat seccomp_data_size \<or> k AND 3 \<noteq> 0 then Err EINVAL
             else Val (ftest\<lparr>sf_code := bpf_s_code BPF_S_ANC_SECCOMP_LD_W\<rparr>))
          else if c = BPF_S_LD_W_LEN then
            Val (ftest\<lparr>sf_code := bpf_s_code BPF_S_LD_IMM, sf_k := of_nat seccomp_data_size\<rparr>)
          else if c = BPF_S_LDX_W_LEN then
            Val (ftest\<lparr>sf_code := bpf_s_code BPF_S_LDX_IMM, sf_k := of_nat seccomp_data_size\<rparr>)
          else if c \<in> set seccomp_allowed then Val ftest
          else Err EINVAL)"

primrec seccomp_check_filter :: "sock_filter list \<Rightarrow> sock_filter list outcome" where
  "seccomp_check_filter [] = Val []"
| "seccomp_check_filter (f # fs) =
     bind_outcome (seccomp_check_insn f) (\<lambda>f'.
     bind_outcome (seccomp_check_filter fs) (\<lambda>fs'. Val (f' # fs')))"

subsection \<open>Running the filters of a task\<close>

text \<open>
  A filter with its \<open>prev\<close> pointers is the list of programs it heads, the newest first. A run of one
  program that faults is a fault of the whole evaluation.
\<close>

definition seccomp_ctx :: "u32 \<Rightarrow> syscall_info \<Rightarrow> bpf_ctx" where
  "seccomp_ctx cpu sc =
     \<lparr>ctx_skb = None, smp_processor_id = cpu, seccomp_load = (\<lambda>k. seccomp_bpf_load sc (sint k))\<rparr>"

fun run_chain :: "bpf_ctx \<Rightarrow> sock_filter list list \<Rightarrow> u32 \<Rightarrow> bpf_result" where
  "run_chain ctx [] r = Ret r"
| "run_chain ctx (f # fs) r =
     (case sk_run_filter ctx f of
        Flt e \<Rightarrow> Flt e
      | Ret cur_ret \<Rightarrow>
          run_chain ctx fs
            (if cur_ret AND SECCOMP_RET_ACTION < r AND SECCOMP_RET_ACTION then cur_ret else r))"

definition seccomp_run_filters :: "bpf_ctx \<Rightarrow> sock_filter list list \<Rightarrow> bpf_result" where
  "seccomp_run_filters ctx filters =
     (if filters = [] then Ret SECCOMP_RET_KILL
      else run_chain ctx filters SECCOMP_RET_ALLOW)"

subsection \<open>Task state and entry points\<close>

record task_seccomp =
  sec_mode :: u64
  sec_filter :: "sock_filter list list"
  no_new_privs :: bool

abbreviation (input) SECCOMP_MODE_DISABLED :: u64 where "SECCOMP_MODE_DISABLED \<equiv> 0"
abbreviation (input) SECCOMP_MODE_STRICT :: u64 where "SECCOMP_MODE_STRICT \<equiv> 1"
abbreviation (input) SECCOMP_MODE_FILTER :: u64 where "SECCOMP_MODE_FILTER \<equiv> 2"

abbreviation (input) MAX_INSNS_PER_PATH :: nat where "MAX_INSNS_PER_PATH \<equiv> 2 ^ 18 div 8"

text \<open>
  What the kernel around an attach decides: the capability check (CAP_SYS_ADMIN), the two
  allocations, and whether the program can be read from user memory.
\<close>

record attach_env =
  capable_admin :: bool
  kzalloc_ok :: bool
  masks_ok :: bool
  user_ok :: bool

definition seccomp_attach_filter ::
  "attach_env \<Rightarrow> task_seccomp \<Rightarrow> sock_filter list \<Rightarrow> task_seccomp outcome" where
  "seccomp_attach_filter env t fprog =
     (let len = length fprog;
          total_insns = len + sum_list (map (\<lambda>f. length f + 4) (sec_filter t)) in
      if len = 0 \<or> len > BPF_MAXINSNS then Err EINVAL
      else if total_insns > MAX_INSNS_PER_PATH then Err ENOMEM
      else if \<not> no_new_privs t \<and> \<not> capable_admin env then Err EACCES
      else if \<not> kzalloc_ok env then Err ENOMEM
      else if \<not> user_ok env then Err EFAULT
      else
        bind_outcome (sk_chk_filter (masks_ok env) fprog) (\<lambda>insns.
        bind_outcome (seccomp_check_filter insns) (\<lambda>insns.
        Val (t\<lparr>sec_filter := insns # sec_filter t\<rparr>))))"

text \<open>\<open>user\<close>: the \<open>sock_fprog\<close> read from user memory, \<open>None\<close> when the copy fails.\<close>

definition seccomp_attach_user_filter ::
  "attach_env \<Rightarrow> task_seccomp \<Rightarrow> sock_filter list option \<Rightarrow> task_seccomp outcome" where
  "seccomp_attach_user_filter env t user =
     (case user of None \<Rightarrow> Err EFAULT | Some fprog \<Rightarrow> seccomp_attach_filter env t fprog)"

definition prctl_set_seccomp ::
  "attach_env \<Rightarrow> task_seccomp \<Rightarrow> u64 \<Rightarrow> sock_filter list option \<Rightarrow> task_seccomp outcome" where
  "prctl_set_seccomp env t seccomp_mode user =
     (if sec_mode t \<noteq> 0 \<and> sec_mode t \<noteq> seccomp_mode then Err EINVAL
      else if seccomp_mode = SECCOMP_MODE_STRICT then Val (t\<lparr>sec_mode := seccomp_mode\<rparr>)
      else if seccomp_mode = SECCOMP_MODE_FILTER then
        bind_outcome (seccomp_attach_user_filter env t user)
          (\<lambda>t. Val (t\<lparr>sec_mode := seccomp_mode\<rparr>))
      else Err EINVAL)"

text \<open>The system calls of mode 1 on x86-64 and for 32-bit tasks there; both arrays end with 0.\<close>

definition mode1_syscalls :: "int list" where
  "mode1_syscalls = [0, 1, 60, 15, 0]"

definition mode1_syscalls_32 :: "int list" where
  "mode1_syscalls_32 = [3, 4, 1, 119, 0]"

text \<open>\<open>do { if (*syscall == this_syscall) return 0; } while (*++syscall)\<close>\<close>

fun mode1_lookup :: "int list \<Rightarrow> int \<Rightarrow> bool" where
  "mode1_lookup [] this = False"
| "mode1_lookup (s # ss) this =
     (if s = this then True
      else case ss of [] \<Rightarrow> False | s' # _ \<Rightarrow> if s' = 0 then False else mode1_lookup ss this)"

text \<open>
  The ways \<open>__secure_computing\<close> ends: the call goes on, it is skipped (with a return value set, a
  SIGSYS sent, or silently), or the task exits with a signal. \<open>Sc_bug\<close> is a \<open>BUG\<close> or a fault of a run.
\<close>

datatype sc_verdict =
    Sc_proceed | Sc_proceed_traced u32 | Sc_skip_errno u32 | Sc_skip_sigsys u32 | Sc_skip
  | Sc_exit_kill | Sc_exit_sigsys | Sc_bug

record sc_env =
  compat_task :: bool
  tracer :: bool
  fatal_pending :: bool

definition secure_computing :: "sc_env \<Rightarrow> bpf_ctx \<Rightarrow> task_seccomp \<Rightarrow> int \<Rightarrow> sc_verdict" where
  "secure_computing env ctx t this_syscall =
     (if sec_mode t = SECCOMP_MODE_STRICT then
        (if mode1_lookup (if compat_task env then mode1_syscalls_32 else mode1_syscalls) this_syscall
         then Sc_proceed else Sc_exit_kill)
      else if sec_mode t = SECCOMP_MODE_FILTER then
        (case seccomp_run_filters ctx (sec_filter t) of
           Flt e \<Rightarrow> Sc_bug
         | Ret r \<Rightarrow>
            (let data = r AND SECCOMP_RET_DATA; action = r AND SECCOMP_RET_ACTION in
             if action = SECCOMP_RET_ERRNO then Sc_skip_errno data
             else if action = SECCOMP_RET_TRAP then Sc_skip_sigsys data
             else if action = SECCOMP_RET_TRACE then
               (if \<not> tracer env then Sc_skip
                else if fatal_pending env then Sc_exit_sigsys
                else Sc_proceed_traced data)
             else if action = SECCOMP_RET_ALLOW then Sc_proceed
             else Sc_exit_sigsys))
      else Sc_bug)"

subsection \<open>Lifetime of filters\<close>

text \<open>
  Filters are shared between tasks and form a tree through \<open>prev\<close>; \<open>usage\<close> counts the references.
  The heap is a list of slots, a pointer is a slot number.  \<open>usage\<close> is an \<open>atomic_t\<close> in the code; the model does not
  bound it, so it covers fewer than \<open>2 ^ 31\<close> references to one filter.
\<close>

record sc_node =
  usage :: int
  prev :: "nat option"

type_synonym sc_heap = "sc_node option list"

definition node :: "sc_heap \<Rightarrow> nat \<Rightarrow> sc_node option" where
  "node h a = (if a < length h then h ! a else None)"

definition get_seccomp_filter :: "sc_heap \<Rightarrow> nat option \<Rightarrow> sc_heap outcome" where
  "get_seccomp_filter h orig =
     (case orig of
        None \<Rightarrow> Val h
      | Some a \<Rightarrow>
         (case node h a of
            None \<Rightarrow> Trap
          | Some n \<Rightarrow> Val (h[a := Some (n\<lparr>usage := usage n + 1\<rparr>)])))"

lemma length_filter_update:
  assumes "a < length h"
  shows "length (filter P (h[a := y])) + (if P (h ! a) then 1 else 0) =
         length (filter P h) + (if P y then 1 else 0)"
  using assms
proof (induction h arbitrary: a)
  case Nil
  then show ?case by simp
next
  case (Cons x h)
  then show ?case by (cases a) auto
qed

function put_seccomp_filter :: "sc_heap \<Rightarrow> nat option \<Rightarrow> sc_heap outcome" where
  "put_seccomp_filter h None = Val h"
| "put_seccomp_filter h (Some a) =
     (case node h a of
        None \<Rightarrow> Trap
      | Some n \<Rightarrow>
          if usage n - 1 = 0 then put_seccomp_filter (h[a := None]) (prev n)
          else Val (h[a := Some (n\<lparr>usage := usage n - 1\<rparr>)]))"
  by pat_completeness auto

termination
proof (relation "measure (\<lambda>(h, p). length (filter (\<lambda>x. x \<noteq> None) h))")
  fix h a n
  assume "node h a = Some n"
  then show "((h[a := None], prev n), h, Some a) \<in> measure (\<lambda>(h, p). length (filter (\<lambda>x. x \<noteq> None) h))"
    using length_filter_update [of a h "\<lambda>x. x \<noteq> None" None] by (auto simp: node_def split: if_splits)
qed auto

text \<open>The new node of \<open>seccomp_attach_filter\<close>, in a free slot \<open>a\<close>: it takes over the task's reference.\<close>

definition attach_node :: "sc_heap \<Rightarrow> nat \<Rightarrow> nat option \<Rightarrow> sc_heap" where
  "attach_node h a old = h[a := Some \<lparr>usage = 1, prev = old\<rparr>]"

definition points_to :: "nat \<Rightarrow> sc_node option \<Rightarrow> bool" where
  "points_to a x = (case x of None \<Rightarrow> False | Some n \<Rightarrow> prev n = Some a)"

definition refs :: "nat option list \<Rightarrow> sc_heap \<Rightarrow> nat \<Rightarrow> nat" where
  "refs roots h a = count_list roots (Some a) + length (filter (points_to a) h)"

definition refs_exact :: "nat option list \<Rightarrow> sc_heap \<Rightarrow> bool" where
  "refs_exact roots h \<longleftrightarrow>
     (\<forall>a. node h a = None \<longrightarrow> refs roots h a = 0) \<and>
     (\<forall>a n. node h a = Some n \<longrightarrow> usage n = int (refs roots h a) \<and> 0 < refs roots h a)"

lemma refs_exactD:
  assumes "refs_exact roots h"
  shows "node h a = None \<Longrightarrow> refs roots h a = 0"
    and "node h a = Some n \<Longrightarrow> usage n = int (refs roots h a) \<and> 0 < refs roots h a"
  using assms by (auto simp: refs_exact_def)

lemma refs_exact_root_live:
  assumes "refs_exact roots h" and "Some a \<in> set roots"
  obtains n where "node h a = Some n" and "a < length h" and "h ! a = Some n"
proof -
  have "0 < count_list roots (Some a)" using assms(2) using count_list_0_iff [of roots "Some a"] by auto
  then have "refs roots h a \<noteq> 0" by (simp add: refs_def)
  then show ?thesis
    using refs_exactD(1) [OF assms(1), of a] that by (cases "node h a") (auto simp: node_def split: if_splits)
qed

lemma node_update: "node (h[a := y]) b = (if b = a \<and> a < length h then y else node h b)"
  by (auto simp: node_def)

lemma refs_update:
  assumes "a < length h"
  shows "refs roots (h[a := y]) b + (if points_to b (h ! a) then 1 else 0) =
         refs roots h b + (if points_to b y then 1 else 0)"
  using length_filter_update [OF assms, of "points_to b" y] by (simp add: refs_def)

lemma refs_set_usage:
  assumes "a < length h" and "h ! a = Some n"
  shows "refs roots (h[a := Some (n\<lparr>usage := u\<rparr>)]) b = refs roots h b"
  using refs_update [OF assms(1), of roots "Some (n\<lparr>usage := u\<rparr>)" b] assms(2)
  by (simp add: points_to_def split: if_splits)

lemma refs_Cons: "refs (p # roots) h b = (if p = Some b then 1 else 0) + refs roots h b"
  by (simp add: refs_def)

lemma refs_exact_null: "refs_exact (None # roots) h = refs_exact roots h"
  by (simp add: refs_exact_def refs_Cons)

lemma get_exact:
  assumes ex: "refs_exact roots h" and "p \<in> set roots"
  shows "\<exists>h'. get_seccomp_filter h p = Val h' \<and> refs_exact (p # roots) h'"
proof (cases p)
  case None
  then show ?thesis using ex by (simp add: get_seccomp_filter_def refs_exact_null)
next
  case (Some a)
  obtain n where n: "node h a = Some n" "a < length h" "h ! a = Some n"
    using refs_exact_root_live [OF ex] assms(2) Some by metis
  let ?y = "Some (n\<lparr>usage := usage n + 1\<rparr>)"
  have "refs_exact (Some a # roots) (h[a := ?y])"
    using ex n by (auto simp: refs_exact_def node_update refs_Cons refs_set_usage [OF n(2,3)])
  then show ?thesis using Some n by (simp add: get_seccomp_filter_def)
qed

lemma put_exact:
  "refs_exact (p # roots) h \<Longrightarrow> \<exists>h'. put_seccomp_filter h p = Val h' \<and> refs_exact roots h'"
proof (induction h p arbitrary: rule: put_seccomp_filter.induct)
  case (1 h)
  then show ?case by (simp add: refs_exact_null)
next
  case (2 h a)
  obtain n where n: "node h a = Some n" "a < length h" "h ! a = Some n"
    using refs_exact_root_live [OF "2.prems", of a] by auto
  show ?case
  proof (cases "usage n - 1 = 0")
    case False
    let ?y = "Some (n\<lparr>usage := usage n - 1\<rparr>)"
    have "refs_exact roots (h[a := ?y])"
      using "2.prems" n False
      by (auto simp: refs_exact_def node_update refs_Cons refs_set_usage [OF n(2,3)] split: if_splits)
    then show ?thesis using n False by simp
  next
    case True
    have upd: "refs (prev n # roots) (h[a := None]) b = refs roots h b" for b
      using refs_update [OF n(2), of roots None b] n(3) by (auto simp: points_to_def refs_Cons)
    have "refs_exact (prev n # roots) (h[a := None])"
      using "2.prems" n True
      by (auto simp: refs_exact_def node_update refs_Cons [of "Some a"] upd split: if_splits)
    then show ?thesis using "2.IH" [OF n(1) True] n True by simp
  qed
qed

lemma attach_exact:
  assumes ex: "refs_exact (old # roots) h" and free: "a < length h" "h ! a = None"
  shows "refs_exact (Some a # roots) (attach_node h a old)"
proof -
  let ?y = "Some \<lparr>usage = 1, prev = old\<rparr>"
  have upd: "refs (Some a # roots) (h[a := ?y]) b = (if b = a then 1 else 0) + refs (old # roots) h b" for b
    using refs_update [OF free(1), of roots ?y b] free(2) by (auto simp: points_to_def refs_Cons)
  have "refs (old # roots) h a = 0" using refs_exactD(1) [OF ex, of a] free by (simp add: node_def)
  then show ?thesis
    using ex free by (auto simp: attach_node_def refs_exact_def node_update upd)
qed

subsection \<open>Programs accepted for seccomp\<close>

definition sec_insn :: "sock_filter \<Rightarrow> bool" where
  "sec_insn f \<longleftrightarrow>
     (case bpf_s_of (sf_code f) of
        None \<Rightarrow> False
      | Some c \<Rightarrow> c \<in> set seccomp_allowed \<or>
          c = BPF_S_ANC_SECCOMP_LD_W \<and> sf_k f < 64 \<and> sf_k f AND 3 = 0)"

lemma mod4_small: "(x :: int) mod 4 = 0 \<Longrightarrow> 0 \<le> x \<Longrightarrow> 16 \<le> x \<or> x = 0 \<or> x = 4 \<or> x = 8 \<or> x = 12"
  by presburger

lemma seccomp_load_defined:
  assumes "(k :: u32) < 64" and "k AND 3 = 0"
  shows "\<exists>v. seccomp_bpf_load sc (sint k) = Val v"
proof -
  have "uint k < 64" using assms(1) by (simp add: word_less_def)
  moreover have "0 \<le> uint k" by simp
  ultimately have s: "sint k = uint k"
    using signed_take_bit_int_eq_self [of 31 "uint k"] by (simp add: sint_uint order_trans [of _ 0])
  have "k AND mask 2 = 0" using assms(2) by (simp add: mask_eq_exp_minus_1)
  then have "take_bit 2 k = 0" by (simp add: take_bit_eq_mask)
  then have "take_bit 2 (uint k) = 0" by (metis unsigned_0 unsigned_take_bit_eq)
  then have "uint k mod 4 = 0" by (simp add: take_bit_eq_mod)
  then have "uint k \<ge> 16 \<or> uint k \<in> {0, 4, 8, 12}"
    using \<open>0 \<le> uint k\<close> mod4_small [of "uint k"] by auto
  then show ?thesis using \<open>uint k < 64\<close> by (auto simp: seccomp_bpf_load_def s Let_def)
qed

lemma sec_insn_plain:
  assumes "sec_insn f" and c: "bpf_s_of (sf_code f) = Some c"
    and "c \<notin> mem_insns \<union> cond_jumps \<union> {BPF_S_JMP_JA}"
  shows "plain_step c st (exec_insn (seccomp_ctx cpu sc) f st)"
proof (cases "c = BPF_S_ANC_SECCOMP_LD_W")
  case True
  then obtain v where "seccomp_bpf_load sc (sint (sf_k f)) = Val v"
    using assms seccomp_load_defined by (auto simp: sec_insn_def seccomp_allowed_def)
  then show ?thesis
    using True by (simp add: exec_insn_def c exec_alu_jmp_def exec_load_store_def exec_anc_def Let_def
        seccomp_ctx_def plain_stepI)
next
  case False
  then have "c \<in> set seccomp_allowed" using assms by (simp add: sec_insn_def)
  then have "c \<in> {BPF_S_ALU_LSH_K, BPF_S_ALU_LSH_X, BPF_S_ALU_RSH_K, BPF_S_ALU_RSH_X, BPF_S_RET_K, BPF_S_RET_A, BPF_S_ALU_ADD_K, BPF_S_ALU_ADD_X,
      BPF_S_ALU_SUB_K, BPF_S_ALU_SUB_X, BPF_S_ALU_MUL_K, BPF_S_ALU_MUL_X, BPF_S_ALU_DIV_X, BPF_S_ALU_AND_K,
      BPF_S_ALU_AND_X, BPF_S_ALU_OR_K, BPF_S_ALU_OR_X, BPF_S_ALU_NEG, BPF_S_LD_IMM, BPF_S_LDX_IMM,
      BPF_S_MISC_TAX, BPF_S_MISC_TXA, BPF_S_ALU_DIV_K}"
    using assms(3) by (auto simp: seccomp_allowed_def)
  then show ?thesis
    unfolding exec_insn_def exec_alu_jmp_def exec_load_store_def c
    by (elim insertE emptyE; simp add: plain_stepI)
qed

interpretation sec: filter_env "\<lambda>ctx. \<exists>cpu sc. ctx = seccomp_ctx cpu sc" sec_insn
  by unfold_locales (auto intro!: sec_insn_plain)

lemma seccomp_check_insn_kept:
  assumes "seccomp_check_insn f = Val f'" and "insn_ok flen pc f"
  shows "sec_insn f'" and "insn_ok flen pc f'" and "cls_insn f' = cls_insn f"
    and "bpf_s_of (sf_code f) \<in> {Some BPF_S_RET_K, Some BPF_S_RET_A} \<Longrightarrow> sf_code f' = sf_code f"
  using assms
  by (auto simp: seccomp_check_insn_def Let_def sec_insn_def insn_ok_def cls_insn_def fun_eq_iff not_le
      seccomp_allowed_def split: option.splits if_splits)

lemma seccomp_check_filter_nth:
  "seccomp_check_filter fs = Val fs' \<Longrightarrow>
   length fs' = length fs \<and> (\<forall>i < length fs. seccomp_check_insn (fs ! i) = Val (fs' ! i))"
  by (induction fs arbitrary: fs') (auto simp: nth_Cons split: nat.splits)

lemma cls_loop_cong:
  assumes "length p = length q" and "\<And>i. i < length q \<Longrightarrow> cls_insn (p ! i) = cls_insn (q ! i)"
  shows "cls_loop p pc masks m = cls_loop q pc masks m"
proof (induction "length q - pc" arbitrary: pc masks m)
  case 0
  then show ?case using assms(1) by (simp add: cls_loop.simps)
next
  case (Suc n)
  then have "cls_loop p (Suc pc) = cls_loop q (Suc pc)" by (simp add: fun_eq_iff)
  moreover have "cls_insn (p ! pc) = cls_insn (q ! pc)" using assms(2) Suc.hyps(2) by simp
  ultimately show ?case using assms(1) by (simp add: cls_loop.simps [of p pc] cls_loop.simps [of q pc])
qed

lemma seccomp_check_filter_sound:
  assumes chk: "sk_chk_filter alloc prog = Val prog'" and sec: "seccomp_check_filter prog' = Val prog''"
  shows "(\<exists>v. sk_run_filter (seccomp_ctx cpu sc) prog'' = Ret v) \<or>
         sk_run_filter (seccomp_ctx cpu sc) prog'' = Flt Shift_range \<and> uses prog'' shift_codes"
proof -
  note v = sk_chk_filter_Val [OF chk]
  have len: "length prog'' = length prog'"
    and nth: "\<And>i. i < length prog' \<Longrightarrow> seccomp_check_insn (prog' ! i) = Val (prog'' ! i)"
    using seccomp_check_filter_nth [OF sec] by auto
  note kept = seccomp_check_insn_kept [OF nth v(5) [rule_format]]
  have all: "list_all sec_insn prog''" using kept(1) len by (auto simp: list_all_length)
  have "benign prog'' (sk_run_filter (seccomp_ctx cpu sc) prog'')"
  proof (rule sec.run_sound)
    show "\<exists>cpu' sc'. seccomp_ctx cpu sc = seccomp_ctx cpu' sc'" by blast
    show "list_all sec_insn prog''" by (rule all)
    show "prog'' \<noteq> []" using v(1) len by auto
    show "insn_ok (length prog'') i (prog'' ! i)" if "i < length prog''" for i
      using that kept(2) len by simp
    show "bpf_s_of (sf_code (prog'' ! (length prog'' - 1))) \<in> {Some BPF_S_RET_K, Some BPF_S_RET_A}"
      using v(1,6) kept(4) [of "length prog' - 1"] len by auto
    show "cls_loop prog'' 0 (replicate (length prog'') (- 1)) 0 = Val ()"
      using v(7) len cls_loop_cong [OF len] kept(3) by simp
  qed
  moreover have "\<not> uses prog'' nlattr_codes"
    using all by (auto simp: uses_def list_ex_iff list_all_iff sec_insn_def seccomp_allowed_def)
  ultimately show ?thesis by (auto simp: benign_def split: bpf_result.splits)
qed

subsection \<open>The action of a chain\<close>

definition action :: "u32 \<Rightarrow> u32" where
  "action r = r AND SECCOMP_RET_ACTION"

lemma action_le_allow: "action r \<le> SECCOMP_RET_ALLOW"
  by (simp add: action_def word_and_le1)

lemma run_chain_least:
  "run_chain ctx fs r = Ret v \<Longrightarrow>
   (\<forall>f \<in> set fs. \<exists>w. sk_run_filter ctx f = Ret w \<and> action v \<le> action w) \<and> action v \<le> action r \<and>
   (v = r \<or> (\<exists>f \<in> set fs. sk_run_filter ctx f = Ret v))"
proof (induction fs arbitrary: r)
  case Nil
  then show ?case by simp
next
  case (Cons f fs)
  then obtain w where w: "sk_run_filter ctx f = Ret w" by (auto split: bpf_result.splits)
  then have "run_chain ctx fs (if action w < action r then w else r) = Ret v"
    using Cons.prems by (simp add: action_def)
  from Cons.IH [OF this] show ?case
    using w by (auto split: if_splits)
qed

lemma seccomp_run_filters_least:
  assumes "seccomp_run_filters ctx fs = Ret v" and "fs \<noteq> []"
  shows "\<forall>f \<in> set fs. \<exists>w. sk_run_filter ctx f = Ret w \<and> action v \<le> action w"
    and "\<exists>f \<in> set fs. \<exists>w. sk_run_filter ctx f = Ret w \<and> action v = action w"
proof -
  note l = run_chain_least [of ctx fs SECCOMP_RET_ALLOW v]
  show *: "\<forall>f \<in> set fs. \<exists>w. sk_run_filter ctx f = Ret w \<and> action v \<le> action w"
    using assms l by (simp add: seccomp_run_filters_def)
  show "\<exists>f \<in> set fs. \<exists>w. sk_run_filter ctx f = Ret w \<and> action v = action w"
  proof (cases "v = SECCOMP_RET_ALLOW")
    case True
    then have "action v = SECCOMP_RET_ALLOW" by (simp add: action_def)
    then show ?thesis using * assms(2) action_le_allow by (metis antisym last_in_set)
  next
    case False
    then show ?thesis using assms l by (auto simp: seccomp_run_filters_def)
  qed
qed

lemma seccomp_run_filters_mono:
  assumes "seccomp_run_filters ctx (new @ fs) = Ret v" and "fs \<noteq> []"
  shows "\<exists>w. seccomp_run_filters ctx fs = Ret w \<and> action v \<le> action w"
proof -
  have run: "\<exists>v. run_chain ctx fs r = Ret v" if "\<forall>f \<in> set fs. \<exists>w. sk_run_filter ctx f = Ret w" for fs r
    using that by (induction fs arbitrary: r) auto
  note all = seccomp_run_filters_least(1) [OF assms(1)]
  then have "\<forall>f \<in> set fs. \<exists>w. sk_run_filter ctx f = Ret w" using assms(2) by auto
  then obtain w where w: "seccomp_run_filters ctx fs = Ret w"
    using run assms(2) by (metis seccomp_run_filters_def)
  obtain f x where f: "f \<in> set fs" "sk_run_filter ctx f = Ret x" "action w = action x"
    using seccomp_run_filters_least(2) [OF w assms(2)] by auto
  then have "action v \<le> action w" using all by force
  then show ?thesis using w by simp
qed

subsection \<open>Modes\<close>

lemma seccomp_attach_filter_Val:
  assumes "seccomp_attach_filter env t fprog = Val t'"
  obtains prog prog' where "sk_chk_filter (masks_ok env) fprog = Val prog"
    and "seccomp_check_filter prog = Val prog'" and "t' = t\<lparr>sec_filter := prog' # sec_filter t\<rparr>"
    and "no_new_privs t \<or> capable_admin env"
  using assms by (auto simp: seccomp_attach_filter_def Let_def split: if_splits)

lemma prctl_set_seccomp_Val:
  assumes "prctl_set_seccomp env t m user = Val t'"
  shows "sec_mode t' = m" and "m \<in> {SECCOMP_MODE_STRICT, SECCOMP_MODE_FILTER}"
    and "sec_mode t \<in> {SECCOMP_MODE_DISABLED, m}"
    and "\<exists>new. sec_filter t' = new @ sec_filter t" and "m = SECCOMP_MODE_FILTER \<Longrightarrow> sec_filter t' \<noteq> []"
  using assms
  by (auto simp: prctl_set_seccomp_def seccomp_attach_user_filter_def split: if_splits option.splits
      elim!: seccomp_attach_filter_Val)

text \<open>The life of a task: any sequence of successful \<open>prctl\<close> calls.\<close>

inductive sec_reach :: "task_seccomp \<Rightarrow> task_seccomp \<Rightarrow> bool" where
  sec_refl: "sec_reach t t"
| sec_prctl: "sec_reach t t' \<Longrightarrow> prctl_set_seccomp env t' m user = Val t'' \<Longrightarrow> sec_reach t t''"

lemma sec_reach_grows:
  "sec_reach t t' \<Longrightarrow> sec_mode t \<noteq> 0 \<Longrightarrow>
   sec_mode t' = sec_mode t \<and> (\<exists>new. sec_filter t' = new @ sec_filter t)"
proof (induction rule: sec_reach.induct)
  case (sec_refl t)
  then show ?case by simp
next
  case (sec_prctl t t' env m user t'')
  then obtain new where "sec_mode t' = sec_mode t" "sec_filter t' = new @ sec_filter t" by auto
  moreover obtain new' where "sec_filter t'' = new' @ sec_filter t'"
    using prctl_set_seccomp_Val(4) [OF sec_prctl.hyps(2)] by auto
  ultimately show ?case
    using prctl_set_seccomp_Val(1,3) [OF sec_prctl.hyps(2)] sec_prctl.prems by auto
qed

lemma secure_computing_filter_proceed:
  assumes "sec_mode t = SECCOMP_MODE_FILTER"
  shows "secure_computing env ctx t nr = Sc_proceed \<longleftrightarrow>
         (\<exists>v. seccomp_run_filters ctx (sec_filter t) = Ret v \<and> action v = SECCOMP_RET_ALLOW)"
  using assms by (auto simp: secure_computing_def action_def Let_def split: bpf_result.splits)

text \<open>The verdicts after which the system call is executed.\<close>

fun call_runs :: "sc_verdict \<Rightarrow> bool" where
  "call_runs Sc_proceed = True"
| "call_runs (Sc_proceed_traced data) = True"
| "call_runs _ = False"

lemma secure_computing_filter_runs:
  assumes "sec_mode t = SECCOMP_MODE_FILTER"
  shows "call_runs (secure_computing env ctx t nr) \<longleftrightarrow>
         (\<exists>v. seccomp_run_filters ctx (sec_filter t) = Ret v \<and>
           (action v = SECCOMP_RET_ALLOW \<or> action v = SECCOMP_RET_TRACE \<and> tracer env \<and> \<not> fatal_pending env))"
  using assms by (auto simp: secure_computing_def action_def Let_def split: bpf_result.splits)

lemma filters_never_more_permissive:
  assumes mode: "sec_mode t = SECCOMP_MODE_FILTER" "sec_mode t' = SECCOMP_MODE_FILTER"
    and new: "sec_filter t' = new @ sec_filter t" "sec_filter t \<noteq> []"
  shows "secure_computing env ctx t' nr = Sc_proceed \<Longrightarrow> secure_computing env ctx t nr = Sc_proceed"
    and "call_runs (secure_computing env ctx t' nr) \<Longrightarrow> call_runs (secure_computing env ctx t nr) \<or>
      (\<exists>w. seccomp_run_filters ctx (sec_filter t) = Ret w \<and> SECCOMP_RET_TRACE < action w \<and> action w < SECCOMP_RET_ALLOW)"
proof -
  have least: "\<exists>w. seccomp_run_filters ctx (sec_filter t) = Ret w \<and> action v \<le> action w \<and> action w \<le> SECCOMP_RET_ALLOW"
    if "seccomp_run_filters ctx (sec_filter t') = Ret v" for v
    using seccomp_run_filters_mono [of ctx new "sec_filter t" v] that new action_le_allow by auto
  show "secure_computing env ctx t nr = Sc_proceed" if "secure_computing env ctx t' nr = Sc_proceed"
    using that least secure_computing_filter_proceed [OF mode(1)] secure_computing_filter_proceed [OF mode(2)] by (metis antisym)
  show "call_runs (secure_computing env ctx t nr) \<or>
      (\<exists>w. seccomp_run_filters ctx (sec_filter t) = Ret w \<and> SECCOMP_RET_TRACE < action w \<and> action w < SECCOMP_RET_ALLOW)"
    if "call_runs (secure_computing env ctx t' nr)"
    using that least unfolding secure_computing_filter_runs [OF mode(1)] secure_computing_filter_runs [OF mode(2)]
    by (metis antisym order.not_eq_order_implies_strict)
qed

lemma strict_unchanged:
  "sec_mode t' = sec_mode t \<Longrightarrow> sec_mode t \<noteq> SECCOMP_MODE_FILTER \<Longrightarrow>
   secure_computing env ctx t' nr = secure_computing env ctx t nr"
  by (simp add: secure_computing_def)

lemma mode1_allows:
  "mode1_lookup mode1_syscalls nr \<longleftrightarrow> nr \<in> {0, 1, 60, 15}"
  "mode1_lookup mode1_syscalls_32 nr \<longleftrightarrow> nr \<in> {3, 4, 1, 119}"
  by (auto simp: mode1_syscalls_def mode1_syscalls_32_def)

subsection \<open>Tasks sharing filters\<close>

text \<open>
  The tasks' filter pointers and the heap: a fork copies the pointer and takes a reference, an exit
  drops one, an attach puts a new filter in front.
\<close>

inductive sc_step :: "nat option list \<times> sc_heap \<Rightarrow> nat option list \<times> sc_heap \<Rightarrow> bool" where
  sc_fork: "i < length ts \<Longrightarrow> get_seccomp_filter h (ts ! i) = Val h' \<Longrightarrow> sc_step (ts, h) (ts ! i # ts, h')"
| sc_exit: "i < length ts \<Longrightarrow> put_seccomp_filter h (ts ! i) = Val h' \<Longrightarrow>
    sc_step (ts, h) (take i ts @ drop (Suc i) ts, h')"
| sc_attach: "i < length ts \<Longrightarrow> a < length h \<Longrightarrow> h ! a = None \<Longrightarrow>
    sc_step (ts, h) (ts[i := Some a], attach_node h a (ts ! i))"

inductive sc_reach :: "nat option list \<times> sc_heap \<Rightarrow> bool" where
  sc_init: "sc_reach ([None], replicate n None)"
| sc_next: "sc_reach s \<Longrightarrow> sc_step s s' \<Longrightarrow> sc_reach s'"

lemma refs_exact_cong:
  assumes "\<And>a. count_list r1 (Some a) = count_list r2 (Some a)"
  shows "refs_exact r1 h = refs_exact r2 h"
  using assms by (simp add: refs_exact_def refs_def)

lemma refs_exact_pick:
  assumes "i < length ts"
  shows "refs_exact ts h = refs_exact (ts ! i # take i ts @ drop (Suc i) ts) h"
proof (rule refs_exact_cong)
  fix a
  have "count_list ts (Some a) = count_list (take i ts @ ts ! i # drop (Suc i) ts) (Some a)"
    using id_take_nth_drop [OF assms] by simp
  then show "count_list ts (Some a) = count_list (ts ! i # take i ts @ drop (Suc i) ts) (Some a)" by simp
qed

lemma refs_exact_set:
  assumes "i < length ts"
  shows "refs_exact (ts[i := p]) h = refs_exact (p # take i ts @ drop (Suc i) ts) h"
  using refs_exact_pick [of i "ts[i := p]" h] assms by simp

lemma sc_step_exact: "sc_step s s' \<Longrightarrow> refs_exact (fst s) (snd s) \<Longrightarrow> refs_exact (fst s') (snd s')"
proof (induction rule: sc_step.induct)
  case (sc_fork i ts h h')
  then show ?case using get_exact [of ts h "ts ! i"] by auto
next
  case (sc_exit i ts h h')
  then show ?case using put_exact [of "ts ! i" "take i ts @ drop (Suc i) ts" h] refs_exact_pick [of i ts h] by auto
next
  case (sc_attach i ts a h)
  then show ?case
    using attach_exact [of "ts ! i" "take i ts @ drop (Suc i) ts" h a] refs_exact_pick [of i ts h]
      refs_exact_set [of i ts] by simp
qed

lemma sc_reach_exact: "sc_reach s \<Longrightarrow> refs_exact (fst s) (snd s)"
proof (induction rule: sc_reach.induct)
  case (sc_init n)
  show ?case by (auto simp: refs_exact_def refs_def node_def points_to_def split: if_splits)
next
  case (sc_next s s')
  then show ?case using sc_step_exact by blast
qed

lemma sc_reach_live:
  assumes "sc_reach (ts, h)" and "i < length ts"
  shows "\<exists>h'. get_seccomp_filter h (ts ! i) = Val h'" and "\<exists>h'. put_seccomp_filter h (ts ! i) = Val h'"
proof -
  have ex: "refs_exact ts h" using sc_reach_exact [OF assms(1)] by simp
  show "\<exists>h'. get_seccomp_filter h (ts ! i) = Val h'"
    using get_exact [OF ex, of "ts ! i"] assms(2) by auto
  show "\<exists>h'. put_seccomp_filter h (ts ! i) = Val h'"
    using put_exact [of "ts ! i" "take i ts @ drop (Suc i) ts" h] refs_exact_pick [OF assms(2), of h] ex by auto
qed

text \<open>The \<open>prev\<close> pointers have no cycle, so that filters no task uses are gone.\<close>

definition ranked :: "sc_heap \<Rightarrow> bool" where
  "ranked h \<longleftrightarrow> (\<exists>rk :: nat \<Rightarrow> nat. \<forall>a n b. node h a = Some n \<longrightarrow> prev n = Some b \<longrightarrow> rk b < rk a)"

definition shrinks :: "sc_heap \<Rightarrow> sc_heap \<Rightarrow> bool" where
  "shrinks h h' \<longleftrightarrow> (\<forall>a n'. node h' a = Some n' \<longrightarrow> (\<exists>n. node h a = Some n \<and> prev n' = prev n))"

lemma ranked_shrinks: "ranked h \<Longrightarrow> shrinks h h' \<Longrightarrow> ranked h'"
  unfolding ranked_def shrinks_def by metis

lemma get_shrinks: "get_seccomp_filter h p = Val h' \<Longrightarrow> shrinks h h'"
  by (auto simp: get_seccomp_filter_def shrinks_def node_update split: option.splits if_splits)

lemma put_shrinks: "put_seccomp_filter h p = Val h' \<Longrightarrow> shrinks h h'"
proof (induction h p rule: put_seccomp_filter.induct)
  case (1 h)
  then show ?case by (simp add: shrinks_def)
next
  case (2 h a)
  then obtain n where n: "node h a = Some n" by (auto split: option.splits)
  show ?case
  proof (cases "usage n - 1 = 0")
    case True
    then have "shrinks (h[a := None]) h'" using "2.IH" [OF n True] "2.prems" n by simp
    moreover have "shrinks h (h[a := None])" by (auto simp: shrinks_def node_update split: if_splits)
    ultimately show ?thesis unfolding shrinks_def by metis
  next
    case False
    then show ?thesis using "2.prems" n by (auto simp: shrinks_def node_update split: if_splits)
  qed
qed

lemma attach_ranked:
  assumes r: "ranked h" and free: "a < length h" "h ! a = None" and none: "refs (old # roots) h a = 0"
  shows "ranked (attach_node h a old)"
proof -
  obtain rk :: "nat \<Rightarrow> nat" where rk: "\<And>x n b. node h x = Some n \<Longrightarrow> prev n = Some b \<Longrightarrow> rk b < rk x"
    using r by (auto simp: ranked_def)
  have np: "prev n \<noteq> Some a" if "node h x = Some n" for x n
  proof -
    have "Some n \<in> set h" using that by (metis node_def nth_mem option.distinct(1))
    then have "\<not> points_to a (Some n)" using none by (auto simp: refs_def filter_empty_conv)
    then show ?thesis by (simp add: points_to_def)
  qed
  have "old \<noteq> Some a" using none by (auto simp: refs_def)
  then have "\<forall>x n b. node (attach_node h a old) x = Some n \<longrightarrow> prev n = Some b \<longrightarrow>
      (rk(a := Suc (rk (the old)))) b < (rk(a := Suc (rk (the old)))) x"
    using rk np free by (auto simp: attach_node_def node_update)
  then show ?thesis unfolding ranked_def by blast
qed

lemma sc_reach_ranked: "sc_reach s \<Longrightarrow> ranked (snd s)"
proof (induction rule: sc_reach.induct)
  case (sc_init n)
  show ?case by (simp add: ranked_def node_def)
next
  case (sc_next s s')
  note ex = sc_reach_exact [OF sc_next.hyps(1)]
  from sc_next.hyps(2) show ?case
  proof cases
    case (sc_fork i ts h h')
    then show ?thesis using sc_next.IH ranked_shrinks get_shrinks by force
  next
    case (sc_exit i ts h h')
    then show ?thesis using sc_next.IH ranked_shrinks put_shrinks by force
  next
    case (sc_attach i ts a h)
    then have "refs (ts ! i # take i ts @ drop (Suc i) ts) h a = 0"
      using ex refs_exact_pick [of i ts h] by (intro refs_exactD(1)) (auto simp: node_def)
    then show ?thesis using sc_attach sc_next.IH attach_ranked by auto
  qed
qed

lemma no_tasks_no_filters:
  assumes "sc_reach ([], h)"
  shows "node h a = None"
proof (rule ccontr)
  assume "node h a \<noteq> None"
  let ?live = "{x. node h x \<noteq> None}"
  have "?live \<subseteq> {..<length h}" by (auto simp: node_def split: if_splits)
  then have fin: "finite ?live" using finite_subset by blast
  obtain rk :: "nat \<Rightarrow> nat" where rk: "\<And>x n b. node h x = Some n \<Longrightarrow> prev n = Some b \<Longrightarrow> rk b < rk x"
    using sc_reach_ranked [OF assms] by (auto simp: ranked_def)
  obtain m where m: "m \<in> ?live" "\<And>x. x \<in> ?live \<Longrightarrow> rk x \<le> rk m"
  proof -
    have "rk ` ?live \<noteq> {}" using \<open>node h a \<noteq> None\<close> by auto
    then have "Max (rk ` ?live) \<in> rk ` ?live" using fin by (intro Max_in) auto
    then show ?thesis using fin that by (metis (no_types, lifting) Max_ge finite_imageI image_eqI imageE)
  qed
  obtain n where "node h m = Some n" using m(1) by auto
  then have "0 < refs [] h m" using refs_exactD(2) [of "[]" h m n] sc_reach_exact [OF assms] by simp
  then have "filter (points_to m) h \<noteq> []" by (auto simp: refs_def)
  then obtain x where "x < length h" "points_to m (h ! x)" by (auto simp: filter_empty_conv in_set_conv_nth)
  then obtain k where "node h x = Some k" "prev k = Some m"
    by (auto simp: points_to_def node_def split: option.splits)
  then show False using rk [of x k m] m(2) [of x] by simp
qed

subsection \<open>Properties\<close>

text \<open>
  C2. A filter that \<open>seccomp_attach_filter\<close> installs is safe to run for every system call: it returns
  a value, and reads no packet and nothing outside the system call's data. The one fault left is a
  shift by 32 or more in a filter with a shift instruction.
\<close>

theorem attached_filter_safe:
  assumes "seccomp_attach_filter env t fprog = Val t'"
  shows "\<exists>new. sec_filter t' = new # sec_filter t \<and>
    (case sk_run_filter (seccomp_ctx cpu sc) new of
       Ret v \<Rightarrow> True | Flt f \<Rightarrow> f = Shift_range \<and> uses new shift_codes)"
  using assms
proof (rule seccomp_attach_filter_Val)
  fix prog prog'
  assume c: "sk_chk_filter (masks_ok env) fprog = Val prog" "seccomp_check_filter prog = Val prog'"
    and t': "t' = t\<lparr>sec_filter := prog' # sec_filter t\<rparr>"
  then show ?thesis using seccomp_check_filter_sound [OF c, of cpu sc] by auto
qed

definition sample_call :: syscall_info where
  "sample_call = \<lparr>syscall_nr = 60, syscall_arch = 0, syscall_ip = 0, syscall_args = (\<lambda>i. 0)\<rparr>"

definition sec_prog :: "sock_filter list" where
  "sec_prog = [insn (BPF_LD OR BPF_W OR BPF_ABS) 0 0 0, insn (BPF_JMP OR BPF_JEQ OR BPF_K) 0 1 60,
     insn (BPF_RET OR BPF_K) 0 0 SECCOMP_RET_ALLOW, insn (BPF_RET OR BPF_K) 0 0 SECCOMP_RET_KILL]"

definition sec_checked :: "sock_filter list" where
  "sec_checked = [insn (bpf_s_code BPF_S_ANC_SECCOMP_LD_W) 0 0 0, insn (bpf_s_code BPF_S_JMP_JEQ_K) 0 1 60,
     insn (bpf_s_code BPF_S_RET_K) 0 0 SECCOMP_RET_ALLOW, insn (bpf_s_code BPF_S_RET_K) 0 0 SECCOMP_RET_KILL]"

definition allow_all :: "sock_filter list" where
  "allow_all = [insn (bpf_s_code BPF_S_RET_K) 0 0 SECCOMP_RET_ALLOW]"

definition sec_env0 :: attach_env where
  "sec_env0 = \<lparr>capable_admin = False, kzalloc_ok = True, masks_ok = True, user_ok = True\<rparr>"

definition sec_task :: "u64 \<Rightarrow> sock_filter list list \<Rightarrow> task_seccomp" where
  "sec_task m fs = \<lparr>sec_mode = m, sec_filter = fs, no_new_privs = True\<rparr>"

lemma sec_attach:
  "seccomp_attach_filter sec_env0 (sec_task m [allow_all]) sec_prog = Val (sec_task m [sec_checked, allow_all])"
proof -
  have "sk_chk_filter True sec_prog = Val (sec_checked [0 := insn (bpf_s_code BPF_S_LD_W_ABS) 0 0 0])"
    by (simp add: sk_chk_filter_def sec_prog_def sec_checked_def insn_def chk_insn_def codes_def
        codes_entries_def codes_size_def ancillary_def ancillary_codes_def check_load_and_stores_def
        cls_loop.simps cls_insn_def mask_and_def Let_def)
  then show ?thesis
    by (simp add: seccomp_attach_filter_def sec_env0_def sec_task_def sec_prog_def allow_all_def sec_checked_def
        seccomp_check_insn_def seccomp_allowed_def insn_def Let_def)
qed

lemma sec_runs:
  "sk_run_filter (seccomp_ctx cpu sample_call) sec_checked = Ret SECCOMP_RET_ALLOW"
  "sk_run_filter (seccomp_ctx cpu sample_call) allow_all = Ret SECCOMP_RET_ALLOW"
  by (simp_all add: run_eval sec_checked_def allow_all_def seccomp_ctx_def seccomp_bpf_load_def sample_call_def)

theorem attached_filter_safe_witness:
  "\<exists>new. sec_filter (sec_task 0 [sec_checked, allow_all]) = new # [allow_all] \<and>
    (\<exists>v. sk_run_filter (seccomp_ctx 0 sample_call) new = Ret v)"
proof -
  have "\<not> uses sec_checked shift_codes" by (simp add: uses_def sec_checked_def insn_def)
  then show ?thesis
    using attached_filter_safe [OF sec_attach [of 0], of 0 sample_call]
    by (auto simp: sec_task_def split: bpf_result.splits)
qed

text \<open>
  C11. The action of a chain of filters is the least, that is the least permissive, of the actions of
  its members: it is one of them, and none is smaller.
\<close>

theorem chain_least_action:
  assumes "seccomp_run_filters ctx fs = Ret v" and "fs \<noteq> []"
  shows "(\<forall>f \<in> set fs. \<exists>w. sk_run_filter ctx f = Ret w \<and> v AND SECCOMP_RET_ACTION \<le> w AND SECCOMP_RET_ACTION) \<and>
         (\<exists>f \<in> set fs. \<exists>w. sk_run_filter ctx f = Ret w \<and> v AND SECCOMP_RET_ACTION = w AND SECCOMP_RET_ACTION)"
  using seccomp_run_filters_least [OF assms] by (simp add: action_def)

theorem chain_least_action_witness:
  "seccomp_run_filters (seccomp_ctx 0 sample_call) [sec_checked, allow_all] = Ret SECCOMP_RET_ALLOW \<and>
   (\<exists>f \<in> {sec_checked, allow_all}. \<exists>w. sk_run_filter (seccomp_ctx 0 sample_call) f = Ret w \<and>
      SECCOMP_RET_ALLOW AND SECCOMP_RET_ACTION = w AND SECCOMP_RET_ACTION)"
proof -
  have r: "seccomp_run_filters (seccomp_ctx 0 sample_call) [sec_checked, allow_all] = Ret SECCOMP_RET_ALLOW"
    by (simp add: seccomp_run_filters_def sec_runs)
  then show ?thesis using chain_least_action [OF r] by simp
qed

text \<open>
  C9. Seccomp is one-way: whatever \<open>prctl\<close> calls a task makes once its mode is set (with at least one filter in filter
  mode, as \<open>prctl\<close> leaves it), the mode stays and its filters stay at the end of the chain. In the same surroundings, every system call that is allowed afterwards was allowed before, and every
  call that is executed afterwards, by itself or after a tracer was told, was executed before, with one exception:
  the earlier filters answered it with an undefined action, numbered above \<open>SECCOMP_RET_TRACE\<close> and below
  \<open>SECCOMP_RET_ALLOW\<close>, which kills the task.
\<close>

theorem seccomp_one_way:
  assumes "sec_reach t t'" and "sec_mode t \<noteq> 0" and "sec_mode t = SECCOMP_MODE_FILTER \<longrightarrow> sec_filter t \<noteq> []"
  shows "sec_mode t' = sec_mode t \<and> (\<exists>new. sec_filter t' = new @ sec_filter t) \<and>
    (secure_computing env ctx t' nr = Sc_proceed \<longrightarrow> secure_computing env ctx t nr = Sc_proceed) \<and>
    (call_runs (secure_computing env ctx t' nr) \<longrightarrow> call_runs (secure_computing env ctx t nr) \<or>
      (\<exists>w. seccomp_run_filters ctx (sec_filter t) = Ret w \<and>
         SECCOMP_RET_TRACE < w AND SECCOMP_RET_ACTION \<and> w AND SECCOMP_RET_ACTION < SECCOMP_RET_ALLOW))"
proof (cases "sec_mode t = SECCOMP_MODE_FILTER")
  case True
  then show ?thesis
    using sec_reach_grows [OF assms(1,2)] assms(3) filters_never_more_permissive [of t t' _ env ctx nr]
    unfolding action_def by metis
next
  case False
  then show ?thesis using sec_reach_grows [OF assms(1,2)] strict_unchanged [of t' t env ctx nr] by auto
qed

theorem seccomp_one_way_witness:
  "secure_computing \<lparr>compat_task = False, tracer = False, fatal_pending = False\<rparr> (seccomp_ctx 0 sample_call)
     (sec_task 2 [sec_checked, allow_all]) 60 = Sc_proceed \<and>
   secure_computing \<lparr>compat_task = False, tracer = False, fatal_pending = False\<rparr> (seccomp_ctx 0 sample_call)
     (sec_task 2 [allow_all]) 60 = Sc_proceed"
proof -
  have "prctl_set_seccomp sec_env0 (sec_task 2 [allow_all]) 2 (Some sec_prog) = Val (sec_task 2 [sec_checked, allow_all])"
    using sec_attach [of 2] by (simp add: prctl_set_seccomp_def seccomp_attach_user_filter_def sec_task_def)
  then have r: "sec_reach (sec_task 2 [allow_all]) (sec_task 2 [sec_checked, allow_all])"
    by (rule sec_prctl [OF sec_refl])
  let ?e = "\<lparr>compat_task = False, tracer = False, fatal_pending = False\<rparr>"
  have "secure_computing ?e (seccomp_ctx 0 sample_call) (sec_task 2 [sec_checked, allow_all]) 60 = Sc_proceed"
    by (simp add: secure_computing_def sec_task_def seccomp_run_filters_def sec_runs)
  then show ?thesis
    using seccomp_one_way [OF r, of ?e "seccomp_ctx 0 sample_call" 60] by (simp add: sec_task_def)
qed

text \<open>
  The exception: a filter answers with an action that is not defined, and the task is killed; after the
  task has attached another filter that asks for the tracer, the smaller number wins and the call is executed.
\<close>

lemma undefined_action_outranked:
  fixes ctx :: bpf_ctx
  defines "prog \<equiv> (\<lambda>k. [insn (bpf_s_code BPF_S_RET_K) 0 0 k])"
    and "e \<equiv> \<lparr>compat_task = False, tracer = True, fatal_pending = False\<rparr>"
  shows "secure_computing e ctx (sec_task 2 [prog 0x7ff10000]) nr = Sc_exit_sigsys"
    and "secure_computing e ctx (sec_task 2 [prog 0x7ff00000, prog 0x7ff10000]) nr = Sc_proceed_traced 0"
  by (simp_all add: secure_computing_def seccomp_run_filters_def sec_task_def prog_def e_def run_eval Let_def)

text \<open>
  C13. In every history of forks, exits and attaches, the reference counts of the shared filters are
  exact: taking or dropping a task's reference never touches a freed filter, a filter lives as long
  as a task or a newer filter points to it, and when the last task is gone every filter is freed.
\<close>

theorem filter_refcounts_exact:
  assumes "sc_reach (ts, h)"
  shows "refs_exact ts h \<and>
    (\<forall>i < length ts. (\<exists>h'. get_seccomp_filter h (ts ! i) = Val h') \<and> (\<exists>h'. put_seccomp_filter h (ts ! i) = Val h')) \<and>
    (ts = [] \<longrightarrow> (\<forall>a. node h a = None))"
  using sc_reach_exact [OF assms] sc_reach_live [OF assms] no_tasks_no_filters assms by auto

theorem filter_refcounts_exact_witness:
  "put_seccomp_filter [Some \<lparr>usage = 2, prev = None\<rparr>, None] (Some 0) = Val [Some \<lparr>usage = 1, prev = None\<rparr>, None] \<and>
   refs_exact [Some 0, Some 0] [Some \<lparr>usage = 2, prev = None\<rparr>, None]"
proof -
  have i: "sc_reach ([None], [None, None])" using sc_init [of 2] by (simp add: numeral_2_eq_2)
  have "sc_step ([None], [None, None]) ([Some 0], [Some \<lparr>usage = 1, prev = None\<rparr>, None])"
    using sc_attach [of 0 "[None]" 0 "[None, None]"] by (simp add: attach_node_def)
  then have a: "sc_reach ([Some 0], [Some \<lparr>usage = 1, prev = None\<rparr>, None])" using i sc_next by blast
  have "sc_step ([Some 0], [Some \<lparr>usage = 1, prev = None\<rparr>, None])
      ([Some 0, Some 0], [Some \<lparr>usage = 2, prev = None\<rparr>, None])"
    using sc_fork [of 0 "[Some 0]" "[Some \<lparr>usage = 1, prev = None\<rparr>, None]"]
    by (simp add: get_seccomp_filter_def node_def)
  then have "sc_reach ([Some 0, Some 0], [Some \<lparr>usage = 2, prev = None\<rparr>, None])" using a sc_next by blast
  from filter_refcounts_exact [OF this] show ?thesis by (simp add: node_def)
qed

end
