(* ===== verification/Log2.thy ===== *)
theory Log2
  imports KPrelude
begin

text \<open>
  Powers of two (\<open>include/linux/log2.h\<close>): the test, and rounding down to one. Shown: the bit trick of
  the test is right, and rounding down gives the largest power of two that is not larger.
\<close>

definition is_power_of_2 :: "u64 \<Rightarrow> bool" where
  "is_power_of_2 n \<longleftrightarrow> n \<noteq> 0 \<and> n AND (n - 1) = 0"

text \<open>Find last set: the position of the highest one bit, counted from 1.\<close>

fun fls_nat :: "nat \<Rightarrow> nat" where
  "fls_nat n = (if n = 0 then 0 else Suc (fls_nat (n div 2)))"

declare fls_nat.simps [simp del]

text \<open>The shift count is negative for 0, which the C code leaves undefined.\<close>

definition rounddown_pow_of_two :: "u64 \<Rightarrow> u64 outcome" where
  "rounddown_pow_of_two n = (if n = 0 then Trap else Val (push_bit (fls_nat (unat n) - 1) 1))"

lemma fls_nat_bounds: "0 < n \<Longrightarrow> 2 ^ (fls_nat n - 1) \<le> n \<and> n < 2 ^ fls_nat n \<and> 0 < fls_nat n"
proof (induction n rule: fls_nat.induct)
  case (1 n)
  show ?case
  proof (cases "n = 1")
    case True
    then show ?thesis by (simp add: fls_nat.simps)
  next
    case False
    then have pos: "0 < n div 2" using "1.prems" by (simp add: div_greater_zero_iff)
    then have IH: "2 ^ (fls_nat (n div 2) - 1) \<le> n div 2" "n div 2 < 2 ^ fls_nat (n div 2)" "0 < fls_nat (n div 2)"
      using "1.IH" "1.prems" by auto
    then obtain k where k: "fls_nat (n div 2) = Suc k" by (cases "fls_nat (n div 2)") auto
    have "fls_nat n = Suc (Suc k)" using "1.prems" k by (simp add: fls_nat.simps [of n])
    then show ?thesis using IH k by auto
  qed
qed

lemma bit_top: "2 ^ k \<le> n \<Longrightarrow> n < 2 ^ Suc k \<Longrightarrow> bit (n :: nat) k"
  using div_nat_eqI [of "2 ^ k" 1 n] by (simp add: bit_iff_odd)

lemma is_power_of_2_iff: "is_power_of_2 n \<longleftrightarrow> (\<exists>k < 64. unat n = 2 ^ k)"
proof
  assume p: "is_power_of_2 n"
  then have n0: "0 < unat n" by (auto simp: is_power_of_2_def unat_gt_0)
  define k where "k = fls_nat (unat n) - 1"
  have k: "2 ^ k \<le> unat n" "unat n < 2 ^ Suc k" using fls_nat_bounds [OF n0] by (auto simp: k_def)
  have "unat n < 2 ^ 64" using unsigned_less [of n, where 'a = nat] by simp
  then have "(2 :: nat) ^ k < 2 ^ 64" by (rule le_less_trans [OF k(1)])
  then have k64: "k < 64" by (rule power_less_imp_less_exp [rotated]) simp
  have "unat n = 2 ^ k"
  proof (rule ccontr)
    assume "unat n \<noteq> 2 ^ k"
    then have "2 ^ k \<le> unat n - 1" "unat n - 1 < 2 ^ Suc k" using k by auto
    then have "bit (unat n - 1) k" by (rule bit_top)
    moreover have "unat (n - 1) = unat n - 1" using n0 by (simp add: unat_sub word_le_nat_alt)
    ultimately have "bit (unat n) k" "bit (unat (n - 1)) k" using bit_top [OF k] by simp_all
    then have "bit n k" "bit (n - 1) k" by (simp_all only: bit_unsigned_iff)
    then have "bit (n AND (n - 1)) k" by (simp only: bit_and_iff)
    then show False using p by (simp add: is_power_of_2_def)
  qed
  then show "\<exists>k < 64. unat n = 2 ^ k" using k64 by blast
next
  assume "\<exists>k < 64. unat n = 2 ^ k"
  then obtain k where k: "k < 64" "unat n = 2 ^ k" by auto
  have "(2 :: nat) ^ k < 2 ^ 64" using k(1) by (rule power_strict_increasing) simp
  then have "unat (of_nat (2 ^ k) :: u64) = 2 ^ k" 
    using take_bit_nat_eq_self [of "2 ^ k" 64] by (simp only: unsigned_of_nat len_num1 len_bit0) simp
  then have n: "n = of_nat (2 ^ k)" using k(2) by (metis unsigned_word_eqI)
  have "n AND (n - 1) = (2 ^ k :: u64) AND mask k" by (simp add: n mask_eq_exp_minus_1)
  also have "\<dots> = take_bit k (2 ^ k)" by (rule take_bit_eq_mask [symmetric])
  also have "\<dots> = 0" by (rule bit_eqI) (auto simp: bit_take_bit_iff bit_exp_iff)
  finally show "is_power_of_2 n" using k(2) unfolding is_power_of_2_def by auto
qed

text \<open>The largest power of two not above a number.\<close>

definition pow2_floor :: "nat \<Rightarrow> nat" where
  "pow2_floor n = 2 ^ (fls_nat n - 1)"

lemma pow2_floor_bounds: "0 < n \<Longrightarrow> pow2_floor n \<le> n \<and> n < 2 * pow2_floor n"
  using fls_nat_bounds [of n] by (cases "fls_nat n") (auto simp: pow2_floor_def)

lemma pow2_floor_power: "pow2_floor (2 ^ k) = 2 ^ k"
proof -
  have "2 ^ (fls_nat (2 ^ k) - 1) \<le> (2 :: nat) ^ k" "(2 :: nat) ^ k < 2 ^ fls_nat (2 ^ k)" "0 < fls_nat (2 ^ k)"
    using fls_nat_bounds [of "2 ^ k"] by auto
  then have "fls_nat (2 ^ k) - 1 \<le> k" "k < fls_nat (2 ^ k)"
    using power_le_imp_le_exp [of "2 :: nat" "fls_nat (2 ^ k) - 1" k]
      power_less_imp_less_exp [of "2 :: nat" k "fls_nat (2 ^ k)"] by auto
  then have "fls_nat (2 ^ k) - 1 = k" by linarith
  then show ?thesis by (simp add: pow2_floor_def)
qed

lemma unat_push_bit_1:
  assumes "k < 64"
  shows "unat (push_bit k 1 :: u64) = 2 ^ k"
proof -
  have "(2 :: nat) ^ k < 2 ^ 64" using assms by (rule power_strict_increasing) simp
  then have "take_bit 64 ((2 :: nat) ^ k) = 2 ^ k" by (rule take_bit_nat_eq_self)
  moreover have "(push_bit k 1 :: u64) = of_nat (2 ^ k)" by (simp add: push_bit_eq_mult)
  ultimately show ?thesis by (simp add: unsigned_of_nat del: of_nat_power)
qed

lemma rounddown_floor:
  assumes "n \<noteq> 0"
  shows "\<exists>r. rounddown_pow_of_two n = Val r \<and> unat r = pow2_floor (unat n)"
proof -
  have n0: "0 < unat n" using assms by (simp add: unat_gt_0)
  have "2 ^ (fls_nat (unat n) - 1) \<le> unat n" using fls_nat_bounds [OF n0] by simp
  moreover have "unat n < 2 ^ 64" using unsigned_less [of n, where 'a = nat] by simp
  ultimately have "(2 :: nat) ^ (fls_nat (unat n) - 1) < 2 ^ 64" by (rule le_less_trans)
  then have "fls_nat (unat n) - 1 < 64" by (rule power_less_imp_less_exp [rotated]) simp
  then show ?thesis
    using assms unat_push_bit_1 [of "fls_nat (unat n) - 1"]
    by (simp add: rounddown_pow_of_two_def pow2_floor_def)
qed

end
