(* ===== verification/Kfifo.thy ===== *)
theory Kfifo
  imports Log2
begin

text \<open>
  The generic ring buffer (\<open>kernel/kfifo.c\<close>, \<open>include/linux/kfifo.h\<close>). The counters \<open>in\<close> and \<open>out\<close>
  are 32-bit words that are never reduced: they wrap, and are masked on every access.

  Shown: the buffer is a queue of bytes. Every operation keeps the invariant \<open>kfifo_wf\<close> and refines
  the corresponding operation on the list \<open>kfifo_bytes\<close> of its contents, also when the counters
  wrap; record fifos are queues of records; every sequence of operations delivers what was put in,
  in order.
\<close>

subsection \<open>The fifo and its space\<close>

text \<open>\<open>kf_data\<close> holds the bytes of the buffer \<open>data\<close> points to; a null pointer has none.\<close>

record kfifo =
  kf_in :: u32
  kf_out :: u32
  kf_mask :: u32
  kf_esize :: u32
  kf_data :: "u8 list"

definition kfifo_unused :: "kfifo \<Rightarrow> u32" where
  "kfifo_unused f = (kf_mask f + 1) - (kf_in f - kf_out f)"

text \<open>\<open>alloc\<close>: the memory \<open>kmalloc\<close> returns for a size, if any; the fifo is left behind also on errors.\<close>

definition kfifo_alloc :: "(nat \<Rightarrow> u8 list option) \<Rightarrow> u32 \<Rightarrow> u32 \<Rightarrow> (errno option \<times> kfifo) outcome" where
  "kfifo_alloc alloc sz esize =
     bind_outcome (if is_power_of_2 (ucast sz) then Val sz
                   else bind_outcome (rounddown_pow_of_two (ucast sz)) (\<lambda>s. Val (ucast s)))
       (\<lambda>sz.
          if sz < 2 then
            Val (Some EINVAL, \<lparr>kf_in = 0, kf_out = 0, kf_mask = 0, kf_esize = esize, kf_data = []\<rparr>)
          else case alloc (unat (ucast sz * ucast esize :: u64)) of
            None \<Rightarrow> Val (Some ENOMEM, \<lparr>kf_in = 0, kf_out = 0, kf_mask = 0, kf_esize = esize, kf_data = []\<rparr>)
          | Some d \<Rightarrow> Val (None, \<lparr>kf_in = 0, kf_out = 0, kf_mask = sz - 1, kf_esize = esize, kf_data = d\<rparr>))"

definition kfifo_free :: "kfifo \<Rightarrow> kfifo" where
  "kfifo_free f = \<lparr>kf_in = 0, kf_out = 0, kf_mask = 0, kf_esize = 0, kf_data = []\<rparr>"

definition kfifo_init :: "u8 list \<Rightarrow> u32 \<Rightarrow> u32 \<Rightarrow> (errno option \<times> kfifo) outcome" where
  "kfifo_init buffer sz esize =
     (if esize = 0 then Trap
      else
        let sz = sz div esize in
        bind_outcome (if is_power_of_2 (ucast sz) then Val sz
                      else bind_outcome (rounddown_pow_of_two (ucast sz)) (\<lambda>s. Val (ucast s)))
          (\<lambda>sz.
             if sz < 2 then
               Val (Some EINVAL, \<lparr>kf_in = 0, kf_out = 0, kf_mask = 0, kf_esize = esize, kf_data = buffer\<rparr>)
             else Val (None, \<lparr>kf_in = 0, kf_out = 0, kf_mask = sz - 1, kf_esize = esize, kf_data = buffer\<rparr>)))"

definition kfifo_reset :: "kfifo \<Rightarrow> kfifo" where
  "kfifo_reset f = f\<lparr>kf_in := 0, kf_out := 0\<rparr>"

definition kfifo_reset_out :: "kfifo \<Rightarrow> kfifo" where
  "kfifo_reset_out f = f\<lparr>kf_out := kf_in f\<rparr>"

definition kfifo_len :: "kfifo \<Rightarrow> u32" where
  "kfifo_len f = kf_in f - kf_out f"

definition kfifo_is_empty :: "kfifo \<Rightarrow> bool" where
  "kfifo_is_empty f \<longleftrightarrow> kf_in f = kf_out f"

definition kfifo_is_full :: "kfifo \<Rightarrow> bool" where
  "kfifo_is_full f \<longleftrightarrow> kfifo_len f > kf_mask f"

subsection \<open>Copying into and out of the ring\<close>

text \<open>The offset, the length and the length of the part before the wrap, all in bytes.\<close>

definition ring_span :: "kfifo \<Rightarrow> u32 \<Rightarrow> u32 \<Rightarrow> nat \<times> nat \<times> nat" where
  "ring_span f len off =
     (let sz = kf_mask f + 1; esize = kf_esize f; off = off AND kf_mask f;
          (off, sz, len) = (if esize \<noteq> 1 then (off * esize, sz * esize, len * esize) else (off, sz, len));
          l = min len (sz - off) in
      (unat off, unat len, unat l))"

definition kfifo_copy_in :: "kfifo \<Rightarrow> u8 list \<Rightarrow> u32 \<Rightarrow> u32 \<Rightarrow> kfifo outcome" where
  "kfifo_copy_in f src len off =
     (let (off, len, l) = ring_span f len off in
      bind_outcome (rd src 0 l) (\<lambda>a.
      bind_outcome (wr_bytes (kf_data f) off a) (\<lambda>d.
      bind_outcome (rd src l (len - l)) (\<lambda>b.
      bind_outcome (wr_bytes d 0 b) (\<lambda>d.
      Val (f\<lparr>kf_data := d\<rparr>))))))"

definition kfifo_in :: "kfifo \<Rightarrow> u8 list \<Rightarrow> u32 \<Rightarrow> (u32 \<times> kfifo) outcome" where
  "kfifo_in f buf len =
     (let l = kfifo_unused f; len = (if len > l then l else len) in
      bind_outcome (kfifo_copy_in f buf len (kf_in f)) (\<lambda>f.
      Val (len, f\<lparr>kf_in := kf_in f + len\<rparr>)))"

definition kfifo_copy_out :: "kfifo \<Rightarrow> u32 \<Rightarrow> u32 \<Rightarrow> u8 list outcome" where
  "kfifo_copy_out f len off =
     (let (off, len, l) = ring_span f len off in
      bind_outcome (rd (kf_data f) off l) (\<lambda>a.
      bind_outcome (rd (kf_data f) 0 (len - l)) (\<lambda>b. Val (a @ b))))"

definition kfifo_out_peek :: "kfifo \<Rightarrow> u32 \<Rightarrow> (u32 \<times> u8 list) outcome" where
  "kfifo_out_peek f len =
     (let l = kf_in f - kf_out f; len = (if len > l then l else len) in
      bind_outcome (kfifo_copy_out f len (kf_out f)) (\<lambda>bs. Val (len, bs)))"

definition kfifo_out :: "kfifo \<Rightarrow> u32 \<Rightarrow> (u32 \<times> u8 list \<times> kfifo) outcome" where
  "kfifo_out f len =
     bind_outcome (kfifo_out_peek f len) (\<lambda>(len, bs).
     Val (len, bs, f\<lparr>kf_out := kf_out f + len\<rparr>))"

subsection \<open>User buffers\<close>

text \<open>
  A user buffer is the list of its accessible bytes. A copy that reaches the end of it copies what
  is there and returns the number of bytes left; the rest of a kernel destination is zeroed.
\<close>

definition copy_from_user :: "u8 list \<Rightarrow> nat \<Rightarrow> u8 list \<Rightarrow> nat \<Rightarrow> nat \<Rightarrow> (nat \<times> u8 list) outcome" where
  "copy_from_user d off user uoff n =
     (let ok = min n (length user - uoff) in
      bind_outcome (wr_bytes d off (seg uoff ok user @ replicate (n - ok) 0)) (\<lambda>d. Val (n - ok, d)))"

definition copy_to_user :: "nat \<Rightarrow> nat \<Rightarrow> u8 list \<Rightarrow> nat \<times> u8 list" where
  "copy_to_user writable uoff bs =
     (let ok = min (length bs) (writable - uoff) in (length bs - ok, take ok bs))"

definition div_round_up :: "nat \<Rightarrow> nat \<Rightarrow> nat outcome" where
  "div_round_up n d = (if d = 0 then Trap else Val ((n + d - 1) div d))"

text \<open>Result: the elements not copied, \<open>*copied\<close>, and the fifo.\<close>

definition kfifo_copy_from_user ::
  "kfifo \<Rightarrow> u8 list \<Rightarrow> u32 \<Rightarrow> u32 \<Rightarrow> (nat \<times> u32 \<times> kfifo) outcome" where
  "kfifo_copy_from_user f from len off =
     (let (off, len, l) = ring_span f len off; esize = unat (kf_esize f) in
      bind_outcome (copy_from_user (kf_data f) off from 0 l) (\<lambda>(ret, d).
      bind_outcome
        (if ret \<noteq> 0 then bind_outcome (div_round_up (ret + len - l) esize) (\<lambda>ret. Val (ret, d))
         else bind_outcome (copy_from_user d 0 from l (len - l)) (\<lambda>(ret, d).
           if ret \<noteq> 0 then bind_outcome (div_round_up ret esize) (\<lambda>ret. Val (ret, d)) else Val (ret, d)))
        (\<lambda>(ret, d). Val (ret, word_of_int (int len - int ret), f\<lparr>kf_data := d\<rparr>))))"

definition kfifo_from_user :: "kfifo \<Rightarrow> u8 list \<Rightarrow> u64 \<Rightarrow> (errno option \<times> u32 \<times> kfifo) outcome" where
  "kfifo_from_user f from len =
     bind_outcome
       (if kf_esize f \<noteq> 1 then (if kf_esize f = 0 then Trap else Val (len div ucast (kf_esize f))) else Val len)
       (\<lambda>len.
          let l = kfifo_unused f; len = (if len > ucast l then ucast l else len) in
          bind_outcome (kfifo_copy_from_user f from (ucast len) (kf_in f)) (\<lambda>(ret, copied, f).
          let (len, err) = (if ret \<noteq> 0 then (len - of_nat ret, Some EFAULT) else (len, None)) in
          Val (err, copied, f\<lparr>kf_in := kf_in f + ucast len\<rparr>)))"

text \<open>Result: the elements not copied, \<open>*copied\<close>, and the bytes the user buffer receives.\<close>

definition kfifo_copy_to_user :: "kfifo \<Rightarrow> nat \<Rightarrow> u32 \<Rightarrow> u32 \<Rightarrow> (nat \<times> u32 \<times> u8 list) outcome" where
  "kfifo_copy_to_user f writable len off =
     (let (off, len, l) = ring_span f len off; esize = unat (kf_esize f) in
      bind_outcome (rd (kf_data f) off l) (\<lambda>a.
      let (ret, to) = copy_to_user writable 0 a in
      bind_outcome
        (if ret \<noteq> 0 then bind_outcome (div_round_up (ret + len - l) esize) (\<lambda>ret. Val (ret, to))
         else bind_outcome (rd (kf_data f) 0 (len - l)) (\<lambda>b.
           let (ret, to2) = copy_to_user writable l b in
           if ret \<noteq> 0 then bind_outcome (div_round_up ret esize) (\<lambda>ret. Val (ret, to @ to2))
           else Val (ret, to @ to2)))
        (\<lambda>(ret, to). Val (ret, word_of_int (int len - int ret), to))))"

definition kfifo_to_user ::
  "kfifo \<Rightarrow> nat \<Rightarrow> u64 \<Rightarrow> (errno option \<times> u32 \<times> u8 list \<times> kfifo) outcome" where
  "kfifo_to_user f writable len =
     bind_outcome
       (if kf_esize f \<noteq> 1 then (if kf_esize f = 0 then Trap else Val (len div ucast (kf_esize f))) else Val len)
       (\<lambda>len.
          let l = kf_in f - kf_out f; len = (if len > ucast l then ucast l else len) in
          bind_outcome (kfifo_copy_to_user f writable (ucast len) (kf_out f)) (\<lambda>(ret, copied, to).
          let (len, err) = (if ret \<noteq> 0 then (len - of_nat ret, Some EFAULT) else (len, None)) in
          Val (err, copied, to, f\<lparr>kf_out := kf_out f + ucast len\<rparr>)))"

subsection \<open>Records\<close>

text \<open>A record is its length in \<open>recsize\<close> bytes (1 or 2, low byte first) and its bytes.\<close>

definition kfifo_max_r :: "u32 \<Rightarrow> nat \<Rightarrow> u32" where
  "kfifo_max_r len recsize =
     (let max = push_bit (8 * recsize) 1 - 1 in if len > max then max else len)"

definition kfifo_PEEK :: "u8 list \<Rightarrow> u32 \<Rightarrow> u32 \<Rightarrow> u8 outcome" where
  "kfifo_PEEK d pos msk =
     (let i = unat (pos AND msk) in if i < length d then Val (d ! i) else Trap)"

definition kfifo_peek_n :: "kfifo \<Rightarrow> nat \<Rightarrow> u32 outcome" where
  "kfifo_peek_n f recsize =
     bind_outcome (kfifo_PEEK (kf_data f) (kf_out f) (kf_mask f)) (\<lambda>b.
     if recsize - 1 \<noteq> 0 then
       bind_outcome (kfifo_PEEK (kf_data f) (kf_out f + 1) (kf_mask f)) (\<lambda>c.
         Val (ucast b OR push_bit 8 (ucast c)))
     else Val (ucast b))"

definition kfifo_POKE :: "u8 list \<Rightarrow> u32 \<Rightarrow> u32 \<Rightarrow> u8 \<Rightarrow> u8 list outcome" where
  "kfifo_POKE d pos msk val =
     (let i = unat (pos AND msk) in if i < length d then Val (d[i := val]) else Trap)"

definition kfifo_poke_n :: "kfifo \<Rightarrow> u32 \<Rightarrow> nat \<Rightarrow> kfifo outcome" where
  "kfifo_poke_n f n recsize =
     bind_outcome (kfifo_POKE (kf_data f) (kf_in f) (kf_mask f) (ucast n)) (\<lambda>d.
     bind_outcome
       (if recsize > 1 then kfifo_POKE d (kf_in f + 1) (kf_mask f) (ucast (drop_bit 8 n)) else Val d)
       (\<lambda>d. Val (f\<lparr>kf_data := d\<rparr>)))"

definition kfifo_len_r :: "kfifo \<Rightarrow> nat \<Rightarrow> u32 outcome" where
  "kfifo_len_r f recsize = kfifo_peek_n f recsize"

definition kfifo_in_r :: "kfifo \<Rightarrow> u8 list \<Rightarrow> u32 \<Rightarrow> nat \<Rightarrow> (u32 \<times> kfifo) outcome" where
  "kfifo_in_r f buf len recsize =
     (if unat len + recsize > unat (kfifo_unused f) then Val (0, f)
      else
        bind_outcome (kfifo_poke_n f len recsize) (\<lambda>f.
        bind_outcome (kfifo_copy_in f buf len (kf_in f + of_nat recsize)) (\<lambda>f.
        Val (len, f\<lparr>kf_in := kf_in f + (len + of_nat recsize)\<rparr>))))"

definition kfifo_out_copy_r :: "kfifo \<Rightarrow> u32 \<Rightarrow> nat \<Rightarrow> (u32 \<times> u8 list \<times> u32) outcome" where
  "kfifo_out_copy_r f len recsize =
     bind_outcome (kfifo_peek_n f recsize) (\<lambda>n.
     let len = (if len > n then n else len) in
     bind_outcome (kfifo_copy_out f len (kf_out f + of_nat recsize)) (\<lambda>bs. Val (len, bs, n)))"

definition kfifo_out_peek_r :: "kfifo \<Rightarrow> u32 \<Rightarrow> nat \<Rightarrow> (u32 \<times> u8 list) outcome" where
  "kfifo_out_peek_r f len recsize =
     (if kf_in f = kf_out f then Val (0, [])
      else bind_outcome (kfifo_out_copy_r f len recsize) (\<lambda>(len, bs, n). Val (len, bs)))"

definition kfifo_out_r :: "kfifo \<Rightarrow> u32 \<Rightarrow> nat \<Rightarrow> (u32 \<times> u8 list \<times> kfifo) outcome" where
  "kfifo_out_r f len recsize =
     (if kf_in f = kf_out f then Val (0, [], f)
      else bind_outcome (kfifo_out_copy_r f len recsize) (\<lambda>(len, bs, n).
        Val (len, bs, f\<lparr>kf_out := kf_out f + (n + of_nat recsize)\<rparr>)))"

definition kfifo_skip_r :: "kfifo \<Rightarrow> nat \<Rightarrow> kfifo outcome" where
  "kfifo_skip_r f recsize =
     bind_outcome (kfifo_peek_n f recsize) (\<lambda>n. Val (f\<lparr>kf_out := kf_out f + (n + of_nat recsize)\<rparr>))"

definition kfifo_from_user_r ::
  "kfifo \<Rightarrow> u8 list \<Rightarrow> u64 \<Rightarrow> nat \<Rightarrow> (errno option \<times> u32 \<times> kfifo) outcome" where
  "kfifo_from_user_r f from len recsize =
     (let len = kfifo_max_r (ucast len) recsize in
      if unat len + recsize > unat (kfifo_unused f) then Val (None, 0, f)
      else
        bind_outcome (kfifo_poke_n f len recsize) (\<lambda>f.
        bind_outcome (kfifo_copy_from_user f from len (kf_in f + of_nat recsize)) (\<lambda>(ret, copied, f).
        if ret \<noteq> 0 then Val (Some EFAULT, 0, f)
        else Val (None, copied, f\<lparr>kf_in := kf_in f + (len + of_nat recsize)\<rparr>))))"

definition kfifo_to_user_r ::
  "kfifo \<Rightarrow> nat \<Rightarrow> u64 \<Rightarrow> nat \<Rightarrow> (errno option \<times> u32 \<times> u8 list \<times> kfifo) outcome" where
  "kfifo_to_user_r f writable len recsize =
     (if kf_in f = kf_out f then Val (None, 0, [], f)
      else
        bind_outcome (kfifo_peek_n f recsize) (\<lambda>n.
        let len = (if len > ucast n then ucast n else len) in
        bind_outcome (kfifo_copy_to_user f writable (ucast len) (kf_out f + of_nat recsize)) (\<lambda>(ret, copied, to).
        if ret \<noteq> 0 then Val (Some EFAULT, 0, to, f)
        else Val (None, copied, to, f\<lparr>kf_out := kf_out f + (n + of_nat recsize)\<rparr>))))"

definition kfifo_dma_in_finish_r :: "kfifo \<Rightarrow> u32 \<Rightarrow> nat \<Rightarrow> kfifo outcome" where
  "kfifo_dma_in_finish_r f len recsize =
     (let len = kfifo_max_r len recsize in
      bind_outcome (kfifo_poke_n f len recsize) (\<lambda>f.
      Val (f\<lparr>kf_in := kf_in f + (len + of_nat recsize)\<rparr>)))"

definition kfifo_dma_out_finish_r :: "kfifo \<Rightarrow> nat \<Rightarrow> kfifo outcome" where
  "kfifo_dma_out_finish_r f recsize =
     bind_outcome (kfifo_peek_n f recsize) (\<lambda>len. Val (f\<lparr>kf_out := kf_out f + (len + of_nat recsize)\<rparr>))"

subsection \<open>Single elements\<close>

text \<open>
  The macros for one element, with the header size of the fifo, 0 for none.  They return the element count, or the length
  of the record; \<open>n\<close> is the size of the variable that receives it.
\<close>

definition kfifo_put :: "nat \<Rightarrow> kfifo \<Rightarrow> u8 list \<Rightarrow> (u32 \<times> kfifo) outcome" where
  "kfifo_put recsize f val =
     (if recsize \<noteq> 0 then kfifo_in_r f val (of_nat (length val)) recsize
      else if kfifo_is_full f then Val (0, f)
      else bind_outcome (wr_bytes (kf_data f) (unat (kf_in f AND kf_mask f) * unat (kf_esize f)) val) (\<lambda>d.
        Val (1, f\<lparr>kf_data := d, kf_in := kf_in f + 1\<rparr>)))"

definition kfifo_get :: "nat \<Rightarrow> kfifo \<Rightarrow> nat \<Rightarrow> (u32 \<times> u8 list \<times> kfifo) outcome" where
  "kfifo_get recsize f n =
     (if recsize \<noteq> 0 then kfifo_out_r f (of_nat n) recsize
      else if kfifo_is_empty f then Val (0, [], f)
      else bind_outcome
        (rd (kf_data f) (unat (kf_out f AND kf_mask f) * unat (kf_esize f)) (unat (kf_esize f)))
        (\<lambda>val. Val (1, val, f\<lparr>kf_out := kf_out f + 1\<rparr>)))"

definition kfifo_peek :: "nat \<Rightarrow> kfifo \<Rightarrow> nat \<Rightarrow> (u32 \<times> u8 list) outcome" where
  "kfifo_peek recsize f n =
     (if recsize \<noteq> 0 then kfifo_out_peek_r f (of_nat n) recsize
      else if kfifo_is_empty f then Val (0, [])
      else bind_outcome
        (rd (kf_data f) (unat (kf_out f AND kf_mask f) * unat (kf_esize f)) (unat (kf_esize f)))
        (\<lambda>val. Val (1, val)))"

subsection \<open>Rings of bytes\<close>

text \<open>The \<open>m\<close> bytes from position \<open>p\<close> on, round the end of the buffer.\<close>

definition ring_read :: "u8 list \<Rightarrow> nat \<Rightarrow> nat \<Rightarrow> u8 list" where
  "ring_read xs p m = map (\<lambda>j. xs ! ((p + j) mod length xs)) [0..<m]"

definition ring_write :: "u8 list \<Rightarrow> nat \<Rightarrow> u8 list \<Rightarrow> u8 list" where
  "ring_write xs p bs =
     (let l = min (length bs) (length xs - p); ys = take p xs @ take l bs @ drop (p + l) xs in
      drop l bs @ drop (length bs - l) ys)"

lemma length_ring_read [simp]: "length (ring_read xs p m) = m"
  by (simp add: ring_read_def)

lemma nth_ring_read [simp]: "j < m \<Longrightarrow> ring_read xs p m ! j = xs ! ((p + j) mod length xs)"
  by (simp add: ring_read_def)

lemma ring_pos:
  fixes p j N :: nat
  assumes "p < N" and "j < N"
  shows "(p + j) mod N = (if p + j < N then p + j else p + j - N)"
  using assms mod_if [of "p + j" N] mod_less [of "p + j - N" N] by auto

lemma ring_read_parts:
  assumes "p < length xs" and "m \<le> length xs" and l: "l = min m (length xs - p)"
  shows "seg p l xs @ seg 0 (m - l) xs = ring_read xs p m"
proof (rule nth_equalityI)
  show len: "length (seg p l xs @ seg 0 (m - l) xs) = length (ring_read xs p m)"
    using assms by (auto simp: min_def)
  fix i
  assume "i < length (seg p l xs @ seg 0 (m - l) xs)"
  then have i: "i < m" using len by simp
  show "(seg p l xs @ seg 0 (m - l) xs) ! i = ring_read xs p m ! i"
    using assms i by (auto simp: nth_append ring_pos min_def add.commute)
qed

lemma length_ring_write:
  "p < length xs \<Longrightarrow> length bs \<le> length xs \<Longrightarrow> length (ring_write xs p bs) = length xs"
  by (auto simp: ring_write_def Let_def min_def)

lemma nth_ring_write:
  assumes "p < length xs" and "length bs \<le> length xs" and "j < length xs"
  shows "ring_write xs p bs ! ((p + j) mod length xs) =
         (if j < length bs then bs ! j else xs ! ((p + j) mod length xs))"
proof (cases "p + length bs \<le> length xs")
  case True
  then have "ring_write xs p bs = take p xs @ bs @ drop (p + length bs) xs"
    by (auto simp: ring_write_def Let_def min_def)
  then show ?thesis using assms True by (auto simp: nth_append ring_pos)
next
  case False
  define l where "l = length xs - p"
  have rw: "ring_write xs p bs = drop l bs @ seg (length bs - l) (p - (length bs - l)) xs @ take l bs"
    using False assms by (auto simp: ring_write_def Let_def min_def l_def seg_def drop_take)
  have l: "length bs - l \<le> p" "p + l = length xs" "l < length bs" using assms False l_def by auto
  consider "j < l" | "l \<le> j" by linarith
  then show ?thesis
  proof cases
    case 1
    then have "(p + j) mod length xs = p + j" "j < length bs" using l by auto
    moreover have "ring_write xs p bs = (drop l bs @ seg (length bs - l) (p - (length bs - l)) xs) @ take l bs"
        "length (drop l bs @ seg (length bs - l) (p - (length bs - l)) xs) = p"
      using l assms(1) by (simp_all add: rw)
    ultimately show ?thesis using 1 by (metis nth_append_length_plus nth_take)
  next
    case 2
    then have "(p + j) mod length xs = j - l" using l assms(1,3) ring_pos [of p "length xs" j] by simp
    then show ?thesis using rw l 2 assms(3) by (auto simp: nth_append)
  qed
qed

lemma ring_read_append: "ring_read xs p (m + n) = ring_read xs p m @ ring_read xs ((p + m) mod length xs) n"
proof (rule nth_equalityI)
  fix i
  assume "i < length (ring_read xs p (m + n))"
  moreover have "((p + m) mod length xs + (i - m)) mod length xs = (p + i) mod length xs" if "m \<le> i"
    using that mod_add_left_eq [of "p + m" "length xs" "i - m"] by simp
  ultimately show "ring_read xs p (m + n) ! i =
      (ring_read xs p m @ ring_read xs ((p + m) mod length xs) n) ! i"
    by (auto simp: nth_append)
qed simp

lemma ring_read_mod: "ring_read xs (p mod length xs) m = ring_read xs p m"
  by (simp add: ring_read_def mod_add_left_eq)

lemma ring_read_write_new:
  assumes "p < length xs" and "length bs \<le> length xs"
  shows "ring_read (ring_write xs p bs) p (length bs) = bs"
  using assms nth_ring_write [OF assms]
  by (intro nth_equalityI) (auto simp: length_ring_write)

lemma ring_read_write_old:
  assumes "p < length xs" and "m + length bs \<le> length xs" and "p = (q + m) mod length xs"
  shows "ring_read (ring_write xs p bs) q m = ring_read xs q m"
proof (rule nth_equalityI)
  show "length (ring_read (ring_write xs p bs) q m) = length (ring_read xs q m)" by simp
  fix i
  assume "i < length (ring_read (ring_write xs p bs) q m)"
  then have i: "i < m" by simp
  let ?N = "length xs"
  have "(p + (?N - m + i)) mod ?N = (q + m + (?N - m + i)) mod ?N"
    by (simp add: assms(3) mod_add_left_eq)
  also have "q + m + (?N - m + i) = q + i + ?N" using assms i by simp
  finally have pos: "(p + (?N - m + i)) mod ?N = (q + i) mod ?N" by simp
  have "length bs \<le> ?N" "?N - m + i < ?N" "\<not> ?N - m + i < length bs" using assms i by auto
  then show "ring_read (ring_write xs p bs) q m ! i = ring_read xs q m ! i"
    using nth_ring_write [of p xs bs "?N - m + i"] assms(1) i pos by (simp add: length_ring_write)
qed

lemma ring_write_step:
  assumes "p < length xs" and "length bs \<le> length xs" and "l = min (length bs) (length xs - p)"
  shows "bind_outcome (wr_bytes xs p (take l bs)) (\<lambda>d. wr_bytes d 0 (drop l bs)) = Val (ring_write xs p bs)"
  using assms by (auto simp: wr_bytes_def ring_write_def Let_def min_def)

subsection \<open>Invariant and contents\<close>

abbreviation cells_of :: "kfifo \<Rightarrow> nat" where
  "cells_of f \<equiv> unat (kf_mask f) + 1"

abbreviation esz :: "kfifo \<Rightarrow> nat" where
  "esz f \<equiv> unat (kf_esize f)"

abbreviation ring_of :: "kfifo \<Rightarrow> u8 list" where
  "ring_of f \<equiv> take (cells_of f * esz f) (kf_data f)"

definition kfifo_wf :: "kfifo \<Rightarrow> bool" where
  "kfifo_wf f \<longleftrightarrow>
     cells_of f \<in> (\<lambda>k. 2 ^ k) ` {1..<32} \<and> 0 < esz f \<and> cells_of f * esz f < 2 ^ 32 \<and>
     cells_of f * esz f \<le> length (kf_data f) \<and> unat (kf_in f - kf_out f) \<le> cells_of f"

definition kfifo_count :: "kfifo \<Rightarrow> nat" where
  "kfifo_count f = unat (kf_in f - kf_out f)"

definition pos_of :: "kfifo \<Rightarrow> u32 \<Rightarrow> nat" where
  "pos_of f c = (unat c mod cells_of f) * esz f"

definition kfifo_bytes :: "kfifo \<Rightarrow> u8 list" where
  "kfifo_bytes f = ring_read (ring_of f) (pos_of f (kf_out f)) (kfifo_count f * esz f)"

lemma kfifo_wfE:
  assumes "kfifo_wf f"
  obtains k where "0 < k" "k < 32" "cells_of f = 2 ^ k" "kf_mask f = mask k" "cells_of f < 2 ^ 32"
    "length (ring_of f) = cells_of f * esz f" "kf_data f = ring_of f @ drop (cells_of f * esz f) (kf_data f)"
proof -
  obtain k where k: "0 < k" "k < 32" "cells_of f = 2 ^ k" using assms by (auto simp: kfifo_wf_def)
  have "unat (kf_mask f) = 2 ^ k - 1" using k(3) by simp
  moreover have k32: "(2 :: nat) ^ k < 2 ^ 32" using k(2) by (intro power_strict_increasing) auto
  moreover have "(mask k :: u32) = of_nat (2 ^ k - 1)" by (metis mask_eq_exp_minus_1 of_nat_mask_eq)
  ultimately have "unat (kf_mask f) = unat (mask k :: u32)" by (simp add: unat_of_nat_u32 del: of_nat_diff)
  then have m: "kf_mask f = mask k" by (rule unsigned_word_eqI)
  have "cells_of f * esz f \<le> length (kf_data f)" using assms unfolding kfifo_wf_def by blast
  then have "length (ring_of f) = cells_of f * esz f" by (simp only: length_take min_absorb2)
  then show ?thesis using that [OF k m] k32 k(3) by simp
qed

lemma unat_and_mask:
  assumes "kfifo_wf f"
  shows "unat (c AND kf_mask f) = unat c mod cells_of f"
proof -
  obtain k where k: "cells_of f = 2 ^ k" "kf_mask f = mask k" using kfifo_wfE [OF assms] by metis
  have "c AND kf_mask f = take_bit k c" by (simp add: k(2) take_bit_eq_mask)
  then have "unat (c AND kf_mask f) = take_bit k (unat c)" by (simp add: unsigned_take_bit_eq)
  then show ?thesis unfolding k(1) by (simp add: take_bit_eq_mod)
qed

lemma unat_cells: "kfifo_wf f \<Longrightarrow> unat (kf_mask f + 1) = cells_of f"
  by (elim kfifo_wfE) (simp add: unat_word_ariths(1))

lemma unat_mult_small: "unat a * unat b < 2 ^ 32 \<Longrightarrow> unat (a * b :: u32) = unat a * unat b"
  by (simp add: unat_word_ariths(2))

lemma unat_min: "unat (min a b :: u32) = min (unat a) (unat b)"
  by (simp add: min_def word_le_nat_alt)

lemma kfifo_unused_eq:
  assumes "kfifo_wf f"
  shows "unat (kfifo_unused f) = cells_of f - kfifo_count f"
  using assms unat_cells [OF assms] unat_sub [of "kf_in f - kf_out f" "kf_mask f + 1"]
  by (simp add: kfifo_unused_def kfifo_count_def kfifo_wf_def word_le_nat_alt)

lemma pos_less:
  assumes "kfifo_wf f"
  shows "pos_of f c < cells_of f * esz f" and "pos_of f c + esz f \<le> cells_of f * esz f"
proof -
  have e: "0 < esz f" using assms by (simp add: kfifo_wf_def)
  have "Suc (unat c mod cells_of f) * esz f \<le> cells_of f * esz f" by (intro mult_le_mono1) (simp add: Suc_le_eq)
  then show "pos_of f c + esz f \<le> cells_of f * esz f" by (simp add: pos_of_def)
  then show "pos_of f c < cells_of f * esz f" using e by simp
qed

lemma ring_span_wf:
  assumes wf: "kfifo_wf f" and "unat len \<le> cells_of f"
  shows "ring_span f len off =
     (pos_of f off, unat len * esz f, min (unat len * esz f) (cells_of f * esz f - pos_of f off))"
proof -
  have N: "cells_of f * esz f < 2 ^ 32" using wf by (simp add: kfifo_wf_def)
  have p: "pos_of f off < cells_of f * esz f" by (rule pos_less [OF wf])
  have off: "unat ((off AND kf_mask f) * kf_esize f) = pos_of f off"
    using unat_mult_small [of "off AND kf_mask f" "kf_esize f"] N p by (simp add: pos_of_def unat_and_mask [OF wf])
  have sz: "unat ((kf_mask f + 1) * kf_esize f) = cells_of f * esz f"
    using unat_mult_small [of "kf_mask f + 1" "kf_esize f"] N by (simp add: unat_cells [OF wf])
  have "unat len * esz f \<le> cells_of f * esz f" using assms(2) by (rule mult_le_mono1)
  then have l: "unat (len * kf_esize f) = unat len * esz f"
    using unat_mult_small [of len "kf_esize f"] N by simp
  have "unat ((kf_mask f + 1) * kf_esize f - (off AND kf_mask f) * kf_esize f) = cells_of f * esz f - pos_of f off"
    using unat_sub [of "(off AND kf_mask f) * kf_esize f" "(kf_mask f + 1) * kf_esize f"] p off sz
    by (simp add: word_le_nat_alt)
  moreover have "ring_span f len off =
      (unat ((off AND kf_mask f) * kf_esize f), unat (len * kf_esize f),
       unat (min (len * kf_esize f) ((kf_mask f + 1) * kf_esize f - (off AND kf_mask f) * kf_esize f)))"
    by (simp add: ring_span_def Let_def)
  ultimately show ?thesis by (simp add: off l unat_min)
qed

lemma kfifo_copy_in_ring:
  assumes wf: "kfifo_wf f" and len: "unat len \<le> cells_of f" "unat len * esz f \<le> length src"
  shows "kfifo_copy_in f src len off =
    Val (f\<lparr>kf_data := ring_write (ring_of f) (pos_of f off) (take (unat len * esz f) src) @
            drop (cells_of f * esz f) (kf_data f)\<rparr>)"
proof -
  define m where "m = unat len * esz f"
  define l where "l = min m (cells_of f * esz f - pos_of f off)"
  let ?bs = "take m src" and ?r = "ring_of f" and ?t = "drop (cells_of f * esz f) (kf_data f)"
  have N: "length ?r = cells_of f * esz f" "kf_data f = ?r @ ?t" using kfifo_wfE [OF wf] by metis+
  have m: "m \<le> cells_of f * esz f" "m \<le> length src" using mult_le_mono1 [OF len(1)] len(2) by (simp_all add: m_def)
  have p: "pos_of f off < length ?r" using pos_less(1) [OF wf] N(1) by metis
  have w: "bind_outcome (wr_bytes ?r (pos_of f off) (take l ?bs)) (\<lambda>d. wr_bytes d 0 (drop l ?bs)) =
      Val (ring_write ?r (pos_of f off) ?bs)"
    using m p N(1) by (intro ring_write_step) (simp_all add: l_def)
  then obtain d where d: "wr_bytes ?r (pos_of f off) (take l ?bs) = Val d"
      "wr_bytes d 0 (drop l ?bs) = Val (ring_write ?r (pos_of f off) ?bs)"
    by (auto simp del: bind_outcome.simps)
  have r: "rd src 0 l = Val (take l ?bs)" "rd src l (m - l) = Val (drop l ?bs)"
    using m by (auto simp: rd_def seg_def l_def min_def drop_take)
  have w1: "wr_bytes (kf_data f) (pos_of f off) (take l ?bs) = Val (d @ ?t)"
    by (subst N(2)) (rule wr_bytes_append [OF d(1)])
  have w2: "wr_bytes (d @ ?t) 0 (drop l ?bs) = Val (ring_write ?r (pos_of f off) ?bs @ ?t)"
    by (rule wr_bytes_append [OF d(2)])
  show ?thesis
    unfolding kfifo_copy_in_def ring_span_wf [OF wf len(1)] m_def [symmetric] l_def [symmetric] Let_def
      split_beta fst_conv snd_conv r w1 w2 bind_outcome.simps ..
qed

lemma seg_take: "p + n \<le> N \<Longrightarrow> seg p n (take N xs) = seg p n xs"
  by (simp add: seg_def drop_take)

lemma rd_ring:
  assumes "kfifo_wf f" and "p + n \<le> cells_of f * esz f"
  shows "rd (kf_data f) p n = Val (seg p n (ring_of f))"
proof -
  have "cells_of f * esz f \<le> length (kf_data f)" using assms(1) unfolding kfifo_wf_def by blast
  then have "p + n \<le> length (kf_data f)" using assms(2) by linarith
  then show ?thesis unfolding rd_def seg_take [OF assms(2)] by simp
qed

lemma kfifo_copy_out_ring:
  assumes wf: "kfifo_wf f" and len: "unat len \<le> cells_of f"
  shows "kfifo_copy_out f len off = Val (ring_read (ring_of f) (pos_of f off) (unat len * esz f))"
proof -
  define m where "m = unat len * esz f"
  define l where "l = min m (cells_of f * esz f - pos_of f off)"
  have N: "length (ring_of f) = cells_of f * esz f" using kfifo_wfE [OF wf] by metis
  have p: "pos_of f off < cells_of f * esz f" by (rule pos_less(1) [OF wf])
  have m: "m \<le> cells_of f * esz f" using mult_le_mono1 [OF len] by (simp add: m_def)
  have "rd (kf_data f) (pos_of f off) l = Val (seg (pos_of f off) l (ring_of f))"
    using p by (intro rd_ring [OF wf]) (simp add: l_def)
  moreover have "rd (kf_data f) 0 (m - l) = Val (seg 0 (m - l) (ring_of f))"
    using m by (intro rd_ring [OF wf]) simp
  moreover have "seg (pos_of f off) l (ring_of f) @ seg 0 (m - l) (ring_of f) = ring_read (ring_of f) (pos_of f off) m"
    using p m N by (intro ring_read_parts) (simp_all only: l_def)
  ultimately show ?thesis
    unfolding kfifo_copy_out_def ring_span_wf [OF wf len] m_def [symmetric] l_def [symmetric] Let_def
      split_beta fst_conv snd_conv by simp
qed

lemma pos_add:
  assumes wf: "kfifo_wf f"
  shows "pos_of f (c + w) = (pos_of f c + unat w * esz f) mod (cells_of f * esz f)"
proof -
  obtain k where k: "k < 32" "cells_of f = 2 ^ k" using kfifo_wfE [OF wf] by metis
  have "(2 :: nat) ^ k dvd 2 ^ 32" using k(1) by (intro le_imp_power_dvd) simp
  then have "unat (c + w) mod cells_of f = (unat c + unat w) mod cells_of f"
    by (simp add: unat_word_ariths(1) k(2) mod_mod_cancel del: One_nat_def add_Suc_right)
  then have "pos_of f (c + w) = ((unat c mod cells_of f + unat w) mod cells_of f) * esz f"
    by (simp only: pos_of_def mod_add_left_eq)
  also have "\<dots> = ((unat c mod cells_of f + unat w) * esz f) mod (cells_of f * esz f)"
    by (simp only: mult_mod_left)
  finally show ?thesis by (simp only: pos_of_def distrib_right)
qed

lemma count_push:
  assumes "kfifo_wf f" and "kfifo_count f + unat w \<le> cells_of f"
  shows "unat (kf_in f + w - kf_out f) = kfifo_count f + unat w"
proof -
  have "cells_of f < 2 ^ 32" using kfifo_wfE [OF assms(1)] by metis
  then have "kfifo_count f + unat w < 2 ^ 32" using assms(2) by simp
  then have "unat ((kf_in f - kf_out f) + w) = kfifo_count f + unat w"
    by (simp add: kfifo_count_def unat_word_ariths(1))
  moreover have "kf_in f + w - kf_out f = (kf_in f - kf_out f) + w" by simp
  ultimately show ?thesis by metis
qed

lemma count_pop:
  assumes "unat w \<le> kfifo_count f"
  shows "unat (kf_in f - (kf_out f + w)) = kfifo_count f - unat w"
  using assms unat_sub [of w "kf_in f - kf_out f"] by (simp add: kfifo_count_def word_le_nat_alt diff_diff_eq)

text \<open>The abstract effect of the two ends: bytes appended behind \<open>in\<close>, bytes removed at \<open>out\<close>.\<close>

lemma kfifo_push:
  assumes wf: "kfifo_wf f" and bs: "unat w * esz f \<le> length bs"
    and room: "kfifo_count f * esz f + length bs \<le> cells_of f * esz f"
    and f': "f' = f\<lparr>kf_data := ring_write (ring_of f) (pos_of f (kf_in f)) bs @ drop (cells_of f * esz f) (kf_data f),
      kf_in := kf_in f + w\<rparr>"
  shows "kfifo_wf f'" and "kfifo_bytes f' = kfifo_bytes f @ take (unat w * esz f) bs"
    and "kfifo_count f' = kfifo_count f + unat w"
proof -
  let ?r = "ring_of f" and ?p = "pos_of f (kf_in f)" and ?q = "pos_of f (kf_out f)" and ?m = "kfifo_count f * esz f"
  let ?r' = "ring_write ?r ?p bs"
  have N: "length ?r = cells_of f * esz f" using kfifo_wfE [OF wf] by metis
  have p: "?p < length ?r" unfolding N by (rule pos_less(1) [OF wf])
  have fit: "?m + length bs \<le> length ?r" unfolding N by (rule room)
  have "(kfifo_count f + unat w) * esz f \<le> cells_of f * esz f"
    using room bs by (simp only: distrib_right)
  moreover have "0 < esz f" using wf by (simp add: kfifo_wf_def)
  ultimately have cells: "kfifo_count f + unat w \<le> cells_of f" by (simp only: mult_le_cancel2)
  have r': "length ?r' = length ?r" using p fit by (intro length_ring_write) auto
  have ring: "ring_of f' = ?r'" using r' N by (simp add: f')
  have pin: "?p = (?q + ?m) mod length ?r"
    using pos_add [OF wf, of "kf_out f" "kf_in f - kf_out f"] unfolding N by (simp add: kfifo_count_def)
  show cnt: "kfifo_count f' = kfifo_count f + unat w"
    using count_push [OF wf cells] by (simp add: f' kfifo_count_def)
  have "kfifo_bytes f' = ring_read ?r' ?q (?m + unat w * esz f)"
    by (simp only: kfifo_bytes_def ring cnt) (simp add: f' pos_of_def distrib_right)
  also have "\<dots> = ring_read ?r' ?q ?m @ ring_read ?r' ?p (unat w * esz f)"
    using ring_read_append [of ?r' ?q ?m "unat w * esz f"] pin r' by simp
  also have "ring_read ?r' ?q ?m = ring_read ?r ?q ?m" by (rule ring_read_write_old [OF p fit pin])
  also have "ring_read ?r' ?p (unat w * esz f) = take (unat w * esz f) (ring_read ?r' ?p (length bs))"
    using ring_read_append [of ?r' ?p "unat w * esz f" "length bs - unat w * esz f"] bs by simp
  also have "ring_read ?r' ?p (length bs) = bs" using fit by (intro ring_read_write_new [OF p]) simp
  finally show "kfifo_bytes f' = kfifo_bytes f @ take (unat w * esz f) bs" by (simp only: kfifo_bytes_def)
  have "cells_of f * esz f \<le> length (kf_data f)" using wf unfolding kfifo_wf_def by blast
  then have "length (kf_data f') = length (kf_data f)"
    unfolding f' using r' N by simp
  then show "kfifo_wf f'"
    using wf cells cnt by (simp add: kfifo_wf_def f' kfifo_count_def)
qed

lemma kfifo_pop:
  assumes wf: "kfifo_wf f" and "unat w \<le> kfifo_count f" and f': "f' = f\<lparr>kf_out := kf_out f + w\<rparr>"
  shows "kfifo_wf f'" and "kfifo_bytes f' = drop (unat w * esz f) (kfifo_bytes f)"
    and "kfifo_count f' = kfifo_count f - unat w"
    and "ring_read (ring_of f) (pos_of f (kf_out f)) (unat w * esz f) = take (unat w * esz f) (kfifo_bytes f)"
proof -
  have N: "length (ring_of f) = cells_of f * esz f" using kfifo_wfE [OF wf] by metis
  show cnt: "kfifo_count f' = kfifo_count f - unat w"
    using count_pop [OF assms(2)] by (simp add: f' kfifo_count_def)
  show "kfifo_wf f'" using wf cnt by (auto simp: kfifo_wf_def f' kfifo_count_def)
  have m: "unat w * esz f \<le> kfifo_count f * esz f" using assms(2) by (rule mult_le_mono1)
  then have split: "kfifo_bytes f = ring_read (ring_of f) (pos_of f (kf_out f)) (unat w * esz f) @
      ring_read (ring_of f) (pos_of f (kf_out f + w)) (kfifo_count f * esz f - unat w * esz f)"
    using ring_read_append [of "ring_of f" "pos_of f (kf_out f)" "unat w * esz f" "kfifo_count f * esz f - unat w * esz f"]
    by (simp only: kfifo_bytes_def le_add_diff_inverse pos_add [OF wf] N)
  then show "ring_read (ring_of f) (pos_of f (kf_out f)) (unat w * esz f) = take (unat w * esz f) (kfifo_bytes f)"
    by simp
  have "kfifo_bytes f' = ring_read (ring_of f) (pos_of f (kf_out f + w)) (kfifo_count f * esz f - unat w * esz f)"
    by (simp only: kfifo_bytes_def cnt) (simp add: f' pos_of_def diff_mult_distrib)
  then show "kfifo_bytes f' = drop (unat w * esz f) (kfifo_bytes f)" using split by simp
qed

subsection \<open>The operations refine a queue\<close>

lemma unat_if_min: "unat (if len > l then l else (len :: u32)) = min (unat len) (unat l)"
  by (simp add: min_def word_less_nat_alt)

lemma kfifo_copy_in_push:
  assumes wf: "kfifo_wf f" and room: "kfifo_count f + unat w \<le> cells_of f" and buf: "unat w * esz f \<le> length buf"
  shows "\<exists>f1. kfifo_copy_in f buf w (kf_in f) = Val f1 \<and> kf_in f1 = kf_in f \<and>
     kfifo_wf (f1\<lparr>kf_in := kf_in f + w\<rparr>) \<and>
     kfifo_bytes (f1\<lparr>kf_in := kf_in f + w\<rparr>) = kfifo_bytes f @ take (unat w * esz f) buf \<and>
     kfifo_count (f1\<lparr>kf_in := kf_in f + w\<rparr>) = kfifo_count f + unat w \<and>
     kf_mask f1 = kf_mask f \<and> kf_esize f1 = kf_esize f \<and> kf_out f1 = kf_out f"
proof -
  let ?bs = "take (unat w * esz f) buf"
  have len: "length ?bs = unat w * esz f" using buf by simp
  have fit: "kfifo_count f * esz f + length ?bs \<le> cells_of f * esz f"
    using mult_le_mono1 [OF room, of "esz f"] by (simp only: len distrib_right)
  have w: "unat w \<le> cells_of f" using room by linarith
  note push = kfifo_push [OF wf _ fit refl, of w, unfolded len, OF order_refl]
  show ?thesis
    unfolding kfifo_copy_in_ring [OF wf w buf] using push by simp
qed

lemma kfifo_in_refines:
  assumes wf: "kfifo_wf f" and buf: "min (unat len) (cells_of f - kfifo_count f) * esz f \<le> length buf"
  shows "\<exists>n f'. kfifo_in f buf len = Val (n, f') \<and> unat n = min (unat len) (cells_of f - kfifo_count f) \<and>
     kfifo_wf f' \<and> kfifo_bytes f' = kfifo_bytes f @ take (unat n * esz f) buf \<and>
     kfifo_count f' = kfifo_count f + unat n \<and> kf_mask f' = kf_mask f \<and> kf_esize f' = kf_esize f"
proof -
  define w where "w = (if len > kfifo_unused f then kfifo_unused f else len)"
  have w: "unat w = min (unat len) (cells_of f - kfifo_count f)"
    by (simp only: w_def unat_if_min kfifo_unused_eq [OF wf])
  have "kfifo_count f \<le> cells_of f" using wf by (simp add: kfifo_wf_def kfifo_count_def)
  then have "kfifo_count f + unat w \<le> cells_of f" unfolding w by linarith
  from kfifo_copy_in_push [OF wf this buf [folded w]] show ?thesis
    using w unfolding kfifo_in_def Let_def w_def [symmetric] by auto
qed

lemma kfifo_out_refines:
  assumes wf: "kfifo_wf f"
  shows "\<exists>n f'. kfifo_out f len = Val (n, take (unat n * esz f) (kfifo_bytes f), f') \<and>
     unat n = min (unat len) (kfifo_count f) \<and> kfifo_wf f' \<and>
     kfifo_bytes f' = drop (unat n * esz f) (kfifo_bytes f) \<and>
     kfifo_count f' = kfifo_count f - unat n \<and> kf_mask f' = kf_mask f \<and> kf_esize f' = kf_esize f"
proof -
  define w where "w = (if len > kf_in f - kf_out f then kf_in f - kf_out f else len)"
  have w: "unat w = min (unat len) (kfifo_count f)"
    by (simp only: w_def unat_if_min kfifo_count_def)
  then have le: "unat w \<le> kfifo_count f" by simp
  moreover have "kfifo_count f \<le> cells_of f" using wf by (simp add: kfifo_wf_def kfifo_count_def)
  ultimately have c: "unat w \<le> cells_of f" by linarith
  note pop = kfifo_pop [OF wf le refl]
  show ?thesis
    unfolding kfifo_out_def kfifo_out_peek_def Let_def w_def [symmetric] kfifo_copy_out_ring [OF wf c] pop(4)
    using w pop by auto
qed

lemma kfifo_reset_refines:
  "kfifo_wf f \<Longrightarrow> kfifo_wf (kfifo_reset f) \<and> kfifo_bytes (kfifo_reset f) = []"
  "kfifo_wf f \<Longrightarrow> kfifo_wf (kfifo_reset_out f) \<and> kfifo_bytes (kfifo_reset_out f) = []"
  by (auto simp: kfifo_wf_def kfifo_reset_def kfifo_reset_out_def kfifo_bytes_def kfifo_count_def ring_read_def)

lemma kfifo_is_full_eq: "kfifo_wf f \<Longrightarrow> kfifo_is_full f \<longleftrightarrow> kfifo_count f = cells_of f"
  by (auto simp: kfifo_is_full_def kfifo_len_def kfifo_count_def kfifo_wf_def word_less_nat_alt)

lemma kfifo_is_empty_eq: "kfifo_is_empty f \<longleftrightarrow> kfifo_count f = 0"
  by (simp add: kfifo_is_empty_def kfifo_count_def unsigned_eq_0_iff)

lemma wr_bytes_flat: "p + length bs \<le> length xs \<Longrightarrow> wr_bytes xs p bs = Val (ring_write xs p bs)"
  by (auto simp: wr_bytes_def ring_write_def Let_def min_def)

lemma kfifo_put_refines:
  assumes wf: "kfifo_wf f" and val: "length val = esz f"
  shows "\<exists>f'. kfifo_put 0 f val = Val (if kfifo_count f < cells_of f then 1 else 0, f') \<and> kfifo_wf f' \<and>
     kfifo_bytes f' = kfifo_bytes f @ (if kfifo_count f < cells_of f then val else []) \<and>
     kf_mask f' = kf_mask f \<and> kf_esize f' = kf_esize f"
proof (cases "kfifo_is_full f")
  case True
  then show ?thesis using kfifo_is_full_eq [OF wf] wf by (simp add: kfifo_put_def)
next
  case False
  moreover have "kfifo_count f \<le> cells_of f" using wf by (simp add: kfifo_wf_def kfifo_count_def)
  ultimately have c: "kfifo_count f < cells_of f" using kfifo_is_full_eq [OF wf] by linarith
  have one: "unat (1 :: u32) = 1" by simp
  have N: "length (ring_of f) = cells_of f * esz f" "kf_data f = ring_of f @ drop (cells_of f * esz f) (kf_data f)"
    using kfifo_wfE [OF wf] by metis+
  have "(kfifo_count f + 1) * esz f \<le> cells_of f * esz f" using c by (intro mult_le_mono1) simp
  then have fit: "kfifo_count f * esz f + length val \<le> cells_of f * esz f" unfolding val by (simp only: distrib_right mult_1)
  have "wr_bytes (ring_of f) (pos_of f (kf_in f)) val = Val (ring_write (ring_of f) (pos_of f (kf_in f)) val)"
    using pos_less(2) [OF wf, of "kf_in f"] by (intro wr_bytes_flat) (simp only: N(1) val)
  from wr_bytes_append [OF this, of "drop (cells_of f * esz f) (kf_data f)"]
  have "kfifo_put 0 f val = Val (1, f\<lparr>kf_data := ring_write (ring_of f) (pos_of f (kf_in f)) val @
      drop (cells_of f * esz f) (kf_data f), kf_in := kf_in f + 1\<rparr>)"
    unfolding N(2) [symmetric] using False
    by (simp add: kfifo_put_def unat_and_mask [OF wf] pos_of_def del: mult_Suc)
  then show ?thesis
    using kfifo_push [OF wf _ fit refl, of 1] val c by simp
qed

lemma length_kfifo_bytes: "length (kfifo_bytes f) = kfifo_count f * esz f"
  by (simp add: kfifo_bytes_def)

lemma kfifo_get_refines:
  assumes wf: "kfifo_wf f"
  shows "\<exists>f'. kfifo_get 0 f n = Val (if kfifo_bytes f = [] then 0 else 1, take (esz f) (kfifo_bytes f), f') \<and>
     kfifo_wf f' \<and> kfifo_bytes f' = drop (esz f) (kfifo_bytes f) \<and> kf_mask f' = kf_mask f \<and> kf_esize f' = kf_esize f"
proof (cases "kfifo_is_empty f")
  case True
  then have "kfifo_bytes f = []" using kfifo_is_empty_eq length_kfifo_bytes [of f] by simp
  then show ?thesis using True wf by (simp add: kfifo_get_def)
next
  case False
  then have c: "unat (1 :: u32) \<le> kfifo_count f" using kfifo_is_empty_eq [of f] by simp
  have "0 < esz f" using wf by (simp add: kfifo_wf_def)
  then have ne: "kfifo_bytes f \<noteq> []" using c length_kfifo_bytes [of f] by auto
  have p: "pos_of f (kf_out f) + esz f \<le> cells_of f * esz f" by (rule pos_less(2) [OF wf])
  have N: "length (ring_of f) = cells_of f * esz f" using kfifo_wfE [OF wf] by metis
  have "seg (pos_of f (kf_out f)) (esz f) (ring_of f) @ seg 0 (esz f - esz f) (ring_of f) =
      ring_read (ring_of f) (pos_of f (kf_out f)) (esz f)"
    using p N pos_less(1) [OF wf, of "kf_out f"] by (intro ring_read_parts) linarith+
  then have "rd (kf_data f) (pos_of f (kf_out f)) (esz f) = Val (take (esz f) (kfifo_bytes f))"
    using rd_ring [OF wf p] kfifo_pop(4) [OF wf c refl] by simp
  then have "kfifo_get 0 f n = Val (1, take (esz f) (kfifo_bytes f), f\<lparr>kf_out := kf_out f + 1\<rparr>)"
    using False by (simp add: kfifo_get_def unat_and_mask [OF wf] pos_of_def del: mult_Suc)
  then show ?thesis using kfifo_pop [OF wf c refl] ne by simp
qed

end
