(* ===== verification/Kfifo_Queue.thy ===== *)
theory Kfifo_Queue
  imports Kfifo
begin

text \<open>
  The ring buffer of \<open>Kfifo\<close> as a queue: allocation establishes its invariant, record headers and
  user space transfers (complete or cut short by a fault) append and remove what they report, and any
  sequence of operations on a byte fifo or a record fifo keeps the order. The order is proved once,
  for the interface \<open>fifo_queue\<close>, which both kinds of fifo implement.
\<close>

subsection \<open>Allocation\<close>

lemma pow2_floor_range:
  assumes "2 \<le> n" and "n < 2 ^ 32"
  shows "pow2_floor n \<in> (\<lambda>k. 2 ^ k) ` {1..<32}"
proof -
  define k where "k = fls_nat n - 1"
  have n: "2 ^ k \<le> n" "n < 2 ^ fls_nat n" "0 < fls_nat n" using fls_nat_bounds [of n] assms(1) by (auto simp: k_def)
  have "(2 :: nat) ^ k < 2 ^ 32" using n(1) assms(2) by (rule le_less_trans)
  then have "k < 32" by (rule power_less_imp_less_exp [rotated]) simp
  moreover have "k \<noteq> 0" using n(2,3) assms(1) by (auto simp: k_def le_Suc_eq dest: le_imp_less_or_eq)
  ultimately show ?thesis by (auto simp: pow2_floor_def k_def)
qed

lemma round_size:
  assumes "sz \<noteq> 0"
  shows "\<exists>s. (if is_power_of_2 (ucast sz) then Val sz
           else bind_outcome (rounddown_pow_of_two (ucast sz)) (\<lambda>s. Val (ucast s))) = Val (s :: u32) \<and>
         unat s = pow2_floor (unat sz)"
proof -
  have u: "unat (ucast sz :: u64) = unat sz"
    using unsigned_less [of sz, where 'a = nat] by (simp add: unsigned_ucast_eq take_bit_nat_eq_self)
  show ?thesis
  proof (cases "is_power_of_2 (ucast sz)")
    case True
    then obtain k where "unat sz = 2 ^ k" using is_power_of_2_iff u by metis
    then show ?thesis using True pow2_floor_power by auto
  next
    case False
    have "(ucast sz :: u64) \<noteq> 0" using assms u by (metis unsigned_0 unsigned_eq_0_iff)
    then obtain r where r: "rounddown_pow_of_two (ucast sz) = Val r" "unat r = pow2_floor (unat sz)"
      using rounddown_floor [of "ucast sz"] u by auto
    have "0 < unat sz" using assms by (simp add: unat_gt_0)
    then have "unat r < 2 ^ 32"
      using r(2) pow2_floor_bounds [of "unat sz"] unsigned_less [of sz, where 'a = nat] by simp
    then have "unat (ucast r :: u32) = unat r" by (simp add: unsigned_ucast_eq take_bit_nat_eq_self)
    then show ?thesis using False r by simp
  qed
qed

lemma kfifo_alloc_refines:
  assumes "2 \<le> unat sz" and "0 < unat esize" and small: "unat sz * unat esize < 2 ^ 32"
    and mem: "\<And>n d. alloc n = Some d \<Longrightarrow> length d = n"
  shows "\<exists>r f. kfifo_alloc alloc sz esize = Val (r, f) \<and>
     (case r of
        None \<Rightarrow> kfifo_wf f \<and> kfifo_bytes f = [] \<and> cells_of f = pow2_floor (unat sz) \<and> kf_esize f = esize
      | Some e \<Rightarrow> e = ENOMEM)"
proof -
  have "sz \<noteq> 0" using assms(1) by auto
  then obtain s where s: "(if is_power_of_2 (ucast sz) then Val sz
           else bind_outcome (rounddown_pow_of_two (ucast sz)) (\<lambda>s. Val (ucast s))) = Val (s :: u32)"
      "unat s = pow2_floor (unat sz)"
    using round_size by blast
  have range: "unat s \<in> (\<lambda>k. 2 ^ k) ` {1..<32}"
    unfolding s(2) using assms(1) unsigned_less [of sz, where 'a = nat] by (intro pow2_floor_range) simp_all
  have "unat s \<le> unat sz" using pow2_floor_bounds [of "unat sz"] assms(1) s(2) by simp
  then have fit: "unat s * unat esize < 2 ^ 32" using small mult_le_mono1 le_less_trans by blast
  have two: "2 \<le> unat s" using range by (auto simp: self_le_power)
  have e: "unat (ucast s * ucast esize :: u64) = unat s * unat esize"
  proof -
    have "unat (ucast s :: u64) = unat s" "unat (ucast esize :: u64) = unat esize"
      using unsigned_less [of s, where 'a = nat] unsigned_less [of esize, where 'a = nat]
      by (simp_all add: unsigned_ucast_eq take_bit_nat_eq_self)
    then show ?thesis using fit by (simp add: unat_word_ariths(2))
  qed
  have m: "unat (s - 1) + 1 = unat s" using two unat_sub [of 1 s] by (simp add: word_le_nat_alt)
  show ?thesis
  proof (cases "alloc (unat s * unat esize)")
    case None
    then show ?thesis
      using two e unfolding kfifo_alloc_def s(1) by (simp add: word_less_nat_alt)
  next
    case (Some d)
    let ?f = "\<lparr>kf_in = 0, kf_out = 0, kf_mask = s - 1, kf_esize = esize, kf_data = d\<rparr>"
    have cells: "cells_of ?f = unat s" using m by simp
    have "kfifo_wf ?f"
      using range fit assms(2) mem [OF Some] cells unfolding kfifo_wf_def cells by simp
    moreover have "kfifo_bytes ?f = []" by (simp add: kfifo_bytes_def kfifo_count_def ring_read_def)
    moreover have "kfifo_alloc alloc sz esize = Val (None, ?f)"
      using two e Some unfolding kfifo_alloc_def s(1) by (simp add: word_less_nat_alt)
    ultimately show ?thesis using cells s(2) by auto
  qed
qed

subsection \<open>Records\<close>

lemma ring_ext:
  fixes xs ys :: "u8 list"
  assumes "p < length xs" and len: "length ys = length xs"
    and eq: "\<And>j. j < length xs \<Longrightarrow> xs ! ((p + j) mod length xs) = ys ! ((p + j) mod length xs)"
  shows "xs = ys"
proof (rule nth_equalityI)
  fix i
  assume i: "i < length xs"
  let ?j = "(i + (length xs - p)) mod length xs"
  have "(p + ?j) mod length xs = (p + (i + (length xs - p))) mod length xs" by (simp add: mod_add_right_eq)
  also have "p + (i + (length xs - p)) = i + length xs" using assms(1) by simp
  finally have "(p + ?j) mod length xs = i" using i by simp
  moreover have "?j < length xs" using assms(1) by (intro mod_less_divisor) linarith
  ultimately show "xs ! i = ys ! i" using eq [of ?j] by simp
qed (simp add: len)

lemma ring_write_append:
  assumes "p < length xs" and "length a + length b \<le> length xs"
  shows "ring_write (ring_write xs p a) ((p + length a) mod length xs) b = ring_write xs p (a @ b)"
proof (rule ring_ext [of p])
  let ?N = "length xs" and ?q = "(p + length a) mod length xs" and ?r = "ring_write xs p a"
  have r: "length ?r = ?N" using assms by (intro length_ring_write) auto
  have q: "?q < ?N" using assms(1) by (intro mod_less_divisor) linarith
  have b: "length b \<le> length ?r" using assms(2) r by simp
  have w: "length (ring_write ?r ?q b) = ?N" using length_ring_write [of ?q ?r b] q b r by simp
  have ab: "length (a @ b) \<le> ?N" using assms(2) by simp
  show "p < length (ring_write ?r ?q b)" using w assms(1) by simp
  show "length (ring_write xs p (a @ b)) = length (ring_write ?r ?q b)"
    using length_ring_write [OF assms(1) ab] w by simp
  fix j
  assume "j < length (ring_write ?r ?q b)"
  then have j: "j < ?N" using w by simp
  have "ring_write ?r ?q b ! ((p + j) mod ?N) = ring_write xs p (a @ b) ! ((p + j) mod ?N)"
  proof (cases "j < length a")
    case True
    let ?j = "j + ?N - length a"
    have "(?q + ?j) mod ?N = (p + length a + ?j) mod ?N" by (rule mod_add_left_eq)
    also have "p + length a + ?j = p + j + ?N" using True assms(2) by simp
    finally have pos: "(?q + ?j) mod ?N = (p + j) mod ?N" by simp
    have "?j < ?N" "\<not> ?j < length b" using True assms(2) by auto
    then have "ring_write ?r ?q b ! ((p + j) mod ?N) = ?r ! ((p + j) mod ?N)"
      using nth_ring_write [of ?q ?r b ?j] q b r pos by simp
    then show ?thesis
      using nth_ring_write [OF assms(1) _ j, of a] nth_ring_write [OF assms(1) ab j] True assms(2)
      by (simp add: nth_append)
  next
    case False
    let ?j = "j - length a"
    have "(?q + ?j) mod ?N = (p + length a + ?j) mod ?N" by (rule mod_add_left_eq)
    then have pos: "(?q + ?j) mod ?N = (p + j) mod ?N" using False by simp
    have "ring_write ?r ?q b ! ((p + j) mod ?N) = (if ?j < length b then b ! ?j else ?r ! ((p + j) mod ?N))"
      using nth_ring_write [of ?q ?r b ?j] q b r pos j by simp
    then show ?thesis
      using nth_ring_write [OF assms(1) _ j, of a] nth_ring_write [OF assms(1) ab j] False assms(2)
      by (auto simp: nth_append)
  qed
  then show "ring_write ?r ?q b ! ((p + j) mod length (ring_write ?r ?q b)) =
      ring_write xs p (a @ b) ! ((p + j) mod length (ring_write ?r ?q b))"
    using w by simp
qed

lemma ring_write_one: "p < length xs \<Longrightarrow> ring_write xs p [b] = xs[p := b]"
  by (auto simp: ring_write_def Let_def upd_conv_take_nth_drop)

text \<open>The header of a record: its length, low byte first.\<close>

definition rec_head :: "nat \<Rightarrow> u32 \<Rightarrow> u8 list" where
  "rec_head recsize n = (if recsize > 1 then [ucast n, ucast (drop_bit 8 n)] else [ucast n])"

lemma length_rec_head: "recsize \<in> {1, 2} \<Longrightarrow> length (rec_head recsize n) = recsize"
  by (auto simp: rec_head_def)

lemma POKE_ring:
  assumes wf: "kfifo_wf f" and "esz f = 1" and d: "length r = cells_of f"
  shows "kfifo_POKE (r @ t) c (kf_mask f) v = Val (ring_write r (pos_of f c) [v] @ t)"
proof -
  have p: "unat (c AND kf_mask f) = pos_of f c" using assms(2) by (simp add: unat_and_mask [OF wf] pos_of_def)
  have "pos_of f c < length r" using pos_less(1) [OF wf, of c] assms(2) d by simp
  then show ?thesis by (simp add: kfifo_POKE_def p ring_write_one list_update_append1)
qed

lemma kfifo_poke_n_ring:
  assumes wf: "kfifo_wf f" and e: "esz f = 1" and rec: "recsize \<in> {1, 2}"
  shows "kfifo_poke_n f n recsize =
     Val (f\<lparr>kf_data := ring_write (ring_of f) (pos_of f (kf_in f)) (rec_head recsize n) @
            drop (cells_of f * esz f) (kf_data f)\<rparr>)"
proof -
  let ?r = "ring_of f" and ?t = "drop (cells_of f * esz f) (kf_data f)" and ?p = "pos_of f (kf_in f)"
  obtain k where k: "0 < k" "cells_of f = 2 ^ k" and N: "length ?r = cells_of f * esz f" and d: "kf_data f = ?r @ ?t"
    using kfifo_wfE [OF wf] by metis
  have N1: "length ?r = cells_of f" unfolding N using e by simp
  have "(2 :: nat) ^ 1 \<le> 2 ^ k" using k(1) by (intro power_increasing) auto
  then have two: "2 \<le> length ?r" using k(2) N e by simp
  have p: "?p < length ?r" unfolding N by (rule pos_less(1) [OF wf])
  have one: "kfifo_POKE (kf_data f) (kf_in f) (kf_mask f) v = Val (ring_write ?r ?p [v] @ ?t)" for v
    by (subst d, rule POKE_ring [OF wf e N1])
  have len: "length (ring_write ?r ?p [v]) = cells_of f" for v
    using length_ring_write [OF p, of "[v]"] two N e by simp
  have "pos_of f (kf_in f + 1) = (?p + length [v]) mod length ?r" for v :: u8
    using pos_add [OF wf, of "kf_in f" 1] N e by simp
  then have "kfifo_POKE (ring_write ?r ?p [v] @ ?t) (kf_in f + 1) (kf_mask f) w = Val (ring_write ?r ?p [v, w] @ ?t)" for v w
    using POKE_ring [OF wf e len, of v ?t "kf_in f + 1" w] ring_write_append [OF p, of "[v]" "[w]"] two by simp
  then show ?thesis using rec one by (auto simp: kfifo_poke_n_def rec_head_def)
qed

lemma unat_add_small: "unat a + n < 2 ^ 32 \<Longrightarrow> unat (a + of_nat n :: u32) = unat a + n"
  by (simp add: unat_word_ariths(1) unsigned_of_nat take_bit_nat_eq_self)

lemma kfifo_count_le: "kfifo_wf f \<Longrightarrow> kfifo_count f \<le> cells_of f"
  by (simp add: kfifo_wf_def kfifo_count_def)

lemma kfifo_in_r_refines:
  assumes wf: "kfifo_wf f" and e: "esz f = 1" and rec: "recsize \<in> {1, 2}" and buf: "unat len \<le> length buf"
  shows "\<exists>f'. kfifo_in_r f buf len recsize =
       Val (if unat len + recsize \<le> cells_of f - kfifo_count f then len else 0, f') \<and> kfifo_wf f' \<and>
     kfifo_bytes f' = kfifo_bytes f @
       (if unat len + recsize \<le> cells_of f - kfifo_count f then rec_head recsize len @ take (unat len) buf else []) \<and>
     kf_mask f' = kf_mask f \<and> kf_esize f' = kf_esize f"
proof (cases "unat len + recsize \<le> cells_of f - kfifo_count f")
  case False
  then show ?thesis using wf by (simp add: kfifo_in_r_def kfifo_unused_eq [OF wf])
next
  case True
  let ?r = "ring_of f" and ?t = "drop (cells_of f * esz f) (kf_data f)" and ?p = "pos_of f (kf_in f)"
  let ?h = "rec_head recsize len" and ?b = "take (unat len) buf"
  let ?w = "len + of_nat recsize"
  have N: "length ?r = cells_of f * esz f" and c32: "cells_of f < 2 ^ 32" using kfifo_wfE [OF wf] by metis+
  have p: "?p < length ?r" unfolding N by (rule pos_less(1) [OF wf])
  have room: "kfifo_count f + (unat len + recsize) \<le> cells_of f"
    using True rec kfifo_count_le [OF wf] by auto
  have w: "unat ?w = unat len + recsize" using room c32 by (intro unat_add_small) linarith
  have h: "length ?h = recsize" by (rule length_rec_head [OF rec])
  have len: "unat len \<le> cells_of f" "length (?h @ ?b) = unat ?w * esz f" "length ?h + length ?b \<le> length ?r"
    using room buf h w e N by simp_all
  define f1 where "f1 = f\<lparr>kf_data := ring_write ?r ?p ?h @ ?t\<rparr>"
  have r1: "length (ring_write ?r ?p ?h) = length ?r" using p len(3) by (intro length_ring_write) simp_all
  have ring1: "ring_of f1 = ring_write ?r ?p ?h" "drop (cells_of f1 * esz f1) (kf_data f1) = ?t"
    using r1 N by (simp_all add: f1_def)
  have wf1: "kfifo_wf f1"
    using wf r1 N unfolding f1_def kfifo_wf_def by simp
  have q: "pos_of f1 (kf_in f1 + of_nat recsize) = (?p + length ?h) mod length ?r"
    using pos_add [OF wf, of "kf_in f" "of_nat recsize"] N e rec h by (auto simp: f1_def pos_of_def)
  have "kfifo_copy_in f1 buf len (kf_in f1 + of_nat recsize) = Val (f1\<lparr>kf_data :=
      ring_write (ring_write ?r ?p ?h) ((?p + length ?h) mod length ?r) ?b @ ?t\<rparr>)"
    using kfifo_copy_in_ring [OF wf1, of len buf "kf_in f1 + of_nat recsize"] len(1) buf e ring1 q
    by (simp add: f1_def)
  then have "kfifo_in_r f buf len recsize =
      Val (len, f\<lparr>kf_data := ring_write ?r ?p (?h @ ?b) @ ?t, kf_in := kf_in f + ?w\<rparr>)"
    using True ring_write_append [OF p len(3)] kfifo_poke_n_ring [OF wf e rec, of len]
    by (simp add: kfifo_in_r_def kfifo_unused_eq [OF wf] f1_def)
  moreover have fit: "kfifo_count f * esz f + length (?h @ ?b) \<le> cells_of f * esz f" using room e len(2) w by simp
  moreover have "take (unat ?w * esz f) (?h @ ?b) = ?h @ ?b" by (simp only: len(2) [symmetric] take_all order_refl)
  note push = kfifo_push [OF wf eq_refl [OF len(2) [symmetric]] fit refl, unfolded this]
  ultimately show ?thesis using push True by auto
qed

lemma PEEK_bytes:
  assumes wf: "kfifo_wf f" and e: "esz f = 1" and "n < kfifo_count f"
  shows "kfifo_PEEK (kf_data f) (kf_out f + of_nat n) (kf_mask f) = Val (kfifo_bytes f ! n)"
proof -
  let ?c = "kf_out f + of_nat n"
  have N: "length (ring_of f) = cells_of f * esz f" and d: "kf_data f = ring_of f @ drop (cells_of f * esz f) (kf_data f)"
    using kfifo_wfE [OF wf] by metis+
  have "n < 2 ^ 32" using assms(3) unsigned_less [of "kf_in f - kf_out f", where 'a = nat] by (simp add: kfifo_count_def)
  then have "unat (of_nat n :: u32) = n" by (rule unat_of_nat_u32)
  then have pos: "pos_of f ?c = (pos_of f (kf_out f) + n) mod length (ring_of f)"
    using pos_add [OF wf, of "kf_out f" "of_nat n"] N e by simp
  have p: "unat (?c AND kf_mask f) = pos_of f ?c" using e by (simp add: unat_and_mask [OF wf] pos_of_def)
  have lt: "pos_of f ?c < length (ring_of f)" unfolding N by (rule pos_less(1) [OF wf])
  then have "pos_of f ?c < length (kf_data f)" "kf_data f ! pos_of f ?c = ring_of f ! pos_of f ?c" by simp_all
  then show ?thesis using assms(3) e pos by (simp add: kfifo_PEEK_def p kfifo_bytes_def)
qed

lemma head_value:
  assumes "unat (n :: u32) < 256 ^ recsize" and "recsize \<in> {1, 2}"
  shows "(if recsize - 1 \<noteq> 0 then ucast (ucast n :: u8) OR push_bit 8 (ucast (ucast (drop_bit 8 n) :: u8))
          else ucast (ucast n :: u8)) = n"
proof -
  have small: "unat n < 2 ^ (8 * recsize)" using assms by auto
  have "take_bit (8 * recsize) (unat n) = unat n" using small by (simp add: take_bit_nat_eq_self)
  then have "unat (take_bit (8 * recsize) n) = unat n" by (simp add: unsigned_take_bit_eq)
  then have t: "take_bit (8 * recsize) n = n" by (rule unsigned_word_eqI)
  have "bit n i \<Longrightarrow> i < 8 * recsize" for i using t by (metis bit_take_bit_iff)
  then have b: "bit n i \<Longrightarrow> i < 8 * recsize" for i .
  from assms(2) consider "recsize = 1" | "recsize = 2" by auto
  then show ?thesis
  proof cases
    case 1
    have "(ucast (ucast n :: u8) :: u32) = n"
      by (rule bit_word_eqI) (use b 1 in \<open>auto simp: bit_ucast_iff\<close>)
    then show ?thesis using 1 by simp
  next
    case 2
    have "ucast (ucast n :: u8) OR push_bit 8 (ucast (ucast (drop_bit 8 n) :: u8)) = n"
    proof (rule bit_word_eqI)
      fix i :: nat
      show "bit (ucast (ucast n :: u8) OR push_bit 8 (ucast (ucast (drop_bit 8 n) :: u8)) :: u32) i = bit n i" if "i < LENGTH(32)"
        using b [of i] that 2 by (cases "i < 8") (auto simp: bit_or_iff bit_push_bit_iff bit_ucast_iff bit_drop_bit_eq)
    qed
    then show ?thesis using 2 by simp
  qed
qed

lemma kfifo_peek_n_head:
  assumes wf: "kfifo_wf f" and e: "esz f = 1" and rec: "recsize \<in> {1, 2}"
    and bytes: "kfifo_bytes f = rec_head recsize n @ rest" and "unat n < 256 ^ recsize"
  shows "kfifo_peek_n f recsize = Val n"
proof -
  have len: "kfifo_count f = length (rec_head recsize n) + length rest"
    using length_kfifo_bytes [of f] bytes e by simp
  have h: "length (rec_head recsize n) = recsize" by (rule length_rec_head [OF rec])
  have peek: "kfifo_PEEK (kf_data f) (kf_out f + of_nat i) (kf_mask f) = Val (rec_head recsize n ! i)" if "i < recsize" for i
    using PEEK_bytes [OF wf e, of i] that len h bytes by (simp add: nth_append)
  show ?thesis
    using peek [of 0] peek [of 1] rec head_value [OF assms(5) rec]
    by (auto simp: kfifo_peek_n_def rec_head_def)
qed

lemma take_min_drop: "take (min n (length xs)) xs = take n xs"
  by (cases "n \<le> length xs") auto

lemma kfifo_out_copy_r_head:
  assumes wf: "kfifo_wf f" and e: "esz f = 1" and rec: "recsize \<in> {1, 2}"
    and bytes: "kfifo_bytes f = rec_head recsize n @ r @ rest" and n: "length r = unat n" "unat n < 256 ^ recsize"
  shows "\<exists>m. kfifo_out_copy_r f len recsize = Val (m, take (unat len) r, n) \<and> unat m = min (unat len) (unat n)"
proof -
  define m where "m = (if len > n then n else len)"
  have m: "unat m = min (unat len) (unat n)" by (simp only: m_def unat_if_min)
  have peek: "kfifo_peek_n f recsize = Val n" by (rule kfifo_peek_n_head [OF wf e rec bytes n(2)])
  have h: "length (rec_head recsize n) = recsize" by (rule length_rec_head [OF rec])
  have c: "kfifo_count f = recsize + unat n + length rest" using length_kfifo_bytes [of f] bytes e h n(1) by simp
  have rs: "unat (of_nat recsize :: u32) = recsize" using rec by auto
  define f1 where "f1 = f\<lparr>kf_out := kf_out f + of_nat recsize\<rparr>"
  have pop: "kfifo_wf f1" "kfifo_bytes f1 = r @ rest" "kfifo_count f1 = unat n + length rest"
    using kfifo_pop [OF wf _ f1_def] rs c bytes h e by simp_all
  have f1: "kf_out f1 = kf_out f + of_nat recsize" "kf_mask f1 = kf_mask f" "kf_esize f1 = kf_esize f"
      "kf_data f1 = kf_data f" by (simp_all add: f1_def)
  have mc: "unat m \<le> cells_of f" "unat m \<le> kfifo_count f1" using m c kfifo_count_le [OF wf] pop(3) by linarith+
  have "kfifo_copy_out f m (kf_out f + of_nat recsize) =
      Val (ring_read (ring_of f1) (pos_of f1 (kf_out f1)) (unat m * esz f1))"
    using kfifo_copy_out_ring [OF wf mc(1)] by (simp add: f1 pos_of_def)
  also have "ring_read (ring_of f1) (pos_of f1 (kf_out f1)) (unat m * esz f1) = take (unat m) (r @ rest)"
    using kfifo_pop(4) [OF pop(1) mc(2) refl] pop(2) f1 e by simp
  also have "take (unat m) (r @ rest) = take (unat len) r"
    using m n(1) take_min_drop [of "unat len" r] by simp
  finally show ?thesis
    using m peek unfolding kfifo_out_copy_r_def by (auto simp: Let_def m_def)
qed

lemma kfifo_pop_record:
  assumes wf: "kfifo_wf f" and e: "esz f = 1" and rec: "recsize \<in> {1, 2}"
    and bytes: "kfifo_bytes f = rec_head recsize n @ r @ rest" and n: "length r = unat n" "unat n < 256 ^ recsize"
  shows "kfifo_wf (f\<lparr>kf_out := kf_out f + (n + of_nat recsize)\<rparr>)"
    and "kfifo_bytes (f\<lparr>kf_out := kf_out f + (n + of_nat recsize)\<rparr>) = rest"
proof -
  have h: "length (rec_head recsize n) = recsize" by (rule length_rec_head [OF rec])
  have c: "kfifo_count f = recsize + unat n + length rest" using length_kfifo_bytes [of f] bytes e h n(1) by simp
  have "unat n + recsize < 2 ^ 32" using n(2) rec by auto
  then have w: "unat (n + of_nat recsize) = unat n + recsize" by (rule unat_add_small)
  then have le: "unat (n + of_nat recsize) \<le> kfifo_count f" using c by simp
  show "kfifo_wf (f\<lparr>kf_out := kf_out f + (n + of_nat recsize)\<rparr>)" by (rule kfifo_pop(1) [OF wf le refl])
  show "kfifo_bytes (f\<lparr>kf_out := kf_out f + (n + of_nat recsize)\<rparr>) = rest"
    using kfifo_pop(2) [OF wf le refl] w bytes h n(1) e by simp
qed

lemma kfifo_not_empty_iff: "esz f = 1 \<Longrightarrow> kf_in f = kf_out f \<longleftrightarrow> kfifo_bytes f = []"
  using kfifo_is_empty_eq [of f] length_kfifo_bytes [of f] by (simp add: kfifo_is_empty_def) (metis length_0_conv)

lemma kfifo_out_r_refines:
  assumes wf: "kfifo_wf f" and e: "esz f = 1" and rec: "recsize \<in> {1, 2}"
    and bytes: "kfifo_bytes f = rec_head recsize n @ r @ rest" and n: "length r = unat n" "unat n < 256 ^ recsize"
  shows "\<exists>m f'. kfifo_out_r f len recsize = Val (m, take (unat len) r, f') \<and> unat m = min (unat len) (unat n) \<and>
     kfifo_wf f' \<and> kfifo_bytes f' = rest \<and> kf_esize f' = kf_esize f \<and> kf_mask f' = kf_mask f"
proof -
  have "kfifo_bytes f \<noteq> []" using bytes length_rec_head [OF rec, of n] rec by auto
  then have ne: "kf_in f \<noteq> kf_out f" using kfifo_not_empty_iff [OF e] by simp
  obtain m where "kfifo_out_copy_r f len recsize = Val (m, take (unat len) r, n)" "unat m = min (unat len) (unat n)"
    using kfifo_out_copy_r_head [OF assms] by blast
  then show ?thesis using ne kfifo_pop_record [OF assms] by (simp add: kfifo_out_r_def)
qed

subsection \<open>User buffers\<close>

lemma div_round_up_0: "0 < e \<Longrightarrow> div_round_up 0 e = Val 0"
  by (simp add: div_round_up_def)

lemma copy_from_user_eq:
  "copy_from_user d off user uoff n =
     (let ok = min n (length user - uoff) in
      bind_outcome (wr_bytes d off (seg uoff ok user @ replicate (n - ok) 0)) (\<lambda>d. Val (n - ok, d)))"
  by (simp add: copy_from_user_def)

text \<open>What one transfer from user space leaves in the ring: the accessible bytes, then zeros.\<close>

lemma kfifo_copy_from_user_ring:
  assumes wf: "kfifo_wf f" and len: "unat len \<le> cells_of f"
    and m: "m = unat len * esz f" and av: "av = min m (length user)"
  shows "\<exists>L. av \<le> L \<and> L \<le> m \<and> kfifo_copy_from_user f user len off =
     Val ((m - av + esz f - 1) div esz f, word_of_int (int m - int ((m - av + esz f - 1) div esz f)),
       f\<lparr>kf_data := ring_write (ring_of f) (pos_of f off) (take av user @ replicate (L - av) 0) @
            drop (cells_of f * esz f) (kf_data f)\<rparr>)"
proof -
  let ?r = "ring_of f" and ?t = "drop (cells_of f * esz f) (kf_data f)" and ?p = "pos_of f off"
  define l where "l = min m (cells_of f * esz f - ?p)"
  have N: "length ?r = cells_of f * esz f" "kf_data f = ?r @ ?t" using kfifo_wfE [OF wf] by metis+
  have p: "?p < length ?r" unfolding N(1) by (rule pos_less(1) [OF wf])
  have mN: "m \<le> length ?r" unfolding N(1) m by (rule mult_le_mono1 [OF len])
  have e: "0 < esz f" using wf by (simp add: kfifo_wf_def)
  have lm: "l \<le> m" "?p + l \<le> length ?r" unfolding N(1) l_def using pos_less(1) [OF wf, of off] by linarith+
  have span: "ring_span f len off = (?p, m, l)" unfolding ring_span_wf [OF wf len] l_def m by simp
  show ?thesis
  proof (cases "length user < l")
    case True
    then have av': "av = length user" "min l (length user - 0) = av" using av lm by auto
    let ?bs = "take av user @ replicate (l - av) 0"
    have "length ?bs = l" using True av' by simp
    then have w: "wr_bytes (kf_data f) ?p ?bs = Val (ring_write ?r ?p ?bs @ ?t)"
      using lm(2) by (subst N(2), intro wr_bytes_append [OF wr_bytes_flat]) simp
    have c: "copy_from_user (kf_data f) ?p user 0 l = Val (l - av, ring_write ?r ?p ?bs @ ?t)"
      unfolding copy_from_user_eq av'(2) Let_def using w by (simp add: seg_def)
    have "l - av \<noteq> 0" "l - av + m - l = m - av" using True av' lm by auto
    then have "kfifo_copy_from_user f user len off =
        Val ((m - av + esz f - 1) div esz f, word_of_int (int m - int ((m - av + esz f - 1) div esz f)),
          f\<lparr>kf_data := ring_write ?r ?p ?bs @ ?t\<rparr>)"
      unfolding kfifo_copy_from_user_def span using c e by (simp add: div_round_up_def Let_def)
    then show ?thesis using lm True av' by (intro exI [of _ l]) auto
  next
    case False
    let ?bs = "take av user @ replicate (m - av) 0"
    have lav: "l \<le> av" using False lm av by auto
    have bs: "length ?bs = m" using av by simp
    obtain d where d: "wr_bytes ?r ?p (take l ?bs) = Val d" "wr_bytes d 0 (drop l ?bs) = Val (ring_write ?r ?p ?bs)"
    proof -
      have "bind_outcome (wr_bytes ?r ?p (take l ?bs)) (\<lambda>d. wr_bytes d 0 (drop l ?bs)) = Val (ring_write ?r ?p ?bs)"
        by (rule ring_write_step [OF p]) (simp only: bs mN, simp only: bs l_def N(1))
      then show ?thesis using that by (auto simp del: bind_outcome.simps)
    qed
    have w: "wr_bytes (kf_data f) ?p (take l ?bs) = Val (d @ ?t)"
        "wr_bytes (d @ ?t) 0 (drop l ?bs) = Val (ring_write ?r ?p ?bs @ ?t)"
      by (subst N(2), rule wr_bytes_append [OF d(1)]) (rule wr_bytes_append [OF d(2)])
    have s: "seg 0 l user @ replicate (l - l) 0 = take l ?bs" "min l (length user - 0) = l"
      using lav False av by (auto simp: seg_def)
    have s2: "min (m - l) (length user - l) = av - l" using av by linarith
    have s3: "seg l (av - l) user @ replicate (m - l - (av - l)) 0 = drop l ?bs"
      using lav av by (simp add: seg_def drop_take)
    have c1: "copy_from_user (kf_data f) ?p user 0 l = Val (0, d @ ?t)"
      unfolding copy_from_user_eq s(2) Let_def s(1) using w(1) by simp
    have c2: "copy_from_user (d @ ?t) 0 user l (m - l) = Val (m - av, ring_write ?r ?p ?bs @ ?t)"
      unfolding copy_from_user_eq s2 Let_def s3 using w(2) lav av by simp
    have "kfifo_copy_from_user f user len off =
        Val ((m - av + esz f - 1) div esz f, word_of_int (int m - int ((m - av + esz f - 1) div esz f)),
          f\<lparr>kf_data := ring_write ?r ?p ?bs @ ?t\<rparr>)"
      unfolding kfifo_copy_from_user_def span using c1 c2 e by (simp add: div_round_up_def Let_def)
    then show ?thesis using lav lm av by (intro exI [of _ m]) auto
  qed
qed

text \<open>Elements that were not transferred completely stay outside the fifo.\<close>

lemma whole_elements:
  fixes n e av :: nat
  assumes "0 < e" and "av \<le> n * e"
  shows "n - (n * e - av + e - 1) div e = av div e" and "(n * e - av + e - 1) div e \<le> n"
    and "(n * e - av + e - 1) div e = 0 \<longleftrightarrow> av = n * e"
proof -
  have "(n * e - av + e - 1) div e \<le> (n * e + e - 1) div e" by (intro div_le_mono) simp
  also have "\<dots> = n" using assms(1) by (intro div_nat_eqI) (auto simp: mult.commute)
  finally show le: "(n * e - av + e - 1) div e \<le> n" .
  show "(n * e - av + e - 1) div e = 0 \<longleftrightarrow> av = n * e" using assms by (auto simp: div_eq_0_iff)
  define q where "q = av div e"
  have q: "q * e \<le> av" "av < q * e + e" 
    using assms(1) dividend_less_div_times [of e av] by (simp_all add: q_def div_times_less_eq_dividend)
  then have qn: "q \<le> n" using assms by (metis mult_le_cancel2 le_trans not_less0)
  then obtain d where d: "n = q + d" using le_Suc_ex by blast
  have "(n * e - av + e - 1) div e = d"
    using q assms unfolding d by (intro div_nat_eqI) (auto simp: algebra_simps)
  then have "(n * e - av + e - 1) div e = n - q" using d by simp
  then show "n - (n * e - av + e - 1) div e = av div e" using qn by (simp add: q_def)
qed

lemma kfifo_from_user_refines:
  assumes wf: "kfifo_wf f" and n: "n = min (unat len div esz f) (cells_of f - kfifo_count f)"
    and av: "av = min (n * esz f) (length user)"
  shows "\<exists>copied f'. kfifo_from_user f user len = Val (if av < n * esz f then Some EFAULT else None, copied, f') \<and>
     kfifo_wf f' \<and> kfifo_bytes f' = kfifo_bytes f @ take (av div esz f * esz f) user \<and>
     (esz f = 1 \<longrightarrow> unat copied = av) \<and> kf_mask f' = kf_mask f \<and> kf_esize f' = kf_esize f"
proof -
  have e: "0 < esz f" "kf_esize f \<noteq> 0" using wf by (auto simp: kfifo_wf_def)
  have c32: "cells_of f < 2 ^ 32" using kfifo_wfE [OF wf] by metis
  have nc: "n \<le> cells_of f" "kfifo_count f + n \<le> cells_of f" using n kfifo_count_le [OF wf] by auto
  define q where "q = (if kf_esize f \<noteq> 1 then len div ucast (kf_esize f) else len)"
  have ue: "unat (ucast (kf_esize f) :: u64) = esz f"
    using unsigned_less [of "kf_esize f", where 'a = nat] by (simp add: unsigned_ucast_eq take_bit_nat_eq_self)
  have q: "unat q = unat len div esz f" by (auto simp: q_def unat_div ue)
  define w where "w = (if q > ucast (kfifo_unused f) then ucast (kfifo_unused f) else q)"
  have uu: "unat (ucast (kfifo_unused f) :: u64) = cells_of f - kfifo_count f"
    using unsigned_less [of "kfifo_unused f", where 'a = nat] kfifo_unused_eq [OF wf]
    by (simp add: unsigned_ucast_eq take_bit_nat_eq_self)
  have w: "unat w = n" unfolding w_def n using q uu by (simp add: word_less_nat_alt min_def)
  have w32: "unat (ucast w :: u32) = n" using w nc(1) c32 by (simp add: unsigned_ucast_eq take_bit_nat_eq_self)
  define ret where "ret = (n * esz f - av + esz f - 1) div esz f"
  have avn: "av \<le> n * esz f" using av by simp
  note whole = whole_elements [OF e(1) avn, folded ret_def]
  obtain L where L: "av \<le> L" "L \<le> n * esz f" and copy: "kfifo_copy_from_user f user (ucast w) (kf_in f) =
      Val (ret, word_of_int (int (n * esz f) - int ret), f\<lparr>kf_data := ring_write (ring_of f) (pos_of f (kf_in f))
        (take av user @ replicate (L - av) 0) @ drop (cells_of f * esz f) (kf_data f)\<rparr>)"
    using kfifo_copy_from_user_ring [OF wf, of "ucast w" "n * esz f" av user "kf_in f"] nc(1) av
    unfolding w32 ret_def by blast
  let ?bs = "take av user @ replicate (L - av) 0"
  define v where "v = (if ret \<noteq> 0 then w - of_nat ret else w)"
  have "ret < 2 ^ 64" using whole(2) nc(1) c32 by simp
  then have "unat (of_nat ret :: u64) = ret" by (simp add: unsigned_of_nat take_bit_nat_eq_self)
  then have v: "unat v = av div esz f" using w whole(1,2) by (auto simp: v_def unat_sub word_le_nat_alt)
  then have v32: "unat (ucast v :: u32) = av div esz f"
    using whole(1) nc(1) c32 by (simp add: unsigned_ucast_eq take_bit_nat_eq_self)
  have lbs: "length ?bs = L" using L av by simp
  have fits: "unat (ucast v :: u32) * esz f \<le> length ?bs" unfolding v32 lbs
    using div_times_less_eq_dividend [of av "esz f"] L(1) by linarith
  have room: "kfifo_count f * esz f + length ?bs \<le> cells_of f * esz f" unfolding lbs
    using mult_le_mono1 [OF nc(2), of "esz f"] L(2) by (simp only: distrib_right)
  note push = kfifo_push [OF wf fits room refl]
  have tk: "take (unat (ucast v :: u32) * esz f) ?bs = take (av div esz f * esz f) user"
    unfolding v32 using div_times_less_eq_dividend [of av "esz f"] av by (simp add: min_def)
  have run: "kfifo_from_user f user len = Val (if ret \<noteq> 0 then Some EFAULT else None,
      word_of_int (int (n * esz f) - int ret),
      f\<lparr>kf_data := ring_write (ring_of f) (pos_of f (kf_in f)) ?bs @ drop (cells_of f * esz f) (kf_data f),
        kf_in := kf_in f + ucast v\<rparr>)"
  proof -
    have "(if kf_esize f \<noteq> 1 then (if kf_esize f = 0 then Trap else Val (len div ucast (kf_esize f))) else Val len) = Val q"
      using e by (simp add: q_def)
    then show ?thesis
      unfolding kfifo_from_user_def Let_def
      by (simp only: bind_outcome.simps w_def [symmetric] copy prod.case) (simp add: v_def)
  qed
  have copied: "unat (word_of_int (int (n * esz f) - int ret) :: u32) = av" if "esz f = 1"
    using that avn nc(1) c32 whole(1,2)
    by (simp add: ret_def unat_of_nat_u32)
  have err: "ret \<noteq> 0 \<longleftrightarrow> av < n * esz f" using whole(3) avn by linarith
  show ?thesis
    by (intro exI conjI, rule run [unfolded err], rule push(1), rule push(2) [unfolded tk])
       (use copied in simp_all)
qed

lemma kfifo_copy_to_user_ring:
  assumes wf: "kfifo_wf f" and len: "unat len \<le> cells_of f"
    and m: "m = unat len * esz f" and av: "av = min m writable"
  shows "kfifo_copy_to_user f writable len off =
     Val ((m - av + esz f - 1) div esz f, word_of_int (int m - int ((m - av + esz f - 1) div esz f)),
       take av (ring_read (ring_of f) (pos_of f off) m))"
proof -
  let ?r = "ring_of f" and ?p = "pos_of f off"
  define l where "l = min m (cells_of f * esz f - ?p)"
  have N: "length ?r = cells_of f * esz f" using kfifo_wfE [OF wf] by metis
  have p: "?p < cells_of f * esz f" by (rule pos_less(1) [OF wf])
  have mN: "m \<le> cells_of f * esz f" unfolding m by (rule mult_le_mono1 [OF len])
  have e: "0 < esz f" using wf by (simp add: kfifo_wf_def)
  have lm: "l \<le> m" "?p + l \<le> cells_of f * esz f" unfolding l_def using p by linarith+
  have span: "ring_span f len off = (?p, m, l)" unfolding ring_span_wf [OF wf len] l_def m by simp
  have r1: "rd (kf_data f) ?p l = Val (seg ?p l ?r)" by (rule rd_ring [OF wf lm(2)])
  have r2: "rd (kf_data f) 0 (m - l) = Val (seg 0 (m - l) ?r)" using mN by (intro rd_ring [OF wf]) simp
  have parts: "ring_read ?r ?p m = seg ?p l ?r @ seg 0 (m - l) ?r"
    by (rule ring_read_parts [symmetric]) (simp_all only: N p mN l_def)
  have s: "length (seg ?p l ?r) = l" "length (seg 0 (m - l) ?r) = m - l" using N lm mN by simp_all
  show ?thesis
  proof (cases "writable < l")
    case True
    then have c: "copy_to_user writable 0 (seg ?p l ?r) = (l - av, take av (seg ?p l ?r))" "l - av \<noteq> 0" "av \<le> l"
        "l - av + m - l = m - av"
      unfolding copy_to_user_def s Let_def using av lm by auto
    have "take av (ring_read ?r ?p m) = take av (seg ?p l ?r)" unfolding parts using c(3) s(1) by simp
    then show ?thesis
      unfolding kfifo_copy_to_user_def span using r1 c e by (simp add: div_round_up_def Let_def)
  next
    case False
    then have c: "copy_to_user writable 0 (seg ?p l ?r) = (0, seg ?p l ?r)"
        "copy_to_user writable l (seg 0 (m - l) ?r) = (m - av, take (av - l) (seg 0 (m - l) ?r))" "l \<le> av"
      unfolding copy_to_user_def s Let_def using av lm s by (auto simp: min_def)
    have "take av (ring_read ?r ?p m) = seg ?p l ?r @ take (av - l) (seg 0 (m - l) ?r)"
      unfolding parts using c(3) s(1) by simp
    then show ?thesis
      unfolding kfifo_copy_to_user_def span using r1 r2 c e by (simp add: div_round_up_def Let_def)
  qed
qed

lemma kfifo_to_user_refines:
  assumes wf: "kfifo_wf f" and n: "n = min (unat len div esz f) (kfifo_count f)"
    and av: "av = min (n * esz f) writable"
  shows "\<exists>copied f'. kfifo_to_user f writable len =
       Val (if av < n * esz f then Some EFAULT else None, copied, take av (kfifo_bytes f), f') \<and>
     kfifo_wf f' \<and> kfifo_bytes f' = drop (av div esz f * esz f) (kfifo_bytes f) \<and>
     kf_mask f' = kf_mask f \<and> kf_esize f' = kf_esize f"
proof -
  have e: "0 < esz f" "kf_esize f \<noteq> 0" using wf by (auto simp: kfifo_wf_def)
  have c32: "cells_of f < 2 ^ 32" using kfifo_wfE [OF wf] by metis
  have nc: "n \<le> kfifo_count f" "n \<le> cells_of f" using n kfifo_count_le [OF wf] by auto
  define q where "q = (if kf_esize f \<noteq> 1 then len div ucast (kf_esize f) else len)"
  have ue: "unat (ucast (kf_esize f) :: u64) = esz f"
    using unsigned_less [of "kf_esize f", where 'a = nat] by (simp add: unsigned_ucast_eq take_bit_nat_eq_self)
  have q: "unat q = unat len div esz f" by (auto simp: q_def unat_div ue)
  define w where "w = (if q > ucast (kf_in f - kf_out f) then ucast (kf_in f - kf_out f) else q)"
  have uu: "unat (ucast (kf_in f - kf_out f) :: u64) = kfifo_count f"
    using unsigned_less [of "kf_in f - kf_out f", where 'a = nat]
    by (simp add: unsigned_ucast_eq take_bit_nat_eq_self kfifo_count_def)
  have w: "unat w = n" unfolding w_def n using q uu by (simp add: word_less_nat_alt min_def)
  have w32: "unat (ucast w :: u32) = n" using w nc(2) c32 by (simp add: unsigned_ucast_eq take_bit_nat_eq_self)
  define ret where "ret = (n * esz f - av + esz f - 1) div esz f"
  have avn: "av \<le> n * esz f" using av by simp
  note whole = whole_elements [OF e(1) avn, folded ret_def]
  have "take av (ring_read (ring_of f) (pos_of f (kf_out f)) (n * esz f)) = take av (kfifo_bytes f)"
    using kfifo_pop(4) [OF wf _ refl, of "ucast w"] nc(1) avn unfolding w32 by simp
  then have copy: "kfifo_copy_to_user f writable (ucast w) (kf_out f) =
      Val (ret, word_of_int (int (n * esz f) - int ret), take av (kfifo_bytes f))"
    using kfifo_copy_to_user_ring [OF wf, of "ucast w" "n * esz f" av writable "kf_out f"] nc(2) av
    unfolding w32 ret_def by simp
  define v where "v = (if ret \<noteq> 0 then w - of_nat ret else w)"
  have "ret < 2 ^ 64" using whole(2) nc(2) c32 by simp
  then have "unat (of_nat ret :: u64) = ret" by (simp add: unsigned_of_nat take_bit_nat_eq_self)
  then have "unat v = av div esz f" using w whole(1,2) by (auto simp: v_def unat_sub word_le_nat_alt)
  then have v32: "unat (ucast v :: u32) = av div esz f"
    using whole(1) nc(2) c32 by (simp add: unsigned_ucast_eq take_bit_nat_eq_self)
  have "unat (ucast v :: u32) \<le> kfifo_count f" unfolding v32 using whole(1) nc(1) by linarith
  note pop = kfifo_pop(1,2) [OF wf this refl, unfolded v32]
  have qd: "(if kf_esize f \<noteq> 1 then (if kf_esize f = 0 then Trap else Val (len div ucast (kf_esize f))) else Val len) = Val q"
    using e by (simp add: q_def)
  have err: "ret \<noteq> 0 \<longleftrightarrow> av < n * esz f" using whole(3) avn by linarith
  have run: "kfifo_to_user f writable len = Val (if ret \<noteq> 0 then Some EFAULT else None,
      word_of_int (int (n * esz f) - int ret), take av (kfifo_bytes f), f\<lparr>kf_out := kf_out f + ucast v\<rparr>)"
    unfolding kfifo_to_user_def Let_def qd
    by (simp only: bind_outcome.simps w_def [symmetric] copy prod.case) (simp add: v_def)
  show ?thesis
    by (intro exI conjI, rule run [unfolded err], rule pop(1), rule pop(2)) simp_all
qed

subsection \<open>Sequences of operations\<close>

text \<open>
  The contract of a bounded queue: a push accepts a prefix of what it is given, a pop removes from
  the front, neither fails; how much is accepted and delivered are functions of the contents.
  \<open>run_ops\<close> collects what all pushes accepted and all pops delivered, \<open>ref_ops\<close> does the same on the contents.
\<close>

datatype 'a fifo_op = Push "'a list" | Pop nat

fun run_ops ::
  "('s \<Rightarrow> 'a list \<Rightarrow> ('s \<times> 'a list) outcome) \<Rightarrow> ('s \<Rightarrow> nat \<Rightarrow> ('s \<times> 'a list) outcome) \<Rightarrow>
   's \<Rightarrow> 'a fifo_op list \<Rightarrow> ('s \<times> 'a list \<times> 'a list) outcome" where
  "run_ops push pop s [] = Val (s, [], [])"
| "run_ops push pop s (Push xs # ops) =
     bind_outcome (push s xs) (\<lambda>(s, ys).
     bind_outcome (run_ops push pop s ops) (\<lambda>(s, ins, outs). Val (s, ys @ ins, outs)))"
| "run_ops push pop s (Pop n # ops) =
     bind_outcome (pop s n) (\<lambda>(s, ys).
     bind_outcome (run_ops push pop s ops) (\<lambda>(s, ins, outs). Val (s, ins, ys @ outs)))"

fun ref_ops ::
  "('a list \<Rightarrow> 'a list \<Rightarrow> nat) \<Rightarrow> ('a list \<Rightarrow> nat \<Rightarrow> nat) \<Rightarrow> 'a list \<Rightarrow> 'a fifo_op list \<Rightarrow> 'a list \<times> 'a list \<times> 'a list" where
  "ref_ops accepted delivered q [] = ([], [], q)"
| "ref_ops accepted delivered q (Push xs # ops) =
     (let ys = take (accepted q xs) xs; (ins, outs, q) = ref_ops accepted delivered (q @ ys) ops in (ys @ ins, outs, q))"
| "ref_ops accepted delivered q (Pop n # ops) =
     (let k = delivered q n; (ins, outs, q') = ref_ops accepted delivered (drop k q) ops in (ins, take k q @ outs, q'))"

lemma ref_ops_order: "ref_ops accepted delivered q ops = (ins, outs, q') \<Longrightarrow> q @ ins = outs @ q'"
proof (induction accepted delivered q ops arbitrary: ins outs q' rule: ref_ops.induct)
  case (2 accepted delivered q xs ops)
  then show ?case by (fastforce simp: Let_def split: prod.splits)
next
  case (3 accepted delivered q n ops)
  let ?k = "delivered q n"
  obtain outs' where o: "ref_ops accepted delivered (drop ?k q) ops = (ins, outs', q')" "outs = take ?k q @ outs'"
    using 3(2) by (auto simp: Let_def split: prod.splits)
  have "q @ ins = take ?k q @ drop ?k q @ ins" by (simp flip: append_assoc)
  also have "\<dots> = outs @ q'" using 3(1) [OF refl o(1)] o(2) by simp
  finally show ?case .
qed simp

locale fifo_queue =
  fixes inv :: "'s \<Rightarrow> bool"
    and contents :: "'s \<Rightarrow> 'a list"
    and push :: "'s \<Rightarrow> 'a list \<Rightarrow> ('s \<times> 'a list) outcome"
    and pop :: "'s \<Rightarrow> nat \<Rightarrow> ('s \<times> 'a list) outcome"
    and accepted :: "'a list \<Rightarrow> 'a list \<Rightarrow> nat"
    and delivered :: "'a list \<Rightarrow> nat \<Rightarrow> nat"
  assumes push_law: "inv s \<Longrightarrow> ys = take (accepted (contents s) xs) xs \<Longrightarrow>
      \<exists>s'. push s xs = Val (s', ys) \<and> inv s' \<and> contents s' = contents s @ ys"
    and pop_law: "inv s \<Longrightarrow> k = delivered (contents s) n \<Longrightarrow>
      \<exists>s'. pop s n = Val (s', take k (contents s)) \<and> inv s' \<and> contents s' = drop k (contents s)"
begin

lemma fifo_runs:
  "inv s \<Longrightarrow> \<exists>s' ins outs. run_ops push pop s ops = Val (s', ins, outs) \<and> inv s' \<and>
     ref_ops accepted delivered (contents s) ops = (ins, outs, contents s')"
proof (induction ops arbitrary: s)
  case Nil
  then show ?case by simp
next
  case (Cons op ops)
  show ?case
  proof (cases op)
    case (Push xs)
    let ?ys = "take (accepted (contents s) xs) xs"
    obtain s1 where p: "push s xs = Val (s1, ?ys)" "inv s1" "contents s1 = contents s @ ?ys"
      using push_law [OF Cons.prems refl] by blast
    show ?thesis using Cons.IH [OF p(2)] p Push by auto
  next
    case (Pop n)
    let ?k = "delivered (contents s) n"
    obtain s1 where p: "pop s n = Val (s1, take ?k (contents s))" "inv s1" "contents s1 = drop ?k (contents s)"
      using pop_law [OF Cons.prems refl] by blast
    show ?thesis using Cons.IH [OF p(2)] p Pop by auto
  qed
qed

end

text \<open>
  The contract of an operation that refines a function on the abstract contents: \<open>run_steps\<close> and
  \<open>run_spec\<close> run a sequence of calls and collect the results.
\<close>

fun run_steps :: "('s \<Rightarrow> 'op \<Rightarrow> ('s \<times> 'r) outcome) \<Rightarrow> 's \<Rightarrow> 'op list \<Rightarrow> ('s \<times> 'r list) outcome" where
  "run_steps step s [] = Val (s, [])"
| "run_steps step s (op # ops) =
     bind_outcome (step s op) (\<lambda>(s, x). bind_outcome (run_steps step s ops) (\<lambda>(s, xs). Val (s, x # xs)))"

fun run_spec :: "('q \<Rightarrow> 'op \<Rightarrow> 'q \<times> 'r) \<Rightarrow> 'q \<Rightarrow> 'op list \<Rightarrow> 'q \<times> 'r list" where
  "run_spec spec q [] = (q, [])"
| "run_spec spec q (op # ops) = (let (q, x) = spec q op; (q, xs) = run_spec spec q ops in (q, x # xs))"

locale step_refines =
  fixes inv :: "'s \<Rightarrow> bool"
    and abs :: "'s \<Rightarrow> 'q"
    and ok :: "'op \<Rightarrow> bool"
    and step :: "'s \<Rightarrow> 'op \<Rightarrow> ('s \<times> 'r) outcome"
    and spec :: "'q \<Rightarrow> 'op \<Rightarrow> 'q \<times> 'r"
  assumes step_law: "inv s \<Longrightarrow> ok op \<Longrightarrow> \<exists>s' x. step s op = Val (s', x) \<and> inv s' \<and> spec (abs s) op = (abs s', x)"
begin

lemma runs_refine:
  "inv s \<Longrightarrow> list_all ok ops \<Longrightarrow>
   \<exists>s' xs. run_steps step s ops = Val (s', xs) \<and> inv s' \<and> run_spec spec (abs s) ops = (abs s', xs)"
proof (induction ops arbitrary: s)
  case Nil
  then show ?case by simp
next
  case (Cons op ops)
  then obtain s1 x where s1: "step s op = Val (s1, x)" "inv s1" "spec (abs s) op = (abs s1, x)"
    using step_law [of s op] by auto
  show ?case using Cons.IH [OF s1(2)] Cons.prems s1 by auto
qed

end

text \<open>A plain fifo as a queue of bytes: \<open>kfifo_in\<close> and \<open>kfifo_out\<close> with a count of whole elements.\<close>

definition push_bytes :: "kfifo \<Rightarrow> u8 list \<Rightarrow> (kfifo \<times> u8 list) outcome" where
  "push_bytes f xs =
     bind_outcome (kfifo_in f xs (of_nat (length xs div esz f))) (\<lambda>(n, f').
     Val (f', take (unat n * esz f) xs))"

definition pop_bytes :: "kfifo \<Rightarrow> nat \<Rightarrow> (kfifo \<times> u8 list) outcome" where
  "pop_bytes f n = bind_outcome (kfifo_out f (of_nat n)) (\<lambda>(n, bs, f'). Val (f', bs))"

text \<open>Whole elements, as many as fit in the free cells; and as many as there are.\<close>

definition accepted_bytes :: "nat \<Rightarrow> nat \<Rightarrow> u8 list \<Rightarrow> u8 list \<Rightarrow> nat" where
  "accepted_bytes cells e q xs = min (length xs div e mod 2 ^ 32) (cells - length q div e) * e"

definition delivered_bytes :: "nat \<Rightarrow> u8 list \<Rightarrow> nat \<Rightarrow> nat" where
  "delivered_bytes e q n = min (n mod 2 ^ 32) (length q div e) * e"

abbreviation fifo_shape :: "nat \<Rightarrow> nat \<Rightarrow> kfifo \<Rightarrow> bool" where
  "fifo_shape cells e f \<equiv> kfifo_wf f \<and> cells_of f = cells \<and> esz f = e"

lemma count_bytes: "kfifo_wf f \<Longrightarrow> length (kfifo_bytes f) div esz f = kfifo_count f"
  using length_kfifo_bytes [of f] by (simp add: kfifo_wf_def)

lemma push_bytes_law:
  assumes "kfifo_wf f" and ys: "ys = take (accepted_bytes (cells_of f) (esz f) (kfifo_bytes f) xs) xs"
  shows "\<exists>f'. push_bytes f xs = Val (f', ys) \<and> fifo_shape (cells_of f) (esz f) f' \<and> kfifo_bytes f' = kfifo_bytes f @ ys"
proof -
  let ?len = "of_nat (length xs div esz f) :: u32"
  have len: "unat ?len = length xs div esz f mod 2 ^ 32" by (simp add: unsigned_of_nat take_bit_eq_mod)
  then have "unat ?len \<le> length xs div esz f" by simp
  then have "unat ?len * esz f \<le> length xs div esz f * esz f" by (rule mult_le_mono1)
  also have "\<dots> \<le> length xs" by (rule div_times_less_eq_dividend)
  finally have "min (unat ?len) (cells_of f - kfifo_count f) * esz f \<le> length xs"
    by (rule le_trans [OF mult_le_mono1 [OF min.cobounded1]])
  from kfifo_in_refines [OF assms(1) this] obtain n f' where "kfifo_in f xs ?len = Val (n, f')" "kfifo_wf f'"
      "unat n = min (unat ?len) (cells_of f - kfifo_count f)"
      "kfifo_bytes f' = kfifo_bytes f @ take (unat n * esz f) xs" "kf_mask f' = kf_mask f" "kf_esize f' = kf_esize f" by blast
  then show ?thesis unfolding push_bytes_def ys accepted_bytes_def count_bytes [OF assms(1)] by (auto simp: len)
qed

lemma pop_bytes_law:
  assumes "kfifo_wf f" and k: "k = delivered_bytes (esz f) (kfifo_bytes f) n"
  shows "\<exists>f'. pop_bytes f n = Val (f', take k (kfifo_bytes f)) \<and> fifo_shape (cells_of f) (esz f) f' \<and>
    kfifo_bytes f' = drop k (kfifo_bytes f)"
proof -
  have "unat (of_nat n :: u32) = n mod 2 ^ 32" by (simp add: unsigned_of_nat take_bit_eq_mod)
  then show ?thesis
    using kfifo_out_refines [OF assms(1), of "of_nat n"]
    unfolding pop_bytes_def k delivered_bytes_def count_bytes [OF assms(1)] by auto
qed

interpretation bytes: fifo_queue "fifo_shape cells e" kfifo_bytes push_bytes pop_bytes
    "accepted_bytes cells e" "delivered_bytes e" for cells e
  by unfold_locales (use push_bytes_law pop_bytes_law in blast)+

text \<open>A record fifo as a queue of records.\<close>

definition rec_enc :: "nat \<Rightarrow> u8 list \<Rightarrow> u8 list" where
  "rec_enc recsize r = rec_head recsize (of_nat (length r)) @ r"

function recs :: "nat \<Rightarrow> u8 list \<Rightarrow> u8 list list" where
  "recs recsize bs =
     (if recsize = 0 \<or> length bs < recsize then []
      else let n = le_val (take recsize bs) in take n (drop recsize bs) # recs recsize (drop (recsize + n) bs))"
  by pat_completeness auto
termination
  by (relation "measure (\<lambda>(recsize, bs). length bs)") auto

declare recs.simps [simp del]

definition rec_ok :: "nat \<Rightarrow> u8 list \<Rightarrow> bool" where
  "rec_ok recsize r \<longleftrightarrow> length r < 256 ^ recsize"

definition rec_wf :: "nat \<Rightarrow> kfifo \<Rightarrow> bool" where
  "rec_wf recsize f \<longleftrightarrow> recsize \<in> {1, 2} \<and> kfifo_wf f \<and> esz f = 1 \<and>
     list_all (rec_ok recsize) (recs recsize (kfifo_bytes f)) \<and>
     concat (map (rec_enc recsize) (recs recsize (kfifo_bytes f))) = kfifo_bytes f"

text \<open>
  The calls of a record fifo, with what each returns and delivers, and what they mean on the list of
  the records inside a ring of \<open>cells\<close> bytes.  A record is taken whole or not at all; a read with a
  buffer of \<open>len\<close> bytes delivers the start of the oldest record and drops the rest of that record.
\<close>

datatype rec_op = In_r "u8 list" | Out_r u32 | Peek_r u32

fun rec_step :: "nat \<Rightarrow> kfifo \<Rightarrow> rec_op \<Rightarrow> (kfifo \<times> u32 \<times> u8 list) outcome" where
  "rec_step recsize f (In_r r) =
     bind_outcome (kfifo_in_r f r (of_nat (length r)) recsize) (\<lambda>(n, f). Val (f, n, []))"
| "rec_step recsize f (Out_r len) = bind_outcome (kfifo_out_r f len recsize) (\<lambda>(n, bs, f). Val (f, n, bs))"
| "rec_step recsize f (Peek_r len) = bind_outcome (kfifo_out_peek_r f len recsize) (\<lambda>(n, bs). Val (f, n, bs))"

definition rec_used :: "nat \<Rightarrow> u8 list list \<Rightarrow> nat" where
  "rec_used recsize rs = (\<Sum>r\<leftarrow>rs. recsize + length r)"

fun rec_spec :: "nat \<Rightarrow> nat \<Rightarrow> u8 list list \<Rightarrow> rec_op \<Rightarrow> u8 list list \<times> u32 \<times> u8 list" where
  "rec_spec recsize cells rs (In_r r) =
     (if rec_used recsize rs + recsize + length r \<le> cells then (rs @ [r], of_nat (length r), []) else (rs, 0, []))"
| "rec_spec recsize cells [] (Out_r len) = ([], 0, [])"
| "rec_spec recsize cells (r # rs) (Out_r len) = (rs, of_nat (min (unat len) (length r)), take (unat len) r)"
| "rec_spec recsize cells [] (Peek_r len) = ([], 0, [])"
| "rec_spec recsize cells (r # rs) (Peek_r len) = (r # rs, of_nat (min (unat len) (length r)), take (unat len) r)"

text \<open>The header can hold the length of the record; \<open>kfifo_in_r\<close> does not look.\<close>

fun rec_fits :: "nat \<Rightarrow> rec_op \<Rightarrow> bool" where
  "rec_fits recsize (In_r r) = rec_ok recsize r"
| "rec_fits recsize (Out_r len) = True"
| "rec_fits recsize (Peek_r len) = True"

lemma le_val_head:
  assumes "recsize \<in> {1, 2}" and "n < 256 ^ recsize"
  shows "le_val (rec_head recsize (of_nat n)) = n"
proof -
  have n: "n < 2 ^ 16" "n < 2 ^ 32" using assms by auto
  have u: "unat (of_nat n :: u32) = n" using n(2) by (rule unat_of_nat_u32)
  have "take_bit 32 n = n" using n(2) by (simp add: take_bit_nat_eq_self)
  then have d: "unat (drop_bit 8 (of_nat n :: u32)) = n div 256"
    by (simp only: unsigned_drop_bit_eq u) (simp add: drop_bit_eq_div)
  have c: "unat (ucast w :: u8) = unat w mod 256" for w :: u32 by (simp add: unsigned_ucast_eq take_bit_eq_mod)
  have h: "rec_head 1 w = [ucast w]" "rec_head 2 w = [ucast w, ucast (drop_bit 8 w)]" for w by (simp_all add: rec_head_def)
  from assms(1) consider "recsize = 1" | "recsize = 2" by auto
  then show ?thesis
    using assms(2) n(1) by cases (simp_all only: h le_val.simps c u d, simp_all)
qed

lemma recs_Nil: "recs recsize [] = []"
  by (cases "recsize = 0") (simp_all add: recs.simps)

lemma recs_enc:
  assumes "recsize \<in> {1, 2}" and "rec_ok recsize r"
  shows "recs recsize (rec_enc recsize r @ rest) = r # recs recsize rest"
proof -
  have h: "length (rec_head recsize w) = recsize" for w by (rule length_rec_head [OF assms(1)])
  have v: "le_val (rec_head recsize (of_nat (length r))) = length r"
    using assms by (intro le_val_head) (auto simp: rec_ok_def)
  show ?thesis
    using assms(1) by (subst recs.simps) (auto simp: rec_enc_def h v Let_def)
qed

lemma recs_concat:
  assumes "recsize \<in> {1, 2}" and "list_all (rec_ok recsize) rs"
  shows "recs recsize (concat (map (rec_enc recsize) rs)) = rs"
  using assms by (induction rs) (auto simp: recs_Nil recs_enc)

lemma rec_wfI:
  assumes "recsize \<in> {1, 2}" and "kfifo_wf f" and "esz f = 1" and "list_all (rec_ok recsize) rs"
    and "kfifo_bytes f = concat (map (rec_enc recsize) rs)"
  shows "rec_wf recsize f" and "recs recsize (kfifo_bytes f) = rs"
  using assms recs_concat [OF assms(1,4)] by (simp_all add: rec_wf_def)

lemma rec_ok_len:
  assumes "recsize \<in> {1, 2}" and "rec_ok recsize r"
  shows "unat (of_nat (length r) :: u32) = length r"
proof -
  have "length r < 2 ^ 32" using assms by (auto simp: rec_ok_def)
  then show ?thesis by (rule unat_of_nat_u32)
qed

lemma rec_wfE:
  assumes "rec_wf recsize f" and "rs = recs recsize (kfifo_bytes f)"
  shows "recsize \<in> {1, 2}" and "kfifo_wf f" and "esz f = 1" and "list_all (rec_ok recsize) rs"
    and "kfifo_bytes f = concat (map (rec_enc recsize) rs)"
  using assms by (simp_all add: rec_wf_def)

lemma rec_used_count:
  assumes "rec_wf recsize f"
  shows "rec_used recsize (recs recsize (kfifo_bytes f)) = kfifo_count f"
proof -
  note wf = rec_wfE [OF assms refl]
  have "length (concat (map (rec_enc recsize) rs)) = rec_used recsize rs" for rs
    by (induction rs) (simp_all add: rec_used_def rec_enc_def length_rec_head [OF wf(1)])
  then show ?thesis using wf(3) arg_cong [OF wf(5), of length] length_kfifo_bytes [of f] by simp
qed

lemma in_r_step:
  assumes "rec_wf recsize f" and "rec_ok recsize r"
  shows "\<exists>f' x. rec_step recsize f (In_r r) = Val (f', x) \<and> rec_wf recsize f' \<and> cells_of f' = cells_of f \<and>
    rec_spec recsize (cells_of f) (recs recsize (kfifo_bytes f)) (In_r r) = (recs recsize (kfifo_bytes f'), x)"
proof -
  note wf = rec_wfE [OF assms(1) refl]
  let ?len = "of_nat (length r) :: u32" and ?rs = "recs recsize (kfifo_bytes f)"
  let ?fits = "length r + recsize \<le> cells_of f - kfifo_count f"
  have len: "unat ?len = length r" by (rule rec_ok_len [OF wf(1) assms(2)])
  obtain f' where f': "kfifo_in_r f r ?len recsize = Val (if ?fits then ?len else 0, f')" "kfifo_wf f'"
      "kfifo_bytes f' = kfifo_bytes f @ (if ?fits then rec_head recsize ?len @ r else [])"
      "kf_esize f' = kf_esize f" "kf_mask f' = kf_mask f"
    using kfifo_in_r_refines [OF wf(2,3,1), of ?len r] len by auto
  let ?ys = "if ?fits then [r] else []"
  have b: "kfifo_bytes f' = concat (map (rec_enc recsize) (?rs @ ?ys))"
    using f'(3) wf(5) by (simp add: rec_enc_def)
  have l: "list_all (rec_ok recsize) (?rs @ ?ys)" using wf(4) assms(2) by simp
  note wf' = rec_wfI [OF wf(1) f'(2) _ l b]
  have room: "rec_used recsize ?rs + recsize + length r \<le> cells_of f \<longleftrightarrow> ?fits"
    unfolding rec_used_count [OF assms(1)] using kfifo_count_le [OF wf(2)] wf(1) by auto
  show ?thesis using f'(1,4,5) wf' wf(3) unfolding rec_spec.simps room by simp
qed

lemma out_r_step:
  assumes "rec_wf recsize f" and "op = Out_r len \<or> op = Peek_r len"
  shows "\<exists>f' x. rec_step recsize f op = Val (f', x) \<and> rec_wf recsize f' \<and> cells_of f' = cells_of f \<and>
    rec_spec recsize (cells_of f) (recs recsize (kfifo_bytes f)) op = (recs recsize (kfifo_bytes f'), x)"
proof (cases "recs recsize (kfifo_bytes f)")
  case Nil
  then have "kf_in f = kf_out f" using rec_wfE [OF assms(1) refl] kfifo_not_empty_iff by fastforce
  then show ?thesis using assms Nil by (auto simp: kfifo_out_r_def kfifo_out_peek_r_def)
next
  case (Cons r rs)
  note wf = rec_wfE [OF assms(1) Cons [symmetric]]
  have ok: "rec_ok recsize r" "list_all (rec_ok recsize) rs" using wf(4) by simp_all
  let ?n = "of_nat (length r) :: u32" and ?m = "of_nat (min (unat len) (length r)) :: u32"
  have len: "unat ?n = length r" by (rule rec_ok_len [OF wf(1) ok(1)])
  have small: "length r = unat ?n" "unat ?n < 256 ^ recsize" using len ok(1) by (simp_all add: rec_ok_def)
  have b: "kfifo_bytes f = rec_head recsize ?n @ r @ concat (map (rec_enc recsize) rs)"
    using wf(5) by (simp add: rec_enc_def)
  have ne: "kf_in f \<noteq> kf_out f"
    using b length_rec_head [OF wf(1), of ?n] wf(1) kfifo_not_empty_iff [OF wf(3)] by auto
  have m: "m = ?m" if "unat m = min (unat len) (unat ?n)" for m :: u32
    by (rule unsigned_word_eqI [where 'a = nat]) (use that len unsigned_less [of len, where 'a = nat] in \<open>simp add: unsigned_of_nat take_bit_nat_eq_self\<close>)
  have copy: "kfifo_out_copy_r f len recsize = Val (?m, take (unat len) r, ?n)"
    using kfifo_out_copy_r_head [OF wf(2,3,1) b small, of len] m by blast
  let ?f = "f\<lparr>kf_out := kf_out f + (?n + of_nat recsize)\<rparr>"
  note pop = kfifo_pop_record [OF wf(2,3,1) b small]
  have "rec_wf recsize ?f" "recs recsize (kfifo_bytes ?f) = rs"
    using rec_wfI [OF wf(1) pop(1) _ ok(2) pop(2)] wf(3) by simp_all
  then show ?thesis using assms Cons copy ne by (auto simp: kfifo_out_r_def kfifo_out_peek_r_def)
qed

interpretation records: step_refines "\<lambda>f. rec_wf recsize f \<and> cells_of f = cells" "\<lambda>f. recs recsize (kfifo_bytes f)"
    "rec_fits recsize" "rec_step recsize" "rec_spec recsize cells" for recsize cells
proof
  fix f op
  assume inv: "rec_wf recsize f \<and> cells_of f = cells" and ok: "rec_fits recsize op"
  then show "\<exists>f' x. rec_step recsize f op = Val (f', x) \<and> (rec_wf recsize f' \<and> cells_of f' = cells) \<and>
      rec_spec recsize cells (recs recsize (kfifo_bytes f)) op = (recs recsize (kfifo_bytes f'), x)"
    using in_r_step [of recsize f] out_r_step [of recsize f op] by (cases op) auto
qed

text \<open>
  A record whose length does not fit its header: \<open>kfifo_in_r\<close> takes all 256 bytes, a one byte header
  records the length 0, and the next read delivers nothing and leaves the 256 bytes to be read as
  headers.  The user space and DMA variants clamp the length with \<open>kfifo_max_r\<close> first.
\<close>

lemma long_record_lost:
  assumes wf: "kfifo_wf f" and e: "esz f = 1" and empty: "kfifo_bytes f = []" and room: "257 \<le> cells_of f"
    and r: "length r = 256"
  shows "\<exists>f' f''. kfifo_in_r f r 256 1 = Val (256, f') \<and> kfifo_out_r f' len 1 = Val (0, [], f'') \<and> kfifo_bytes f'' = r"
proof -
  have c: "kfifo_count f = 0" using length_kfifo_bytes [of f] empty e by simp
  obtain f' where f': "kfifo_in_r f r 256 1 = Val (256, f')" "kfifo_wf f'" "kfifo_bytes f' = rec_head 1 256 @ r"
      "kf_esize f' = kf_esize f"
    using kfifo_in_r_refines [OF wf e, of 1 256 r] room r c empty by auto
  have b: "kfifo_bytes f' = rec_head 1 0 @ [] @ r" using f'(3) by (simp add: rec_head_def)
  obtain m f'' where "kfifo_out_r f' len 1 = Val (m, [], f'')" "unat m = 0" "kfifo_bytes f'' = r"
    using kfifo_out_r_refines [OF f'(2) _ _ b, of len] f'(4) e by auto
  then show ?thesis using f'(1) by (auto simp: unsigned_eq_0_iff)
qed

subsection \<open>Properties\<close>

text \<open>
  C16. First in, first out: starting from a well-formed fifo, every sequence of \<open>kfifo_in\<close> and
  \<open>kfifo_out\<close> calls runs without touching memory outside the buffer, keeps the fifo well formed, and
  what was in the fifo followed by all that was put in is all that came out followed by what is still
  there. Each \<open>kfifo_in\<close> accepts as many whole elements as it is given and the free cells hold, each \<open>kfifo_out\<close>
  delivers as many as it is asked for and there are. The counters may wrap at any time.
\<close>

theorem kfifo_first_in_first_out:
  assumes "kfifo_wf f"
  shows "\<exists>f' ins outs. run_ops push_bytes pop_bytes f ops = Val (f', ins, outs) \<and> kfifo_wf f' \<and>
    kfifo_bytes f @ ins = outs @ kfifo_bytes f' \<and>
    ref_ops (accepted_bytes (cells_of f) (esz f)) (delivered_bytes (esz f)) (kfifo_bytes f) ops = (ins, outs, kfifo_bytes f')"
  using bytes.fifo_runs [of f "cells_of f" "esz f" ops] assms ref_ops_order by metis

definition wrapping_fifo :: kfifo where
  "wrapping_fifo = \<lparr>kf_in = 0xfffffffe, kf_out = 0xfffffffe, kf_mask = 3, kf_esize = 1, kf_data = [0, 0, 0, 0]\<rparr>"

lemma wrapping_fifo_wf: "kfifo_wf wrapping_fifo"
proof -
  have "(4 :: nat) = 2 ^ 2" by simp
  then have "(4 :: nat) \<in> (\<lambda>k. 2 ^ k) ` {1..<32}" by (rule image_eqI) simp
  then show ?thesis by (simp add: kfifo_wf_def wrapping_fifo_def)
qed

theorem kfifo_first_in_first_out_witness:
  "\<exists>f'. run_ops push_bytes pop_bytes wrapping_fifo [Push [1, 2, 3], Pop 2, Push [4, 5, 6, 7], Pop 3] =
     Val (f', [1, 2, 3, 4, 5, 6], [1, 2, 3, 4, 5]) \<and> kfifo_wf f' \<and> kfifo_bytes f' = [6]"
  (is "\<exists>f'. run_ops _ _ _ ?ops = _ \<and> _")
proof -
  have b: "kfifo_bytes wrapping_fifo = []"
    by (simp add: kfifo_bytes_def kfifo_count_def wrapping_fifo_def ring_read_def)
  have "ref_ops (accepted_bytes (cells_of wrapping_fifo) (esz wrapping_fifo)) (delivered_bytes (esz wrapping_fifo))
      (kfifo_bytes wrapping_fifo) ?ops = ([1, 2, 3, 4, 5, 6], [1, 2, 3, 4, 5], [6])"
    unfolding b by (simp add: wrapping_fifo_def accepted_bytes_def delivered_bytes_def Let_def)
  then show ?thesis using kfifo_first_in_first_out [OF wrapping_fifo_wf, of ?ops] by (metis prod.inject)
qed

text \<open>
  C18. A record fifo with one or two byte headers is a bounded queue of records, for callers that
  insert no record longer than its header can express (255 or 65535 bytes; \<open>kfifo_in_r\<close> does not
  check this, see \<open>long_record_lost\<close>).  From a well-formed record fifo every sequence of such
  \<open>kfifo_in_r\<close> calls and of \<open>kfifo_out_r\<close> and \<open>kfifo_out_peek_r\<close> calls with buffers of any size runs
  without touching memory outside the buffer, and returns what the queue returns: an insertion takes the
  whole record and returns its length exactly when record and header fit in the free bytes, and
  otherwise returns 0 and changes nothing; a read delivers the oldest record up to the size of the
  buffer, and \<open>kfifo_out_r\<close> then drops that record, with the part that did not fit.
\<close>

theorem kfifo_records_in_order:
  assumes "rec_wf recsize f" and "list_all (rec_fits recsize) ops"
  shows "\<exists>f' xs. run_steps (rec_step recsize) f ops = Val (f', xs) \<and> rec_wf recsize f' \<and> cells_of f' = cells_of f \<and>
    run_spec (rec_spec recsize (cells_of f)) (recs recsize (kfifo_bytes f)) ops = (recs recsize (kfifo_bytes f'), xs)"
  using records.runs_refine [of recsize f "cells_of f" ops] assms by simp

theorem kfifo_records_in_order_witness:
  "\<exists>f'. run_steps (rec_step 1) wrapping_fifo [In_r [7, 8], In_r [9, 9], Peek_r 1, Out_r 1, In_r [9], Out_r 4, Out_r 4] =
     Val (f', [(2, []), (0, []), (1, [7]), (1, [7]), (1, []), (1, [9]), (0, [])]) \<and> recs 1 (kfifo_bytes f') = []"
  (is "\<exists>f'. run_steps _ _ ?ops = _ \<and> _")
proof -
  have b: "kfifo_bytes wrapping_fifo = []"
    by (simp add: kfifo_bytes_def kfifo_count_def wrapping_fifo_def ring_read_def)
  have wf: "rec_wf 1 wrapping_fifo"
    using wrapping_fifo_wf by (simp add: rec_wf_def b recs_Nil) (simp add: wrapping_fifo_def)
  have fits: "list_all (rec_fits 1) ?ops" by (simp add: rec_ok_def)
  have spec: "run_spec (rec_spec 1 (cells_of wrapping_fifo)) (recs 1 (kfifo_bytes wrapping_fifo)) ?ops = ([], [(2, []), (0, []), (1, [7]), (1, [7]), (1, []), (1, [9]), (0, [])])"
    unfolding b recs_Nil by (simp add: rec_used_def wrapping_fifo_def)
  show ?thesis using kfifo_records_in_order [OF wf fits, unfolded spec prod.inject] by metis
qed

text \<open>
  \<open>kfifo_alloc\<close> of at least two elements either fails with ENOMEM or leaves an empty well-formed
  fifo whose size is the requested one rounded down to a power of two.
\<close>

theorem kfifo_alloc_rounds_down:
  assumes "2 \<le> unat sz" and "0 < unat esize" and "unat sz * unat esize < 2 ^ 32"
    and "\<And>n d. alloc n = Some d \<Longrightarrow> length d = n"
  shows "\<exists>r f. kfifo_alloc alloc sz esize = Val (r, f) \<and>
     (case r of
        None \<Rightarrow> kfifo_wf f \<and> kfifo_bytes f = [] \<and> cells_of f = pow2_floor (unat sz) \<and> kf_esize f = esize
      | Some e \<Rightarrow> e = ENOMEM)"
  by (rule kfifo_alloc_refines [OF assms])

theorem kfifo_alloc_rounds_down_witness:
  "\<exists>r f. kfifo_alloc (\<lambda>n. Some (replicate n 0)) 100 4 = Val (r, f) \<and>
     (case r of None \<Rightarrow> kfifo_wf f \<and> cells_of f = 64 | Some e \<Rightarrow> e = ENOMEM)"
proof -
  have "pow2_floor 100 = 64"
    by (simp add: pow2_floor_def fls_nat.simps [of 100] fls_nat.simps [of 50] fls_nat.simps [of 25]
        fls_nat.simps [of 12] fls_nat.simps [of 6] fls_nat.simps [of 3] fls_nat.simps [of "Suc 0"] fls_nat.simps [of 0])
  moreover obtain r f where "kfifo_alloc (\<lambda>n. Some (replicate n 0)) 100 4 = Val (r, f)"
      "case r of None \<Rightarrow> kfifo_wf f \<and> kfifo_bytes f = [] \<and> cells_of f = pow2_floor (unat (100 :: u32)) \<and> kf_esize f = 4
       | Some e \<Rightarrow> e = ENOMEM"
    using kfifo_alloc_rounds_down [of 100 4 "\<lambda>n. Some (replicate n 0)"] by auto
  ultimately show ?thesis by (intro exI [of _ r] exI [of _ f]) (auto split: option.splits)
qed

text \<open>
  A transfer from user space that faults part way appends exactly the elements that arrived
  completely and reports EFAULT; without a fault everything that fits is appended. For byte fifos
  \<open>*copied\<close> is the number of bytes.
\<close>

theorem kfifo_from_user_partial:
  assumes "kfifo_wf f" and "n = min (unat len div esz f) (cells_of f - kfifo_count f)"
    and "av = min (n * esz f) (length user)"
  shows "\<exists>copied f'. kfifo_from_user f user len = Val (if av < n * esz f then Some EFAULT else None, copied, f') \<and>
     kfifo_wf f' \<and> kfifo_bytes f' = kfifo_bytes f @ take (av div esz f * esz f) user \<and>
     (esz f = 1 \<longrightarrow> unat copied = av)"
  using kfifo_from_user_refines [OF assms] by blast

theorem kfifo_from_user_partial_witness:
  "\<exists>copied f'. kfifo_from_user wrapping_fifo [5, 6, 7] 9 = Val (Some EFAULT, copied, f') \<and>
     kfifo_bytes f' = [5, 6, 7] \<and> copied = 3"
proof -
  have b: "kfifo_bytes wrapping_fifo = []" and c: "kfifo_count wrapping_fifo = 0"
      and e: "esz wrapping_fifo = 1" "cells_of wrapping_fifo = 4"
    by (simp_all add: kfifo_bytes_def kfifo_count_def wrapping_fifo_def ring_read_def)
  have "w = 3" if "unat w = 3" for w :: u32
  proof -
    have "unat w = unat (3 :: u32)" using that by simp
    then show ?thesis by (rule unsigned_word_eqI)
  qed
  moreover obtain copied f' where "kfifo_from_user wrapping_fifo [5, 6, 7] 9 = Val (Some EFAULT, copied, f')"
      "kfifo_bytes f' = [5, 6, 7]" "unat copied = 3"
    using kfifo_from_user_partial [OF wrapping_fifo_wf refl refl, where len = 9 and user = "[5, 6, 7]"] unfolding b c e by auto
  ultimately show ?thesis by blast
qed

text \<open>
  For larger elements \<open>*copied\<close> is wrong after a fault: it subtracts a number of elements from a
  number of bytes. Here 4 of 8 bytes arrive, and 7 are reported.
\<close>

theorem kfifo_copied_mixes_units:
  "\<exists>f'. kfifo_from_user \<lparr>kf_in = 0, kf_out = 0, kf_mask = 1, kf_esize = 4, kf_data = [0, 0, 0, 0, 0, 0, 0, 0]\<rparr> [1, 2, 3, 4] 8 =
      Val (Some EFAULT, 7, f') \<and> kfifo_bytes f' = [1, 2, 3, 4]"
proof -
  have "[0..<4] = [0, 1, 2, 3 :: nat]" by (simp add: upt_rec)
  then show ?thesis
    by (simp add: kfifo_from_user_def kfifo_unused_def kfifo_copy_from_user_def ring_span_def Let_def
        copy_from_user_def wr_bytes_def div_round_up_def seg_def kfifo_bytes_def kfifo_count_def pos_of_def
        ring_read_def)
qed

end
