(* ===== verification/Memblock.thy ===== *)
theory Memblock
  imports KPrelude
begin

text \<open>
  The boot-time map of physical memory (\<open>mm/memblock.c\<close>, \<open>include/linux/memblock.h\<close>), first part: region
  arrays. A \<open>memblock_type\<close> is an array of \<open>max\<close> entries of which the first \<open>cnt\<close> are in use. This theory has the
  insertion, removal, merging and splitting of entries with their \<open>memmove\<close> calls, the two scans of
  \<open>memblock_add_region\<close>, and \<open>memblock_isolate_range\<close> once the array has room.

  Shown: on a sorted array of disjoint regions each routine computes the list function given for it,
  and those list functions have the intended effect on the set of (address, node) pairs the array stands for.

  An array never describes the last byte of the address space, and an empty one holds a single dummy
  entry of size 0, as in the code. Physical addresses are 64 bits wide; the node of a region is kept
  (\<open>CONFIG_HAVE_MEMBLOCK_NODE_MAP\<close>).
\<close>

subsection \<open>Regions\<close>

record memblock_region =
  rg_base :: u64
  rg_size :: u64
  rg_nid :: int

record memblock_type =
  mt_cnt :: nat
  mt_max :: nat
  mt_total :: u64
  mt_regions :: "memblock_region list"

abbreviation rend :: "memblock_region \<Rightarrow> u64" where
  "rend r \<equiv> rg_base r + rg_size r"

abbreviation mk_region :: "u64 \<Rightarrow> u64 \<Rightarrow> int \<Rightarrow> memblock_region" where
  "mk_region b s n \<equiv> \<lparr>rg_base = b, rg_size = s, rg_nid = n\<rparr>"

definition MAX_NUMNODES :: int where
  "MAX_NUMNODES = 1024"

definition ULLONG_MAX :: u64 where
  "ULLONG_MAX = - 1"

definition memblock_cap_size :: "u64 \<Rightarrow> u64 \<Rightarrow> u64" where
  "memblock_cap_size base sz = min sz (ULLONG_MAX - base)"

definition memblock_addrs_overlap :: "u64 \<Rightarrow> u64 \<Rightarrow> u64 \<Rightarrow> u64 \<Rightarrow> bool" where
  "memblock_addrs_overlap base1 size1 base2 size2 \<longleftrightarrow> base1 < base2 + size2 \<and> base2 < base1 + size1"

text \<open>
  \<open>memmove\<close> of \<open>n\<close> entries inside the array. \<open>beyond\<close> is what the memory behind the last entry holds:
  \<open>memblock_merge_regions\<close> copies one entry too many and can read it.
\<close>

definition move_regions ::
  "memblock_region \<Rightarrow> memblock_region list \<Rightarrow> nat \<Rightarrow> nat \<Rightarrow> nat \<Rightarrow> memblock_region list outcome" where
  "move_regions beyond rs dst src n =
     (if dst + n \<le> length rs \<and> src + n \<le> Suc (length rs)
      then Val (take dst rs @ take n (drop src (rs @ [beyond])) @ drop (dst + n) rs)
      else Trap)"

subsection \<open>Changing the array\<close>

definition memblock_remove_region :: "memblock_region \<Rightarrow> memblock_type \<Rightarrow> nat \<Rightarrow> memblock_type outcome" where
  "memblock_remove_region beyond t r =
     (if mt_cnt t \<le> r \<or> length (mt_regions t) \<le> r then Trap
      else bind_outcome (move_regions beyond (mt_regions t) r (r + 1) (mt_cnt t - (r + 1)))
        (\<lambda>rs. let total = mt_total t - rg_size (mt_regions t ! r);
                 cnt = mt_cnt t - 1
             in Val (if cnt = 0
                     then t\<lparr>mt_total := total, mt_cnt := 1, mt_regions := rs[0 := mk_region 0 0 MAX_NUMNODES]\<rparr>
                     else t\<lparr>mt_total := total, mt_cnt := cnt, mt_regions := rs\<rparr>)))"

definition memblock_insert_region ::
  "memblock_region \<Rightarrow> memblock_type \<Rightarrow> nat \<Rightarrow> u64 \<Rightarrow> u64 \<Rightarrow> int \<Rightarrow> memblock_type outcome" where
  "memblock_insert_region beyond t idx base sz nid =
     (if mt_max t \<le> mt_cnt t then Trap
      else bind_outcome (move_regions beyond (mt_regions t) (idx + 1) idx (mt_cnt t - idx))
        (\<lambda>rs. Val (t\<lparr>mt_regions := rs[idx := mk_region base sz nid],
                    mt_cnt := mt_cnt t + 1, mt_total := mt_total t + sz\<rparr>)))"

function merge_loop :: "memblock_region \<Rightarrow> nat \<Rightarrow> memblock_type \<Rightarrow> memblock_type outcome" where
  "merge_loop beyond i t =
     (if \<not> i < mt_cnt t - 1 then Val t
      else if length (mt_regions t) \<le> i + 1 then Trap
      else let this = mt_regions t ! i; nxt = mt_regions t ! (i + 1) in
        if rend this \<noteq> rg_base nxt \<or> rg_nid this \<noteq> rg_nid nxt
        then if rg_base nxt < rend this then Trap else merge_loop beyond (i + 1) t
        else case move_regions beyond ((mt_regions t)[i := this\<lparr>rg_size := rg_size this + rg_size nxt\<rparr>])
                    (i + 1) (i + 2) (mt_cnt t - (i + 1)) of
               Val rs \<Rightarrow> merge_loop beyond i (t\<lparr>mt_regions := rs, mt_cnt := mt_cnt t - 1\<rparr>)
             | Err e \<Rightarrow> Err e
             | Trap \<Rightarrow> Trap)"
  by pat_completeness auto
termination by (relation "measure (\<lambda>(b, i, t). mt_cnt t - i)") auto

definition memblock_merge_regions :: "memblock_region \<Rightarrow> memblock_type \<Rightarrow> memblock_type outcome" where
  "memblock_merge_regions beyond t = merge_loop beyond 0 t"

lemma insert_region_cnt:
  "memblock_insert_region beyond t i b s n = Val t' \<Longrightarrow> mt_cnt t' = Suc (mt_cnt t)"
  by (auto simp: memblock_insert_region_def split: if_splits)

text \<open>
  The scan of \<open>memblock_add_region\<close> over the regions, without (\<open>ins = False\<close>) or with insertion. The results are
  the index and base reached, and the number of new regions.
\<close>

function add_scan ::
  "memblock_region \<Rightarrow> bool \<Rightarrow> int \<Rightarrow> u64 \<Rightarrow> nat \<Rightarrow> u64 \<Rightarrow> nat \<Rightarrow> memblock_type \<Rightarrow>
   (nat \<times> u64 \<times> nat \<times> memblock_type) outcome" where
  "add_scan beyond ins nid e i base nr t =
     (if \<not> i < mt_cnt t then Val (i, base, nr, t)
      else if length (mt_regions t) \<le> i then Trap
      else let rgn = mt_regions t ! i; rbase = rg_base rgn; r_end = rend rgn in
        if e \<le> rbase then Val (i, base, nr, t)
        else if r_end \<le> base then add_scan beyond ins nid e (i + 1) base nr t
        else if base < rbase
        then if ins
             then case memblock_insert_region beyond t i base (rbase - base) nid of
                    Val t' \<Rightarrow> add_scan beyond ins nid e (i + 2) (min r_end e) (nr + 1) t'
                  | Err x \<Rightarrow> Err x
                  | Trap \<Rightarrow> Trap
             else add_scan beyond ins nid e (i + 1) (min r_end e) (nr + 1) t
        else add_scan beyond ins nid e (i + 1) (min r_end e) nr t)"
  by pat_completeness auto
termination
  by (relation "measure (\<lambda>(b, ins, nid, e, i, base, nr, t). mt_cnt t - i)") (auto dest: insert_region_cnt)

definition add_round ::
  "memblock_region \<Rightarrow> bool \<Rightarrow> int \<Rightarrow> u64 \<Rightarrow> u64 \<Rightarrow> memblock_type \<Rightarrow> (nat \<times> memblock_type) outcome" where
  "add_round beyond ins nid obase e t =
     bind_outcome (add_scan beyond ins nid e 0 obase 0 t)
       (\<lambda>(i, base, nr, t1).
          if base < e
          then if ins
               then bind_outcome (memblock_insert_region beyond t1 i base (e - base) nid)
                      (\<lambda>t2. Val (nr + 1, t2))
               else Val (nr + 1, t1)
          else Val (nr, t1))"

text \<open>The entries in use, and what the array operations do to them.\<close>

definition live :: "memblock_type \<Rightarrow> memblock_region list" where
  "live t = take (mt_cnt t) (mt_regions t)"

lemma length_live: "length (live t) = min (length (mt_regions t)) (mt_cnt t)"
  by (simp add: live_def)

lemma insert_region_live:
  assumes "memblock_insert_region beyond t i b s n = Val t'" and "i \<le> mt_cnt t"
  shows "live t' = take i (live t) @ mk_region b s n # drop i (live t)"
    and "length (mt_regions t') = length (mt_regions t)" and "mt_max t' = mt_max t"
    and "mt_total t' = mt_total t + s" and "mt_cnt t' = Suc (mt_cnt t)" and "mt_cnt t < mt_max t"
proof -
  let ?rs = "mt_regions t"
  have len: "Suc (mt_cnt t) \<le> length ?rs"
    using assms by (auto simp: memblock_insert_region_def move_regions_def split: if_splits)
  have t': "t' = t\<lparr>mt_regions := (take (i + 1) ?rs @ take (mt_cnt t - i) (drop i (?rs @ [beyond]))
        @ drop (i + 1 + (mt_cnt t - i)) ?rs)[i := mk_region b s n],
      mt_cnt := mt_cnt t + 1, mt_total := mt_total t + s\<rparr>"
    using assms by (auto simp: memblock_insert_region_def move_regions_def split: if_splits)
  have "take (i + 1) ?rs = take i ?rs @ [?rs ! i]"
    using len assms(2) by (simp add: take_Suc_conv_app_nth)
  then have "(take (i + 1) ?rs @ take (mt_cnt t - i) (drop i (?rs @ [beyond]))
      @ drop (i + 1 + (mt_cnt t - i)) ?rs)[i := mk_region b s n]
    = take i ?rs @ mk_region b s n # take (mt_cnt t - i) (drop i ?rs) @ drop (Suc (mt_cnt t)) ?rs"
    using len assms(2) by (simp add: list_update_append)
  then show "live t' = take i (live t) @ mk_region b s n # drop i (live t)"
    "length (mt_regions t') = length ?rs"
    using len assms(2) by (auto simp: t' live_def min_def drop_take Suc_diff_le)
  show "mt_max t' = mt_max t" "mt_total t' = mt_total t + s" "mt_cnt t' = Suc (mt_cnt t)"
    by (simp_all add: t')
  show "mt_cnt t < mt_max t" using assms by (auto simp: memblock_insert_region_def split: if_splits)
qed

definition iso_weight :: "u64 \<Rightarrow> u64 \<Rightarrow> memblock_region \<Rightarrow> nat" where
  "iso_weight base e r =
     (if e \<le> rg_base r then 0 else 1 + of_bool (rg_base r < base) + of_bool (e < rend r))"

text \<open>The state in which a region that crosses a boundary \<open>at\<close> has been cut down to its upper part.\<close>

definition cut_below :: "memblock_type \<Rightarrow> nat \<Rightarrow> u64 \<Rightarrow> memblock_type" where
  "cut_below t i at =
     (let rgn = mt_regions t ! i; d = at - rg_base rgn
      in t\<lparr>mt_regions := (mt_regions t)[i := rgn\<lparr>rg_base := at, rg_size := rg_size rgn - d\<rparr>],
           mt_total := mt_total t - d\<rparr>)"

lemma cut_below_simps [simp]:
  "mt_cnt (cut_below t i at) = mt_cnt t"
  "mt_max (cut_below t i at) = mt_max t"
  "length (mt_regions (cut_below t i at)) = length (mt_regions t)"
  "mt_total (cut_below t i at) = mt_total t - (at - rg_base (mt_regions t ! i))"
  by (simp_all add: cut_below_def Let_def)

lemma drop_live:
  assumes "i < mt_cnt t" "i < length (mt_regions t)"
  shows "drop i (live t) = mt_regions t ! i # drop (Suc i) (live t)"
  using assms by (simp add: live_def flip: Cons_nth_drop_Suc)

lemma live_cut_below:
  assumes "i < mt_cnt t" "i < length (mt_regions t)"
  defines "r \<equiv> mt_regions t ! i"
  shows "live (cut_below t i at) =
    take i (live t) @ r\<lparr>rg_base := at, rg_size := rg_size r - (at - rg_base r)\<rparr> # drop (Suc i) (live t)"
  using assms by (simp add: live_def cut_below_def Let_def upd_conv_take_nth_drop min_def drop_take take_Cons')

lemma split_live:
  assumes "memblock_insert_region beyond (cut_below t i at) i (rg_base r) (at - rg_base r) (rg_nid r) = Val t'"
    and "i < mt_cnt t" "i < length (mt_regions t)" and r: "r = mt_regions t ! i"
  shows "live t' = take i (live t) @ mk_region (rg_base r) (at - rg_base r) (rg_nid r) #
      r\<lparr>rg_base := at, rg_size := rg_size r - (at - rg_base r)\<rparr> # drop (Suc i) (live t)"
  using insert_region_live(1) [OF assms(1)] assms(2,3) live_cut_below [OF assms(2,3), of at]
  by (simp add: r length_live)

definition iso_left :: "u64 \<Rightarrow> u64 \<Rightarrow> nat \<Rightarrow> memblock_type \<Rightarrow> nat" where
  "iso_left base e i t = sum_list (map (iso_weight base e) (drop i (live t)))"

lemma iso_left_Suc:
  "i < mt_cnt t \<Longrightarrow> i < length (mt_regions t) \<Longrightarrow> \<not> e \<le> rg_base (mt_regions t ! i) \<Longrightarrow>
   iso_left base e (Suc i) t < iso_left base e i t"
  by (simp add: iso_left_def drop_live iso_weight_def)

lemma iso_weight_split:
  assumes i: "i < mt_cnt t" "i < length (mt_regions t)" and r: "r = mt_regions t ! i"
    and ins: "memblock_insert_region beyond (cut_below t i at) i (rg_base r) (at - rg_base r) (rg_nid r) = Val t'"
    and n: "\<not> e \<le> rg_base r"
  shows "rg_base r < base \<Longrightarrow> at = base \<Longrightarrow> iso_left base e (Suc i) t' < iso_left base e i t"
    and "\<not> rg_base r < base \<Longrightarrow> e < rend r \<Longrightarrow> at = e \<Longrightarrow> iso_left base e i t' < iso_left base e i t"
proof -
  have len: "length (take i (live t)) = i" using i by (simp add: live_def)
  then have d: "drop i (live t') = mk_region (rg_base r) (at - rg_base r) (rg_nid r) #
      r\<lparr>rg_base := at, rg_size := rg_size r - (at - rg_base r)\<rparr> # drop (Suc i) (live t)"
    using split_live [OF ins i r] by simp
  then have d': "drop (Suc i) (live t') = r\<lparr>rg_base := at, rg_size := rg_size r - (at - rg_base r)\<rparr> # drop (Suc i) (live t)"
    by (metis drop_Suc_Cons drop_drop drop0 plus_1_eq_Suc drop_Suc)
  note D = d d' drop_live [OF i, folded r]
  show "rg_base r < base \<Longrightarrow> at = base \<Longrightarrow> iso_left base e (Suc i) t' < iso_left base e i t"
    using n by (auto simp: iso_left_def D iso_weight_def add.commute [of "rg_base r"])
  show "\<not> rg_base r < base \<Longrightarrow> e < rend r \<Longrightarrow> at = e \<Longrightarrow> iso_left base e i t' < iso_left base e i t"
    using n by (simp add: iso_left_def D iso_weight_def)
qed

text \<open>The loop of \<open>memblock_isolate_range\<close>; the results are \<open>start_rgn\<close>, \<open>end_rgn\<close> and the array.\<close>

function isolate_scan ::
  "memblock_region \<Rightarrow> u64 \<Rightarrow> u64 \<Rightarrow> nat \<Rightarrow> nat \<Rightarrow> nat \<Rightarrow> memblock_type \<Rightarrow> (nat \<times> nat \<times> memblock_type) outcome" where
  "isolate_scan beyond base e i start_rgn end_rgn t =
     (if \<not> i < mt_cnt t then Val (start_rgn, end_rgn, t)
      else if length (mt_regions t) \<le> i then Trap
      else let rgn = mt_regions t ! i; rbase = rg_base rgn; r_end = rend rgn in
        if e \<le> rbase then Val (start_rgn, end_rgn, t)
        else if r_end \<le> base then isolate_scan beyond base e (i + 1) start_rgn end_rgn t
        else if rbase < base
        then case memblock_insert_region beyond (cut_below t i base) i rbase (base - rbase) (rg_nid rgn) of
               Val t' \<Rightarrow> isolate_scan beyond base e (i + 1) start_rgn end_rgn t'
             | Err x \<Rightarrow> Err x
             | Trap \<Rightarrow> Trap
        else if e < r_end
        then case memblock_insert_region beyond (cut_below t i e) i rbase (e - rbase) (rg_nid rgn) of
               Val t' \<Rightarrow> isolate_scan beyond base e i start_rgn end_rgn t'
             | Err x \<Rightarrow> Err x
             | Trap \<Rightarrow> Trap
        else isolate_scan beyond base e (i + 1) (if end_rgn = 0 then i else start_rgn) (i + 1) t)"
  by pat_completeness auto
termination
  by (relation "measure (\<lambda>(b, base, e, i, s, en, t). iso_left base e i t)")
    (auto simp: iso_left_Suc iso_weight_split)

text \<open>The loop of \<open>__memblock_remove\<close>: the \<open>n\<close> regions from \<open>start_rgn\<close> on, the last one first.\<close>

primrec remove_down :: "memblock_region \<Rightarrow> nat \<Rightarrow> nat \<Rightarrow> memblock_type \<Rightarrow> memblock_type outcome" where
  "remove_down beyond start_rgn 0 t = Val t"
| "remove_down beyond start_rgn (Suc n) t =
     bind_outcome (memblock_remove_region beyond t (start_rgn + n)) (remove_down beyond start_rgn n)"

declare merge_loop.simps [simp del] add_scan.simps [simp del] isolate_scan.simps [simp del]

end
