(* ===== verification/Memblock_Lists.thy ===== *)
theory Memblock_Lists
  imports Memblock
begin

text \<open>
  The meaning of a region array, and the list functions its routines compute. A list of regions stands for the set
  \<open>owners\<close> of pairs of an address and the node it belongs to. \<open>fill\<close> is the insertion of a range around
  the regions that are there already, \<open>merge\<close> the joining of neighbours, \<open>isolate\<close> the splitting at the
  boundaries of a range. Shown: each routine of \<open>mm/memblock.c\<close> computes its list function, and the effect of
  that function on \<open>owners\<close>.
\<close>

definition regions_ok :: "memblock_region list \<Rightarrow> bool" where
  "regions_ok rs \<longleftrightarrow> sorted_wrt (\<lambda>a b. rend a \<le> rg_base b) rs \<and> list_all (\<lambda>r. rg_base r < rend r) rs"

definition owners :: "memblock_region list \<Rightarrow> (u64 \<times> int) set" where
  "owners rs = (\<Union>r \<in> set rs. {rg_base r ..< rend r} \<times> {rg_nid r})"

definition cover :: "memblock_region list \<Rightarrow> u64 set" where
  "cover rs = (\<Union>r \<in> set rs. {rg_base r ..< rend r})"

lemma cover_owners: "cover rs = fst ` owners rs"
  by (force simp: cover_def owners_def)

lemma regions_ok_simps [simp]:
  "regions_ok []"
  "regions_ok (r # rs) \<longleftrightarrow> rg_base r < rend r \<and> (\<forall>x\<in>set rs. rend r \<le> rg_base x) \<and> regions_ok rs"
  "regions_ok (rs @ ss) \<longleftrightarrow> regions_ok rs \<and> regions_ok ss \<and> (\<forall>r\<in>set rs. \<forall>s\<in>set ss. rend r \<le> rg_base s)"
  by (auto simp: regions_ok_def sorted_wrt_append)

lemma owners_simps [simp]:
  "owners [] = {}"
  "owners (r # rs) = {rg_base r ..< rend r} \<times> {rg_nid r} \<union> owners rs"
  "owners (rs @ ss) = owners rs \<union> owners ss"
  by (auto simp: owners_def)

lemma cover_simps [simp]:
  "cover [] = {}"
  "cover (r # rs) = {rg_base r ..< rend r} \<union> cover rs"
  "cover (rs @ ss) = cover rs \<union> cover ss"
  by (auto simp: cover_def)

lemma regions_ok_nonempty: "regions_ok rs \<Longrightarrow> r \<in> set rs \<Longrightarrow> rg_base r < rend r"
  by (simp add: regions_ok_def list_all_iff)

text \<open>Addresses are a linear order without wrap as long as regions are not empty.\<close>

lemma cover_bounds:
  assumes "regions_ok rs" "x \<in> cover rs" "\<And>r. r \<in> set rs \<Longrightarrow> b \<le> rg_base r"
  shows "b \<le> x"
  using assms by (force simp: cover_def)

subsection \<open>Merging\<close>

definition mergeable :: "memblock_region \<Rightarrow> memblock_region \<Rightarrow> bool" where
  "mergeable a b \<longleftrightarrow> rend a = rg_base b \<and> rg_nid a = rg_nid b"

fun merge :: "memblock_region list \<Rightarrow> memblock_region list" where
  "merge [] = []"
| "merge [a] = [a]"
| "merge (a # b # rs) =
     (if mergeable a b then merge (a\<lparr>rg_size := rg_size a + rg_size b\<rparr> # rs) else a # merge (b # rs))"

definition minimal :: "memblock_region list \<Rightarrow> bool" where
  "minimal rs \<longleftrightarrow> successively (\<lambda>a b. \<not> mergeable a b) rs"

lemma merge_hd: "rs \<noteq> [] \<Longrightarrow> \<exists>b bs. merge rs = b # bs \<and> rg_base b = rg_base (hd rs) \<and> rg_nid b = rg_nid (hd rs)"
  by (induction rs rule: merge.induct) (auto simp: mergeable_def)

lemma merge_length: "length (merge rs) \<le> length rs"
  by (induction rs rule: merge.induct) auto

lemma merge_nonempty [simp]: "merge rs = [] \<longleftrightarrow> rs = []"
  by (induction rs rule: merge.induct) auto

lemma merge_minimal: "minimal (merge rs)"
proof (induction rs rule: merge.induct)
  case (3 a b rs)
  then show ?case
    using merge_hd [of "b # rs"] by (auto simp: minimal_def mergeable_def)
qed (auto simp: minimal_def)

lemma merge_sizes: "sum_list (map rg_size (merge rs)) = sum_list (map rg_size rs)"
  by (induction rs rule: merge.induct) (auto simp: add.assoc)

lemma merge_bases: "r \<in> set (merge rs) \<Longrightarrow> \<exists>r'\<in>set rs. rg_base r = rg_base r'"
  by (induction rs rule: merge.induct) (auto split: if_splits)

lemma merge_join_ok:
  assumes "mergeable a b" "regions_ok (a # b # rs)"
  shows "regions_ok (a\<lparr>rg_size := rg_size a + rg_size b\<rparr> # rs)"
proof -
  have e: "rg_base a + (rg_size a + rg_size b) = rend b"
    using assms(1) by (simp add: mergeable_def add.assoc [symmetric])
  have ab: "rg_base a < rg_base b" "rg_base b < rend b" using assms by (auto simp: mergeable_def)
  show ?thesis using assms(2) less_trans [OF ab] by (simp add: e)
qed

lemma merge_effect:
  "regions_ok rs \<Longrightarrow> regions_ok (merge rs) \<and> owners (merge rs) = owners rs"
proof (induction rs rule: merge.induct)
  case (3 a b rs)
  let ?ab = "a\<lparr>rg_size := rg_size a + rg_size b\<rparr>"
  show ?case
  proof (cases "mergeable a b")
    case True
    then have m: "rend a = rg_base b" "rg_nid a = rg_nid b" by (auto simp: mergeable_def)
    have e: "rg_base a + (rg_size a + rg_size b) = rend b" using m by (simp add: add.assoc [symmetric])
    have ab: "rg_base a < rg_base b" "rg_base b < rend b" using "3.prems" m by auto
    have ok: "regions_ok (?ab # rs)" using merge_join_ok [OF True "3.prems"] .
    have "{rg_base a ..< rend b} = {rg_base a ..< rg_base b} \<union> {rg_base b ..< rend b}"
      using ab by (simp add: ivl_disj_un_two(3) less_imp_le)
    then have "owners (?ab # rs) = owners (a # b # rs)" by (simp add: e m) blast
    then show ?thesis using "3.IH"(1) [OF True ok] True by simp
  next
    case False
    have ok: "regions_ok (b # rs)" and a: "rg_base a < rend a" "\<forall>x\<in>set (b # rs). rend a \<le> rg_base x"
      using "3.prems" by (auto simp del: regions_ok_simps(2) simp: regions_ok_simps(2) [of a])
    have "\<forall>x\<in>set (merge (b # rs)). rend a \<le> rg_base x" using a(2) merge_bases by metis
    then show ?thesis using "3.IH"(2) [OF False ok] a(1) False by simp
  qed
qed simp_all

subsection \<open>Inserting a range around existing regions\<close>

fun fill :: "int \<Rightarrow> u64 \<Rightarrow> u64 \<Rightarrow> memblock_region list \<Rightarrow> memblock_region list" where
  "fill nid e base [] = (if base < e then [mk_region base (e - base) nid] else [])"
| "fill nid e base (r # rs) =
     (if e \<le> rg_base r then (if base < e then [mk_region base (e - base) nid] else []) @ r # rs
      else if rend r \<le> base then r # fill nid e base rs
      else (if base < rg_base r then [mk_region base (rg_base r - base) nid] else []) @
        r # fill nid e (min (rend r) e) rs)"

lemma fill_members:
  "x \<in> set (fill nid e base rs) \<Longrightarrow> x \<in> set rs \<or> base \<le> rg_base x \<and> rg_base x < rend x \<and> rend x \<le> e"
proof (induction rs arbitrary: base)
  case (Cons r rs)
  then show ?case
    by (force simp: min_def not_le split: if_splits dest: Cons.IH)
qed (auto split: if_splits)

lemma fill_ok: "regions_ok rs \<Longrightarrow> base \<le> e \<Longrightarrow> regions_ok (fill nid e base rs)"
  by (induction rs arbitrary: base)
    (auto simp: not_le min_def dest!: fill_members)

lemma fill_owners:
  "regions_ok rs \<Longrightarrow> owners (fill nid e base rs) = owners rs \<union> ({base ..< e} - cover rs) \<times> {nid}"
proof (induction rs arbitrary: base)
  case Nil
  show ?case by auto
next
  case (Cons r rs)
  have r: "rg_base r < rend r" and ok: "regions_ok rs" using Cons.prems by auto
  have above: "rend r \<le> x" if "x \<in> cover rs" for x
    using Cons.prems cover_bounds [OF ok that] by auto
  consider "e \<le> rg_base r" | "\<not> e \<le> rg_base r" "rend r \<le> base" | "\<not> e \<le> rg_base r" "\<not> rend r \<le> base" by auto
  then show ?case
  proof cases
    case 1
    then have "{base ..< e} - cover (r # rs) = {base ..< e}" using above r by fastforce
    then show ?thesis using 1 by auto
  next
    case 2
    then have "{base ..< e} - cover (r # rs) = {base ..< e} - cover rs" by auto
    then show ?thesis using 2 Cons.IH [OF ok] by auto
  next
    case 3
    have "{base ..< e} - cover (r # rs) = {base ..< rg_base r} \<union> ({min (rend r) e ..< e} - cover rs)"
    proof (rule set_eqI)
      fix x
      show "x \<in> {base ..< e} - cover (r # rs) \<longleftrightarrow> x \<in> {base ..< rg_base r} \<union> ({min (rend r) e ..< e} - cover rs)"
      proof (cases "x < rg_base r")
        case True
        then have "x \<notin> cover rs" using above [of x] r by auto
        then show ?thesis using True 3 r by (auto simp: min_le_iff_disj)
      next
        case False
        then show ?thesis using 3 r by (auto simp: min_def)
      qed
    qed
    then show ?thesis using 3 Cons.IH [OF ok, of "min (rend r) e"] by auto
  qed
qed

lemma fill_length: "length rs \<le> length (fill nid e base rs)"
  by (induction rs arbitrary: base) (auto simp: le_SucI)

lemma fill_at_most: "length (fill nid e base rs) \<le> 2 * length rs + 1"
proof (induction rs arbitrary: base)
  case (Cons r rs)
  then show ?case using Cons.IH [of base] Cons.IH [of "min (rend r) e"] by (auto simp: le_SucI)
qed auto

subsection \<open>Arrays\<close>

text \<open>An array whose bookkeeping is right: the allocated length, the count and the sum of sizes.\<close>

definition arr_ok :: "memblock_type \<Rightarrow> bool" where
  "arr_ok t \<longleftrightarrow> mt_max t = length (mt_regions t) \<and> mt_cnt t \<le> mt_max t \<and>
     mt_total t = sum_list (map rg_size (live t))"

lemma arr_length_live: "arr_ok t \<Longrightarrow> length (live t) = mt_cnt t"
  by (simp add: arr_ok_def length_live)

lemma arr_region_at: "i < mt_cnt t \<Longrightarrow> mt_regions t ! i = live t ! i"
  by (simp add: live_def)

lemma sum_sizes_insert:
  "sum_list (map rg_size (take i rs @ r # drop i rs)) = sum_list (map rg_size rs) + rg_size r"
proof -
  have "sum_list (map rg_size rs) = sum_list (map rg_size (take i rs @ drop i rs))" by simp
  then show ?thesis by (simp only: map_append sum_list_append list.map sum_list.Cons ac_simps)
qed

lemma insert_region_ok:
  assumes "arr_ok t" "mt_cnt t < mt_max t" "i \<le> mt_cnt t"
  obtains t' where "memblock_insert_region beyond t i b s n = Val t'" "arr_ok t'" "mt_max t' = mt_max t"
    "mt_cnt t' = Suc (mt_cnt t)" "live t' = take i (live t) @ mk_region b s n # drop i (live t)"
proof -
  obtain t' where t': "memblock_insert_region beyond t i b s n = Val t'"
    using assms by (auto simp: memblock_insert_region_def move_regions_def arr_ok_def)
  note L = insert_region_live [OF t' assms(3)]
  have "arr_ok t'" using assms L by (simp add: arr_ok_def sum_sizes_insert del: map_append)
  then show ?thesis using that t' L by blast
qed

subsection \<open>The scans compute the list functions\<close>

abbreviation gap :: "int \<Rightarrow> u64 \<Rightarrow> u64 \<Rightarrow> memblock_region list" where
  "gap nid e base \<equiv> (if base < e then [mk_region base (e - base) nid] else [])"

lemma at_Cons:
  assumes "arr_ok t" "drop i (live t) = r # rs"
  shows "i < mt_cnt t" "i < length (mt_regions t)" "mt_regions t ! i = r" "drop (Suc i) (live t) = rs"
    "take (Suc i) (live t) = take i (live t) @ [r]"
proof -
  have "i < length (live t)" using assms(2) by (metis drop_all list.distinct(1) not_le)
  then show i: "i < mt_cnt t" "i < length (mt_regions t)"
    using assms(1) by (auto simp: arr_length_live arr_ok_def)
  show "mt_regions t ! i = r" "drop (Suc i) (live t) = rs" using drop_live [OF i] assms(2) by auto
  then show "take (Suc i) (live t) = take i (live t) @ [r]"
    using i \<open>i < length (live t)\<close> by (simp add: take_Suc_conv_app_nth arr_region_at [symmetric])
qed

lemma at_Nil:
  assumes "arr_ok t" "drop i (live t) = []"
  shows "\<not> i < mt_cnt t" and "take i (live t) = live t"
  using assms by (auto simp: arr_length_live)

lemma add_scan_insert:
  assumes "arr_ok t" "i \<le> mt_cnt t" "i + length (fill nid e base (drop i (live t))) \<le> mt_max t"
  shows "\<exists>i' base' nr' t'. add_scan beyond True nid e i base nr t = Val (i', base', nr', t') \<and>
    arr_ok t' \<and> mt_max t' = mt_max t \<and> i' \<le> mt_cnt t' \<and>
    take i' (live t') @ gap nid e base' @ drop i' (live t') = take i (live t) @ fill nid e base (drop i (live t))"
  using assms
proof (induction "drop i (live t)" arbitrary: i base nr t)
  case Nil
  then show ?case using at_Nil [OF Nil.prems(1)] by (simp add: add_scan.simps [of _ _ _ _ i])
next
  case (Cons r rs)
  note C = at_Cons [OF Cons.prems(1) Cons(2) [symmetric]]
  note S = add_scan.simps [of beyond True nid e i base nr t] and d = Cons(2) [symmetric]
  note F = Cons.prems(3) [unfolded d]
  consider (stop) "e \<le> rg_base r" | (skip) "\<not> e \<le> rg_base r" "rend r \<le> base"
    | (cover) "\<not> e \<le> rg_base r" "\<not> rend r \<le> base" "\<not> base < rg_base r"
    | (ins) "\<not> e \<le> rg_base r" "\<not> rend r \<le> base" "base < rg_base r" by blast
  then show ?case
  proof cases
    case stop
    then show ?thesis using Cons.prems C(1-3) d by (simp add: S Let_def)
  next
    case skip
    then show ?thesis using Cons.hyps(1) [of "Suc i" t base nr] Cons.prems(1) C F d by (simp add: S Let_def)
  next
    case cover
    then show ?thesis using Cons.hyps(1) [of "Suc i" t "min (rend r) e" nr] Cons.prems(1) C F d by (simp add: S Let_def)
  next
    case ins
    have "mt_cnt t = i + Suc (length rs)" using arr_length_live [OF Cons.prems(1)] d C(1)
      by (metis add_diff_inverse_nat length_Cons length_drop less_or_eq_imp_le not_less)
    moreover have "length rs \<le> length (fill nid e (min (rend r) e) rs)" by (rule fill_length)
    ultimately have room: "mt_cnt t < mt_max t" using F ins by simp
    obtain t' where t': "memblock_insert_region beyond t i base (rg_base r - base) nid = Val t'" "arr_ok t'"
      "mt_max t' = mt_max t" "mt_cnt t' = Suc (mt_cnt t)"
      "live t' = take i (live t) @ mk_region base (rg_base r - base) nid # drop i (live t)"
      using insert_region_ok [OF Cons.prems(1) room Cons.prems(2)] by blast
    have "length (take i (live t)) = i" using C(1) arr_length_live [OF Cons.prems(1)] by simp
    then have "drop (i + 2) (live t') = rs"
      "take (i + 2) (live t') = take i (live t) @ [mk_region base (rg_base r - base) nid, r]"
      using t'(5) d by (simp_all add: numeral_2_eq_2)
    then show ?thesis using Cons.hyps(1) [of "i + 2" t' "min (rend r) e" "nr + 1"] ins C F t' d
      by (simp add: S Let_def)
  qed
qed

lemma add_scan_count:
  assumes "arr_ok t"
  shows "\<exists>i' base' nr'. add_scan beyond False nid e i base nr t = Val (i', base', nr', t) \<and>
    nr' + length (gap nid e base') + length (drop i (live t)) = nr + length (fill nid e base (drop i (live t)))"
proof (induction "drop i (live t)" arbitrary: i base nr)
  case Nil
  then show ?case using at_Nil [OF assms] by (simp add: add_scan.simps [of _ _ _ _ i])
next
  case (Cons r rs)
  note C = at_Cons [OF assms Cons(2) [symmetric]]
  note S = add_scan.simps [of beyond False nid e i base nr t] and d = Cons(2) [symmetric]
  note IH = Cons.hyps(1) [OF C(4) [symmetric]]
  show ?case
    using IH [of base nr] IH [of "min (rend r) e" nr] IH [of "min (rend r) e" "Suc nr"] C
    by (auto simp: S d Let_def)
qed

lemma add_round_count:
  assumes "arr_ok t"
  shows "add_round beyond False nid obase e t = Val (length (fill nid e obase (live t)) - mt_cnt t, t)"
proof -
  obtain i b nr where "add_scan beyond False nid e 0 obase 0 t = Val (i, b, nr, t)"
    "nr + length (gap nid e b) + mt_cnt t = length (fill nid e obase (live t))"
    using add_scan_count [OF assms, of beyond nid e 0 obase 0] by (auto simp: arr_length_live assms)
  then show ?thesis by (auto simp: add_round_def split: if_splits)
qed

lemma add_round_insert:
  assumes "arr_ok t" "length (fill nid e obase (live t)) \<le> mt_max t"
  shows "\<exists>nr t'. add_round beyond True nid obase e t = Val (nr, t') \<and> arr_ok t' \<and> mt_max t' = mt_max t \<and>
    live t' = fill nid e obase (live t)"
proof -
  obtain i b nr t1 where 1: "add_scan beyond True nid e 0 obase 0 t = Val (i, b, nr, t1)" "arr_ok t1"
    "mt_max t1 = mt_max t" "i \<le> mt_cnt t1" "take i (live t1) @ gap nid e b @ drop i (live t1) = fill nid e obase (live t)"
    using add_scan_insert [OF assms(1), of 0 nid e obase beyond 0] assms(2) by auto
  show ?thesis
  proof (cases "b < e")
    case False
    then show ?thesis using 1 by (simp add: add_round_def)
  next
    case True
    have "length (take i (live t1) @ gap nid e b @ drop i (live t1)) = Suc (length (live t1))"
      using True by (simp add: min_def)
    then have "length (fill nid e obase (live t)) = Suc (mt_cnt t1)"
      unfolding 1(5) arr_length_live [OF 1(2)] .
    then have "mt_cnt t1 < mt_max t1" using assms(2) 1(3) by simp
    then obtain t2 where "memblock_insert_region beyond t1 i b (e - b) nid = Val t2" "arr_ok t2"
      "mt_max t2 = mt_max t1" "live t2 = take i (live t1) @ mk_region b (e - b) nid # drop i (live t1)"
      using insert_region_ok [OF 1(2) _ 1(4)] by metis
    then show ?thesis using 1(1,3) 1(5) [symmetric] True by (simp add: add_round_def)
  qed
qed

lemma take_shifted:
  assumes "i + 2 \<le> n" "n \<le> length R"
  shows "take (n - 1) (take (i + 1) R @ take (n - (i + 1)) (drop (i + 2) (R @ [x])) @ Z) =
    take (i + 1) R @ take (n - (i + 2)) (drop (i + 2) R)"
proof -
  obtain k where n: "n = i + 2 + k" using assms(1) le_Suc_ex by blast
  have l: "length (take (i + 1) R) = i + 1" "length (drop (i + 2) R) \<ge> k" using assms n by auto
  show ?thesis using l by (simp add: n)
qed

lemma merge_step_live:
  assumes t: "arr_ok t" and d: "drop i (live t) = a # b # rs"
  obtains rs' where "move_regions beyond ((mt_regions t)[i := ab]) (i + 1) (i + 2) (mt_cnt t - (i + 1)) = Val rs'"
    "take (mt_cnt t - 1) rs' = take i (live t) @ ab # rs" "length rs' = length (mt_regions t)"
proof -
  let ?R = "(mt_regions t)[i := ab]"
  note C = at_Cons [OF t d] and C' = at_Cons [OF t at_Cons(4) [OF t d]]
  have c: "mt_cnt t \<le> length (mt_regions t)" "Suc i < mt_cnt t" using t C' by (auto simp: arr_ok_def)
  have m: "move_regions beyond ?R (i + 1) (i + 2) (mt_cnt t - (i + 1)) =
     Val (take (i + 1) ?R @ take (mt_cnt t - (i + 1)) (drop (i + 2) (?R @ [beyond])) @ drop (mt_cnt t) ?R)"
    using c by (simp add: move_regions_def)
  have 1: "take (i + 1) ?R = take i (live t) @ [ab]"
    using c by (simp add: take_Suc_conv_app_nth live_def min_def)
  have 2: "take (mt_cnt t - (i + 2)) (drop (i + 2) ?R) = rs"
    using c C'(4) by (simp add: live_def drop_take)
  show ?thesis
  proof (rule that [OF m])
    show "take (mt_cnt t - 1) (take (i + 1) ?R @ take (mt_cnt t - (i + 1)) (drop (i + 2) (?R @ [beyond])) @ drop (mt_cnt t) ?R)
      = take i (live t) @ ab # rs"
      using take_shifted [of i "mt_cnt t" ?R beyond "drop (mt_cnt t) ?R"] c unfolding 1 2 by simp
    show "length (take (i + 1) ?R @ take (mt_cnt t - (i + 1)) (drop (i + 2) (?R @ [beyond])) @ drop (mt_cnt t) ?R)
      = length (mt_regions t)"
      using c by simp
  qed
qed

lemma merge_loop_merge:
  assumes "arr_ok t" "regions_ok (drop i (live t))"
  shows "\<exists>t'. merge_loop beyond i t = Val t' \<and> arr_ok t' \<and> mt_max t' = mt_max t \<and>
    live t' = take i (live t) @ merge (drop i (live t))"
  using assms
proof (induction "drop i (live t)" arbitrary: i t rule: merge.induct)
  case (3 a b rs)
  note d = "3.hyps"(3) [symmetric]
  note C = at_Cons [OF "3.prems"(1) d] and C' = at_Cons [OF "3.prems"(1) at_Cons(4) [OF "3.prems"(1) d]]
  note S = merge_loop.simps [of beyond i t]
  have lt: "i < mt_cnt t - 1" using C'(1) by simp
  show ?case
  proof (cases "mergeable a b")
    case True
    let ?ab = "a\<lparr>rg_size := rg_size a + rg_size b\<rparr>"
    obtain rs' where rs': "move_regions beyond ((mt_regions t)[i := ?ab]) (i + 1) (i + 2) (mt_cnt t - (i + 1)) = Val rs'"
      "take (mt_cnt t - 1) rs' = take i (live t) @ ?ab # rs" "length rs' = length (mt_regions t)"
      using merge_step_live [OF "3.prems"(1) d] by blast
    let ?t = "t\<lparr>mt_regions := rs', mt_cnt := mt_cnt t - 1\<rparr>"
    have l: "live ?t = take i (live t) @ ?ab # rs" using rs'(2) by (simp add: live_def)
    define pre where "pre = take i (live t)"
    have "live t = pre @ a # b # rs" unfolding pre_def d [symmetric] by simp
    then have "sum_list (map rg_size (live t)) = sum_list (map rg_size (live ?t))"
      unfolding l pre_def [symmetric] by (simp add: add.assoc)
    then have ok: "arr_ok ?t" using "3.prems"(1) rs'(3) by (auto simp: arr_ok_def)
    have "drop i (live ?t) = ?ab # rs" "take i (live ?t) = take i (live t)"
      using l C(1) arr_length_live [OF "3.prems"(1)] by simp_all
    moreover have "regions_ok (?ab # rs)"
      using merge_join_ok True "3.prems"(2) by (simp add: d)
    moreover have "merge_loop beyond i t = merge_loop beyond i ?t"
      using True C C' rs'(1) lt by (simp add: S Let_def mergeable_def)
    ultimately show ?thesis using "3.hyps"(1) [OF True, of i ?t] ok True by (simp add: d)
  next
    case False
    have ok: "regions_ok (b # rs)" "rend a \<le> rg_base b" using "3.prems"(2) by (auto simp: d)
    then have "merge_loop beyond i t = merge_loop beyond (Suc i) t"
      using False C C' lt by (auto simp: S Let_def mergeable_def)
    then show ?thesis using "3.hyps"(2) [OF False, of "Suc i" t] C(4,5) "3.prems"(1) ok(1) False
      by (simp add: d)
  qed
next
  case 1
  have "\<not> i < mt_cnt t - 1" using at_Nil(1) [OF "1.prems"(1) 1(1) [symmetric]] by simp
  then show ?case using 1 by (simp add: merge_loop.simps [of _ i])
next
  case (2 r)
  note C = at_Cons [OF "2.prems"(1) 2(1) [symmetric]]
  have "\<not> i < mt_cnt t - 1" using at_Nil(1) [OF "2.prems"(1) C(4)] by simp
  moreover have "merge (drop i (live t)) = drop i (live t)" unfolding 2(1) [symmetric] by simp
  ultimately show ?case using "2.prems" by (simp add: merge_loop.simps [of _ i])
qed

subsection \<open>Splitting at the boundaries of a range\<close>

definition split_region :: "u64 \<Rightarrow> u64 \<Rightarrow> memblock_region \<Rightarrow> memblock_region list" where
  "split_region base e r =
     (if e \<le> rg_base r \<or> rend r \<le> base then [r]
      else (if rg_base r < base then [mk_region (rg_base r) (base - rg_base r) (rg_nid r)] else []) @
        mk_region (max base (rg_base r)) (min e (rend r) - max base (rg_base r)) (rg_nid r) #
        (if e < rend r then [mk_region e (rend r - e) (rg_nid r)] else []))"

definition isolate :: "u64 \<Rightarrow> u64 \<Rightarrow> memblock_region list \<Rightarrow> memblock_region list" where
  "isolate base e rs = concat (map (split_region base e) rs)"

lemma isolate_simps [simp]:
  "isolate base e [] = []"
  "isolate base e (r # rs) = split_region base e r @ isolate base e rs"
  by (simp_all add: isolate_def)

definition inside :: "u64 \<Rightarrow> u64 \<Rightarrow> memblock_region \<Rightarrow> bool" where
  "inside base e r \<longleftrightarrow> base < rend r \<and> rg_base r < e"

definition below :: "u64 \<Rightarrow> memblock_region \<Rightarrow> bool" where
  "below base r \<longleftrightarrow> rend r \<le> base"

lemma split_owners:
  assumes "rg_base r < rend r" "base < e"
  shows "owners (split_region base e r) = {rg_base r ..< rend r} \<times> {rg_nid r}"
  using assms by (auto simp: split_region_def max_def min_def not_le not_less)

lemma split_ok:
  assumes "rg_base r < rend r" "base < e"
  shows "regions_ok (split_region base e r)"
    and "x \<in> set (split_region base e r) \<Longrightarrow> rg_base r \<le> rg_base x \<and> rend x \<le> rend r"
    and "x \<in> set (split_region base e r) \<Longrightarrow> rend x \<le> base \<or> e \<le> rg_base x \<or> base \<le> rg_base x \<and> rend x \<le> e"
  using assms by (auto simp: split_region_def max_def min_def not_le not_less split: if_splits)

lemma isolate_member: "x \<in> set (isolate base e rs) \<longleftrightarrow> (\<exists>r\<in>set rs. x \<in> set (split_region base e r))"
  by (auto simp: isolate_def)

lemma isolate_owners: "regions_ok rs \<Longrightarrow> base < e \<Longrightarrow> owners (isolate base e rs) = owners rs"
  by (induction rs) (auto simp: split_owners)

lemma isolate_ok: "regions_ok rs \<Longrightarrow> base < e \<Longrightarrow> regions_ok (isolate base e rs)"
proof (induction rs)
  case (Cons r rs)
  have "rend x \<le> rg_base y" if x: "x \<in> set (split_region base e r)" and y: "y \<in> set (isolate base e rs)" for x y
  proof -
    obtain s where s: "s \<in> set rs" "y \<in> set (split_region base e s)" using y by (auto simp: isolate_member)
    have "rend x \<le> rend r" using split_ok(2) [OF _ _ x] Cons.prems by simp
    also have "rend r \<le> rg_base s" using Cons.prems s by simp
    also have "rg_base s \<le> rg_base y" using split_ok(2) [OF _ _ s(2)] Cons.prems regions_ok_nonempty s(1) by simp
    finally show ?thesis .
  qed
  then show ?case using Cons split_ok(1) by simp
qed simp

text \<open>At most one region contains a given address, so a range boundary splits at most one.\<close>

lemma one_contains: "regions_ok rs \<Longrightarrow> length (filter (\<lambda>r. rg_base r \<le> x \<and> x < rend r) rs) \<le> 1"
proof (induction rs)
  case (Cons r rs)
  have "filter (\<lambda>r. rg_base r \<le> x \<and> x < rend r) rs = []" if "x < rend r"
    using Cons.prems that by (auto simp: filter_empty_conv dest: order.strict_trans2)
  then show ?case using Cons by auto
qed simp

lemma isolate_length:
  assumes "regions_ok rs" "base < e"
  shows "length (isolate base e rs) \<le> length rs + 2"
proof -
  let ?at = "\<lambda>x r. rg_base r \<le> x \<and> x < rend r"
  have "length (isolate base e rs) \<le> length rs + length (filter (?at base) rs) + length (filter (?at e) rs)"
    using assms(2) by (induction rs) (auto simp: split_region_def)
  then show ?thesis using one_contains [OF assms(1), of base] one_contains [OF assms(1), of e] by linarith
qed

lemma arr_ok_cut_below:
  assumes "arr_ok t" "drop i (live t) = r # rs"
  shows "arr_ok (cut_below t i at)"
proof -
  note C = at_Cons [OF assms]
  define pre where "pre = take i (live t)"
  have l: "live t = pre @ r # rs" unfolding pre_def assms(2) [symmetric] by simp
  have "live (cut_below t i at) = pre @ r\<lparr>rg_base := at, rg_size := rg_size r - (at - rg_base r)\<rparr> # rs"
    using live_cut_below [OF C(1,2), of at] C(3,4) by (simp add: pre_def)
  then show ?thesis using assms(1) l C(3) by (simp add: arr_ok_def)
qed

lemma split_step:
  assumes t: "arr_ok t" and d: "drop i (live t) = r # rs" and room: "mt_cnt t < mt_max t"
  obtains t' where
    "memblock_insert_region beyond (cut_below t i at) i (rg_base r) (at - rg_base r) (rg_nid r) = Val t'"
    "arr_ok t'" "mt_max t' = mt_max t" "take i (live t') = take i (live t)"
    "drop i (live t') = mk_region (rg_base r) (at - rg_base r) (rg_nid r) # mk_region at (rend r - at) (rg_nid r) # rs"
    "take (Suc i) (live t') = take i (live t) @ [mk_region (rg_base r) (at - rg_base r) (rg_nid r)]"
    "drop (Suc i) (live t') = mk_region at (rend r - at) (rg_nid r) # rs"
proof -
  note C = at_Cons [OF t d]
  have i: "i \<le> mt_cnt (cut_below t i at)" "mt_cnt (cut_below t i at) < mt_max (cut_below t i at)"
    using C(1) room by auto
  obtain t' where t': "memblock_insert_region beyond (cut_below t i at) i (rg_base r) (at - rg_base r) (rg_nid r) = Val t'"
    "arr_ok t'" "mt_max t' = mt_max t"
    using insert_region_ok [OF arr_ok_cut_below [OF t d] i(2,1)] by (metis cut_below_simps(2))
  have hi: "r\<lparr>rg_base := at, rg_size := rg_size r - (at - rg_base r)\<rparr> = mk_region at (rend r - at) (rg_nid r)"
    by simp
  have l: "live t' = take i (live t) @ mk_region (rg_base r) (at - rg_base r) (rg_nid r) #
      mk_region at (rend r - at) (rg_nid r) # rs"
    using split_live [OF t'(1) C(1,2) C(3) [symmetric]] C(4) unfolding hi by simp
  have len: "length (take i (live t)) = i" using C(1) arr_length_live [OF t] by simp
  show ?thesis using len by (intro that [OF t']) (simp_all add: l)
qed

text \<open>The indices \<open>start_rgn\<close> and \<open>end_rgn\<close> that the scan of a split list \<open>D\<close> starting at index \<open>i\<close> gives.\<close>

definition iso_range :: "u64 \<Rightarrow> u64 \<Rightarrow> nat \<Rightarrow> nat \<Rightarrow> nat \<Rightarrow> memblock_region list \<Rightarrow> nat \<times> nat" where
  "iso_range base e i s en D =
     (let lo = length (filter (below base) D); n = length (filter (inside base e) D)
      in if n = 0 then (s, en) else (if en = 0 then i + lo else s, i + lo + n))"

lemma iso_range_below: "rend r \<le> base \<Longrightarrow> iso_range base e i s en (r # D) = iso_range base e (Suc i) s en D"
  by (auto simp: iso_range_def below_def inside_def Let_def)

lemma iso_range_inside:
  assumes "inside base e r" "regions_ok (r # D)"
  shows "iso_range base e i s en (r # D) = iso_range base e (Suc i) (if en = 0 then i else s) (Suc i) D"
proof -
  have nb: "\<not> below base r" using assms(1) by (auto simp: below_def inside_def)
  have "\<not> below base x" if x: "x \<in> set D" for x
  proof -
    have "base < rend r" using assms(1) by (simp add: inside_def)
    also have "rend r \<le> rg_base x" using assms(2) x by simp
    also have "rg_base x < rend x" using assms(2) x regions_ok_nonempty [of D] by simp
    finally show ?thesis by (simp add: below_def not_le)
  qed
  then have "filter (below base) D = []" by (simp add: filter_empty_conv)
  then show ?thesis using assms(1) nb by (simp add: iso_range_def Let_def)
qed

lemma iso_range_above:
  assumes "regions_ok D" "\<And>r. r \<in> set D \<Longrightarrow> e \<le> rg_base r"
  shows "iso_range base e i s en D = (s, en)"
proof -
  have "filter (inside base e) D = []" using assms(2) by (auto simp: filter_empty_conv inside_def not_less)
  then show ?thesis by (simp add: iso_range_def)
qed

lemma isolate_above:
  assumes "regions_ok (r # rs)" "e \<le> rg_base r"
  shows "isolate base e (r # rs) = r # rs" and "x \<in> set (r # rs) \<Longrightarrow> e \<le> rg_base x"
proof -
  show *: "e \<le> rg_base x" if "x \<in> set (r # rs)" for x
    using assms that by (auto dest: order.strict_implies_order)
  have "isolate base e rs = rs" if "\<And>x. x \<in> set rs \<Longrightarrow> e \<le> rg_base x" for rs
    using that by (induction rs) (auto simp: split_region_def)
  then show "isolate base e (r # rs) = r # rs" using * by blast
qed

lemma isolate_length_ge: "length rs \<le> length (isolate base e rs)"
  by (induction rs) (auto simp: split_region_def)

lemma split_low:
  assumes "\<not> e \<le> rg_base r" "\<not> rend r \<le> base" "rg_base r < base" "base < e"
  shows "split_region base e r = mk_region (rg_base r) (base - rg_base r) (rg_nid r) #
    split_region base e (mk_region base (rend r - base) (rg_nid r))"
  using assms by (auto simp: split_region_def max_def min_def not_le not_less)

lemma split_high:
  assumes "\<not> e \<le> rg_base r" "\<not> rend r \<le> base" "\<not> rg_base r < base" "e < rend r" "base < e"
  shows "split_region base e r = split_region base e (mk_region (rg_base r) (e - rg_base r) (rg_nid r)) @
    split_region base e (mk_region e (rend r - e) (rg_nid r))"
  using assms by (auto simp: split_region_def max_def min_def not_le not_less)

lemma regions_ok_cut:
  assumes "regions_ok (r # rs)" "rg_base r < at" "at < rend r"
  shows "regions_ok (mk_region at (rend r - at) (rg_nid r) # rs)"
    and "regions_ok (mk_region (rg_base r) (at - rg_base r) (rg_nid r) # mk_region at (rend r - at) (rg_nid r) # rs)"
  using assms by (auto dest: order.strict_trans2)

lemma isolate_scan_isolate:
  assumes "arr_ok t" "regions_ok (drop i (live t))" "base < e"
    "i + length (isolate base e (drop i (live t))) \<le> mt_max t" "i \<le> mt_cnt t"
  shows "\<exists>t'. isolate_scan beyond base e i s en t =
      Val (fst (iso_range base e i s en (isolate base e (drop i (live t)))),
           snd (iso_range base e i s en (isolate base e (drop i (live t)))), t') \<and>
    arr_ok t' \<and> mt_max t' = mt_max t \<and> live t' = take i (live t) @ isolate base e (drop i (live t))"
  using assms
proof (induction "iso_left base e i t" arbitrary: i s en t rule: less_induct)
  case less
  note S = isolate_scan.simps [of beyond base e i s en t]
  show ?case
  proof (cases "drop i (live t)")
    case Nil
    then show ?thesis using at_Nil [OF less.prems(1)] less.prems(1) by (simp add: S iso_range_def)
  next
    case (Cons r rs)
    note C = at_Cons [OF less.prems(1) Cons] and d = Cons
    have r: "rg_base r < rend r" and ok: "regions_ok rs" "regions_ok (r # rs)" using less.prems(2) by (auto simp: d)
    have cnt: "mt_cnt t = i + Suc (length rs)"
      using arr_length_live [OF less.prems(1)] C(1) arg_cong [OF d, of length] by simp
    consider (stop) "e \<le> rg_base r" | (skip) "\<not> e \<le> rg_base r" "rend r \<le> base"
      | (low) "\<not> e \<le> rg_base r" "\<not> rend r \<le> base" "rg_base r < base"
      | (high) "\<not> e \<le> rg_base r" "\<not> rend r \<le> base" "\<not> rg_base r < base" "e < rend r"
      | (inner) "\<not> e \<le> rg_base r" "\<not> rend r \<le> base" "\<not> rg_base r < base" "\<not> e < rend r" by blast
    then show ?thesis
    proof cases
      case stop
      then show ?thesis
        using isolate_above [OF ok(2) stop] iso_range_above [OF ok(2)] C(1-3) less.prems(1)
          append_take_drop_id [of i "live t"] by (simp add: S Let_def d)
    next
      case skip
      then show ?thesis
        using less.hyps [of "Suc i" t s en] iso_left_Suc [OF C(1,2), of e base] less.prems C ok d
        by (simp add: S Let_def split_region_def iso_range_below)
    next
      case low
      then have "mt_cnt t < mt_max t" using less.prems(4) cnt isolate_length_ge [of rs base e]
        by (simp add: d split_region_def)
      then obtain t' where t': "memblock_insert_region beyond (cut_below t i base) i (rg_base r) (base - rg_base r) (rg_nid r) = Val t'"
        "arr_ok t'" "mt_max t' = mt_max t"
        "take (Suc i) (live t') = take i (live t) @ [mk_region (rg_base r) (base - rg_base r) (rg_nid r)]"
        "drop (Suc i) (live t') = mk_region base (rend r - base) (rg_nid r) # rs"
        using split_step [OF less.prems(1) d] by metis
      have i': "Suc i \<le> mt_cnt t'" using at_Cons(1) [OF t'(2,5)] by simp
      have "iso_left base e (Suc i) t' < iso_left base e i t"
        using iso_weight_split(1) [OF C(1,2) C(3) [symmetric] t'(1) low(1,3) refl] .
      then show ?thesis
        using less.hyps [of "Suc i" t' s en] t' low split_low [OF low less.prems(3)] regions_ok_cut(1) [OF ok(2), of base] C(1-3) less.prems(3,4) i'
        by (simp add: S Let_def d iso_range_below)
    next
      case high
      then have "mt_cnt t < mt_max t" using less.prems(4) cnt isolate_length_ge [of rs base e]
        by (simp add: d split_region_def)
      then obtain t' where t': "memblock_insert_region beyond (cut_below t i e) i (rg_base r) (e - rg_base r) (rg_nid r) = Val t'"
        "arr_ok t'" "mt_max t' = mt_max t" "take i (live t') = take i (live t)"
        "drop i (live t') = mk_region (rg_base r) (e - rg_base r) (rg_nid r) # mk_region e (rend r - e) (rg_nid r) # rs"
        using split_step [OF less.prems(1) d] by metis
      have i': "i \<le> mt_cnt t'" using at_Cons(1) [OF t'(2,5)] by simp
      have "iso_left base e i t' < iso_left base e i t"
        using iso_weight_split(2) [OF C(1,2) C(3) [symmetric] t'(1) high(1,3,4) refl] .
      then show ?thesis
        using less.hyps [of i t' s en] t' high split_high [OF high less.prems(3)] regions_ok_cut(2) [OF ok(2), of e] C(1-3) less.prems(3,4) i'
        by (simp add: S Let_def d)
    next
      case inner
      have i: "inside base e r" using inner by (simp add: inside_def not_le)
      have s: "split_region base e r = [r]" using inner by (auto simp: split_region_def max_def min_def not_le not_less)
      have "regions_ok (r # isolate base e rs)" using isolate_ok [OF ok(2) less.prems(3)] s by simp
      then show ?thesis
        using less.hyps [of "Suc i" t "if en = 0 then i else s" "Suc i"] iso_left_Suc [OF C(1,2), of e base]
          less.prems C ok d inner s iso_range_inside [OF i]
        by (simp add: S Let_def)
    qed
  qed
qed

lemma three_parts:
  assumes "regions_ok D" "base < e"
  shows "D = filter (below base) D @ filter (inside base e) D @ filter (\<lambda>r. e \<le> rg_base r) D"
  using assms(1)
proof (induction D)
  case (Cons r D)
  have r: "rg_base r < rend r" and next_r: "rend r \<le> rg_base x" "rg_base x < rend x" if "x \<in> set D" for x
    using Cons.prems that regions_ok_nonempty [of D] by auto
  have r: "rg_base r < rend r" using Cons.prems by simp
  consider "below base r" | "inside base e r" | "e \<le> rg_base r" by (metis below_def inside_def not_le)
  then show ?case
  proof cases
    case 1
    then have "\<not> inside base e r" "\<not> e \<le> rg_base r" using r assms(2) by (auto simp: below_def inside_def)
    then show ?thesis using 1 Cons by simp
  next
    case 2
    have "\<not> below base x" if "x \<in> set D" for x
      using 2 next_r [OF that] by (auto simp: below_def inside_def)
    then have "filter (below base) D = []" by (simp add: filter_empty_conv)
    moreover have "\<not> below base r" "\<not> e \<le> rg_base r" using 2 by (auto simp: below_def inside_def)
    ultimately show ?thesis using 2 Cons by simp
  next
    case 3
    have "e \<le> rg_base x \<and> \<not> below base x \<and> \<not> inside base e x" if "x \<in> set D" for x
      using 3 r next_r [OF that] assms(2) by (auto simp: below_def inside_def)
    then have "filter (below base) D = []" "filter (inside base e) D = []" "filter (\<lambda>r. e \<le> rg_base r) D = D"
      by (simp_all add: filter_empty_conv filter_id_conv)
    moreover have "\<not> below base r" "\<not> inside base e r" using 3 r assms(2) by (auto simp: below_def inside_def)
    ultimately show ?thesis using 3 by simp
  qed
qed simp

lemma iso_range_cut:
  assumes "regions_ok D" "base < e" and se: "iso_range base e 0 0 0 D = (s, en)"
  shows "s \<le> en" "en \<le> length D"
    "take s D = (if filter (inside base e) D = [] then [] else filter (below base) D)"
    "take s D @ drop en D = filter (\<lambda>r. \<not> inside base e r) D"
    "take (en - s) (drop s D) = filter (inside base e) D"
proof -
  let ?lo = "filter (below base) D" and ?in = "filter (inside base e) D" and ?hi = "filter (\<lambda>r. e \<le> rg_base r) D"
  have D: "?lo @ ?in @ ?hi = D" using three_parts [OF assms(1,2)] by simp
  have out: "filter (\<lambda>r. \<not> inside base e r) D = ?lo @ ?hi"
  proof -
    have "filter (\<lambda>r. \<not> inside base e r) ?lo = ?lo" "filter (\<lambda>r. \<not> inside base e r) ?hi = ?hi"
      by (intro filter_True; auto simp: below_def inside_def)+
    moreover have "filter (\<lambda>r. \<not> inside base e r) ?in = []" by (intro filter_False) simp
    ultimately have "filter (\<lambda>r. \<not> inside base e r) (?lo @ ?in @ ?hi) = ?lo @ ?hi"
      by (simp only: filter_append append_Nil)
    then show ?thesis unfolding D .
  qed
  have len: "length D = length ?lo + length ?in + length ?hi" using arg_cong [OF D, of length] by simp
  have se': "(s, en) = (if ?in = [] then (0, 0) else (length ?lo, length ?lo + length ?in))"
    using se by (simp add: iso_range_def Let_def split: if_splits)
  have "take (length ?lo) (?lo @ ?in @ ?hi) = ?lo" "drop (length ?lo) (?lo @ ?in @ ?hi) = ?in @ ?hi"
    "drop (length ?lo + length ?in) (?lo @ ?in @ ?hi) = ?hi" by simp_all
  note T = this [unfolded D]
  show "s \<le> en" "en \<le> length D" using se' len by (auto split: if_splits)
  show "take s D = (if ?in = [] then [] else ?lo)" using se' T by (auto split: if_splits)
  show "take s D @ drop en D = filter (\<lambda>r. \<not> inside base e r) D"
    using se' T D unfolding out by (auto split: if_splits)
  show "take (en - s) (drop s D) = ?in" using se' T by (auto split: if_splits)
qed

subsection \<open>Removing entries\<close>

lemma sum_sizes_remove:
  "r < length rs \<Longrightarrow> sum_list (map rg_size (take r rs @ drop (Suc r) rs)) = sum_list (map rg_size rs) - rg_size (rs ! r)"
proof -
  assume r: "r < length rs"
  have "sum_list (map rg_size (take r rs @ rs ! r # drop (Suc r) rs)) = sum_list (map rg_size rs)"
    using id_take_nth_drop [OF r] by simp
  then show ?thesis by (simp add: algebra_simps)
qed

lemma take_closed_up:
  assumes "n \<le> length R" "r < n"
  shows "take (n - 1) (take r R @ take (n - (r + 1)) (drop (r + 1) (R @ [x])) @ Z) = take r R @ drop (Suc r) (take n R)"
proof -
  obtain k where n: "n = Suc (r + k)" using assms(2) less_iff_Suc_add by auto
  show ?thesis using assms(1) by (simp add: n drop_take)
qed

lemma remove_region_ok:
  assumes t: "arr_ok t" and r: "r < mt_cnt t"
  obtains t' where "memblock_remove_region beyond t r = Val t'" "arr_ok t'" "mt_max t' = mt_max t"
    "live t' = (if mt_cnt t = 1 then [mk_region 0 0 MAX_NUMNODES] else take r (live t) @ drop (Suc r) (live t))"
proof -
  let ?R = "mt_regions t"
  define rs' where "rs' = take r ?R @ take (mt_cnt t - (r + 1)) (drop (r + 1) (?R @ [beyond])) @ drop (mt_cnt t - 1) ?R"
  have len: "mt_cnt t \<le> length ?R" using t by (simp add: arr_ok_def)
  have m: "move_regions beyond ?R r (r + 1) (mt_cnt t - (r + 1)) = Val rs'"
    using r len by (simp add: move_regions_def rs'_def)
  have l: "length rs' = length ?R" using r len by (simp add: rs'_def)
  have tk: "take (mt_cnt t - 1) rs' = take r (live t) @ drop (Suc r) (live t)"
    using take_closed_up [of "mt_cnt t" ?R r beyond "drop (mt_cnt t - 1) ?R"] r len by (simp add: rs'_def live_def drop_take min_def)
  have tot: "mt_total t - rg_size (?R ! r) = sum_list (map rg_size (take r (live t) @ drop (Suc r) (live t)))"
    using t r sum_sizes_remove [of r "live t"] by (simp add: arr_ok_def length_live arr_region_at del: map_append)
  let ?t1 = "t\<lparr>mt_total := mt_total t - rg_size (?R ! r), mt_cnt := 1, mt_regions := rs'[0 := mk_region 0 0 MAX_NUMNODES]\<rparr>"
  let ?t2 = "t\<lparr>mt_total := mt_total t - rg_size (?R ! r), mt_cnt := mt_cnt t - 1, mt_regions := rs'\<rparr>"
  show ?thesis
  proof (cases "mt_cnt t = 1")
    case True
    have "live ?t1 = [mk_region 0 0 MAX_NUMNODES]" using True l len by (cases rs') (auto simp: live_def)
    moreover have "mt_total t - rg_size (?R ! r) = 0"
      using tot True r t by (simp add: length_live arr_ok_def)
    ultimately have "arr_ok ?t1" using t l len True by (simp add: arr_ok_def)
    then show ?thesis using True r len m \<open>live ?t1 = _\<close>
      by (intro that [of ?t1]) (auto simp: memblock_remove_region_def Let_def)
  next
    case False
    have "live ?t2 = take r (live t) @ drop (Suc r) (live t)" using tk by (simp add: live_def)
    moreover from this have "arr_ok ?t2" using t l tot by (auto simp: arr_ok_def)
    ultimately show ?thesis using False r len m
      by (intro that [of ?t2]) (simp_all add: memblock_remove_region_def Let_def)
  qed
qed

lemma remove_down_ok:
  assumes "arr_ok t" "start + n \<le> mt_cnt t" "0 < mt_cnt t"
  shows "\<exists>t'. remove_down beyond start n t = Val t' \<and> arr_ok t' \<and> mt_max t' = mt_max t \<and>
    live t' = (if n = mt_cnt t then [mk_region 0 0 MAX_NUMNODES] else take start (live t) @ drop (start + n) (live t))"
  using assms
proof (induction n arbitrary: t)
  case 0
  then show ?case by simp
next
  case (Suc n)
  have r: "start + n < mt_cnt t" using Suc.prems(2) by simp
  obtain t1 where t1: "memblock_remove_region beyond t (start + n) = Val t1" "arr_ok t1" "mt_max t1 = mt_max t"
    "live t1 = (if mt_cnt t = 1 then [mk_region 0 0 MAX_NUMNODES]
       else take (start + n) (live t) @ drop (Suc (start + n)) (live t))"
    using remove_region_ok [OF Suc.prems(1) r] by blast
  have cl: "length (live t) = mt_cnt t" "length (live t1) = mt_cnt t1"
    using arr_length_live Suc.prems(1) t1(2) by auto
  show ?case
  proof (cases "mt_cnt t = 1")
    case True
    then show ?thesis using t1 r by simp
  next
    case False
    have l1: "live t1 = take (start + n) (live t) @ drop (Suc (start + n)) (live t)" using t1(4) False by simp
    have c1: "mt_cnt t = Suc (mt_cnt t1)" using cl l1 r by simp
    have "take start (live t1) = take start (live t)" "drop (start + n) (live t1) = drop (Suc (start + n)) (live t)"
      using r cl by (simp_all add: l1)
    then show ?thesis using Suc.IH [of t1] t1(1-3) r c1 False by auto
  qed
qed

subsection \<open>Well-formed arrays\<close>

text \<open>The regions an array describes: none when the first entry has size 0, the code's test for an empty array.\<close>

definition rgns :: "memblock_type \<Rightarrow> memblock_region list" where
  "rgns t = (if rg_size (live t ! 0) = 0 then [] else live t)"

definition mt_wf :: "memblock_type \<Rightarrow> bool" where
  "mt_wf t \<longleftrightarrow> arr_ok t \<and> (live t \<noteq> [] \<and> regions_ok (live t) \<or> (\<exists>n. live t = [mk_region 0 0 n]))"

lemma mt_wf_arr_ok: "mt_wf t \<Longrightarrow> arr_ok t"
  by (simp add: mt_wf_def)

lemma mt_wf_cases:
  assumes "mt_wf t"
  obtains (empty) n where "live t = [mk_region 0 0 n]" "rgns t = []" "mt_cnt t = 1" "0 < mt_cnt t"
  | (regions) "live t \<noteq> []" "regions_ok (live t)" "rgns t = live t" "0 < mt_cnt t"
proof (cases "\<exists>n. live t = [mk_region 0 0 n]")
  case True
  then obtain n where n: "live t = [mk_region 0 0 n]" by blast
  then have "mt_cnt t = 1" using arr_length_live [OF mt_wf_arr_ok [OF assms]] by simp
  then show ?thesis using n empty by (simp add: rgns_def)
next
  case False
  then have l: "live t \<noteq> []" "regions_ok (live t)" using assms by (auto simp: mt_wf_def)
  then have "rg_base (live t ! 0) < rend (live t ! 0)" by (intro regions_ok_nonempty) auto
  then have "rgns t = live t" by (auto simp: rgns_def)
  moreover have "0 < mt_cnt t"
    using l(1) unfolding arr_length_live [OF mt_wf_arr_ok [OF assms], symmetric] by simp
  ultimately show ?thesis using l regions by blast
qed

lemma mt_wf_rgns_ok: "mt_wf t \<Longrightarrow> regions_ok (rgns t)"
  by (erule mt_wf_cases) simp_all

lemma mt_wf_cnt_pos: "mt_wf t \<Longrightarrow> 0 < mt_cnt t"
  by (erule mt_wf_cases) simp_all

lemma mt_wf_length: "mt_wf t \<Longrightarrow> length (rgns t) \<le> mt_cnt t"
  by (frule mt_wf_arr_ok, erule mt_wf_cases) (auto dest: arr_length_live)

lemma mt_wf_cover: "mt_wf t \<Longrightarrow> cover (live t) = cover (rgns t)"
  by (erule mt_wf_cases) simp_all

lemma mt_wf_empty_iff: "mt_wf t \<Longrightarrow> rg_size (mt_regions t ! 0) = 0 \<longleftrightarrow> rgns t = []"
  by (frule mt_wf_cnt_pos, erule mt_wf_cases) (auto simp: arr_region_at rgns_def)

lemma mt_wf_total: "mt_wf t \<Longrightarrow> mt_total t = sum_list (map rg_size (rgns t))"
  by (frule mt_wf_arr_ok, erule mt_wf_cases) (auto simp: arr_ok_def)

lemma mt_wfI:
  assumes "arr_ok t" "live t \<noteq> []" "regions_ok (live t)"
  shows "mt_wf t" and "rgns t = live t"
proof -
  show "mt_wf t" using assms by (simp add: mt_wf_def)
  then show "rgns t = live t" using assms by (elim mt_wf_cases) auto
qed

lemma mt_wf_dummy:
  assumes "arr_ok t" "live t = [mk_region 0 0 n]"
  shows "mt_wf t" and "rgns t = []"
  using assms by (simp_all add: mt_wf_def rgns_def)

end
