(* ===== verification/Memblock_Find.thy ===== *)
theory Memblock_Find
  imports Memblock_Lists
begin

text \<open>
  The memory map and the search for free memory (\<open>mm/memblock.c\<close>): the two arrays, membership tests, the iterators over
  free ranges in both directions with their packed 64-bit position, and \<open>memblock_find_in_range_node\<close>.

  Shown: the binary search finds exactly the addresses described; an iterator visits exactly the memory
  of the chosen node that is not reserved, and ends; a range that the search returns is free, aligned and inside
  the window asked for.
\<close>

subsection \<open>State\<close>

text \<open>
  Beside the two arrays: where each array lives (\<open>None\<close> is the array in the kernel image, \<open>Some a\<close> one at physical
  address \<open>a\<close>), whether it came from the slab allocator, and whether arrays may be resized.
\<close>

record memblock =
  current_limit :: u64
  memory :: memblock_type
  reserved :: memblock_type
  memory_at :: "u64 option"
  reserved_at :: "u64 option"
  memory_in_slab :: bool
  reserved_in_slab :: bool
  can_resize :: bool

definition INIT_MEMBLOCK_REGIONS :: nat where
  "INIT_MEMBLOCK_REGIONS = 128"

definition init_type :: memblock_type where
  "init_type = \<lparr>mt_cnt = 1, mt_max = INIT_MEMBLOCK_REGIONS, mt_total = 0,
     mt_regions = replicate INIT_MEMBLOCK_REGIONS (mk_region 0 0 0)\<rparr>"

definition memblock_init :: memblock where
  "memblock_init = \<lparr>current_limit = ULLONG_MAX, memory = init_type, reserved = init_type,
     memory_at = None, reserved_at = None, memory_in_slab = False, reserved_in_slab = False, can_resize = False\<rparr>"

definition PAGE_SIZE :: u64 where
  "PAGE_SIZE = 4096"

definition round_down :: "u64 \<Rightarrow> u64 \<Rightarrow> u64" where
  "round_down x y = x AND NOT (y - 1)"

definition round_up :: "u64 \<Rightarrow> u64 \<Rightarrow> u64" where
  "round_up x y = ((x - 1) OR (y - 1)) + 1"

definition PAGE_ALIGN :: "u64 \<Rightarrow> u64" where
  "PAGE_ALIGN x = (x + (PAGE_SIZE - 1)) AND NOT (PAGE_SIZE - 1)"

definition PFN_UP :: "u64 \<Rightarrow> u64" where
  "PFN_UP x = drop_bit 12 (x + PAGE_SIZE - 1)"

definition PFN_DOWN :: "u64 \<Rightarrow> u64" where
  "PFN_DOWN x = drop_bit 12 x"

subsection \<open>Queries\<close>

function search_loop :: "memblock_type \<Rightarrow> u64 \<Rightarrow> nat \<Rightarrow> nat \<Rightarrow> int outcome" where
  "search_loop t addr left right =
     (let mid = (right + left) div 2 in
      if length (mt_regions t) \<le> mid then Trap
      else let r = mt_regions t ! mid in
        if addr < rg_base r then (if left < mid then search_loop t addr left mid else Val (- 1))
        else if rend r \<le> addr then (if mid + 1 < right then search_loop t addr (mid + 1) right else Val (- 1))
        else Val (int mid))"
  by pat_completeness auto
termination by (relation "measure (\<lambda>(t, addr, left, right). right - left)") auto

declare search_loop.simps [simp del]

definition memblock_search :: "memblock_type \<Rightarrow> u64 \<Rightarrow> int outcome" where
  "memblock_search t addr = search_loop t addr 0 (mt_cnt t)"

definition memblock_is_reserved :: "memblock \<Rightarrow> u64 \<Rightarrow> bool outcome" where
  "memblock_is_reserved mb addr = bind_outcome (memblock_search (reserved mb) addr) (\<lambda>i. Val (i \<noteq> - 1))"

definition memblock_is_memory :: "memblock \<Rightarrow> u64 \<Rightarrow> bool outcome" where
  "memblock_is_memory mb addr = bind_outcome (memblock_search (memory mb) addr) (\<lambda>i. Val (i \<noteq> - 1))"

definition memblock_is_region_memory :: "memblock \<Rightarrow> u64 \<Rightarrow> u64 \<Rightarrow> bool outcome" where
  "memblock_is_region_memory mb base sz =
     bind_outcome (memblock_search (memory mb) base)
       (\<lambda>idx. let e = base + memblock_cap_size base sz in
          if idx = - 1 then Val False
          else let r = mt_regions (memory mb) ! nat idx in Val (rg_base r \<le> base \<and> e \<le> rend r))"

primrec overlaps_from :: "u64 \<Rightarrow> u64 \<Rightarrow> memblock_region list \<Rightarrow> nat \<Rightarrow> int" where
  "overlaps_from base sz [] i = - 1"
| "overlaps_from base sz (r # rs) i =
     (if memblock_addrs_overlap base sz (rg_base r) (rg_size r) then int i else overlaps_from base sz rs (Suc i))"

definition memblock_overlaps_region :: "memblock_type \<Rightarrow> u64 \<Rightarrow> u64 \<Rightarrow> int" where
  "memblock_overlaps_region t base sz = overlaps_from base sz (live t) 0"

definition memblock_is_region_reserved :: "memblock \<Rightarrow> u64 \<Rightarrow> u64 \<Rightarrow> bool" where
  "memblock_is_region_reserved mb base sz =
     (0 \<le> memblock_overlaps_region (reserved mb) base (memblock_cap_size base sz))"

definition memblock_phys_mem_size :: "memblock \<Rightarrow> u64" where
  "memblock_phys_mem_size mb = mt_total (memory mb)"

definition memblock_start_of_DRAM :: "memblock \<Rightarrow> u64 outcome" where
  "memblock_start_of_DRAM mb =
     (case mt_regions (memory mb) of [] \<Rightarrow> Trap | r # _ \<Rightarrow> Val (rg_base r))"

definition memblock_end_of_DRAM :: "memblock \<Rightarrow> u64 outcome" where
  "memblock_end_of_DRAM mb =
     (let idx = mt_cnt (memory mb) - 1; rs = mt_regions (memory mb)
      in if idx < length rs then Val (rend (rs ! idx)) else Trap)"

definition memblock_set_current_limit :: "u64 \<Rightarrow> memblock \<Rightarrow> memblock" where
  "memblock_set_current_limit limit mb = mb\<lparr>current_limit := limit\<rparr>"

definition memblock_allow_resize :: "memblock \<Rightarrow> memblock" where
  "memblock_allow_resize mb = mb\<lparr>can_resize := True\<rparr>"

subsection \<open>Iterators over free ranges\<close>

text \<open>
  The position of an iterator is a memory index in the lower and a reservation index in the upper half of a
  64-bit word; both halves are read back as signed 32-bit integers.
\<close>

definition pack_idx :: "int \<Rightarrow> int \<Rightarrow> u64" where
  "pack_idx mi ri = ucast (word_of_int mi :: u32) OR push_bit 32 (word_of_int ri)"

definition idx_mi :: "u64 \<Rightarrow> int" where
  "idx_mi idx = sint (ucast (idx AND 0xffffffff) :: u32)"

definition idx_ri :: "u64 \<Rightarrow> int" where
  "idx_ri idx = sint (ucast (drop_bit 32 idx) :: u32)"

text \<open>The free range in front of reservation \<open>ri\<close>; the last one, \<open>ri = cnt\<close>, is behind all reservations.\<close>

definition rsv_gap :: "memblock_type \<Rightarrow> nat \<Rightarrow> (u64 \<times> u64) outcome" where
  "rsv_gap rsv ri =
     (if length (mt_regions rsv) < ri then Trap
      else if ri < mt_cnt rsv \<and> length (mt_regions rsv) \<le> ri then Trap
      else Val (if ri \<noteq> 0 then rend (mt_regions rsv ! (ri - 1)) else 0,
                if ri < mt_cnt rsv then rg_base (mt_regions rsv ! ri) else ULLONG_MAX))"

text \<open>
  The inner loops, over reservations. The result is the index reached, with the range when one intersects memory.
  The downward loop counts \<open>ri + 1\<close>.
\<close>

function fwd_rsv :: "memblock_type \<Rightarrow> u64 \<Rightarrow> u64 \<Rightarrow> nat \<Rightarrow> (nat \<times> (u64 \<times> u64) option) outcome" where
  "fwd_rsv rsv m_start m_end ri =
     (if \<not> ri < mt_cnt rsv + 1 then Val (ri, None)
      else case rsv_gap rsv ri of
          Val (r_start, r_end) \<Rightarrow>
            (if m_end \<le> r_start then Val (ri, None)
             else if m_start < r_end then Val (ri, Some (r_start, r_end))
             else fwd_rsv rsv m_start m_end (ri + 1))
        | Err e \<Rightarrow> Err e
        | Trap \<Rightarrow> Trap)"
  by pat_completeness auto
termination by (relation "measure (\<lambda>(rsv, ms, me, ri). mt_cnt rsv + 1 - ri)") auto

primrec rev_rsv :: "memblock_type \<Rightarrow> u64 \<Rightarrow> u64 \<Rightarrow> nat \<Rightarrow> (int \<times> (u64 \<times> u64) option) outcome" where
  "rev_rsv rsv m_start m_end 0 = Val (- 1, None)"
| "rev_rsv rsv m_start m_end (Suc ri) =
     (case rsv_gap rsv ri of
        Val (r_start, r_end) \<Rightarrow>
          (if r_end \<le> m_start then Val (int ri, None)
           else if r_start < m_end then Val (int ri, Some (r_start, r_end))
           else rev_rsv rsv m_start m_end ri)
      | Err e \<Rightarrow> Err e
      | Trap \<Rightarrow> Trap)"

text \<open>A free range: its bounds and node, and the position to continue at.\<close>

record free_range =
  fr_start :: u64
  fr_end :: u64
  fr_nid :: int
  fr_mi :: int
  fr_ri :: int

definition node_matches :: "int \<Rightarrow> memblock_region \<Rightarrow> bool" where
  "node_matches nid m \<longleftrightarrow> nid = MAX_NUMNODES \<or> nid = rg_nid m"

function fwd_mem :: "memblock \<Rightarrow> int \<Rightarrow> nat \<Rightarrow> nat \<Rightarrow> free_range option outcome" where
  "fwd_mem mb nid mi ri =
     (if \<not> mi < mt_cnt (memory mb) then Val None
      else if length (mt_regions (memory mb)) \<le> mi then Trap
      else let m = mt_regions (memory mb) ! mi; m_start = rg_base m; m_end = rend m in
        if \<not> node_matches nid m then fwd_mem mb nid (mi + 1) ri
        else case fwd_rsv (reserved mb) m_start m_end ri of
            Val (ri', None) \<Rightarrow> fwd_mem mb nid (mi + 1) ri'
          | Val (ri', Some (r_start, r_end)) \<Rightarrow>
              Val (Some \<lparr>fr_start = max m_start r_start, fr_end = min m_end r_end, fr_nid = rg_nid m,
                fr_mi = (if m_end \<le> r_end then int mi + 1 else int mi),
                fr_ri = (if m_end \<le> r_end then int ri' else int ri' + 1)\<rparr>)
          | Err e \<Rightarrow> Err e
          | Trap \<Rightarrow> Trap)"
  by pat_completeness auto
termination by (relation "measure (\<lambda>(mb, nid, mi, ri). mt_cnt (memory mb) - mi)") auto

primrec rev_mem :: "memblock \<Rightarrow> int \<Rightarrow> nat \<Rightarrow> int \<Rightarrow> free_range option outcome" where
  "rev_mem mb nid 0 ri = Val None"
| "rev_mem mb nid (Suc mi) ri =
     (if length (mt_regions (memory mb)) \<le> mi then Trap
      else let m = mt_regions (memory mb) ! mi; m_start = rg_base m; m_end = rend m in
        if \<not> node_matches nid m then rev_mem mb nid mi ri
        else case rev_rsv (reserved mb) m_start m_end (nat (ri + 1)) of
            Val (ri', None) \<Rightarrow> rev_mem mb nid mi ri'
          | Val (ri', Some (r_start, r_end)) \<Rightarrow>
              Val (Some \<lparr>fr_start = max m_start r_start, fr_end = min m_end r_end, fr_nid = rg_nid m,
                fr_mi = (if r_start \<le> m_start then int mi - 1 else int mi),
                fr_ri = (if r_start \<le> m_start then ri' else ri' - 1)\<rparr>)
          | Err e \<Rightarrow> Err e
          | Trap \<Rightarrow> Trap)"

declare fwd_rsv.simps [simp del] fwd_mem.simps [simp del]

text \<open>The iterator functions: the new position, and the range when there is one.\<close>

definition step_result :: "free_range option \<Rightarrow> u64 \<times> (u64 \<times> u64 \<times> int) option" where
  "step_result x = (case x of None \<Rightarrow> (ULLONG_MAX, None)
     | Some f \<Rightarrow> (pack_idx (fr_mi f) (fr_ri f), Some (fr_start f, fr_end f, fr_nid f)))"

text \<open>
  The loop bounds of the forward iterator are unsigned, so a negative index counts as larger than all of them.
\<close>

definition next_free_mem_range :: "memblock \<Rightarrow> int \<Rightarrow> u64 \<Rightarrow> (u64 \<times> (u64 \<times> u64 \<times> int) option) outcome" where
  "next_free_mem_range mb nid idx =
     (if idx_mi idx < 0 \<or> idx_ri idx < 0 then Val (step_result None)
      else bind_outcome (fwd_mem mb nid (nat (idx_mi idx)) (nat (idx_ri idx))) (\<lambda>x. Val (step_result x)))"

definition next_free_mem_range_rev :: "memblock \<Rightarrow> int \<Rightarrow> u64 \<Rightarrow> (u64 \<times> (u64 \<times> u64 \<times> int) option) outcome" where
  "next_free_mem_range_rev mb nid idx =
     (let mi = (if idx = ULLONG_MAX then int (mt_cnt (memory mb)) - 1 else idx_mi idx);
          ri = (if idx = ULLONG_MAX then int (mt_cnt (reserved mb)) else idx_ri idx)
      in bind_outcome (rev_mem mb nid (nat (mi + 1)) ri) (\<lambda>x. Val (step_result x)))"

text \<open>
  The macros \<open>for_each_free_mem_range\<close> and \<open>for_each_free_mem_range_reverse\<close>: the ranges their body sees, with a bound on the
  number of iterations.
\<close>

primrec free_ranges :: "nat \<Rightarrow> memblock \<Rightarrow> int \<Rightarrow> u64 \<Rightarrow> (u64 \<times> u64 \<times> int) list outcome" where
  "free_ranges 0 mb nid idx = Trap"
| "free_ranges (Suc n) mb nid idx =
     bind_outcome (next_free_mem_range mb nid idx)
       (\<lambda>(idx', x). if idx' = ULLONG_MAX then Val []
          else case x of None \<Rightarrow> Trap
            | Some r \<Rightarrow> bind_outcome (free_ranges n mb nid idx') (\<lambda>rs. Val (r # rs)))"

primrec free_ranges_rev :: "nat \<Rightarrow> memblock \<Rightarrow> int \<Rightarrow> u64 \<Rightarrow> (u64 \<times> u64 \<times> int) list outcome" where
  "free_ranges_rev 0 mb nid idx = Trap"
| "free_ranges_rev (Suc n) mb nid idx =
     bind_outcome (next_free_mem_range_rev mb nid idx)
       (\<lambda>(idx', x). if idx' = ULLONG_MAX then Val []
          else case x of None \<Rightarrow> Trap
            | Some r \<Rightarrow> bind_outcome (free_ranges_rev n mb nid idx') (\<lambda>rs. Val (r # rs)))"

definition iter_bound :: "memblock \<Rightarrow> nat" where
  "iter_bound mb = mt_cnt (memory mb) + mt_cnt (reserved mb) + 2"

subsection \<open>The search\<close>

definition clamp :: "u64 \<Rightarrow> u64 \<Rightarrow> u64 \<Rightarrow> u64" where
  "clamp v lo hi = min (max v lo) hi"

primrec find_loop ::
  "nat \<Rightarrow> memblock \<Rightarrow> int \<Rightarrow> u64 \<Rightarrow> u64 \<Rightarrow> u64 \<Rightarrow> u64 \<Rightarrow> u64 \<Rightarrow> u64 outcome" where
  "find_loop 0 mb nid start e sz align idx = Trap"
| "find_loop (Suc n) mb nid start e sz align idx =
     bind_outcome (next_free_mem_range_rev mb nid idx)
       (\<lambda>(idx', x). if idx' = ULLONG_MAX then Val 0
          else case x of None \<Rightarrow> Trap
            | Some (this_start, this_end, _) \<Rightarrow>
                (let this_start = clamp this_start start e;
                     this_end = clamp this_end start e;
                     cand = round_down (this_end - sz) align
                 in if this_end < sz then find_loop n mb nid start e sz align idx'
                    else if this_start \<le> cand then Val cand
                    else find_loop n mb nid start e sz align idx'))"

definition MEMBLOCK_ALLOC_ACCESSIBLE :: u64 where
  "MEMBLOCK_ALLOC_ACCESSIBLE = 0"

definition memblock_find_in_range_node :: "memblock \<Rightarrow> u64 \<Rightarrow> u64 \<Rightarrow> u64 \<Rightarrow> u64 \<Rightarrow> int \<Rightarrow> u64 outcome" where
  "memblock_find_in_range_node mb start e sz align nid =
     (let e = (if e = MEMBLOCK_ALLOC_ACCESSIBLE then current_limit mb else e);
          start = max start PAGE_SIZE;
          e = max start e
      in find_loop (iter_bound mb) mb nid start e sz align ULLONG_MAX)"

definition memblock_find_in_range :: "memblock \<Rightarrow> u64 \<Rightarrow> u64 \<Rightarrow> u64 \<Rightarrow> u64 \<Rightarrow> u64 outcome" where
  "memblock_find_in_range mb start e sz align = memblock_find_in_range_node mb start e sz align MAX_NUMNODES"

text \<open>
  \<open>__next_mem_pfn_range\<close>: the next memory region, from index \<open>idx + 1\<close> on, that holds a whole page of the node.
\<close>

function next_mem_pfn :: "memblock_type \<Rightarrow> int \<Rightarrow> nat \<Rightarrow> (int \<times> (u64 \<times> u64 \<times> int) option) outcome" where
  "next_mem_pfn t nid i =
     (if \<not> i < mt_cnt t then Val (- 1, None)
      else if length (mt_regions t) \<le> i then Trap
      else let r = mt_regions t ! i in
        if PFN_DOWN (rend r) \<le> PFN_UP (rg_base r) then next_mem_pfn t nid (i + 1)
        else if node_matches nid r then Val (int i, Some (PFN_UP (rg_base r), PFN_DOWN (rend r), rg_nid r))
        else next_mem_pfn t nid (i + 1))"
  by pat_completeness auto
termination by (relation "measure (\<lambda>(t, nid, i). mt_cnt t - i)") auto

declare next_mem_pfn.simps [simp del]

definition next_mem_pfn_range :: "memblock \<Rightarrow> int \<Rightarrow> int \<Rightarrow> (int \<times> (u64 \<times> u64 \<times> int) option) outcome" where
  "next_mem_pfn_range mb nid idx =
     (if idx + 1 < 0 then Val (- 1, None) else next_mem_pfn (memory mb) nid (nat (idx + 1)))"

subsection \<open>Ordering of regions and gaps\<close>

lemma wf_nth_le:
  assumes "mt_wf t" "i < mt_cnt t"
  shows "rg_base (live t ! i) \<le> rend (live t ! i)" "i < length (mt_regions t)" "mt_regions t ! i = live t ! i"
proof -
  have l: "length (live t) = mt_cnt t" using arr_length_live mt_wf_arr_ok assms(1) by blast
  show "rg_base (live t ! i) \<le> rend (live t ! i)"
    using assms
  proof (cases rule: mt_wf_cases)
    case regions
    then show ?thesis using assms(2) l regions_ok_nonempty [of "live t" "live t ! i"] by (simp add: less_imp_le)
  qed auto
  show "i < length (mt_regions t)" using mt_wf_arr_ok [OF assms(1)] assms(2) by (simp add: arr_ok_def)
  show "mt_regions t ! i = live t ! i" using assms(2) by (rule arr_region_at)
qed

lemma wf_nth_sorted:
  assumes "mt_wf t" "i < j" "j < mt_cnt t"
  shows "rend (live t ! i) \<le> rg_base (live t ! j)"
  using assms(1)
proof (cases rule: mt_wf_cases)
  case regions
  have "length (live t) = mt_cnt t" using arr_length_live mt_wf_arr_ok assms(1) by blast
  then show ?thesis using regions(2) assms(2,3) by (auto simp: regions_ok_def intro: sorted_wrt_nth_less)
qed (use assms in auto)

definition gap_start :: "memblock_type \<Rightarrow> nat \<Rightarrow> u64" where
  "gap_start t k = (if k \<noteq> 0 then rend (live t ! (k - 1)) else 0)"

definition gap_end :: "memblock_type \<Rightarrow> nat \<Rightarrow> u64" where
  "gap_end t k = (if k < mt_cnt t then rg_base (live t ! k) else ULLONG_MAX)"

lemma rsv_gap_wf: "mt_wf t \<Longrightarrow> k \<le> mt_cnt t \<Longrightarrow> rsv_gap t k = Val (gap_start t k, gap_end t k)"
  using mt_wf_arr_ok [of t] by (auto simp: rsv_gap_def gap_start_def gap_end_def arr_ok_def arr_region_at)

lemma gaps_sorted:
  assumes "mt_wf t" "k < k'" "k' \<le> mt_cnt t"
  shows "gap_end t k \<le> gap_start t k'"
proof -
  have k: "k < mt_cnt t" "k' - 1 < mt_cnt t" using assms by auto
  have "rg_base (live t ! k) \<le> rend (live t ! (k' - 1))"
  proof (cases "k = k' - 1")
    case True
    then show ?thesis using wf_nth_le(1) [OF assms(1) k(1)] by simp
  next
    case False
    then have "k < k' - 1" using assms(2) by simp
    then show ?thesis using wf_nth_sorted [OF assms(1) _ k(2)] wf_nth_le(1) [OF assms(1) k(1)] wf_nth_le(1) [OF assms(1) k(2)]
      by (meson order.trans)
  qed
  then show ?thesis using k assms(2) by (simp add: gap_start_def gap_end_def)
qed

lemma cover_nth:
  assumes "mt_wf t"
  shows "x \<in> cover (rgns t) \<longleftrightarrow> (\<exists>i<mt_cnt t. rg_base (live t ! i) \<le> x \<and> x < rend (live t ! i))"
  unfolding mt_wf_cover [OF assms, symmetric] unfolding cover_def
  using arr_length_live [OF mt_wf_arr_ok [OF assms]] by (auto simp: set_conv_nth)

lemma gap_free:
  assumes t: "mt_wf t" and k: "k \<le> mt_cnt t" and x: "gap_start t k \<le> x" "x < gap_end t k"
  shows "x \<notin> cover (rgns t)"
proof
  assume "x \<in> cover (rgns t)"
  then obtain i where i: "i < mt_cnt t" "rg_base (live t ! i) \<le> x" "x < rend (live t ! i)"
    using cover_nth [OF t] by auto
  show False
  proof (cases "i < k")
    case True
    have "rend (live t ! i) \<le> gap_start t k"
    proof (cases "i = k - 1")
      case False
      then have "i < k - 1" "k - 1 < mt_cnt t" using True k by auto
      then show ?thesis using wf_nth_sorted [OF t] wf_nth_le(1) [OF t] True by (simp add: gap_start_def) (meson order.trans)
    qed (use True in \<open>simp add: gap_start_def\<close>)
    then show False using x(1) i(3) by auto
  next
    case False
    have "gap_end t k \<le> rg_base (live t ! i)"
    proof (cases "i = k")
      case False
      then have "k < i" "k < mt_cnt t" using \<open>\<not> i < k\<close> i(1) by auto
      then show ?thesis using wf_nth_sorted [OF t _ i(1)] wf_nth_le(1) [OF t] by (simp add: gap_end_def) (meson order.trans)
    qed (use i in \<open>simp add: gap_end_def\<close>)
    then show False using x(2) i(2) by auto
  qed
qed

lemma free_in_gap:
  assumes t: "mt_wf t" and x: "x \<notin> cover (rgns t)" "x < ULLONG_MAX"
  shows "\<exists>k\<le>mt_cnt t. gap_start t k \<le> x \<and> x < gap_end t k"
proof -
  have l: "length (live t) = mt_cnt t" using arr_length_live [OF mt_wf_arr_ok [OF t]] .
  define k where "k = length (takeWhile (\<lambda>r. rend r \<le> x) (live t))"
  have k: "k \<le> mt_cnt t" using length_takeWhile_le [of _ "live t"] l by (simp add: k_def)
  have "gap_start t k \<le> x"
  proof (cases k)
    case (Suc j)
    then have "live t ! j \<in> set (takeWhile (\<lambda>r. rend r \<le> x) (live t))"
      using takeWhile_nth [of j "\<lambda>r. rend r \<le> x" "live t"] nth_mem [of j "takeWhile (\<lambda>r. rend r \<le> x) (live t)"] by (simp add: k_def)
    then show ?thesis using Suc by (auto simp: gap_start_def dest: set_takeWhileD)
  qed (simp add: gap_start_def)
  moreover have "x < gap_end t k"
  proof (cases "k < mt_cnt t")
    case True
    then have "\<not> rend (live t ! k) \<le> x" using nth_length_takeWhile [of "\<lambda>r. rend r \<le> x" "live t"] l by (simp add: k_def)
    then show ?thesis using x(1) cover_nth [OF t] True by (auto simp: gap_end_def not_le)
  qed (use x(2) in \<open>simp add: gap_end_def\<close>)
  ultimately show ?thesis using k by blast
qed

subsection \<open>What the iterators visit\<close>

text \<open>
  The memory of node \<open>nid\<close> in regions with indices from \<open>I\<close> and in gaps with indices from \<open>K\<close>.
\<close>

definition free_part :: "memblock \<Rightarrow> int \<Rightarrow> nat set \<Rightarrow> nat set \<Rightarrow> u64 set" where
  "free_part mb nid I K = {x. \<exists>i\<in>I. \<exists>k\<in>K. i < mt_cnt (memory mb) \<and> k \<le> mt_cnt (reserved mb) \<and>
     node_matches nid (live (memory mb) ! i) \<and>
     rg_base (live (memory mb) ! i) \<le> x \<and> x < rend (live (memory mb) ! i) \<and>
     gap_start (reserved mb) k \<le> x \<and> x < gap_end (reserved mb) k}"

definition mb_wf :: "memblock \<Rightarrow> bool" where
  "mb_wf mb \<longleftrightarrow> mt_wf (memory mb) \<and> mt_wf (reserved mb)"

definition free_mem :: "memblock \<Rightarrow> int \<Rightarrow> u64 set" where
  "free_mem mb nid = cover (filter (node_matches nid) (rgns (memory mb))) - cover (rgns (reserved mb))"

lemma rend_le_max: "rend r \<le> ULLONG_MAX"
  by (simp add: ULLONG_MAX_def)

lemma bex_nth: "(\<exists>x\<in>set xs. P x) \<longleftrightarrow> (\<exists>i<length xs. P (xs ! i))"
  by (auto simp: set_conv_nth)

lemma filter_cover_nth:
  assumes "mt_wf t"
  shows "x \<in> cover (filter P (rgns t)) \<longleftrightarrow>
    (\<exists>i<mt_cnt t. P (live t ! i) \<and> rg_base (live t ! i) \<le> x \<and> x < rend (live t ! i))"
proof -
  have "cover (filter P (rgns t)) = cover (filter P (live t))"
    using assms by (cases rule: mt_wf_cases) auto
  then show ?thesis
    using arr_length_live [OF mt_wf_arr_ok [OF assms]]
      bex_nth [of "live t" "\<lambda>r. P r \<and> rg_base r \<le> x \<and> x < rend r"] by (auto simp: cover_def)
qed

lemma free_part_all:
  assumes "mb_wf mb"
  shows "free_part mb nid UNIV UNIV = free_mem mb nid"
proof -
  have m: "mt_wf (memory mb)" and r: "mt_wf (reserved mb)" using assms by (auto simp: mb_wf_def)
  show ?thesis
  proof (intro equalityI subsetI)
    fix x assume "x \<in> free_part mb nid UNIV UNIV"
    then show "x \<in> free_mem mb nid"
      using gap_free [OF r] filter_cover_nth [OF m] unfolding free_part_def free_mem_def by blast
  next
    fix x assume x: "x \<in> free_mem mb nid"
    then obtain i where i: "i < mt_cnt (memory mb)" "node_matches nid (live (memory mb) ! i)"
      "rg_base (live (memory mb) ! i) \<le> x" "x < rend (live (memory mb) ! i)"
      using filter_cover_nth [OF m] by (auto simp: free_mem_def)
    have "x < ULLONG_MAX" using i(4) rend_le_max by (rule order.strict_trans2)
    then show "x \<in> free_part mb nid UNIV UNIV"
      using free_in_gap [OF r] x i unfolding free_part_def free_mem_def by blast
  qed
qed

lemma rev_rsv_spec:
  assumes r: "mt_wf rsv" and "n \<le> Suc (mt_cnt rsv)" and "rev_rsv rsv ms me n = Val (ri, res)"
  shows "- 1 \<le> ri \<and> ri < int n \<or> n = 0 \<and> ri = - 1"
    and "k \<le> mt_cnt rsv \<Longrightarrow> ri < int k \<Longrightarrow> k < n \<Longrightarrow> me \<le> gap_start rsv k"
    and "res = None \<Longrightarrow> 0 \<le> ri \<Longrightarrow> gap_end rsv (nat ri) \<le> ms"
    and "res = Some (a, b) \<Longrightarrow> 0 \<le> ri \<and> a = gap_start rsv (nat ri) \<and> b = gap_end rsv (nat ri) \<and> ms < b \<and> a < me"
proof -
  have "(- 1 \<le> ri \<and> ri < int n \<or> n = 0 \<and> ri = - 1) \<and>
    (\<forall>k. k \<le> mt_cnt rsv \<longrightarrow> ri < int k \<longrightarrow> k < n \<longrightarrow> me \<le> gap_start rsv k) \<and>
    (res = None \<longrightarrow> 0 \<le> ri \<longrightarrow> gap_end rsv (nat ri) \<le> ms) \<and>
    (\<forall>a b. res = Some (a, b) \<longrightarrow> 0 \<le> ri \<and> a = gap_start rsv (nat ri) \<and> b = gap_end rsv (nat ri) \<and> ms < b \<and> a < me)"
    using assms(2,3)
  proof (induction n)
    case (Suc n)
    have g: "rsv_gap rsv n = Val (gap_start rsv n, gap_end rsv n)" using rsv_gap_wf [OF r] Suc.prems(1) by simp
    consider "gap_end rsv n \<le> ms" | "\<not> gap_end rsv n \<le> ms" "gap_start rsv n < me"
      | "\<not> gap_end rsv n \<le> ms" "\<not> gap_start rsv n < me" by blast
    then show ?case
    proof cases
      case 3
      then have IH: "rev_rsv rsv ms me n = Val (ri, res)" using Suc.prems(2) g by simp
      have "me \<le> gap_start rsv k" if "k \<le> mt_cnt rsv" "ri < int k" "k < Suc n" for k
        using Suc.IH [OF _ IH] Suc.prems(1) that 3(2) by (cases "k = n") (auto simp: not_less)
      then show ?thesis using Suc.IH [OF _ IH] Suc.prems(1) by auto
    qed (use Suc.prems g in \<open>auto simp: not_le split: if_splits\<close>)
  qed auto
  then show "- 1 \<le> ri \<and> ri < int n \<or> n = 0 \<and> ri = - 1"
    and "k \<le> mt_cnt rsv \<Longrightarrow> ri < int k \<Longrightarrow> k < n \<Longrightarrow> me \<le> gap_start rsv k"
    and "res = None \<Longrightarrow> 0 \<le> ri \<Longrightarrow> gap_end rsv (nat ri) \<le> ms"
    and "res = Some (a, b) \<Longrightarrow> 0 \<le> ri \<and> a = gap_start rsv (nat ri) \<and> b = gap_end rsv (nat ri) \<and> ms < b \<and> a < me"
    by auto
qed

lemma rev_rsv_total:
  "mt_wf rsv \<Longrightarrow> n \<le> Suc (mt_cnt rsv) \<Longrightarrow> \<exists>ri res. rev_rsv rsv ms me n = Val (ri, res)"
  by (induction n) (auto simp: rsv_gap_wf)

text \<open>
  One step of the reverse iterator: it ends when nothing is left below its position; otherwise its range is free, and what
  is left is below the range.
\<close>

lemma free_partD:
  assumes "x \<in> free_part mb nid I K"
  obtains i k where "i \<in> I" "k \<in> K" "i < mt_cnt (memory mb)" "k \<le> mt_cnt (reserved mb)"
    "node_matches nid (live (memory mb) ! i)"
    "rg_base (live (memory mb) ! i) \<le> x" "x < rend (live (memory mb) ! i)"
    "gap_start (reserved mb) k \<le> x" "x < gap_end (reserved mb) k"
  using assms by (auto simp: free_part_def)

lemma free_partI:
  "i \<in> I \<Longrightarrow> k \<in> K \<Longrightarrow> i < mt_cnt (memory mb) \<Longrightarrow> k \<le> mt_cnt (reserved mb) \<Longrightarrow>
   node_matches nid (live (memory mb) ! i) \<Longrightarrow>
   rg_base (live (memory mb) ! i) \<le> x \<Longrightarrow> x < rend (live (memory mb) ! i) \<Longrightarrow>
   gap_start (reserved mb) k \<le> x \<Longrightarrow> x < gap_end (reserved mb) k \<Longrightarrow> x \<in> free_part mb nid I K"
  unfolding free_part_def by blast

lemma free_part_mono: "I \<subseteq> I' \<Longrightarrow> K \<subseteq> K' \<Longrightarrow> free_part mb nid I K \<subseteq> free_part mb nid I' K'"
  unfolding free_part_def by blast

lemma free_part_skip_mem:
  assumes "\<And>k x. k \<in> K \<Longrightarrow> k \<le> mt_cnt (reserved mb) \<Longrightarrow> node_matches nid (live (memory mb) ! mi) \<Longrightarrow>
     rg_base (live (memory mb) ! mi) \<le> x \<Longrightarrow> x < rend (live (memory mb) ! mi) \<Longrightarrow>
     gap_start (reserved mb) k \<le> x \<Longrightarrow> x < gap_end (reserved mb) k \<Longrightarrow> False"
  shows "free_part mb nid (insert mi I) K = free_part mb nid I K"
  using assms unfolding free_part_def by blast

lemma free_part_skip_gap:
  assumes "\<And>i x. i \<in> I \<Longrightarrow> i < mt_cnt (memory mb) \<Longrightarrow>
     rg_base (live (memory mb) ! i) \<le> x \<Longrightarrow> x < rend (live (memory mb) ! i) \<Longrightarrow>
     gap_start (reserved mb) ri \<le> x \<Longrightarrow> x < gap_end (reserved mb) ri \<Longrightarrow> False"
  shows "free_part mb nid I (insert ri K) = free_part mb nid I K"
  using assms unfolding free_part_def by blast

lemma free_part_here:
  assumes "mi < mt_cnt (memory mb)" "ri \<le> mt_cnt (reserved mb)" "node_matches nid (live (memory mb) ! mi)"
  shows "free_part mb nid {mi} {ri} =
    {max (rg_base (live (memory mb) ! mi)) (gap_start (reserved mb) ri) ..<
     min (rend (live (memory mb) ! mi)) (gap_end (reserved mb) ri)}"
  using assms by (auto simp: free_part_def)

lemma free_part_Un:
  "free_part mb nid (I \<union> J) K = free_part mb nid I K \<union> free_part mb nid J K"
  "free_part mb nid I (K \<union> L) = free_part mb nid I K \<union> free_part mb nid I L"
  unfolding free_part_def by blast+

lemma free_part_empty [simp]: "free_part mb nid {} K = {}" "free_part mb nid I {} = {}"
  by (simp_all add: free_part_def)

lemma rev_found:
  assumes wf: "mb_wf mb" and mi: "mi < mt_cnt (memory mb)" and ri: "ri \<le> mt_cnt (reserved mb)"
    and n: "node_matches nid (live (memory mb) ! mi)"
  defines "ms \<equiv> rg_base (live (memory mb) ! mi)" and "gs \<equiv> gap_start (reserved mb) ri"
  shows "gs \<le> ms \<Longrightarrow> free_part mb nid {..<Suc mi} {..<Suc ri} = free_part mb nid {mi} {ri} \<union> free_part mb nid {..<mi} {..<Suc ri}"
    and "gs \<le> ms \<Longrightarrow> x \<in> free_part mb nid {..<mi} {..<Suc ri} \<Longrightarrow> x < ms"
    and "\<not> gs \<le> ms \<Longrightarrow> free_part mb nid {..<Suc mi} {..<Suc ri} = free_part mb nid {mi} {ri} \<union> free_part mb nid {..<Suc mi} {..<ri}"
    and "\<not> gs \<le> ms \<Longrightarrow> x \<in> free_part mb nid {..<Suc mi} {..<ri} \<Longrightarrow> x < gs"
proof -
  have m: "mt_wf (memory mb)" and r: "mt_wf (reserved mb)" using wf by (auto simp: mb_wf_def)
  show lo: "x < ms" if "x \<in> free_part mb nid {..<mi} {..<Suc ri}" for x
    using that wf_nth_sorted [OF m _ mi] order.strict_trans2 unfolding ms_def by (elim free_partD) blast
  show hi: "x < gs" if "x \<in> free_part mb nid {..<Suc mi} {..<ri}" for x
    using that gaps_sorted [OF r _ ri] order.strict_trans2 unfolding gs_def by (elim free_partD) blast
  show "free_part mb nid {..<Suc mi} {..<Suc ri} = free_part mb nid {mi} {ri} \<union> free_part mb nid {..<mi} {..<Suc ri}"
    if "gs \<le> ms"
  proof -
    have "x \<notin> free_part mb nid {mi} {..<ri}" for x
    proof
      assume x: "x \<in> free_part mb nid {mi} {..<ri}"
      then have "x < gs" using hi free_part_mono [of "{mi}" "{..<Suc mi}" "{..<ri}" "{..<ri}"] by blast
      moreover have "ms \<le> x" using x by (elim free_partD) (simp add: ms_def)
      ultimately show False using that by auto
    qed
    then have "free_part mb nid {mi} {..<ri} = {}" by blast
    then show ?thesis using free_part_Un(1) [of mb nid "{mi}" "{..<mi}"] free_part_Un(2) [of mb nid "{mi}" "{ri}" "{..<ri}"]
      by (simp add: lessThan_Suc)
  qed
  show "free_part mb nid {..<Suc mi} {..<Suc ri} = free_part mb nid {mi} {ri} \<union> free_part mb nid {..<Suc mi} {..<ri}"
    if "\<not> gs \<le> ms"
  proof -
    have "x \<notin> free_part mb nid {..<mi} {ri}" for x
    proof
      assume x: "x \<in> free_part mb nid {..<mi} {ri}"
      then have "x < ms" using lo free_part_mono [of "{..<mi}" "{..<mi}" "{ri}" "{..<Suc ri}"] by blast
      moreover have "gs \<le> x" using x by (elim free_partD) (simp add: gs_def)
      ultimately show False using that by auto
    qed
    then have "free_part mb nid {..<mi} {ri} = {}" by blast
    then show ?thesis using free_part_Un(2) [of mb nid "{..<Suc mi}" "{ri}" "{..<ri}"] free_part_Un(1) [of mb nid "{mi}" "{..<mi}" "{ri}"]
      by (simp add: lessThan_Suc)
  qed
qed

lemma gap_le: "mt_wf t \<Longrightarrow> k \<le> mt_cnt t \<Longrightarrow> gap_start t k \<le> gap_end t k"
  using wf_nth_sorted [of t "k - 1" k] rend_le_max by (auto simp: gap_start_def gap_end_def)

lemma rend_below:
  assumes "mb_wf mb" "i < Suc mi" "mi < mt_cnt (memory mb)"
  shows "rend (live (memory mb) ! i) \<le> rend (live (memory mb) ! mi)"
proof (cases "i = mi")
  case False
  have m: "mt_wf (memory mb)" using assms(1) by (simp add: mb_wf_def)
  have "rend (live (memory mb) ! i) \<le> rg_base (live (memory mb) ! mi)"
    using wf_nth_sorted [OF m _ assms(3)] assms(2) False by simp
  also have "\<dots> \<le> rend (live (memory mb) ! mi)" using wf_nth_le(1) [OF m assms(3)] .
  finally show ?thesis .
qed simp

lemma rev_drop_gaps:
  assumes wf: "mb_wf mb" and mi: "mi < mt_cnt (memory mb)" and n': "n' \<le> n"
    and ge: "\<And>k. k \<le> mt_cnt (reserved mb) \<Longrightarrow> n' \<le> k \<Longrightarrow> k < n \<Longrightarrow> rend (live (memory mb) ! mi) \<le> gap_start (reserved mb) k"
  shows "free_part mb nid {..<Suc mi} {..<n} = free_part mb nid {..<Suc mi} {..<n'}"
proof (intro equalityI subsetI)
  fix x assume "x \<in> free_part mb nid {..<Suc mi} {..<n}"
  then obtain i k where x: "i < Suc mi" "k < n" "i < mt_cnt (memory mb)" "k \<le> mt_cnt (reserved mb)"
    "node_matches nid (live (memory mb) ! i)" "rg_base (live (memory mb) ! i) \<le> x" "x < rend (live (memory mb) ! i)"
    "gap_start (reserved mb) k \<le> x" "x < gap_end (reserved mb) k" by (elim free_partD) auto
  have "x < rend (live (memory mb) ! mi)" using x(7) rend_below [OF wf x(1) mi] by (rule order.strict_trans2)
  then have "\<not> n' \<le> k" using ge [OF x(4) _ x(2)] x(8) by auto
  then show "x \<in> free_part mb nid {..<Suc mi} {..<n'}" using x by (intro free_partI [of i _ k]) auto
qed (use free_part_mono [of "{..<Suc mi}" "{..<Suc mi}" "{..<n'}" "{..<n}"] n' in auto)

lemma rev_drop_region:
  assumes wf: "mb_wf mb" and ri: "ri \<le> mt_cnt (reserved mb)"
    and le: "gap_end (reserved mb) ri \<le> rg_base (live (memory mb) ! mi)"
  shows "free_part mb nid {..<Suc mi} {..<Suc ri} = free_part mb nid {..<mi} {..<Suc ri}"
  unfolding lessThan_Suc [of mi]
proof (rule free_part_skip_mem)
  fix k x
  assume k: "k \<in> {..<Suc ri}" "k \<le> mt_cnt (reserved mb)" and x: "rg_base (live (memory mb) ! mi) \<le> x" "x < gap_end (reserved mb) k"
  have r: "mt_wf (reserved mb)" using wf by (simp add: mb_wf_def)
  have "gap_end (reserved mb) k \<le> gap_end (reserved mb) ri"
    using gaps_sorted [OF r, of k ri] gap_le [OF r ri] ri k by (cases "k = ri") (auto intro: order.trans)
  then show False using le x by auto
qed

text \<open>A range that is the intersection of a memory region of the node with a gap between reservations.\<close>

definition range_of :: "memblock \<Rightarrow> int \<Rightarrow> u64 \<times> u64 \<times> int \<Rightarrow> bool" where
  "range_of mb nid = (\<lambda>(s, e, n). \<exists>i<mt_cnt (memory mb). \<exists>k\<le>mt_cnt (reserved mb).
     node_matches nid (live (memory mb) ! i) \<and> n = rg_nid (live (memory mb) ! i) \<and>
     s = max (rg_base (live (memory mb) ! i)) (gap_start (reserved mb) k) \<and>
     e = min (rend (live (memory mb) ! i)) (gap_end (reserved mb) k))"

lemma range_ofI:
  "i < mt_cnt (memory mb) \<Longrightarrow> k \<le> mt_cnt (reserved mb) \<Longrightarrow> node_matches nid (live (memory mb) ! i) \<Longrightarrow>
   range_of mb nid (max (rg_base (live (memory mb) ! i)) (gap_start (reserved mb) k),
     min (rend (live (memory mb) ! i)) (gap_end (reserved mb) k), rg_nid (live (memory mb) ! i))"
  unfolding range_of_def by blast

lemma rev_mem_spec:
  assumes wf: "mb_wf mb" and "mi \<le> mt_cnt (memory mb)" "- 1 \<le> ri" "ri \<le> int (mt_cnt (reserved mb))"
  shows "\<exists>r. rev_mem mb nid mi ri = Val r \<and>
    (r = None \<longrightarrow> free_part mb nid {..<mi} {..<nat (ri + 1)} = {}) \<and>
    (\<forall>f. r = Some f \<longrightarrow> - 1 \<le> fr_mi f \<and> fr_mi f < int mi \<and> 0 \<le> fr_ri f \<and> fr_ri f \<le> ri \<and>
       fr_mi f + fr_ri f + 1 < int mi + ri \<and> range_of mb nid (fr_start f, fr_end f, fr_nid f) \<and>
       free_part mb nid {..<mi} {..<nat (ri + 1)} =
         {fr_start f ..< fr_end f} \<union> free_part mb nid {..<nat (fr_mi f + 1)} {..<nat (fr_ri f + 1)} \<and>
       (\<forall>x \<in> free_part mb nid {..<nat (fr_mi f + 1)} {..<nat (fr_ri f + 1)}. x < fr_start f))"
  using assms(2-)
proof (induction mi arbitrary: ri)
  case 0
  show ?case by simp
next
  case (Suc mi)
  have m: "mt_wf (memory mb)" and r: "mt_wf (reserved mb)" using wf by (auto simp: mb_wf_def)
  have mi: "mi < mt_cnt (memory mb)" using Suc.prems by simp
  note N = wf_nth_le [OF m mi]
  let ?m = "live (memory mb) ! mi"
  show ?case
  proof (cases "node_matches nid ?m")
    case False
    have "free_part mb nid {..<Suc mi} {..<nat (ri + 1)} = free_part mb nid {..<mi} {..<nat (ri + 1)}"
      unfolding lessThan_Suc by (rule free_part_skip_mem) (use False in blast)
    then show ?thesis using Suc.IH [of ri] Suc.prems N False by (auto simp: Let_def)
  next
    case True
    have n: "nat (ri + 1) \<le> Suc (mt_cnt (reserved mb))" using Suc.prems by simp
    obtain ri' res where rr: "rev_rsv (reserved mb) (rg_base ?m) (rend ?m) (nat (ri + 1)) = Val (ri', res)"
      using rev_rsv_total [OF r n] by blast
    note R = rev_rsv_spec [OF r n rr]
    have ri': "- 1 \<le> ri'" "ri' \<le> ri" using R(1) Suc.prems(2) by auto
    have drop1: "free_part mb nid {..<Suc mi} {..<nat (ri + 1)} = free_part mb nid {..<Suc mi} {..<nat (ri' + 1)}"
      using R(2) ri' by (intro rev_drop_gaps [OF wf mi]) auto
    show ?thesis
    proof (cases res)
      case None
      have "free_part mb nid {..<Suc mi} {..<nat (ri' + 1)} = free_part mb nid {..<mi} {..<nat (ri' + 1)}"
      proof (cases "ri' = - 1")
        case False
        then have "nat (ri' + 1) = Suc (nat ri')" "0 \<le> ri'" "nat ri' \<le> mt_cnt (reserved mb)"
          using ri' Suc.prems by auto
        then show ?thesis using rev_drop_region [OF wf, of "nat ri'" mi nid] R(3) None by simp
      qed simp
      then show ?thesis using Suc.IH [of ri'] Suc.prems N True rr None ri' drop1 by (auto simp: Let_def)
    next
      case (Some ab)
      obtain a b where ab: "ab = (a, b)" by (cases ab)
      have S: "0 \<le> ri'" "a = gap_start (reserved mb) (nat ri')" "b = gap_end (reserved mb) (nat ri')"
        using R(4) Some ab by auto
      have k: "nat ri' \<le> mt_cnt (reserved mb)" "nat (ri' + 1) = Suc (nat ri')" using S(1) ri' Suc.prems by auto
      note F = rev_found [OF wf mi k(1) True] and H = free_part_here [OF mi k(1) True] range_ofI [OF mi k(1) True]
      have pos: "1 \<le> ri'" if "\<not> a \<le> rg_base ?m" using that S by (cases "ri' = 0") (auto simp: gap_start_def)
      show ?thesis
      proof (cases "a \<le> rg_base ?m")
        case le: True
        then have "max (rg_base ?m) a = rg_base ?m" by (simp add: max_absorb1)
        then show ?thesis using le F(1,2) H N True rr Some ab S k ri' drop1 Suc.prems by (simp add: Let_def)
      next
        case nle: False
        then have "max (rg_base ?m) a = a" by (simp add: max_absorb2)
        moreover have "nat (int mi + 1) = Suc mi" by simp
        ultimately show ?thesis using nle F(3,4) H N True rr Some ab S k ri' drop1 Suc.prems pos [OF nle]
          by (simp add: Let_def)
      qed
    qed
  qed
qed

subsection \<open>The packed position\<close>

lemma low32: "(0xffffffff :: u64) = mask 32"
  by (simp add: mask_eq_exp_minus_1)

lemma pack_low: "ucast (pack_idx mi ri AND 0xffffffff) = (word_of_int mi :: u32)"
  unfolding low32 by (rule bit_word_eqI) (auto simp: pack_idx_def bit_simps)

lemma pack_high: "ucast (drop_bit 32 (pack_idx mi ri)) = (word_of_int ri :: u32)"
  by (rule bit_word_eqI) (auto simp: pack_idx_def bit_simps)

lemma sint_u32: "- (2 ^ 31) \<le> i \<Longrightarrow> i < 2 ^ 31 \<Longrightarrow> sint (word_of_int i :: u32) = i"
  by (simp add: signed_of_int signed_take_bit_int_eq_self)

text \<open>Packing a position and unpacking it gives it back, also when an index has gone down to \<open>- 1\<close>.\<close>

lemma idx_roundtrip:
  assumes "- 1 \<le> mi" "mi < 2 ^ 31" "- 1 \<le> ri" "ri < 2 ^ 31"
  shows "idx_mi (pack_idx mi ri) = mi" "idx_ri (pack_idx mi ri) = ri"
  using assms sint_u32 [of mi] sint_u32 [of ri]
  by (simp_all add: idx_mi_def idx_ri_def pack_low pack_high)

lemma pack_not_end:
  assumes "- 1 \<le> mi" "mi < 2 ^ 31" "0 \<le> ri" "ri < 2 ^ 31"
  shows "pack_idx mi ri \<noteq> ULLONG_MAX"
proof
  assume "pack_idx mi ri = ULLONG_MAX"
  then have "ri = idx_ri ULLONG_MAX" using idx_roundtrip(2) [of mi ri] assms by simp
  moreover have "idx_ri ULLONG_MAX = - 1" by (simp add: idx_ri_def ULLONG_MAX_def drop_bit_eq_div)
  ultimately show False using assms(3) by simp
qed

subsection \<open>Whole iterations\<close>

definition small :: "memblock \<Rightarrow> bool" where
  "small mb \<longleftrightarrow> mt_cnt (memory mb) < 2 ^ 31 \<and> mt_cnt (reserved mb) < 2 ^ 31"

definition rev_pos :: "memblock \<Rightarrow> u64 \<Rightarrow> int \<Rightarrow> int \<Rightarrow> bool" where
  "rev_pos mb idx mi ri \<longleftrightarrow> - 1 \<le> mi \<and> mi < int (mt_cnt (memory mb)) \<and> 0 \<le> ri \<and> ri \<le> int (mt_cnt (reserved mb)) \<and>
     (if idx = ULLONG_MAX then mi = int (mt_cnt (memory mb)) - 1 \<and> ri = int (mt_cnt (reserved mb))
      else idx_mi idx = mi \<and> idx_ri idx = ri)"

lemma next_rev_spec:
  assumes wf: "mb_wf mb" "small mb" and pos: "rev_pos mb idx mi ri"
  obtains (finished) "next_free_mem_range_rev mb nid idx = Val (ULLONG_MAX, None)"
      "free_part mb nid {..<nat (mi + 1)} {..<nat (ri + 1)} = {}"
  | (range) idx' s e n mi' ri' where "next_free_mem_range_rev mb nid idx = Val (idx', Some (s, e, n))"
      "idx' \<noteq> ULLONG_MAX" "rev_pos mb idx' mi' ri'" "mi' + ri' < mi + ri" "range_of mb nid (s, e, n)"
      "free_part mb nid {..<nat (mi + 1)} {..<nat (ri + 1)} = {s ..< e} \<union> free_part mb nid {..<nat (mi' + 1)} {..<nat (ri' + 1)}"
      "\<forall>x \<in> free_part mb nid {..<nat (mi' + 1)} {..<nat (ri' + 1)}. x < s"
proof -
  have b: "nat (mi + 1) \<le> mt_cnt (memory mb)" "- 1 \<le> ri" "ri \<le> int (mt_cnt (reserved mb))" "- 1 \<le> mi"
    using pos by (auto simp: rev_pos_def)
  have n: "next_free_mem_range_rev mb nid idx =
      bind_outcome (rev_mem mb nid (nat (mi + 1)) ri) (\<lambda>x. Val (step_result x))"
    using pos by (auto simp: rev_pos_def next_free_mem_range_rev_def Let_def)
  obtain r where r: "rev_mem mb nid (nat (mi + 1)) ri = Val r" and spec: "r = None \<longrightarrow> free_part mb nid {..<nat (mi + 1)} {..<nat (ri + 1)} = {}"
      "\<And>f. r = Some f \<Longrightarrow> - 1 \<le> fr_mi f \<and> fr_mi f < int (nat (mi + 1)) \<and> 0 \<le> fr_ri f \<and> fr_ri f \<le> ri \<and>
       fr_mi f + fr_ri f + 1 < int (nat (mi + 1)) + ri \<and> range_of mb nid (fr_start f, fr_end f, fr_nid f) \<and>
       free_part mb nid {..<nat (mi + 1)} {..<nat (ri + 1)} =
         {fr_start f ..< fr_end f} \<union> free_part mb nid {..<nat (fr_mi f + 1)} {..<nat (fr_ri f + 1)} \<and>
       (\<forall>x \<in> free_part mb nid {..<nat (fr_mi f + 1)} {..<nat (fr_ri f + 1)}. x < fr_start f)"
    using rev_mem_spec [OF wf(1) b(1-3), of nid] by blast
  show thesis
  proof (cases r)
    case None
    then show thesis using finished n r spec(1) by (simp add: step_result_def)
  next
    case (Some f)
    note S = spec(2) [OF Some]
    have f: "- 1 \<le> fr_mi f" "fr_mi f < 2 ^ 31" "0 \<le> fr_ri f" "fr_ri f < 2 ^ 31"
      using S b wf(2) by (auto simp: small_def)
    then have p: "rev_pos mb (pack_idx (fr_mi f) (fr_ri f)) (fr_mi f) (fr_ri f)"
      using idx_roundtrip [of "fr_mi f" "fr_ri f"] pack_not_end [OF f] S b by (auto simp: rev_pos_def)
    have "fr_mi f + fr_ri f < mi + ri" using S b(4) by linarith
    then show thesis using S n r Some p pack_not_end [OF f]
      by (intro range [of "pack_idx (fr_mi f) (fr_ri f)" "fr_start f" "fr_end f" "fr_nid f" "fr_mi f" "fr_ri f"])
        (simp_all add: step_result_def)
  qed
qed

definition range_set :: "(u64 \<times> u64 \<times> int) list \<Rightarrow> u64 set" where
  "range_set rs = (\<Union>(s, e, n) \<in> set rs. {s ..< e})"

definition descending :: "u64 \<times> u64 \<times> int \<Rightarrow> u64 \<times> u64 \<times> int \<Rightarrow> bool" where
  "descending p q \<longleftrightarrow> (\<forall>x. fst q \<le> x \<and> x < fst (snd q) \<longrightarrow> x < fst p)"

definition ascending :: "u64 \<times> u64 \<times> int \<Rightarrow> u64 \<times> u64 \<times> int \<Rightarrow> bool" where
  "ascending p q \<longleftrightarrow> (\<forall>x. fst q \<le> x \<and> x < fst (snd q) \<longrightarrow> fst (snd p) \<le> x)"

lemma free_ranges_rev_spec:
  assumes wf: "mb_wf mb" "small mb" and "rev_pos mb idx mi ri" "mi + ri + 1 < int n"
  shows "\<exists>rs. free_ranges_rev n mb nid idx = Val rs \<and>
    range_set rs = free_part mb nid {..<nat (mi + 1)} {..<nat (ri + 1)} \<and>
    (\<forall>r\<in>set rs. range_of mb nid r) \<and>
    sorted_wrt descending rs"
  using assms(3,4)
proof (induction n arbitrary: idx mi ri)
  case 0
  then show ?case by (simp add: rev_pos_def)
next
  case (Suc n)
  show ?case
  proof (rule next_rev_spec [OF wf Suc.prems(1), of nid], goal_cases)
    case 1
    then show ?case by (simp add: range_set_def)
  next
    case (2 idx' s e nd mi' ri')
    obtain rs where rs: "free_ranges_rev n mb nid idx' = Val rs"
      "range_set rs = free_part mb nid {..<nat (mi' + 1)} {..<nat (ri' + 1)}" "\<forall>r\<in>set rs. range_of mb nid r"
      "sorted_wrt descending rs"
      using Suc.IH [OF 2(3)] 2(4) Suc.prems(2) by auto
    have "\<forall>x\<in>range_set rs. x < s" using 2(7) rs(2) by simp
    then have "\<forall>r\<in>set rs. descending (s, e, nd) r"
      by (auto simp: range_set_def descending_def)
    then show ?case using 2 rs by (auto simp: range_set_def)
  qed
qed

subsection \<open>The forward iterator\<close>

lemma fwd_rsv_spec:
  assumes r: "mt_wf rsv" and "ri \<le> Suc (mt_cnt rsv)"
  shows "\<exists>ri' res. fwd_rsv rsv ms me ri = Val (ri', res) \<and> ri \<le> ri' \<and> ri' \<le> Suc (mt_cnt rsv) \<and>
    (\<forall>k. ri \<le> k \<longrightarrow> k < ri' \<longrightarrow> gap_end rsv k \<le> ms) \<and>
    (res = None \<longrightarrow> ri' \<le> mt_cnt rsv \<longrightarrow> me \<le> gap_start rsv ri') \<and>
    (\<forall>a b. res = Some (a, b) \<longrightarrow> ri' \<le> mt_cnt rsv \<and> a = gap_start rsv ri' \<and> b = gap_end rsv ri')"
  using assms(2)
proof (induction "Suc (mt_cnt rsv) - ri" arbitrary: ri)
  case 0
  then show ?case by (simp add: fwd_rsv.simps [of _ _ _ ri])
next
  case (Suc d)
  then have ri: "ri \<le> mt_cnt rsv" by simp
  note S = fwd_rsv.simps [of rsv ms me ri] and g = rsv_gap_wf [OF r ri]
  consider "me \<le> gap_start rsv ri" | "\<not> me \<le> gap_start rsv ri" "ms < gap_end rsv ri"
    | "\<not> me \<le> gap_start rsv ri" "\<not> ms < gap_end rsv ri" by blast
  then show ?case
  proof cases
    case 1
    then show ?thesis using ri g by (simp add: S)
  next
    case 2
    then show ?thesis using ri g by (simp add: S)
  next
    case 3
    then have e: "fwd_rsv rsv ms me ri = fwd_rsv rsv ms me (Suc ri)" using ri g by (simp add: S)
    have d': "d = Suc (mt_cnt rsv) - Suc ri" "Suc ri \<le> Suc (mt_cnt rsv)" using Suc(2) ri by auto
    obtain ri' res where IH: "fwd_rsv rsv ms me (Suc ri) = Val (ri', res)" "Suc ri \<le> ri'" "ri' \<le> Suc (mt_cnt rsv)"
      "\<forall>k. Suc ri \<le> k \<longrightarrow> k < ri' \<longrightarrow> gap_end rsv k \<le> ms"
      "res = None \<longrightarrow> ri' \<le> mt_cnt rsv \<longrightarrow> me \<le> gap_start rsv ri'"
      "\<forall>a b. res = Some (a, b) \<longrightarrow> ri' \<le> mt_cnt rsv \<and> a = gap_start rsv ri' \<and> b = gap_end rsv ri'"
      using Suc.hyps(1) [OF d'] by blast
    have "gap_end rsv k \<le> ms" if "ri \<le> k" "k < ri'" for k
      using that IH(4) 3(2) by (cases "k = ri") auto
    then show ?thesis unfolding e using IH by (intro exI [of _ ri'] exI [of _ res]) simp
  qed
qed

lemma base_above:
  assumes "mb_wf mb" "mi \<le> i" "i < mt_cnt (memory mb)"
  shows "rg_base (live (memory mb) ! mi) \<le> rg_base (live (memory mb) ! i)"
proof (cases "i = mi")
  case False
  have m: "mt_wf (memory mb)" using assms(1) by (simp add: mb_wf_def)
  have "rg_base (live (memory mb) ! mi) \<le> rend (live (memory mb) ! mi)"
    using wf_nth_le(1) [OF m, of mi] assms(2,3) by simp
  also have "\<dots> \<le> rg_base (live (memory mb) ! i)" using wf_nth_sorted [OF m, of mi i] assms(2,3) False by simp
  finally show ?thesis .
qed simp

lemma fwd_drop_gaps:
  assumes wf: "mb_wf mb" and mi: "mi < mt_cnt (memory mb)" and n': "n \<le> n'"
    and le: "\<And>k. n \<le> k \<Longrightarrow> k < n' \<Longrightarrow> gap_end (reserved mb) k \<le> rg_base (live (memory mb) ! mi)"
  shows "free_part mb nid {mi..} {n..} = free_part mb nid {mi..} {n'..}"
proof (intro equalityI subsetI)
  fix x assume "x \<in> free_part mb nid {mi..} {n..}"
  then obtain i k where x: "mi \<le> i" "n \<le> k" "i < mt_cnt (memory mb)" "k \<le> mt_cnt (reserved mb)"
    "node_matches nid (live (memory mb) ! i)" "rg_base (live (memory mb) ! i) \<le> x" "x < rend (live (memory mb) ! i)"
    "gap_start (reserved mb) k \<le> x" "x < gap_end (reserved mb) k" by (elim free_partD) auto
  have "rg_base (live (memory mb) ! mi) \<le> x" using base_above [OF wf x(1,3)] x(6) by (rule order.trans)
  then have "\<not> k < n'" using le [OF x(2)] x(9) by auto
  then show "x \<in> free_part mb nid {mi..} {n'..}" using x by (intro free_partI [of i _ k]) auto
qed (use free_part_mono [of "{mi..}" "{mi..}" "{n'..}" "{n..}"] n' in auto)

lemma fwd_drop_region:
  assumes wf: "mb_wf mb" and le: "ri \<le> mt_cnt (reserved mb) \<Longrightarrow> rend (live (memory mb) ! mi) \<le> gap_start (reserved mb) ri"
  shows "free_part mb nid {mi..} {ri..} = free_part mb nid {Suc mi..} {ri..}"
proof -
  have "free_part mb nid (insert mi {Suc mi..}) {ri..} = free_part mb nid {Suc mi..} {ri..}"
  proof (rule free_part_skip_mem)
    fix k x
    assume k: "k \<in> {ri..}" "k \<le> mt_cnt (reserved mb)"
      and x: "x < rend (live (memory mb) ! mi)" "gap_start (reserved mb) k \<le> x"
    have r: "mt_wf (reserved mb)" using wf by (simp add: mb_wf_def)
    have ri: "ri \<le> mt_cnt (reserved mb)" using k by simp
    have "gap_start (reserved mb) ri \<le> gap_start (reserved mb) k"
      using gaps_sorted [OF r, of ri k] gap_le [OF r ri] k by (cases "k = ri") (auto intro: order.trans)
    then show False using le [OF ri] x by auto
  qed
  moreover have "insert mi {Suc mi..} = {mi..}" by auto
  ultimately show ?thesis by simp
qed

lemma fwd_found:
  assumes wf: "mb_wf mb" and mi: "mi < mt_cnt (memory mb)" and ri: "ri \<le> mt_cnt (reserved mb)"
  defines "me \<equiv> rend (live (memory mb) ! mi)" and "ge \<equiv> gap_end (reserved mb) ri"
  shows "me \<le> ge \<Longrightarrow> free_part mb nid {mi..} {ri..} = free_part mb nid {mi} {ri} \<union> free_part mb nid {Suc mi..} {ri..}"
    and "me \<le> ge \<Longrightarrow> x \<in> free_part mb nid {Suc mi..} {ri..} \<Longrightarrow> me \<le> x"
    and "\<not> me \<le> ge \<Longrightarrow> free_part mb nid {mi..} {ri..} = free_part mb nid {mi} {ri} \<union> free_part mb nid {mi..} {Suc ri..}"
    and "\<not> me \<le> ge \<Longrightarrow> x \<in> free_part mb nid {mi..} {Suc ri..} \<Longrightarrow> ge \<le> x"
proof -
  have m: "mt_wf (memory mb)" and r: "mt_wf (reserved mb)" using wf by (auto simp: mb_wf_def)
  have un: "{mi..} = {mi} \<union> {Suc mi..}" "{ri..} = {ri} \<union> {Suc ri..}" by auto
  show lo: "me \<le> x" if "x \<in> free_part mb nid {Suc mi..} {ri..}" for x
    using that wf_nth_sorted [OF m, of mi] unfolding me_def
    by (elim free_partD) (meson Suc_le_eq atLeast_iff order.trans)
  show hi: "ge \<le> x" if "x \<in> free_part mb nid {mi..} {Suc ri..}" for x
    using that gaps_sorted [OF r, of ri] unfolding ge_def
    by (elim free_partD) (meson Suc_le_eq atLeast_iff order.trans)
  show "free_part mb nid {mi..} {ri..} = free_part mb nid {mi} {ri} \<union> free_part mb nid {Suc mi..} {ri..}"
    if "me \<le> ge"
  proof -
    have "x \<notin> free_part mb nid {mi} {Suc ri..}" for x
    proof
      assume x: "x \<in> free_part mb nid {mi} {Suc ri..}"
      then have "ge \<le> x" using hi free_part_mono [of "{mi}" "{mi..}" "{Suc ri..}" "{Suc ri..}"] by blast
      moreover have "x < me" using x by (elim free_partD) (simp add: me_def)
      ultimately show False using that by auto
    qed
    then have "free_part mb nid {mi} {Suc ri..} = {}" by blast
    then have "free_part mb nid {mi} {ri..} = free_part mb nid {mi} {ri}" unfolding un(2) free_part_Un(2) by simp
    then show ?thesis unfolding un(1) free_part_Un(1) by simp
  qed
  show "free_part mb nid {mi..} {ri..} = free_part mb nid {mi} {ri} \<union> free_part mb nid {mi..} {Suc ri..}"
    if "\<not> me \<le> ge"
  proof -
    have "x \<notin> free_part mb nid {Suc mi..} {ri}" for x
    proof
      assume x: "x \<in> free_part mb nid {Suc mi..} {ri}"
      then have "me \<le> x" using lo free_part_mono [of "{Suc mi..}" "{Suc mi..}" "{ri}" "{ri..}"] by blast
      moreover have "x < ge" using x by (elim free_partD) (simp add: ge_def)
      ultimately show False using that by auto
    qed
    then have "free_part mb nid {Suc mi..} {ri} = {}" by blast
    then have "free_part mb nid {mi..} {ri} = free_part mb nid {mi} {ri}" unfolding un(1) free_part_Un(1) by simp
    then show ?thesis unfolding un(2) free_part_Un(2) by simp
  qed
qed

lemma fwd_mem_spec:
  assumes wf: "mb_wf mb" and "mi \<le> mt_cnt (memory mb)" "ri \<le> Suc (mt_cnt (reserved mb))"
  shows "\<exists>r. fwd_mem mb nid mi ri = Val r \<and>
    (r = None \<longrightarrow> free_part mb nid {mi..} {ri..} = {}) \<and>
    (\<forall>f. r = Some f \<longrightarrow> int mi \<le> fr_mi f \<and> fr_mi f \<le> int (mt_cnt (memory mb)) \<and>
       int ri \<le> fr_ri f \<and> fr_ri f \<le> int (mt_cnt (reserved mb)) \<and> int mi + int ri < fr_mi f + fr_ri f \<and>
       range_of mb nid (fr_start f, fr_end f, fr_nid f) \<and>
       free_part mb nid {mi..} {ri..} =
         {fr_start f ..< fr_end f} \<union> free_part mb nid {nat (fr_mi f)..} {nat (fr_ri f)..} \<and>
       (\<forall>x \<in> free_part mb nid {nat (fr_mi f)..} {nat (fr_ri f)..}. fr_end f \<le> x))"
  using assms(2-)
proof (induction "mt_cnt (memory mb) - mi" arbitrary: mi ri)
  case 0
  then have "\<not> mi < mt_cnt (memory mb)" by simp
  then show ?case by (auto simp: fwd_mem.simps [of _ _ mi] free_part_def)
next
  case (Suc d)
  have m: "mt_wf (memory mb)" and r: "mt_wf (reserved mb)" using wf by (auto simp: mb_wf_def)
  have mi: "mi < mt_cnt (memory mb)" and d: "d = mt_cnt (memory mb) - Suc mi" using Suc(2) by auto
  note N = wf_nth_le [OF m mi] and S = fwd_mem.simps [of mb nid mi ri] and IH = Suc.hyps(1) [OF d]
  let ?m = "live (memory mb) ! mi"
  show ?case
  proof (cases "node_matches nid ?m")
    case False
    have "free_part mb nid (insert mi {Suc mi..}) {ri..} = free_part mb nid {Suc mi..} {ri..}"
      by (rule free_part_skip_mem) (use False in blast)
    moreover have "insert mi {Suc mi..} = {mi..}" by auto
    ultimately show ?thesis using IH [of ri] Suc.prems N False mi by (auto simp: S Let_def)
  next
    case True
    obtain ri' res where R: "fwd_rsv (reserved mb) (rg_base ?m) (rend ?m) ri = Val (ri', res)" "ri \<le> ri'" "ri' \<le> Suc (mt_cnt (reserved mb))"
      "\<forall>k. ri \<le> k \<longrightarrow> k < ri' \<longrightarrow> gap_end (reserved mb) k \<le> rg_base ?m"
      "res = None \<longrightarrow> ri' \<le> mt_cnt (reserved mb) \<longrightarrow> rend ?m \<le> gap_start (reserved mb) ri'"
      "\<forall>a b. res = Some (a, b) \<longrightarrow> ri' \<le> mt_cnt (reserved mb) \<and> a = gap_start (reserved mb) ri' \<and> b = gap_end (reserved mb) ri'"
      using fwd_rsv_spec [OF r Suc.prems(2)] by blast
    have drop1: "free_part mb nid {mi..} {ri..} = free_part mb nid {mi..} {ri'..}"
      using R(2,4) by (intro fwd_drop_gaps [OF wf mi]) auto
    show ?thesis
    proof (cases res)
      case None
      have "free_part mb nid {mi..} {ri'..} = free_part mb nid {Suc mi..} {ri'..}"
        using R(5) None by (intro fwd_drop_region [OF wf]) auto
      then show ?thesis using IH [of ri'] Suc.prems N True R(1-3) None mi drop1 by (auto simp: S Let_def)
    next
      case (Some ab)
      obtain a b where ab: "ab = (a, b)" by (cases ab)
      have k: "ri' \<le> mt_cnt (reserved mb)" "a = gap_start (reserved mb) ri'" "b = gap_end (reserved mb) ri'"
        using R(6) Some ab by auto
      note F = fwd_found [OF wf mi k(1)] and H = free_part_here [OF mi k(1) True] range_ofI [OF mi k(1) True]
      have last: "ri' < mt_cnt (reserved mb)" if "\<not> rend ?m \<le> b"
        using that k rend_le_max [of ?m] by (cases "ri' = mt_cnt (reserved mb)") (auto simp: gap_end_def)
      have nn: "nat (int mi + 1) = Suc mi" "nat (int ri' + 1) = Suc ri'" by auto
      show ?thesis
      proof (cases "rend ?m \<le> b")
        case le: True
        then have "min (rend ?m) b = rend ?m" by simp
        then show ?thesis using le F(1,2) H N True R(1-3) Some ab k mi drop1 Suc.prems nn by (simp add: S Let_def)
      next
        case nle: False
        then have "min (rend ?m) b = b" by (simp add: min_absorb2)
        then show ?thesis using nle F(3,4) H N True R(1-3) Some ab k mi drop1 Suc.prems nn last [OF nle]
          by (simp add: S Let_def)
      qed
    qed
  qed
qed

lemma free_ranges_spec:
  assumes wf: "mb_wf mb" "small mb"
    and idx: "idx_mi idx = int mi" "idx_ri idx = int ri" "mi \<le> mt_cnt (memory mb)" "ri \<le> mt_cnt (reserved mb)"
    and n: "mt_cnt (memory mb) + mt_cnt (reserved mb) < n + mi + ri"
  shows "\<exists>rs. free_ranges n mb nid idx = Val rs \<and> range_set rs = free_part mb nid {mi..} {ri..} \<and>
    (\<forall>r\<in>set rs. range_of mb nid r) \<and> sorted_wrt ascending rs"
  using idx n
proof (induction n arbitrary: idx mi ri)
  case 0
  then show ?case by simp
next
  case (Suc n)
  obtain r where r: "fwd_mem mb nid mi ri = Val r" and spec: "r = None \<longrightarrow> free_part mb nid {mi..} {ri..} = {}"
    "\<And>f. r = Some f \<Longrightarrow> int mi \<le> fr_mi f \<and> fr_mi f \<le> int (mt_cnt (memory mb)) \<and>
       int ri \<le> fr_ri f \<and> fr_ri f \<le> int (mt_cnt (reserved mb)) \<and> int mi + int ri < fr_mi f + fr_ri f \<and>
       range_of mb nid (fr_start f, fr_end f, fr_nid f) \<and>
       free_part mb nid {mi..} {ri..} =
         {fr_start f ..< fr_end f} \<union> free_part mb nid {nat (fr_mi f)..} {nat (fr_ri f)..} \<and>
       (\<forall>x \<in> free_part mb nid {nat (fr_mi f)..} {nat (fr_ri f)..}. fr_end f \<le> x)"
    using fwd_mem_spec [OF wf(1) Suc.prems(3), of ri nid] Suc.prems(4) by auto
  have nx: "next_free_mem_range mb nid idx = Val (step_result r)"
    using r Suc.prems(1,2) by (simp add: next_free_mem_range_def)
  show ?case
  proof (cases r)
    case None
    then show ?thesis using nx spec(1) by (simp add: step_result_def range_set_def)
  next
    case (Some f)
    note S = spec(2) [OF Some]
    have f: "- 1 \<le> fr_mi f" "fr_mi f < 2 ^ 31" "0 \<le> fr_ri f" "fr_ri f < 2 ^ 31"
      using S wf(2) by (auto simp: small_def)
    then have p: "idx_mi (pack_idx (fr_mi f) (fr_ri f)) = int (nat (fr_mi f))" "idx_ri (pack_idx (fr_mi f) (fr_ri f)) = int (nat (fr_ri f))"
      "pack_idx (fr_mi f) (fr_ri f) \<noteq> ULLONG_MAX"
      using idx_roundtrip [of "fr_mi f" "fr_ri f"] pack_not_end [OF f] S by auto
    have b: "nat (fr_mi f) \<le> mt_cnt (memory mb)" "nat (fr_ri f) \<le> mt_cnt (reserved mb)"
      "mt_cnt (memory mb) + mt_cnt (reserved mb) < n + nat (fr_mi f) + nat (fr_ri f)"
      using S Suc.prems(5) by auto
    obtain rs where rs: "free_ranges n mb nid (pack_idx (fr_mi f) (fr_ri f)) = Val rs"
      "range_set rs = free_part mb nid {nat (fr_mi f)..} {nat (fr_ri f)..}" "\<forall>r\<in>set rs. range_of mb nid r"
      "sorted_wrt ascending rs"
      using Suc.IH [OF p(1,2) b] by blast
    have "\<forall>r\<in>set rs. ascending (fr_start f, fr_end f, fr_nid f) r"
      using S rs(2) [symmetric] by (auto simp: range_set_def ascending_def)
    then show ?thesis using S rs nx Some p(3) by (simp add: step_result_def range_set_def)
  qed
qed

subsection \<open>Search results\<close>

primrec first_fit :: "u64 \<Rightarrow> u64 \<Rightarrow> u64 \<Rightarrow> u64 \<Rightarrow> (u64 \<times> u64 \<times> int) list \<Rightarrow> u64" where
  "first_fit start e sz align [] = 0"
| "first_fit start e sz align (r # rs) =
     (let this_start = clamp (fst r) start e; this_end = clamp (fst (snd r)) start e;
          cand = round_down (this_end - sz) align
      in if \<not> this_end < sz \<and> this_start \<le> cand then cand else first_fit start e sz align rs)"

lemma find_loop_first_fit:
  "free_ranges_rev n mb nid idx = Val rs \<Longrightarrow>
   find_loop n mb nid start e sz align idx = Val (first_fit start e sz align rs)"
proof (induction n arbitrary: idx rs)
  case (Suc n)
  obtain idx' x where nx: "next_free_mem_range_rev mb nid idx = Val (idx', x)" using Suc.prems by auto
  show ?case
  proof (cases "idx' = ULLONG_MAX")
    case True
    then show ?thesis using Suc.prems nx by simp
  next
    case False
    obtain s t nd rs' where x: "x = Some (s, t, nd)" "free_ranges_rev n mb nid idx' = Val rs'" "rs = (s, t, nd) # rs'"
      using Suc.prems nx False by (auto split: option.splits)
    then show ?thesis using nx False Suc.IH [OF x(2)] by (simp add: Let_def)
  qed
qed simp

lemma round_down_le: "round_down x y \<le> x"
  by (simp add: round_down_def word_and_le2)

lemma round_down_aligned: "round_down x y AND (y - 1) = 0"
  by (simp add: round_down_def and.assoc)

lemma sub_room:
  fixes a b c :: u64
  assumes "a \<le> b - c" "c \<le> b"
  shows "a \<le> a + c" "a + c \<le> b"
proof -
  have "unat (b - c) = unat b - unat c" using assms(2) by (simp add: unat_sub word_le_nat_alt)
  then have le: "unat a + unat c \<le> unat b" using assms by (simp add: word_le_nat_alt)
  have "unat b < 2 ^ 64" using unsigned_less [of b, where 'a = nat] by simp
  then have "unat (a + c) = unat a + unat c" using le by (simp add: unat_word_ariths)
  then show "a \<le> a + c" "a + c \<le> b" using le by (simp_all add: word_le_nat_alt)
qed

lemma clamp_range:
  assumes "start \<le> e" "clamp s start e \<le> a" "a \<le> f" "f \<le> clamp t start e"
  shows "start \<le> a" "f \<le> e" "a \<le> x \<Longrightarrow> x < f \<Longrightarrow> s \<le> x \<and> x < t"
  using assms by (auto simp: clamp_def min_def max_def split: if_splits)

lemma first_fit_sound:
  assumes "start \<le> e" and a_def: "a = first_fit start e sz align rs"
  shows "a = 0 \<or> start \<le> a \<and> a \<le> a + sz \<and> a + sz \<le> e \<and> a AND (align - 1) = 0 \<and> {a ..< a + sz} \<subseteq> range_set rs"
  unfolding a_def
proof (induction rs)
  case (Cons r rs)
  let ?s = "clamp (fst r) start e" and ?t = "clamp (fst (snd r)) start e"
  let ?c = "round_down (?t - sz) align"
  show ?case
  proof (cases "\<not> ?t < sz \<and> ?s \<le> ?c")
    case True
    then have "sz \<le> ?t" by (simp add: not_less)
    note c = sub_room [OF round_down_le [of "?t - sz" align] this]
    note R = clamp_range [OF assms(1) _ c, of "fst r"]
    have "{?c ..< ?c + sz} \<subseteq> {fst r ..< fst (snd r)}" using R(3) True by (intro subsetI) simp
    then show ?thesis using True R(1,2) c(1) round_down_aligned [of "?t - sz" align]
      by (auto simp: Let_def range_set_def)
  next
    case False
    then have "first_fit start e sz align (r # rs) = first_fit start e sz align rs" by (auto simp: Let_def)
    moreover have "range_set rs \<subseteq> range_set (r # rs)" by (auto simp: range_set_def)
    ultimately show ?thesis using Cons.IH by auto
  qed
qed simp

lemma and_not_mask_unat: "unat (x AND NOT (mask p) :: u64) = unat x - unat x mod 2 ^ p"
proof -
  have "x - take_bit p x = x AND NOT (take_bit p x)" by (rule disjunctive_diff) (simp add: bit_take_bit_iff)
  also have "\<dots> = x AND NOT (mask p)" by (rule bit_word_eqI) (auto simp: bit_simps)
  finally have e: "x AND NOT (mask p) = x - take_bit p x" by simp
  have t: "unat (take_bit p x) = unat x mod 2 ^ p" unfolding unsigned_take_bit_eq by (simp add: take_bit_eq_mod)
  then have "take_bit p x \<le> x" by (simp add: word_le_nat_alt)
  then show ?thesis using t by (simp add: e unat_sub word_le_nat_alt)
qed

lemma round_down_greatest:
  assumes "align = 2 ^ p" "c AND (align - 1) = 0" "c \<le> x"
  shows "c \<le> round_down x align"
proof -
  have m: "align - 1 = mask p" using assms(1) by (simp add: mask_eq_exp_minus_1)
  have "take_bit p c = 0" using assms(2) m by (simp add: take_bit_eq_mask)
  then have "unat c mod 2 ^ p = 0" by (metis take_bit_eq_mod unsigned_0 unsigned_take_bit_eq)
  then obtain q where q: "unat c = q * 2 ^ p" by (metis mod_0_imp_dvd dvd_div_mult_self)
  have "q * 2 ^ p \<le> unat x" using assms(3) q by (simp add: word_le_nat_alt)
  then have "q \<le> unat x div 2 ^ p" by (simp add: less_eq_div_iff_mult_less_eq)
  then have "q * 2 ^ p \<le> unat x div 2 ^ p * 2 ^ p" by simp
  also have "\<dots> = unat x - unat x mod 2 ^ p" by (simp add: minus_mod_eq_div_mult)
  finally show ?thesis using q m by (simp add: round_down_def word_le_nat_alt and_not_mask_unat)
qed

lemma add_le_sub:
  fixes c sz t :: u64
  assumes "c \<le> c + sz" "c + sz \<le> t"
  shows "sz \<le> t" "c \<le> t - sz"
proof -
  have "unat (c + sz) = unat c + unat sz"
    using assms(1) by (metis unat_plus_simple)
  then have le: "unat c + unat sz \<le> unat t" using assms(2) by (simp add: word_le_nat_alt)
  then show 1: "sz \<le> t" by (simp add: word_le_nat_alt)
  then show "c \<le> t - sz" using le by (simp add: word_le_nat_alt unat_sub)
qed

lemma first_fit_complete:
  assumes "start \<le> e" "0 < start" "align = 2 ^ p" "r \<in> set rs"
    and c: "c AND (align - 1) = 0" "start \<le> c" "c \<le> c + sz" "c + sz \<le> e" "fst r \<le> c" "c + sz \<le> fst (snd r)"
  shows "first_fit start e sz align rs \<noteq> 0"
  using assms(4)
proof (induction rs)
  case (Cons q rs)
  let ?s = "clamp (fst q) start e" and ?t = "clamp (fst (snd q)) start e"
  have pos: "x \<noteq> 0" if "?s \<le> x" for x
    using that assms(1,2) by (auto simp: clamp_def min_def max_def split: if_splits)
  show ?case
  proof (cases "\<not> ?t < sz \<and> ?s \<le> round_down (?t - sz) align")
    case True
    then show ?thesis using pos by (simp add: Let_def)
  next
    case no: False
    have "q \<noteq> r"
    proof
      assume q: "q = r"
      have t: "c + sz \<le> ?t" using c(4,6) q by (auto simp: clamp_def le_max_iff_disj)
      have "?s \<le> c" using c(2,5) q by (auto simp: clamp_def min_def max_def)
      also have "c \<le> round_down (?t - sz) align"
        by (rule round_down_greatest [OF assms(3) c(1) add_le_sub(2) [OF c(3) t]])
      finally show False using no add_le_sub(1) [OF c(3) t] by auto
    qed
    then show ?thesis using no Cons by (auto simp: Let_def)
  qed
qed simp

lemma rev_pos_start:
  assumes "mb_wf mb"
  shows "rev_pos mb ULLONG_MAX (int (mt_cnt (memory mb)) - 1) (int (mt_cnt (reserved mb)))"
  by (simp add: rev_pos_def)

lemma free_part_bounded:
  "free_part mb nid UNIV UNIV = free_part mb nid {..<mt_cnt (memory mb)} {..<Suc (mt_cnt (reserved mb))}"
proof (intro equalityI subsetI)
  fix x assume "x \<in> free_part mb nid UNIV UNIV"
  then obtain i k where "i < mt_cnt (memory mb)" "k \<le> mt_cnt (reserved mb)" "node_matches nid (live (memory mb) ! i)"
    "rg_base (live (memory mb) ! i) \<le> x" "x < rend (live (memory mb) ! i)"
    "gap_start (reserved mb) k \<le> x" "x < gap_end (reserved mb) k" by (elim free_partD) blast
  then show "x \<in> free_part mb nid {..<mt_cnt (memory mb)} {..<Suc (mt_cnt (reserved mb))}"
    by (intro free_partI [of i _ k]) auto
qed (use free_part_mono [of _ UNIV _ UNIV] in blast)

lemma free_ranges_rev_all:
  assumes "mb_wf mb" "small mb"
  obtains rs where "free_ranges_rev (iter_bound mb) mb nid ULLONG_MAX = Val rs" "range_set rs = free_mem mb nid"
    "\<forall>r\<in>set rs. range_of mb nid r" "sorted_wrt descending rs"
proof -
  have "int (mt_cnt (memory mb)) - 1 + int (mt_cnt (reserved mb)) + 1 < int (iter_bound mb)"
    by (simp add: iter_bound_def)
  then obtain rs where "free_ranges_rev (iter_bound mb) mb nid ULLONG_MAX = Val rs"
    "range_set rs = free_part mb nid {..<nat (int (mt_cnt (memory mb)) - 1 + 1)} {..<nat (int (mt_cnt (reserved mb)) + 1)}"
    "\<forall>r\<in>set rs. range_of mb nid r" "sorted_wrt descending rs"
    using free_ranges_rev_spec [OF assms rev_pos_start [OF assms(1)]] by blast
  moreover have "nat (int (mt_cnt (reserved mb)) + 1) = Suc (mt_cnt (reserved mb))" by simp
  ultimately show ?thesis
    using that free_part_all [OF assms(1), of nid] free_part_bounded [of mb nid] by simp
qed

lemma free_ranges_all:
  assumes "mb_wf mb" "small mb"
  obtains rs where "free_ranges (iter_bound mb) mb nid 0 = Val rs" "range_set rs = free_mem mb nid"
    "\<forall>r\<in>set rs. range_of mb nid r" "sorted_wrt ascending rs"
proof -
  have z: "idx_mi 0 = int 0" "idx_ri 0 = int 0" by (simp_all add: idx_mi_def idx_ri_def)
  have u: "{(0::nat)..} = UNIV" by auto
  have "mt_cnt (memory mb) + mt_cnt (reserved mb) < iter_bound mb + 0 + 0" by (simp add: iter_bound_def)
  then show ?thesis
    using that free_ranges_spec [OF assms z, of "iter_bound mb" nid] free_part_all [OF assms(1), of nid] by (auto simp: u)
qed

abbreviation find_start :: "u64 \<Rightarrow> u64" where
  "find_start start \<equiv> max start PAGE_SIZE"

abbreviation find_end :: "memblock \<Rightarrow> u64 \<Rightarrow> u64 \<Rightarrow> u64" where
  "find_end mb start e \<equiv> max (find_start start) (if e = MEMBLOCK_ALLOC_ACCESSIBLE then current_limit mb else e)"

lemma find_eq_first_fit:
  assumes "mb_wf mb" "small mb"
  obtains rs where "memblock_find_in_range_node mb start e sz align nid =
      Val (first_fit (find_start start) (find_end mb start e) sz align rs)"
    "range_set rs = free_mem mb nid" "\<forall>r\<in>set rs. range_of mb nid r"
  using free_ranges_rev_all [OF assms, of nid] find_loop_first_fit
  by (metis (no_types, lifting) memblock_find_in_range_node_def)

lemma find_sound:
  assumes "mb_wf mb" "small mb"
  shows "\<exists>a. memblock_find_in_range_node mb start e sz align nid = Val a \<and>
    (a = 0 \<or> find_start start \<le> a \<and> a \<le> a + sz \<and> a + sz \<le> find_end mb start e \<and> a AND (align - 1) = 0 \<and>
       {a ..< a + sz} \<subseteq> free_mem mb nid)"
proof -
  obtain rs where rs: "memblock_find_in_range_node mb start e sz align nid =
      Val (first_fit (find_start start) (find_end mb start e) sz align rs)" "range_set rs = free_mem mb nid"
    using find_eq_first_fit [OF assms] by metis
  show ?thesis
    using first_fit_sound [of "find_start start" "find_end mb start e" _ sz align rs] rs by auto
qed

lemma range_end_covers:
  assumes wf: "mb_wf mb" and ro: "range_of mb nid (s, t, n)" and c: "s \<le> c" "c < t" "c \<le> d"
    and r: "r \<in> set (rgns (memory mb))" "rg_base r \<le> c" "d \<le> rend r"
    and free: "{c ..< d} \<inter> cover (rgns (reserved mb)) = {}"
  shows "d \<le> t"
proof -
  have m: "mt_wf (memory mb)" and rv: "mt_wf (reserved mb)" using wf by (auto simp: mb_wf_def)
  obtain i k where ik: "i < mt_cnt (memory mb)" "k \<le> mt_cnt (reserved mb)"
    "s = max (rg_base (live (memory mb) ! i)) (gap_start (reserved mb) k)"
    "t = min (rend (live (memory mb) ! i)) (gap_end (reserved mb) k)"
    using ro unfolding range_of_def by auto
  have "rgns (memory mb) = live (memory mb)" using m r(1) by (cases rule: mt_wf_cases) auto
  then obtain j where j: "j < mt_cnt (memory mb)" "r = live (memory mb) ! j"
    using r(1) arr_length_live [OF mt_wf_arr_ok [OF m]] by (metis in_set_conv_nth)
  have "d \<le> rend (live (memory mb) ! i)"
  proof (cases i j rule: linorder_cases)
    case less
    then have "rend (live (memory mb) ! i) \<le> rg_base r" using wf_nth_sorted [OF m _ j(1)] j(2) by simp
    then show ?thesis using c r(2) ik by auto
  next
    case greater
    then have "rend r \<le> rg_base (live (memory mb) ! i)" using wf_nth_sorted [OF m _ ik(1)] j(2) by simp
    then show ?thesis using c r(3) ik by auto
  qed (use j r(3) in simp)
  moreover have "d \<le> gap_end (reserved mb) k"
  proof (cases "k < mt_cnt (reserved mb)")
    case True
    let ?b = "rg_base (live (reserved mb) ! k)"
    have cb: "c < ?b" using c(2) ik(4) True by (simp add: gap_end_def)
    show ?thesis
      using rv
    proof (cases rule: mt_wf_cases)
      case (empty n)
      then show ?thesis using cb True by simp
    next
      case regions
      have "?b < rend (live (reserved mb) ! k)"
        using regions(2) True arr_length_live [OF mt_wf_arr_ok [OF rv]] by (intro regions_ok_nonempty) auto
      then have "?b \<in> cover (rgns (reserved mb))" using cover_nth [OF rv] True by auto
      moreover have "?b \<in> {c ..< d}" if "?b < d" using that cb by (simp add: less_imp_le)
      ultimately have "\<not> ?b < d" using free by blast
      then show ?thesis using True by (simp add: gap_end_def)
    qed
  qed (simp add: gap_end_def ULLONG_MAX_def)
  ultimately show ?thesis using ik(4) by simp
qed

lemma find_complete:
  assumes wf: "mb_wf mb" "small mb" and found: "memblock_find_in_range_node mb start e sz (2 ^ p) nid = Val 0"
    and r: "r \<in> set (rgns (memory mb))" "node_matches nid r" and sz: "0 < sz"
    and c: "c AND (2 ^ p - 1) = 0" "find_start start \<le> c" "c \<le> c + sz" "c + sz \<le> find_end mb start e"
    and fit: "rg_base r \<le> c" "c + sz \<le> rend r"
  shows "{c ..< c + sz} \<inter> cover (rgns (reserved mb)) \<noteq> {}"
proof
  assume free: "{c ..< c + sz} \<inter> cover (rgns (reserved mb)) = {}"
  obtain rs where rs: "memblock_find_in_range_node mb start e sz (2 ^ p) nid =
      Val (first_fit (find_start start) (find_end mb start e) sz (2 ^ p) rs)"
    "range_set rs = free_mem mb nid" "\<forall>r\<in>set rs. range_of mb nid r"
    using find_eq_first_fit [OF wf] by metis
  have lt: "c < c + sz" using c(3) sz by (auto simp: order.order_iff_strict)
  have "c \<in> {c ..< c + sz}" using lt by simp
  then have "c \<notin> cover (rgns (reserved mb))" using free by blast
  moreover have "c < rend r" using lt fit(2) by (rule order.strict_trans2)
  then have "c \<in> cover (filter (node_matches nid) (rgns (memory mb)))" using r fit(1) unfolding cover_def by auto
  ultimately have "c \<in> range_set rs" unfolding rs(2) by (simp add: free_mem_def)
  then obtain s t n where q: "(s, t, n) \<in> set rs" "s \<le> c" "c < t"
    by (auto simp: range_set_def)
  have "c + sz \<le> t"
    using rs(3) q range_end_covers [OF wf(1) _ q(2,3) c(3) r(1) fit free] by blast
  moreover have "0 < find_start start" by (simp add: PAGE_SIZE_def max_def word_gt_0) (metis word_not_simps(1) not_le)
  ultimately have "first_fit (find_start start) (find_end mb start e) sz (2 ^ p) rs \<noteq> 0"
    using first_fit_complete [OF _ _ refl q(1) c(1-4)] q(2) by simp
  then show False using rs(1) found by simp
qed

subsection \<open>The binary search\<close>

lemma search_miss:
  assumes "mt_wf t" "\<And>j. j < m \<Longrightarrow> rend (live t ! j) \<le> addr"
    "\<And>j. m \<le> j \<Longrightarrow> j < mt_cnt t \<Longrightarrow> addr < rg_base (live t ! j)"
  shows "addr \<notin> cover (rgns t)"
proof
  assume "addr \<in> cover (rgns t)"
  then obtain i where i: "i < mt_cnt t" "rg_base (live t ! i) \<le> addr" "addr < rend (live t ! i)"
    using cover_nth [OF assms(1)] by auto
  then show False using assms(2) [of i] assms(3) [of i] by (cases "i < m") auto
qed

lemma search_loop_correct:
  assumes wf: "mt_wf t" and "left < right" "right \<le> mt_cnt t"
    and "\<And>j. j < left \<Longrightarrow> rend (live t ! j) \<le> addr"
    and "\<And>j. right \<le> j \<Longrightarrow> j < mt_cnt t \<Longrightarrow> addr < rg_base (live t ! j)"
  shows "\<exists>i. search_loop t addr left right = Val i \<and>
    (i = - 1 \<and> addr \<notin> cover (rgns t) \<or>
     0 \<le> i \<and> nat i < mt_cnt t \<and> rg_base (live t ! nat i) \<le> addr \<and> addr < rend (live t ! nat i))"
  using assms(2-)
proof (induction "right - left" arbitrary: left right rule: less_induct)
  case less
  define mid where "mid = (right + left) div 2"
  have mid: "left \<le> mid" "mid < right" "mid < mt_cnt t" using less.prems(1,2) by (auto simp: mid_def)
  note N = wf_nth_le [OF wf mid(3)]
  have S: "search_loop t addr left right =
      (if addr < rg_base (live t ! mid) then (if left < mid then search_loop t addr left mid else Val (- 1))
       else if rend (live t ! mid) \<le> addr then (if mid + 1 < right then search_loop t addr (mid + 1) right else Val (- 1))
       else Val (int mid))"
    using N by (simp add: search_loop.simps [of t addr left right] mid_def [symmetric])
  consider (low) "addr < rg_base (live t ! mid)" | (high) "\<not> addr < rg_base (live t ! mid)" "rend (live t ! mid) \<le> addr"
    | (hit) "\<not> addr < rg_base (live t ! mid)" "\<not> rend (live t ! mid) \<le> addr" by blast
  then show ?case
  proof cases
    case low
    have hi: "addr < rg_base (live t ! j)" if "mid \<le> j" "j < mt_cnt t" for j
      using low that wf_nth_sorted [OF wf, of mid j] N(1) by (cases "j = mid") auto
    show ?thesis
    proof (cases "left < mid")
      case True
      then show ?thesis using less.hyps [of mid left] less.prems(3) mid hi low by (simp add: S)
    next
      case False
      then have "search_loop t addr left right = Val (- 1)" using low by (simp add: S)
      moreover have "addr \<notin> cover (rgns t)" using search_miss [OF wf, of mid] less.prems(3) hi mid(1) False by auto
      ultimately show ?thesis by blast
    qed
  next
    case high
    have lo: "rend (live t ! j) \<le> addr" if "j < Suc mid" for j
      using high(2) that wf_nth_sorted [OF wf _ mid(3), of j] N(1) by (cases "j = mid") auto
    show ?thesis
    proof (cases "mid + 1 < right")
      case True
      then show ?thesis using less.hyps [of right "mid + 1"] less.prems(2,4) mid lo high by (simp add: S)
    next
      case False
      then have "search_loop t addr left right = Val (- 1)" using high by (simp add: S)
      moreover have "addr \<notin> cover (rgns t)" using search_miss [OF wf, of "Suc mid"] less.prems(4) lo False mid(2) by auto
      ultimately show ?thesis by blast
    qed
  next
    case hit
    then show ?thesis using mid by (auto simp: S)
  qed
qed

lemma memblock_search_correct:
  assumes "mt_wf t"
  shows "\<exists>i. memblock_search t addr = Val i \<and>
    (i = - 1 \<and> addr \<notin> cover (rgns t) \<or>
     0 \<le> i \<and> nat i < mt_cnt t \<and> rg_base (live t ! nat i) \<le> addr \<and> addr < rend (live t ! nat i))"
  unfolding memblock_search_def using mt_wf_cnt_pos [OF assms] by (intro search_loop_correct [OF assms]) auto

end
