(* ===== verification/Memblock_Map.thy ===== *)
theory Memblock_Map
  imports Memblock_Find
begin

text \<open>
  The memory map, operations that change it (\<open>mm/memblock.c\<close>): adding, reserving, removing and freeing ranges, growing a full array,
  allocation, node assignment and the memory limit. \<open>memblock_double_array\<close> and the operations that call it call each other;
  the operations take the resize routine as an argument and \<open>double_array\<close> ties the knot with a bound on the nesting.

  Shown: the effect of each operation on the set of addresses it describes; that growing the
  reservations never needs a nested resize; that an allocation is free memory and is reserved afterwards.
\<close>

datatype mtype = Memory | Reserved

primrec get_type :: "mtype \<Rightarrow> memblock \<Rightarrow> memblock_type" where
  "get_type Memory mb = memory mb"
| "get_type Reserved mb = reserved mb"

primrec put_type :: "mtype \<Rightarrow> memblock_type \<Rightarrow> memblock \<Rightarrow> memblock" where
  "put_type Memory t mb = mb\<lparr>memory := t\<rparr>"
| "put_type Reserved t mb = mb\<lparr>reserved := t\<rparr>"

text \<open>
  What the code takes from its surroundings: whether the slab allocator is up, the physical address \<open>kmalloc\<close> returns for a size
  (0 when it fails), and the memory behind a region array.
\<close>

record mb_env =
  env_slab :: bool
  env_kmalloc :: "u64 \<Rightarrow> u64"
  env_beyond :: memblock_region

type_synonym resizer = "mtype \<Rightarrow> u64 \<Rightarrow> u64 \<Rightarrow> memblock \<Rightarrow> (bool \<times> memblock) outcome"

subsection \<open>Operations\<close>

text \<open>
  The loop \<open>while (type->cnt + n > type->max)\<close> around the resize; the array length is an \<open>unsigned long\<close>, so that
  it cannot double more than 64 times.
\<close>

primrec make_room :: "nat \<Rightarrow> resizer \<Rightarrow> mtype \<Rightarrow> nat \<Rightarrow> u64 \<Rightarrow> u64 \<Rightarrow> memblock \<Rightarrow> (bool \<times> memblock) outcome" where
  "make_room 0 dbl w n start sz mb = Trap"
| "make_room (Suc rounds) dbl w n start sz mb =
     (if mt_cnt (get_type w mb) + n \<le> mt_max (get_type w mb) then Val (True, mb)
      else bind_outcome (dbl w start sz mb)
        (\<lambda>(ok, mb'). if ok then make_room rounds dbl w n start sz mb' else Val (False, mb')))"

definition memblock_add_region ::
  "resizer \<Rightarrow> mb_env \<Rightarrow> mtype \<Rightarrow> u64 \<Rightarrow> u64 \<Rightarrow> int \<Rightarrow> memblock \<Rightarrow> (errno option \<times> memblock) outcome" where
  "memblock_add_region dbl env w base sz nid mb =
     (let sz = memblock_cap_size base sz; e = base + sz; t = get_type w mb in
      if sz = 0 then Val (None, mb)
      else if mt_regions t = [] then Trap
      else if rg_size (mt_regions t ! 0) = 0
      then Val (None, put_type w (t\<lparr>mt_regions := (mt_regions t)[0 := mk_region base sz nid], mt_total := sz\<rparr>) mb)
      else bind_outcome (add_round (env_beyond env) False nid base e t)
        (\<lambda>(nr_new, _). bind_outcome (make_room 64 dbl w nr_new base sz mb)
          (\<lambda>(ok, mb). if \<not> ok then Val (Some ENOMEM, mb)
             else bind_outcome (add_round (env_beyond env) True nid base e (get_type w mb))
               (\<lambda>(_, t). bind_outcome (memblock_merge_regions (env_beyond env) t)
                 (\<lambda>t. Val (None, put_type w t mb))))))"

definition memblock_isolate_range ::
  "resizer \<Rightarrow> mb_env \<Rightarrow> mtype \<Rightarrow> u64 \<Rightarrow> u64 \<Rightarrow> memblock \<Rightarrow> (errno option \<times> nat \<times> nat \<times> memblock) outcome" where
  "memblock_isolate_range dbl env w base sz mb =
     (let sz = memblock_cap_size base sz; e = base + sz in
      if sz = 0 then Val (None, 0, 0, mb)
      else bind_outcome (make_room 64 dbl w 2 base sz mb)
        (\<lambda>(ok, mb). if \<not> ok then Val (Some ENOMEM, 0, 0, mb)
           else bind_outcome (isolate_scan (env_beyond env) base e 0 0 0 (get_type w mb))
             (\<lambda>(start_rgn, end_rgn, t). Val (None, start_rgn, end_rgn, put_type w t mb))))"

definition memblock_remove_range ::
  "resizer \<Rightarrow> mb_env \<Rightarrow> mtype \<Rightarrow> u64 \<Rightarrow> u64 \<Rightarrow> memblock \<Rightarrow> (errno option \<times> memblock) outcome" where
  "memblock_remove_range dbl env w base sz mb =
     bind_outcome (memblock_isolate_range dbl env w base sz mb)
       (\<lambda>(ret, start_rgn, end_rgn, mb).
          if ret \<noteq> None then Val (ret, mb)
          else bind_outcome (remove_down (env_beyond env) start_rgn (end_rgn - start_rgn) (get_type w mb))
            (\<lambda>t. Val (None, put_type w t mb)))"

definition memblock_free :: "resizer \<Rightarrow> mb_env \<Rightarrow> u64 \<Rightarrow> u64 \<Rightarrow> memblock \<Rightarrow> (errno option \<times> memblock) outcome" where
  "memblock_free dbl env base sz mb = memblock_remove_range dbl env Reserved base sz mb"

definition memblock_remove :: "resizer \<Rightarrow> mb_env \<Rightarrow> u64 \<Rightarrow> u64 \<Rightarrow> memblock \<Rightarrow> (errno option \<times> memblock) outcome" where
  "memblock_remove dbl env base sz mb = memblock_remove_range dbl env Memory base sz mb"

definition memblock_reserve :: "resizer \<Rightarrow> mb_env \<Rightarrow> u64 \<Rightarrow> u64 \<Rightarrow> memblock \<Rightarrow> (errno option \<times> memblock) outcome" where
  "memblock_reserve dbl env base sz mb = memblock_add_region dbl env Reserved base sz MAX_NUMNODES mb"

definition memblock_add_node :: "resizer \<Rightarrow> mb_env \<Rightarrow> u64 \<Rightarrow> u64 \<Rightarrow> int \<Rightarrow> memblock \<Rightarrow> (errno option \<times> memblock) outcome" where
  "memblock_add_node dbl env base sz nid mb = memblock_add_region dbl env Memory base sz nid mb"

definition memblock_add :: "resizer \<Rightarrow> mb_env \<Rightarrow> u64 \<Rightarrow> u64 \<Rightarrow> memblock \<Rightarrow> (errno option \<times> memblock) outcome" where
  "memblock_add dbl env base sz mb = memblock_add_region dbl env Memory base sz MAX_NUMNODES mb"

text \<open>\<open>sizeof(struct memblock_region)\<close>: two 64-bit fields and an \<open>int\<close>, padded.\<close>

definition sizeof_region :: nat where
  "sizeof_region = 24"

primrec array_at :: "mtype \<Rightarrow> memblock \<Rightarrow> u64 option" where
  "array_at Memory mb = memory_at mb"
| "array_at Reserved mb = reserved_at mb"

primrec set_array_at :: "mtype \<Rightarrow> u64 option \<Rightarrow> memblock \<Rightarrow> memblock" where
  "set_array_at Memory a mb = mb\<lparr>memory_at := a\<rparr>"
| "set_array_at Reserved a mb = mb\<lparr>reserved_at := a\<rparr>"

primrec in_slab :: "mtype \<Rightarrow> memblock \<Rightarrow> bool" where
  "in_slab Memory mb = memory_in_slab mb"
| "in_slab Reserved mb = reserved_in_slab mb"

primrec set_in_slab :: "mtype \<Rightarrow> bool \<Rightarrow> memblock \<Rightarrow> memblock" where
  "set_in_slab Memory b mb = mb\<lparr>memory_in_slab := b\<rparr>"
| "set_in_slab Reserved b mb = mb\<lparr>reserved_in_slab := b\<rparr>"

definition array_bytes :: "memblock_type \<Rightarrow> u64" where
  "array_bytes t = of_nat (mt_max t * sizeof_region)"

text \<open>The place for the new array: from \<open>kmalloc\<close>, or found above and then below the area to stay clear of.\<close>

definition new_array_at :: "mb_env \<Rightarrow> mtype \<Rightarrow> u64 \<Rightarrow> u64 \<Rightarrow> memblock \<Rightarrow> u64 outcome" where
  "new_array_at env w area_start area_size mb =
     (let new_size = push_bit 1 (array_bytes (get_type w mb)); new_alloc_size = PAGE_ALIGN new_size;
          area_start = (if w \<noteq> Reserved then 0 else area_start);
          area_size = (if w \<noteq> Reserved then 0 else area_size)
      in if env_slab env then Val (env_kmalloc env new_size)
         else bind_outcome (memblock_find_in_range mb (area_start + area_size) (current_limit mb) new_alloc_size PAGE_SIZE)
           (\<lambda>addr. if addr = 0 \<and> area_size \<noteq> 0
              then memblock_find_in_range mb 0 (min area_start (current_limit mb)) new_alloc_size PAGE_SIZE
              else Val addr))"

definition moved_array :: "memblock_type \<Rightarrow> memblock_type" where
  "moved_array t = t\<lparr>mt_regions := mt_regions t @ replicate (mt_max t) (mk_region 0 0 0), mt_max := 2 * mt_max t\<rparr>"

primrec double_array :: "nat \<Rightarrow> mb_env \<Rightarrow> resizer" where
  "double_array 0 env = (\<lambda>w area_start area_size mb. Trap)"
| "double_array (Suc depth) env = (\<lambda>w area_start area_size mb.
     if \<not> can_resize mb then Val (False, mb)
     else let t = get_type w mb;
              old_alloc_size = PAGE_ALIGN (array_bytes t);
              new_alloc_size = PAGE_ALIGN (push_bit 1 (array_bytes t))
       in bind_outcome (new_array_at env w area_start area_size mb)
         (\<lambda>addr. if addr = 0 then Val (False, mb)
            else let mb1 = set_array_at w (Some addr) (put_type w (moved_array t) mb)
              in bind_outcome
                (if in_slab w mb then Val mb1
                 else case array_at w mb of None \<Rightarrow> Val mb1
                   | Some old \<Rightarrow> bind_outcome (memblock_free (double_array depth env) env old old_alloc_size mb1) (\<lambda>(_, mb2). Val mb2))
                (\<lambda>mb2. bind_outcome
                   (if env_slab env then Val mb2
                    else bind_outcome (memblock_reserve (double_array depth env) env addr new_alloc_size mb2)
                      (\<lambda>(ret, mb3). if ret \<noteq> None then Trap else Val mb3))
                   (\<lambda>mb3. Val (True, set_in_slab w (env_slab env) mb3)))))"

definition memblock_double_array :: "mb_env \<Rightarrow> resizer" where
  "memblock_double_array env = double_array 4 env"

subsection \<open>Allocation\<close>

definition memblock_alloc_base_nid ::
  "resizer \<Rightarrow> mb_env \<Rightarrow> u64 \<Rightarrow> u64 \<Rightarrow> u64 \<Rightarrow> int \<Rightarrow> memblock \<Rightarrow> (u64 \<times> memblock) outcome" where
  "memblock_alloc_base_nid dbl env sz align max_addr nid mb =
     (let sz = round_up sz align in
      bind_outcome (memblock_find_in_range_node mb 0 max_addr sz align nid)
        (\<lambda>found. if found = 0 then Val (0, mb)
           else bind_outcome (memblock_reserve dbl env found sz mb)
             (\<lambda>(ret, mb). if ret = None then Val (found, mb) else Val (0, mb))))"

definition memblock_alloc_nid :: "resizer \<Rightarrow> mb_env \<Rightarrow> u64 \<Rightarrow> u64 \<Rightarrow> int \<Rightarrow> memblock \<Rightarrow> (u64 \<times> memblock) outcome" where
  "memblock_alloc_nid dbl env sz align nid mb = memblock_alloc_base_nid dbl env sz align MEMBLOCK_ALLOC_ACCESSIBLE nid mb"

definition memblock_alloc_base_any :: "resizer \<Rightarrow> mb_env \<Rightarrow> u64 \<Rightarrow> u64 \<Rightarrow> u64 \<Rightarrow> memblock \<Rightarrow> (u64 \<times> memblock) outcome" where
  "memblock_alloc_base_any dbl env sz align max_addr mb = memblock_alloc_base_nid dbl env sz align max_addr MAX_NUMNODES mb"

text \<open>\<open>memblock_alloc_base\<close> panics when there is no memory.\<close>

definition memblock_alloc_base :: "resizer \<Rightarrow> mb_env \<Rightarrow> u64 \<Rightarrow> u64 \<Rightarrow> u64 \<Rightarrow> memblock \<Rightarrow> (u64 \<times> memblock) outcome" where
  "memblock_alloc_base dbl env sz align max_addr mb =
     bind_outcome (memblock_alloc_base_any dbl env sz align max_addr mb)
       (\<lambda>(alloc, mb). if alloc = 0 then Trap else Val (alloc, mb))"

definition memblock_alloc :: "resizer \<Rightarrow> mb_env \<Rightarrow> u64 \<Rightarrow> u64 \<Rightarrow> memblock \<Rightarrow> (u64 \<times> memblock) outcome" where
  "memblock_alloc dbl env sz align mb = memblock_alloc_base dbl env sz align MEMBLOCK_ALLOC_ACCESSIBLE mb"

definition memblock_alloc_try_nid :: "resizer \<Rightarrow> mb_env \<Rightarrow> u64 \<Rightarrow> u64 \<Rightarrow> int \<Rightarrow> memblock \<Rightarrow> (u64 \<times> memblock) outcome" where
  "memblock_alloc_try_nid dbl env sz align nid mb =
     bind_outcome (memblock_alloc_nid dbl env sz align nid mb)
       (\<lambda>(res, mb). if res \<noteq> 0 then Val (res, mb)
          else memblock_alloc_base dbl env sz align MEMBLOCK_ALLOC_ACCESSIBLE mb)"

subsection \<open>Nodes and limits\<close>

definition set_nids :: "int \<Rightarrow> nat \<Rightarrow> nat \<Rightarrow> memblock_type \<Rightarrow> memblock_type" where
  "set_nids nid start_rgn end_rgn t =
     t\<lparr>mt_regions := take start_rgn (mt_regions t) @
         map (\<lambda>r. r\<lparr>rg_nid := nid\<rparr>) (take (end_rgn - start_rgn) (drop start_rgn (mt_regions t))) @
         drop end_rgn (mt_regions t)\<rparr>"

definition memblock_set_node :: "resizer \<Rightarrow> mb_env \<Rightarrow> u64 \<Rightarrow> u64 \<Rightarrow> int \<Rightarrow> memblock \<Rightarrow> (errno option \<times> memblock) outcome" where
  "memblock_set_node dbl env base sz nid mb =
     bind_outcome (memblock_isolate_range dbl env Memory base sz mb)
       (\<lambda>(ret, start_rgn, end_rgn, mb).
          if ret \<noteq> None then Val (ret, mb)
          else bind_outcome (memblock_merge_regions (env_beyond env) (set_nids nid start_rgn end_rgn (memory mb)))
            (\<lambda>t. Val (None, mb\<lparr>memory := t\<rparr>)))"

primrec limit_address :: "u64 \<Rightarrow> memblock_region list \<Rightarrow> u64" where
  "limit_address limit [] = ULLONG_MAX"
| "limit_address limit (r # rs) =
     (if limit \<le> rg_size r then rg_base r + limit else limit_address (limit - rg_size r) rs)"

definition memblock_enforce_memory_limit :: "resizer \<Rightarrow> mb_env \<Rightarrow> u64 \<Rightarrow> memblock \<Rightarrow> memblock outcome" where
  "memblock_enforce_memory_limit dbl env limit mb =
     (if limit = 0 then Val mb
      else let max_addr = limit_address limit (live (memory mb))
        in bind_outcome (memblock_remove_range dbl env Memory max_addr ULLONG_MAX mb)
          (\<lambda>(_, mb). bind_outcome (memblock_remove_range dbl env Reserved max_addr ULLONG_MAX mb)
            (\<lambda>(_, mb). Val mb)))"

subsection \<open>Ranges\<close>

lemma cap_size_end:
  assumes "memblock_cap_size base sz \<noteq> 0"
  shows "base < base + memblock_cap_size base sz"
proof -
  let ?s = "memblock_cap_size base sz"
  have "?s \<le> ULLONG_MAX - base" "base \<le> ULLONG_MAX" by (simp_all add: memblock_cap_size_def ULLONG_MAX_def)
  then have "base \<le> ?s + base" using add_le_sub(1) [of ?s base "?s + base"] sub_room(1) [of ?s ULLONG_MAX base] by simp
  then show ?thesis using assms by (simp add: order.order_iff_strict add.commute)
qed

lemma cap_size_id:
  assumes "base \<le> base + sz"
  shows "memblock_cap_size base sz = sz"
proof -
  have "sz \<le> sz + base" using add_le_sub(1) [OF assms order.refl] by (simp add: add.commute)
  then have "sz \<le> ULLONG_MAX - base" by (rule add_le_sub(2)) (simp add: ULLONG_MAX_def)
  then show ?thesis by (simp add: memblock_cap_size_def)
qed

lemma fill_disjoint_length:
  assumes "base < e" "regions_ok rs" "{base ..< e} \<inter> cover rs = {}"
  shows "length (fill nid e base rs) = Suc (length rs)"
  using assms(2,3)
proof (induction rs)
  case Nil
  then show ?case using assms(1) by simp
next
  case (Cons r rs)
  have r: "rg_base r < rend r" using Cons.prems(1) by simp
  have "rend r \<le> base" if "\<not> e \<le> rg_base r"
  proof (rule ccontr)
    assume "\<not> rend r \<le> base"
    then have "max base (rg_base r) \<in> {base ..< e} \<inter> cover (r # rs)" using r that assms(1) by (auto simp: max_def not_le)
    then show False using Cons.prems(2) by blast
  qed
  then show ?case using Cons assms(1) by (cases "e \<le> rg_base r") auto
qed

subsection \<open>Adding, once there is room\<close>

definition added :: "u64 \<Rightarrow> u64 \<Rightarrow> int \<Rightarrow> memblock_type \<Rightarrow> memblock_type \<Rightarrow> bool" where
  "added base e nid t t' \<longleftrightarrow> mt_wf t' \<and> mt_max t' = mt_max t \<and>
     owners (rgns t') = owners (rgns t) \<union> ({base ..< e} - cover (rgns t)) \<times> {nid} \<and> minimal (rgns t') \<and> rgns t' \<noteq> [] \<and>
     mt_cnt t' \<le> max 1 (length (fill nid e base (rgns t)))"

lemma fill_nonempty: "base < e \<or> rs \<noteq> [] \<Longrightarrow> fill nid e base rs \<noteq> []"
  by (cases rs) auto

lemma insert_and_merge:
  assumes wf: "mt_wf t" and ne: "rgns t \<noteq> []" and lt: "base < e" and room: "length (fill nid e base (rgns t)) \<le> mt_max t"
  obtains nr t1 t2 where "add_round beyond True nid base e t = Val (nr, t1)" "memblock_merge_regions beyond t1 = Val t2"
    "added base e nid t t2"
proof -
  have l: "rgns t = live t" and ok: "regions_ok (live t)" using wf ne by (auto elim: mt_wf_cases)
  obtain nr t1 where t1: "add_round beyond True nid base e t = Val (nr, t1)" "arr_ok t1" "mt_max t1 = mt_max t"
    "live t1 = fill nid e base (live t)"
    using add_round_insert [OF mt_wf_arr_ok [OF wf], of nid e base beyond] room l by auto
  have ok1: "regions_ok (live t1)" using fill_ok [OF ok] lt t1(4) by (simp add: less_imp_le)
  obtain t2 where t2: "merge_loop beyond 0 t1 = Val t2" "arr_ok t2" "mt_max t2 = mt_max t1" "live t2 = merge (live t1)"
    using merge_loop_merge [OF t1(2), of 0 beyond] ok1 by auto
  have ne2: "live t2 \<noteq> []" using t2(4) t1(4) fill_nonempty [of base e] lt by simp
  have ok2: "regions_ok (live t2)" "owners (live t2) = owners (live t1)" using merge_effect [OF ok1] t2(4) by auto
  note W = mt_wfI [OF t2(2) ne2 ok2(1)]
  have "mt_cnt t2 \<le> length (fill nid e base (live t))"
    using arr_length_live [OF t2(2)] merge_length [of "live t1"] t2(4) t1(4) by simp
  then have "added base e nid t t2"
    unfolding added_def using W ok2(2) t1(3,4) t2(3,4) ne2 fill_owners [OF ok] l merge_minimal
    by (simp add: max.coboundedI2)
  then show ?thesis using that t1(1) t2(1) by (simp add: memblock_merge_regions_def)
qed

lemma add_to_empty:
  fixes nid :: int
  assumes wf: "mt_wf t" and e: "rgns t = []" and lt: "base < base + sz"
  defines "t' \<equiv> t\<lparr>mt_regions := (mt_regions t)[0 := mk_region base sz nid], mt_total := sz\<rparr>"
  shows "added base (base + sz) nid t t'"
proof -
  have "\<exists>n. live t = [mk_region 0 0 n]" using wf e by (auto elim: mt_wf_cases)
  then have c: "mt_cnt t = 1" using arr_length_live [OF mt_wf_arr_ok [OF wf]] by auto
  have "mt_regions t \<noteq> []" using c mt_wf_arr_ok [OF wf] by (auto simp: arr_ok_def)
  then have l: "live t' = [mk_region base sz nid]" using c by (cases "mt_regions t") (auto simp: live_def t'_def)
  have "arr_ok t'" using mt_wf_arr_ok [OF wf] l by (simp add: arr_ok_def t'_def)
  then have W: "mt_wf t'" "rgns t' = live t'" using mt_wfI [of t'] l lt by auto
  show ?thesis unfolding added_def using W l e lt c by (simp add: minimal_def t'_def)
qed

lemma get_put [simp]:
  "get_type w (put_type w t mb) = t"
  "put_type w t (put_type w u mb) = put_type w t mb"
  "put_type w (get_type w mb) mb = mb"
  by (cases w; simp)+

lemma make_room_done:
  "0 < k \<Longrightarrow> mt_cnt (get_type w mb) + n \<le> mt_max (get_type w mb) \<Longrightarrow> make_room k dbl w n s z mb = Val (True, mb)"
  by (cases k) simp_all

lemma make_room_round:
  "\<not> mt_cnt (get_type w mb) + n \<le> mt_max (get_type w mb) \<Longrightarrow>
   make_room 64 dbl w n s z mb =
     bind_outcome (dbl w s z mb) (\<lambda>(ok, mb'). if ok then make_room 63 dbl w n s z mb' else Val (False, mb'))"
proof -
  have "(64 :: nat) = Suc 63" by simp
  then show "\<not> mt_cnt (get_type w mb) + n \<le> mt_max (get_type w mb) \<Longrightarrow> ?thesis" by (simp only: make_room.simps if_False)
qed

lemma add_region_room:
  assumes wf: "mt_wf (get_type w mb)" and s: "s = memblock_cap_size base sz" "s \<noteq> 0"
    and room: "length (fill nid (base + s) base (rgns (get_type w mb))) \<le> mt_max (get_type w mb)"
  obtains t' where "memblock_add_region dbl env w base sz nid mb = Val (None, put_type w t' mb)"
    "added base (base + s) nid (get_type w mb) t'"
proof -
  let ?t = "get_type w mb" and ?e = "base + s"
  have lt: "base < ?e" using cap_size_end s by simp
  have ne: "mt_regions ?t \<noteq> []" using mt_wf_cnt_pos [OF wf] mt_wf_arr_ok [OF wf] by (auto simp: arr_ok_def)
  show ?thesis
  proof (cases "rgns ?t = []")
    case True
    then show ?thesis using that add_to_empty [OF wf True lt] mt_wf_empty_iff [OF wf] s ne
      by (simp add: memblock_add_region_def Let_def)
  next
    case False
    then have l: "rgns ?t = live ?t" using wf by (auto elim: mt_wf_cases)
    obtain nr t1 t2 where a: "add_round (env_beyond env) True nid base ?e ?t = Val (nr, t1)"
      "memblock_merge_regions (env_beyond env) t1 = Val t2" "added base ?e nid ?t t2"
      using insert_and_merge [OF wf False lt room] by blast
    have c: "add_round (env_beyond env) False nid base ?e ?t = Val (length (fill nid ?e base (live ?t)) - mt_cnt ?t, ?t)"
      by (rule add_round_count [OF mt_wf_arr_ok [OF wf]])
    have "mt_cnt ?t \<le> length (fill nid ?e base (live ?t))"
      using fill_length [of "live ?t"] arr_length_live [OF mt_wf_arr_ok [OF wf]] by simp
    then have "make_room 64 dbl w (length (fill nid ?e base (live ?t)) - mt_cnt ?t) base s mb = Val (True, mb)"
      using room l by (intro make_room_done) simp_all
    then show ?thesis using that a c False mt_wf_empty_iff [OF wf] s ne
      by (simp add: memblock_add_region_def Let_def)
  qed
qed


subsection \<open>Removing, once there is room\<close>

definition removed :: "u64 \<Rightarrow> u64 \<Rightarrow> memblock_type \<Rightarrow> memblock_type \<Rightarrow> bool" where
  "removed base e t t' \<longleftrightarrow> mt_wf t' \<and> mt_max t' = mt_max t \<and> mt_cnt t' \<le> mt_cnt t + 2 \<and>
     owners (rgns t') = {p \<in> owners (rgns t). fst p \<notin> {base ..< e}}"

lemma isolated_inside:
  assumes "regions_ok rs" "base < e" "x \<in> set (isolate base e rs)" "inside base e x"
  shows "base \<le> rg_base x" "rend x \<le> e"
proof -
  obtain r where r: "r \<in> set rs" "x \<in> set (split_region base e r)" using assms(3) by (auto simp: isolate_member)
  have "rend x \<le> base \<or> e \<le> rg_base x \<or> base \<le> rg_base x \<and> rend x \<le> e"
    using split_ok(3) [OF regions_ok_nonempty [OF assms(1) r(1)] assms(2) r(2)] .
  then show "base \<le> rg_base x" "rend x \<le> e" using assms(4) by (auto simp: inside_def)
qed

lemma owners_filter_outside:
  assumes "regions_ok rs" "base < e"
  shows "owners (filter (\<lambda>r. \<not> inside base e r) (isolate base e rs)) = {p \<in> owners rs. fst p \<notin> {base ..< e}}"
proof -
  let ?D = "isolate base e rs"
  have "p \<in> owners (filter (\<lambda>r. \<not> inside base e r) ?D) \<longleftrightarrow> p \<in> owners ?D \<and> fst p \<notin> {base ..< e}" for p
  proof
    assume "p \<in> owners (filter (\<lambda>r. \<not> inside base e r) ?D)"
    then obtain r where r: "r \<in> set ?D" "\<not> inside base e r" "rg_base r \<le> fst p" "fst p < rend r" "snd p = rg_nid r"
      by (auto simp: owners_def)
    then show "p \<in> owners ?D \<and> fst p \<notin> {base ..< e}"
      by (cases p) (auto simp: owners_def inside_def)
  next
    assume p: "p \<in> owners ?D \<and> fst p \<notin> {base ..< e}"
    then obtain r where r: "r \<in> set ?D" "rg_base r \<le> fst p" "fst p < rend r" "snd p = rg_nid r"
      by (auto simp: owners_def)
    have "\<not> inside base e r"
    proof
      assume "inside base e r"
      from isolated_inside [OF assms r(1) this] have "base \<le> fst p" "fst p < e"
        using r(2,3) by (auto intro: order.trans order.strict_trans2)
      then show False using p by simp
    qed
    then show "p \<in> owners (filter (\<lambda>r. \<not> inside base e r) ?D)"
      using r by (cases p) (auto simp: owners_def)
  qed
  then show ?thesis using isolate_owners [OF assms] by auto
qed

lemma isolate_scan_dummy:
  assumes wf: "mt_wf t" and e: "rgns t = []" and lt: "base < (e :: u64)"
  shows "isolate_scan beyond base e 0 0 0 t = Val (0, 0, t)"
proof -
  obtain n where l: "live t = [mk_region 0 0 n]" using wf e by (auto elim: mt_wf_cases)
  then have c: "mt_cnt t = 1" using arr_length_live [OF mt_wf_arr_ok [OF wf]] by simp
  have "mt_regions t ! 0 = mk_region 0 0 n" "0 < length (mt_regions t)"
    using wf_nth_le [OF wf, of 0] c l by auto
  moreover have "\<not> e \<le> 0" using lt by auto
  ultimately show ?thesis
    using c by (simp add: isolate_scan.simps [of _ _ _ 0] isolate_scan.simps [of _ _ _ "Suc 0"] Let_def)
qed

lemma isolate_scan_room:
  assumes wf: "mt_wf t" and ne: "rgns t \<noteq> []" and lt: "base < e" and room: "mt_cnt t + 2 \<le> mt_max t"
  obtains s en t1 where "isolate_scan beyond base e 0 0 0 t = Val (s, en, t1)" "arr_ok t1" "mt_max t1 = mt_max t"
    "live t1 = isolate base e (rgns t)" "iso_range base e 0 0 0 (isolate base e (rgns t)) = (s, en)"
    "mt_cnt t1 \<le> mt_cnt t + 2" "0 < mt_cnt t1"
proof -
  have l: "rgns t = live t" and ok: "regions_ok (live t)" using wf ne by (auto elim: mt_wf_cases)
  have a: "arr_ok t" using mt_wf_arr_ok [OF wf] .
  have len: "length (isolate base e (live t)) \<le> mt_cnt t + 2"
    using isolate_length [OF ok lt] arr_length_live [OF a] by simp
  obtain t1 where t1: "isolate_scan beyond base e 0 0 0 t =
      Val (fst (iso_range base e 0 0 0 (isolate base e (live t))), snd (iso_range base e 0 0 0 (isolate base e (live t))), t1)"
    "arr_ok t1" "mt_max t1 = mt_max t" "live t1 = isolate base e (live t)"
    using isolate_scan_isolate [OF a, of 0 base e beyond 0 0] ok lt len room by auto
  have "mt_cnt t1 = length (isolate base e (live t))" using arr_length_live [OF t1(2)] t1(4) by simp
  moreover have "0 < length (isolate base e (live t))"
    using isolate_length_ge [of "live t" base e] ne l by (cases "live t") auto
  ultimately show ?thesis using that t1 l len by (metis prod.collapse)
qed

lemma remove_range_room:
  assumes wf: "mt_wf (get_type w mb)" and s: "s = memblock_cap_size base sz" "s \<noteq> 0"
    and room: "mt_cnt (get_type w mb) + 2 \<le> mt_max (get_type w mb)"
  obtains t' where "memblock_remove_range dbl env w base sz mb = Val (None, put_type w t' mb)"
    "removed base (base + s) (get_type w mb) t'"
proof -
  let ?t = "get_type w mb" and ?e = "base + s"
  have lt: "base < ?e" using cap_size_end s by simp
  have mr: "make_room 64 dbl w 2 base s mb = Val (True, mb)" using room by (intro make_room_done) simp_all
  show ?thesis
  proof (cases "rgns ?t = []")
    case True
    then have "removed base ?e ?t ?t" using wf by (simp add: removed_def)
    then show ?thesis using that [of ?t] isolate_scan_dummy [OF wf True lt] mr s
      by (simp add: memblock_remove_range_def memblock_isolate_range_def Let_def)
  next
    case False
    obtain st en t1 where i: "isolate_scan (env_beyond env) base ?e 0 0 0 ?t = Val (st, en, t1)" "arr_ok t1" "mt_max t1 = mt_max ?t"
      "live t1 = isolate base ?e (rgns ?t)" "iso_range base ?e 0 0 0 (isolate base ?e (rgns ?t)) = (st, en)"
      "mt_cnt t1 \<le> mt_cnt ?t + 2" "0 < mt_cnt t1"
      using isolate_scan_room [OF wf False lt room] by blast
    let ?D = "isolate base ?e (rgns ?t)" and ?O = "filter (\<lambda>r. \<not> inside base ?e r) (isolate base ?e (rgns ?t))"
    have okt: "regions_ok (rgns ?t)" using mt_wf_rgns_ok [OF wf] .
    have ok: "regions_ok ?D" using isolate_ok [OF okt lt] .
    note R = iso_range_cut [OF ok lt i(5)]
    have len: "length ?D = mt_cnt t1" using arr_length_live [OF i(2)] i(4) by simp
    obtain t' where t': "remove_down (env_beyond env) st (en - st) t1 = Val t'" "arr_ok t'" "mt_max t' = mt_max t1"
      "live t' = (if en - st = mt_cnt t1 then [mk_region 0 0 MAX_NUMNODES] else take st (live t1) @ drop (st + (en - st)) (live t1))"
      using remove_down_ok [OF i(2) _ i(7), of st "en - st" "env_beyond env"] R(1,2) len by auto
    have "mt_wf t' \<and> rgns t' = ?O \<and> mt_cnt t' \<le> mt_cnt t1"
    proof (cases "en - st = mt_cnt t1")
      case True
      then have "st = 0" "en = length ?D" using R(1,2) len i(7) by auto
      then have "?O = []" using R(4) by simp
      then show ?thesis using mt_wf_dummy [OF t'(2)] t'(4) True i(7) arr_length_live [OF t'(2)] by simp
    next
      case f: False
      have l': "live t' = ?O" using t'(4) f R(1,4) i(4) by simp
      have "length ?O = length ?D - (en - st)"
        unfolding R(4) [symmetric] using R(1,2) by simp
      moreover have "en - st < length ?D" using f R(2) len by linarith
      ultimately have "0 < length ?O" by simp
      then have "?O \<noteq> []" by blast
      moreover have "regions_ok ?O" using ok by (simp add: regions_ok_def sorted_wrt_filter list_all_iff)
      ultimately show ?thesis using mt_wfI [OF t'(2)] l' arr_length_live [OF t'(2)] len
          length_filter_le [of "\<lambda>r. \<not> inside base ?e r" ?D] by simp
    qed
    then have "removed base ?e ?t t'"
      unfolding removed_def using t'(3) i(3,6) owners_filter_outside [OF okt lt] by simp
    then show ?thesis using that i(1) t'(1) mr s
      by (cases w) (simp_all add: memblock_remove_range_def memblock_isolate_range_def Let_def)
  qed
qed


subsection \<open>Growing the reservations\<close>

text \<open>
  The state from which the array of reservations can grow: well-formed, indices within an \<open>int\<close>, and an array of sensible length.
\<close>

definition can_grow :: "memblock \<Rightarrow> bool" where
  "can_grow mb \<longleftrightarrow> mb_wf mb \<and> small mb \<and> 5 \<le> mt_max (reserved mb) \<and> mt_max (reserved mb) < 2 ^ 32"

definition old_array_area :: "memblock \<Rightarrow> u64 set" where
  "old_array_area mb =
     (case reserved_at mb of
        Some a \<Rightarrow> if reserved_in_slab mb then {}
          else {a ..< a + memblock_cap_size a (PAGE_ALIGN (array_bytes (reserved mb)))}
      | None \<Rightarrow> {})"

text \<open>
  What a successful resize of the reservations does: memory stays as it is, addresses newly reserved were free
  and outside the area to stay clear of, and only the old array may lose its reservation.
\<close>

definition grown :: "u64 \<Rightarrow> u64 \<Rightarrow> memblock \<Rightarrow> memblock \<Rightarrow> bool" where
  "grown area_start area_size mb mb' \<longleftrightarrow>
     memory mb' = memory mb \<and> current_limit mb' = current_limit mb \<and> mt_wf (reserved mb') \<and> rgns (reserved mb') \<noteq> [] \<and>
     mt_max (reserved mb') = 2 * mt_max (reserved mb) \<and> mt_cnt (reserved mb') \<le> mt_cnt (reserved mb) + 3 \<and>
     cover (rgns (reserved mb')) \<subseteq> cover (rgns (reserved mb)) \<union> free_mem mb MAX_NUMNODES \<and>
     (area_start \<noteq> 0 \<longrightarrow> area_start \<le> area_start + area_size \<longrightarrow>
        (cover (rgns (reserved mb')) - cover (rgns (reserved mb))) \<inter> {area_start ..< area_start + area_size} = {}) \<and>
     cover (rgns (reserved mb)) - old_array_area mb \<subseteq> cover (rgns (reserved mb'))"

lemma added_cover: "added base e nid t t' \<Longrightarrow> cover (rgns t') = cover (rgns t) \<union> {base ..< e}"
  by (simp add: added_def cover_owners image_Un fst_image_times)

lemma removed_cover: "removed base e t t' \<Longrightarrow> cover (rgns t') = cover (rgns t) - {base ..< e}"
  unfolding cover_owners removed_def by (auto simp: image_iff)

lemma moved_array_wf:
  assumes "mt_wf t"
  shows "mt_wf (moved_array t)" "rgns (moved_array t) = rgns t" "mt_max (moved_array t) = 2 * mt_max t" "mt_cnt (moved_array t) = mt_cnt t"
proof -
  have l: "live (moved_array t) = live t" and a: "arr_ok (moved_array t)"
    using mt_wf_arr_ok [OF assms] by (auto simp: arr_ok_def moved_array_def live_def)
  then show "mt_wf (moved_array t)" "rgns (moved_array t) = rgns t" using assms by (simp_all add: mt_wf_def rgns_def)
qed (simp_all add: moved_array_def)

lemma new_size_pos:
  assumes "5 \<le> mt_max t" "mt_max t < 2 ^ 32"
  shows "PAGE_ALIGN (push_bit 1 (array_bytes t)) \<noteq> 0"
proof -
  have b: "unat (array_bytes t) = mt_max t * 24"
    using assms(2) unfolding array_bytes_def sizeof_region_def
    by (simp add: unsigned_of_nat take_bit_nat_eq_self del: of_nat_mult)
  have "unat (push_bit 1 (array_bytes t)) = mt_max t * 48"
    using assms(2) b by (simp add: unat_word_ariths)
  moreover have "unat (PAGE_SIZE - 1) = 4095" by (simp add: PAGE_SIZE_def)
  ultimately have n: "unat (push_bit 1 (array_bytes t) + (PAGE_SIZE - 1)) = mt_max t * 48 + 4095"
    using assms(2) by (simp add: unat_word_ariths)
  have "PAGE_SIZE - 1 = mask 12" by (simp add: PAGE_SIZE_def mask_eq_exp_minus_1)
  then have "unat (PAGE_ALIGN (push_bit 1 (array_bytes t))) = (mt_max t * 48 + 4095) - (mt_max t * 48 + 4095) mod 4096"
    using n and_not_mask_unat [of _ 12] by (simp add: PAGE_ALIGN_def)
  moreover have "4096 \<le> mt_max t * 48 + 4095" using assms(1) by simp
  moreover have "(mt_max t * 48 + 4095) mod 4096 < 4096" by simp
  ultimately have "0 < unat (PAGE_ALIGN (push_bit 1 (array_bytes t)))" by linarith
  then show ?thesis unfolding unat_gt_0 .
qed

text \<open>The place found for a new array is free, and clear of the area to avoid unless that starts at address 0.\<close>

lemma new_array_at_sound:
  assumes wf: "mb_wf mb" "small mb" and env: "\<not> env_slab env"
  defines "n \<equiv> PAGE_ALIGN (push_bit 1 (array_bytes (reserved mb)))"
  obtains addr where "new_array_at env Reserved s z mb = Val addr"
    "addr \<noteq> 0 \<Longrightarrow> addr \<le> addr + n \<and> {addr ..< addr + n} \<subseteq> free_mem mb MAX_NUMNODES"
    "addr \<noteq> 0 \<Longrightarrow> s \<noteq> 0 \<Longrightarrow> s \<le> s + z \<Longrightarrow> {addr ..< addr + n} \<inter> {s ..< s + z} = {}"
proof -
  obtain a where a: "memblock_find_in_range mb (s + z) (current_limit mb) n PAGE_SIZE = Val a"
    "a \<noteq> 0 \<Longrightarrow> find_start (s + z) \<le> a \<and> a \<le> a + n \<and> {a ..< a + n} \<subseteq> free_mem mb MAX_NUMNODES"
    using find_sound [OF wf, of "s + z" "current_limit mb" n PAGE_SIZE MAX_NUMNODES]
    by (auto simp: memblock_find_in_range_def)
  obtain b where b: "memblock_find_in_range mb 0 (min s (current_limit mb)) n PAGE_SIZE = Val b"
    "b \<noteq> 0 \<Longrightarrow> find_start 0 \<le> b \<and> b \<le> b + n \<and> b + n \<le> find_end mb 0 (min s (current_limit mb)) \<and> {b ..< b + n} \<subseteq> free_mem mb MAX_NUMNODES"
    using find_sound [OF wf, of 0 "min s (current_limit mb)" n PAGE_SIZE MAX_NUMNODES]
    by (auto simp: memblock_find_in_range_def)
  have above: "{a ..< a + n} \<inter> {s ..< s + z} = {}" if "a \<noteq> 0"
    using a(2) [OF that] by auto
  have below: "{b ..< b + n} \<inter> {s ..< s + z} = {}" if "b \<noteq> 0" "s \<noteq> 0"
  proof -
    have "x < s" if x: "b \<le> x" "x < b + n" for x
    proof (rule ccontr)
      assume "\<not> x < s"
      then have sx: "s \<le> x" by simp
      have "find_end mb 0 (min s (current_limit mb)) \<le> max PAGE_SIZE s"
        using \<open>s \<noteq> 0\<close> by (auto simp: MEMBLOCK_ALLOC_ACCESSIBLE_def min_def max_def split: if_splits)
      then have "x < max PAGE_SIZE s" using b(2) [OF \<open>b \<noteq> 0\<close>] x(2) by (meson order.strict_trans2 order.trans)
      moreover have "PAGE_SIZE \<le> x" using b(2) [OF \<open>b \<noteq> 0\<close>] x(1) by auto
      ultimately show False using sx by (auto simp: max_def split: if_splits)
    qed
    then show ?thesis by fastforce
  qed
  have eq: "PAGE_ALIGN (push_bit 1 (array_bytes (get_type Reserved mb))) = n" by (simp only: n_def get_type.simps)
  have v: "new_array_at env Reserved s z mb = Val (if a = 0 \<and> z \<noteq> 0 then b else a)"
    unfolding new_array_at_def Let_def eq using a(1) b(1) env by simp
  show ?thesis
  proof (cases "a = 0 \<and> z \<noteq> 0")
    case True
    then have "new_array_at env Reserved s z mb = Val b" using v by simp
    then show ?thesis using that [of b] b(2) below by blast
  next
    case False
    then have "new_array_at env Reserved s z mb = Val a" using v unfolding if_not_P [OF False] by blast
    then show ?thesis using that [of a] a(2) above by blast
  qed
qed


text \<open>Freeing the old array and reserving the new one both find room in an array that has just been doubled.\<close>

lemma free_old_array:
  assumes g: "can_grow mb" and mb1: "reserved mb1 = moved_array (reserved mb)" "reserved_at mb = Some old"
  obtains t where "memblock_free dbl env old (PAGE_ALIGN (array_bytes (reserved mb))) mb1 = Val (None, mb1\<lparr>reserved := t\<rparr>)"
    "mt_wf t" "mt_max t = 2 * mt_max (reserved mb)" "mt_cnt t \<le> mt_cnt (reserved mb) + 2"
    "cover (rgns t) = cover (rgns (reserved mb)) -
       {old ..< old + memblock_cap_size old (PAGE_ALIGN (array_bytes (reserved mb)))}"
proof -
  let ?s = "memblock_cap_size old (PAGE_ALIGN (array_bytes (reserved mb)))"
  have wf: "mt_wf (reserved mb)" and m: "5 \<le> mt_max (reserved mb)" using g by (auto simp: can_grow_def mb_wf_def)
  note M = moved_array_wf [OF wf]
  have c: "mt_cnt (reserved mb) \<le> mt_max (reserved mb)" using mt_wf_arr_ok [OF wf] by (simp add: arr_ok_def)
  show ?thesis
  proof (cases "?s = 0")
    case True
    then have "memblock_free dbl env old (PAGE_ALIGN (array_bytes (reserved mb))) mb1 = Val (None, mb1)"
      by (simp add: memblock_free_def memblock_remove_range_def memblock_isolate_range_def Let_def)
    moreover have "mb1 = mb1\<lparr>reserved := moved_array (reserved mb)\<rparr>" using mb1(1) by (cases mb1) simp
    ultimately show ?thesis using that [of "moved_array (reserved mb)"] M True by simp
  next
    case False
    have w1: "mt_wf (get_type Reserved mb1)" "mt_cnt (get_type Reserved mb1) + 2 \<le> mt_max (get_type Reserved mb1)"
      using M mb1(1) c m by auto
    obtain t where t: "memblock_remove_range dbl env Reserved old (PAGE_ALIGN (array_bytes (reserved mb))) mb1
        = Val (None, put_type Reserved t mb1)" "removed old (old + ?s) (get_type Reserved mb1) t"
      using remove_range_room [OF w1(1) refl False w1(2)] by blast
    then show ?thesis using that [of t] removed_cover [OF t(2)] M mb1(1) by (simp add: memblock_free_def removed_def)
  qed
qed

lemma reserve_free_range:
  assumes wf: "mt_wf (reserved mb)" and le: "base \<le> base + sz" "sz \<noteq> 0"
    and free: "{base ..< base + sz} \<inter> cover (rgns (reserved mb)) = {}" and room: "mt_cnt (reserved mb) < mt_max (reserved mb)"
  obtains t where "memblock_reserve dbl env base sz mb = Val (None, mb\<lparr>reserved := t\<rparr>)"
    "added base (base + sz) MAX_NUMNODES (reserved mb) t" "mt_cnt t \<le> mt_cnt (reserved mb) + 1"
proof -
  have s: "sz = memblock_cap_size base sz" using cap_size_id [OF le(1)] by simp
  have lt: "base < base + sz" using le by (simp add: order.order_iff_strict)
  have f: "length (fill MAX_NUMNODES (base + sz) base (rgns (reserved mb))) = Suc (length (rgns (reserved mb)))"
    using fill_disjoint_length [OF lt mt_wf_rgns_ok [OF wf] free] .
  have r: "length (fill MAX_NUMNODES (base + sz) base (rgns (get_type Reserved mb))) \<le> mt_max (get_type Reserved mb)"
    using f room mt_wf_length [OF wf] by simp
  obtain t where "memblock_add_region dbl env Reserved base sz MAX_NUMNODES mb = Val (None, put_type Reserved t mb)"
    "added base (base + sz) MAX_NUMNODES (get_type Reserved mb) t"
    using add_region_room [OF _ s le(2) r] wf by auto
  then show ?thesis using that f mt_wf_length [OF wf] mt_wf_cnt_pos [OF wf] by (simp add: memblock_reserve_def added_def)
qed

lemma double_array_grows:
  assumes g: "can_grow mb" and env: "\<not> env_slab env"
  shows "\<exists>ok mb'. double_array (Suc depth) env Reserved s z mb = Val (ok, mb') \<and>
    (\<not> ok \<longrightarrow> mb' = mb) \<and> (ok \<longrightarrow> grown s z mb mb')"
proof -
  let ?r = "reserved mb" and ?dbl = "double_array depth env"
  define n where "n = PAGE_ALIGN (push_bit 1 (array_bytes ?r))"
  have wf: "mb_wf mb" "small mb" "mt_wf ?r" and mx: "5 \<le> mt_max ?r" "mt_max ?r < 2 ^ 32"
    using g by (auto simp: can_grow_def mb_wf_def)
  obtain addr where a: "new_array_at env Reserved s z mb = Val addr"
    "addr \<noteq> 0 \<Longrightarrow> addr \<le> addr + n \<and> {addr ..< addr + n} \<subseteq> free_mem mb MAX_NUMNODES"
    "addr \<noteq> 0 \<Longrightarrow> s \<noteq> 0 \<Longrightarrow> s \<le> s + z \<Longrightarrow> {addr ..< addr + n} \<inter> {s ..< s + z} = {}"
    using new_array_at_sound [OF wf(1,2) env, of s z] unfolding n_def by blast
  show ?thesis
  proof (cases "\<not> can_resize mb \<or> addr = 0")
    case True
    then show ?thesis using a(1) by (auto simp: Let_def)
  next
    case False
    then have ad: "addr \<noteq> 0" "can_resize mb" by auto
    define mb1 where "mb1 = set_array_at Reserved (Some addr) (put_type Reserved (moved_array ?r) mb)"
    have mb1: "reserved mb1 = moved_array ?r" "memory mb1 = memory mb" "current_limit mb1 = current_limit mb" by (simp_all add: mb1_def)
    have "\<exists>t. (if in_slab Reserved mb then Val mb1 else case array_at Reserved mb of None \<Rightarrow> Val mb1
          | Some old \<Rightarrow> bind_outcome (memblock_free ?dbl env old (PAGE_ALIGN (array_bytes ?r)) mb1) (\<lambda>(_, mb2). Val mb2))
        = Val (mb1\<lparr>reserved := t\<rparr>) \<and> mt_wf t \<and> mt_max t = 2 * mt_max ?r \<and> mt_cnt t \<le> mt_cnt ?r + 2 \<and>
        cover (rgns t) = cover (rgns ?r) - old_array_area mb"
    proof (cases "in_slab Reserved mb \<or> array_at Reserved mb = None")
      case True
      have "mb1 = mb1\<lparr>reserved := moved_array ?r\<rparr>" using mb1(1) by (cases mb1) simp
      then show ?thesis using True moved_array_wf [OF wf(3)]
        by (intro exI [of _ "moved_array ?r"]) (auto simp: old_array_area_def split: option.splits)
    next
      case False
      then obtain old where o: "reserved_at mb = Some old" "\<not> reserved_in_slab mb" by auto
      show ?thesis
        by (rule free_old_array [OF g mb1(1) o(1), of ?dbl env]) (use o in \<open>auto simp: old_array_area_def\<close>)
    qed
    then obtain t where t: "(if in_slab Reserved mb then Val mb1 else case array_at Reserved mb of None \<Rightarrow> Val mb1
          | Some old \<Rightarrow> bind_outcome (memblock_free ?dbl env old (PAGE_ALIGN (array_bytes ?r)) mb1) (\<lambda>(_, mb2). Val mb2))
        = Val (mb1\<lparr>reserved := t\<rparr>)" "mt_wf t" "mt_max t = 2 * mt_max ?r" "mt_cnt t \<le> mt_cnt ?r + 2"
        "cover (rgns t) = cover (rgns ?r) - old_array_area mb" by blast
    have c: "mt_cnt ?r \<le> mt_max ?r" using mt_wf_arr_ok [OF wf(3)] by (simp add: arr_ok_def)
    let ?mb2 = "mb1\<lparr>reserved := t\<rparr>"
    have d: "{addr ..< addr + n} \<inter> cover (rgns (reserved ?mb2)) = {}"
      using a(2) [OF ad(1)] t(5) by (auto simp: free_mem_def)
    have "n \<noteq> 0" unfolding n_def by (rule new_size_pos [OF mx])
    then obtain u where u: "memblock_reserve ?dbl env addr n ?mb2 = Val (None, ?mb2\<lparr>reserved := u\<rparr>)"
      "added addr (addr + n) MAX_NUMNODES t u" "mt_cnt u \<le> mt_cnt t + 1"
      using reserve_free_range [of ?mb2 addr n] a(2) [OF ad(1)] t(2,3,4) c mx(1) d by auto
    let ?mb3 = "set_in_slab Reserved (env_slab env) (?mb2\<lparr>reserved := u\<rparr>)"
    have e: "double_array (Suc depth) env Reserved s z mb = Val (True, ?mb3)"
      unfolding double_array.simps Let_def get_type.simps a(1) bind_outcome.simps mb1_def [symmetric] n_def [symmetric] if_not_P [OF ad(1)]
        t(1) u(1) using ad(2) env by simp
    have "cover (rgns u) = (cover (rgns ?r) - old_array_area mb) \<union> {addr ..< addr + n}"
      using added_cover [OF u(2)] t(5) by simp
    then have "grown s z mb ?mb3"
      unfolding grown_def using u(2,3) t(3,4) mb1 a(2,3) [OF ad(1)] by (auto simp: added_def)
    then show ?thesis using e by blast
  qed
qed


subsection \<open>Clients of the resize routine\<close>

text \<open>The result of an allocation of \<open>s\<close> bytes at \<open>a\<close>, 0 when there is none.\<close>

definition allocated :: "u64 \<Rightarrow> u64 \<Rightarrow> u64 \<Rightarrow> int \<Rightarrow> memblock \<Rightarrow> u64 \<Rightarrow> memblock \<Rightarrow> bool" where
  "allocated s align max_addr nid mb a mb' \<longleftrightarrow>
     a = 0 \<and> mb' = mb \<or>
     PAGE_SIZE \<le> a \<and> a AND (align - 1) = 0 \<and> a \<le> a + s \<and> a + s \<le> find_end mb 0 max_addr \<and>
     {a ..< a + s} \<subseteq> free_mem mb nid \<and> {a ..< a + s} \<subseteq> cover (rgns (reserved mb')) \<and>
     memory mb' = memory mb \<and> mt_wf (reserved mb') \<and>
     cover (rgns (reserved mb)) - old_array_area mb \<subseteq> cover (rgns (reserved mb')) \<and>
     cover (rgns (reserved mb')) \<subseteq> cover (rgns (reserved mb)) \<union> free_mem mb MAX_NUMNODES"

lemma free_mem_any: "free_mem mb nid \<subseteq> free_mem mb MAX_NUMNODES"
  by (auto simp: free_mem_def cover_def node_matches_def)

text \<open>
  What reserving, freeing and allocating rely on: a resize of the reservations returns, and either changes nothing or grows
  the array as described above.
\<close>

locale reserve_growth =
  fixes dbl :: resizer
  assumes grow: "can_grow mb \<Longrightarrow> \<exists>ok mb'. dbl Reserved s z mb = Val (ok, mb') \<and>
    (\<not> ok \<longrightarrow> mb' = mb) \<and> (ok \<longrightarrow> grown s z mb mb')"
begin

lemma make_room_reserved:
  assumes g: "can_grow mb" and n: "n \<le> 2"
  shows "\<exists>ok mb'. make_room 64 dbl Reserved n s z mb = Val (ok, mb') \<and> (\<not> ok \<longrightarrow> mb' = mb) \<and>
    (ok \<longrightarrow> (mb' = mb \<or> grown s z mb mb') \<and> mt_cnt (reserved mb') + n \<le> mt_max (reserved mb'))"
proof (cases "mt_cnt (reserved mb) + n \<le> mt_max (reserved mb)")
  case True
  then show ?thesis using make_room_done [of 64 Reserved mb n dbl s z] by auto
next
  case False
  obtain ok mb' where d: "dbl Reserved s z mb = Val (ok, mb')" "\<not> ok \<longrightarrow> mb' = mb" "ok \<longrightarrow> grown s z mb mb'"
    using grow [OF g] by blast
  have "mt_cnt (reserved mb) \<le> mt_max (reserved mb)" "5 \<le> mt_max (reserved mb)"
    using g mt_wf_arr_ok [of "reserved mb"] by (auto simp: can_grow_def mb_wf_def arr_ok_def)
  then have room: "mt_cnt (reserved mb') + n \<le> mt_max (reserved mb')" if ok using d(3) that n by (auto simp: grown_def)
  have "make_room 64 dbl Reserved n s z mb = (if ok then make_room 63 dbl Reserved n s z mb' else Val (False, mb'))"
    using make_room_round [of Reserved mb n dbl s z] False d(1) by simp
  then show ?thesis using d make_room_done [of 63 Reserved mb' n dbl s z] room by (cases ok) auto
qed

lemma reserve_clear:
  assumes g: "can_grow mb" and le: "base \<le> base + sz" "sz \<noteq> 0" "base \<noteq> 0"
    and free: "{base ..< base + sz} \<inter> cover (rgns (reserved mb)) = {}"
  shows "\<exists>ret mb'. memblock_reserve dbl env base sz mb = Val (ret, mb') \<and> (ret \<noteq> None \<longrightarrow> ret = Some ENOMEM \<and> mb' = mb) \<and>
    (ret = None \<longrightarrow> (\<exists>mb1 t. (mb1 = mb \<or> grown base sz mb mb1) \<and> mb' = mb1\<lparr>reserved := t\<rparr> \<and>
       added base (base + sz) MAX_NUMNODES (reserved mb1) t))"
proof -
  let ?r = "reserved mb"
  have wf: "mt_wf ?r" using g by (simp add: can_grow_def mb_wf_def)
  have s: "memblock_cap_size base sz = sz" using cap_size_id [OF le(1)] .
  have lt: "base < base + sz" using le by (simp add: order.order_iff_strict)
  show ?thesis
  proof (cases "mt_cnt ?r < mt_max ?r")
    case True
    then show ?thesis using reserve_free_range [OF wf le(1,2) free True, of dbl env] by metis
  next
    case full: False
    have five: "5 \<le> mt_max ?r" using g by (simp add: can_grow_def)
    have ne: "rgns ?r \<noteq> []" by (rule mt_wf_cases [OF wf]) (use full five in auto)
    then have l: "rgns ?r = live ?r" using wf by (auto elim: mt_wf_cases)
    have nr: "add_round (env_beyond env) False MAX_NUMNODES base (base + sz) ?r = Val (1, ?r)"
      using add_round_count [OF mt_wf_arr_ok [OF wf]] fill_disjoint_length [OF lt mt_wf_rgns_ok [OF wf] free]
        arr_length_live [OF mt_wf_arr_ok [OF wf]] by (simp add: l)
    obtain ok mb1 where m: "make_room 64 dbl Reserved 1 base sz mb = Val (ok, mb1)" "\<not> ok \<longrightarrow> mb1 = mb"
      "ok \<longrightarrow> (mb1 = mb \<or> grown base sz mb mb1) \<and> mt_cnt (reserved mb1) + 1 \<le> mt_max (reserved mb1)"
      using make_room_reserved [OF g, of 1] by fastforce
    have ne0: "mt_regions ?r \<noteq> []" using mt_wf_cnt_pos [OF wf] mt_wf_arr_ok [OF wf] by (auto simp: arr_ok_def)
    have S: "memblock_reserve dbl env base sz mb = (if \<not> ok then Val (Some ENOMEM, mb1)
        else bind_outcome (add_round (env_beyond env) True MAX_NUMNODES base (base + sz) (reserved mb1))
               (\<lambda>(_, t). bind_outcome (memblock_merge_regions (env_beyond env) t) (\<lambda>t. Val (None, mb1\<lparr>reserved := t\<rparr>))))"
      using s le(2) ne0 mt_wf_empty_iff [OF wf] ne nr m(1)
      by (simp add: memblock_reserve_def memblock_add_region_def Let_def)
    show ?thesis
    proof (cases ok)
      case False
      then show ?thesis using S m(2) by simp
    next
      case True
      then have gr: "grown base sz mb mb1" using m(3) full by auto
      then have w1: "mt_wf (reserved mb1)" "rgns (reserved mb1) \<noteq> []" by (auto simp: grown_def)
      have "{base ..< base + sz} \<inter> cover (rgns (reserved mb1)) = {}"
        using gr le(1,3) free unfolding grown_def by blast
      then have "length (fill MAX_NUMNODES (base + sz) base (rgns (reserved mb1))) \<le> mt_max (reserved mb1)"
        using fill_disjoint_length [OF lt mt_wf_rgns_ok [OF w1(1)]] mt_wf_length [OF w1(1)] m(3) True by simp
      then obtain k t1 t2 where "add_round (env_beyond env) True MAX_NUMNODES base (base + sz) (reserved mb1) = Val (k, t1)"
        "memblock_merge_regions (env_beyond env) t1 = Val t2" "added base (base + sz) MAX_NUMNODES (reserved mb1) t2"
        using insert_and_merge [OF w1 lt] by metis
      then show ?thesis using S True gr by auto
    qed
  qed
qed

lemma free_range:
  assumes g: "can_grow mb" and s: "s = memblock_cap_size base sz"
  shows "\<exists>ret mb'. memblock_free dbl env base sz mb = Val (ret, mb') \<and> (ret \<noteq> None \<longrightarrow> ret = Some ENOMEM \<and> mb' = mb) \<and>
    (ret = None \<longrightarrow> (\<exists>mb1 t. (mb1 = mb \<or> grown base s mb mb1) \<and> mb' = mb1\<lparr>reserved := t\<rparr> \<and>
       cover (rgns t) = cover (rgns (reserved mb1)) - {base ..< base + s}))"
proof (cases "s = 0")
  case True
  then have "memblock_free dbl env base sz mb = Val (None, mb)"
    using s by (simp add: memblock_free_def memblock_remove_range_def memblock_isolate_range_def Let_def)
  moreover have "mb = mb\<lparr>reserved := reserved mb\<rparr>" by simp
  ultimately show ?thesis using True by (metis Diff_empty add.right_neutral atLeastLessThan_empty order.refl)
next
  case False
  obtain ok mb1 where m: "make_room 64 dbl Reserved 2 base s mb = Val (ok, mb1)" "\<not> ok \<longrightarrow> mb1 = mb"
    "ok \<longrightarrow> (mb1 = mb \<or> grown base s mb mb1) \<and> mt_cnt (reserved mb1) + 2 \<le> mt_max (reserved mb1)"
    using make_room_reserved [OF g, of 2] by fastforce
  have S: "memblock_free dbl env base sz mb =
      (if \<not> ok then Val (Some ENOMEM, mb1) else memblock_free dbl env base sz mb1)"
    using s False m make_room_done [of 64 Reserved mb1 2 dbl base s]
    by (simp add: memblock_free_def memblock_remove_range_def memblock_isolate_range_def Let_def)
  show ?thesis
  proof (cases ok)
    case no: False
    then show ?thesis using S m(2) by simp
  next
    case True
    have w: "mt_wf (get_type Reserved mb1)" using m(3) True g by (auto simp: grown_def can_grow_def mb_wf_def)
    obtain t where t: "memblock_remove_range dbl env Reserved base sz mb1 = Val (None, put_type Reserved t mb1)"
      "removed base (base + s) (get_type Reserved mb1) t"
      using remove_range_room [OF w s False] m(3) True by auto
    then show ?thesis using S True m(3) removed_cover [OF t(2)] by (auto simp: memblock_free_def)
  qed
qed

lemma alloc_base:
  assumes g: "can_grow mb"
  shows "\<exists>a mb'. memblock_alloc_base_nid dbl env sz align max_addr nid mb = Val (a, mb') \<and>
    allocated (round_up sz align) align max_addr nid mb a mb'"
proof -
  let ?s = "round_up sz align"
  have wf: "mb_wf mb" "small mb" using g by (auto simp: can_grow_def)
  then have rwf: "mt_wf (reserved mb)" by (simp add: mb_wf_def)
  obtain a where a: "memblock_find_in_range_node mb 0 max_addr ?s align nid = Val a"
    "a = 0 \<or> PAGE_SIZE \<le> a \<and> a \<le> a + ?s \<and> a + ?s \<le> find_end mb 0 max_addr \<and> a AND (align - 1) = 0 \<and> {a ..< a + ?s} \<subseteq> free_mem mb nid"
    using find_sound [OF wf, of 0 max_addr ?s align nid] by auto
  show ?thesis
  proof (cases "a = 0 \<or> ?s = 0")
    case True
    then have "memblock_alloc_base_nid dbl env sz align max_addr nid mb = Val (a, mb)"
      using a(1) by (auto simp: memblock_alloc_base_nid_def memblock_reserve_def memblock_add_region_def memblock_cap_size_def Let_def)
    moreover have "allocated ?s align max_addr nid mb a mb" using True a(2) rwf by (auto simp: allocated_def)
    ultimately show ?thesis by blast
  next
    case False
    then have A: "PAGE_SIZE \<le> a" "a \<le> a + ?s" "a + ?s \<le> find_end mb 0 max_addr" "a AND (align - 1) = 0" "{a ..< a + ?s} \<subseteq> free_mem mb nid"
      using a(2) by auto
    have fr: "{a ..< a + ?s} \<inter> cover (rgns (reserved mb)) = {}" using A(5) unfolding free_mem_def by blast
    obtain ret mb' where r: "memblock_reserve dbl env a ?s mb = Val (ret, mb')" "ret \<noteq> None \<longrightarrow> ret = Some ENOMEM \<and> mb' = mb"
      "ret = None \<longrightarrow> (\<exists>mb1 t. (mb1 = mb \<or> grown a ?s mb mb1) \<and> mb' = mb1\<lparr>reserved := t\<rparr> \<and>
         added a (a + ?s) MAX_NUMNODES (reserved mb1) t)"
      using reserve_clear [OF g A(2) _ _ fr, of env] False by blast
    have v: "memblock_alloc_base_nid dbl env sz align max_addr nid mb = Val (if ret = None then (a, mb') else (0, mb'))"
      using a(1) r(1) False by (simp add: memblock_alloc_base_nid_def Let_def)
    show ?thesis
    proof (cases "ret = None")
      case f: False
      then show ?thesis using v r(2) by (simp add: allocated_def)
    next
      case True
      then obtain mb1 t where m: "mb1 = mb \<or> grown a ?s mb mb1" "mb' = mb1\<lparr>reserved := t\<rparr>"
        "added a (a + ?s) MAX_NUMNODES (reserved mb1) t" using r(3) by blast
      have c: "cover (rgns t) = cover (rgns (reserved mb1)) \<union> {a ..< a + ?s}" using added_cover [OF m(3)] .
      have "memory mb1 = memory mb" "cover (rgns (reserved mb)) - old_array_area mb \<subseteq> cover (rgns (reserved mb1))"
        "cover (rgns (reserved mb1)) \<subseteq> cover (rgns (reserved mb)) \<union> free_mem mb MAX_NUMNODES"
        using m(1) unfolding grown_def by blast+
      then have "allocated ?s align max_addr nid mb a mb'"
        unfolding allocated_def using A m(2,3) c free_mem_any [of mb nid] by (auto simp: added_def)
      then show ?thesis using v True by simp
    qed
  qed
qed

end

text \<open>During boot the slab allocator is not up; the resize routine keeps the contract then.\<close>

definition boot_env :: "(u64 \<Rightarrow> u64) \<Rightarrow> memblock_region \<Rightarrow> mb_env" where
  "boot_env kmalloc beyond = \<lparr>env_slab = False, env_kmalloc = kmalloc, env_beyond = beyond\<rparr>"

interpretation boot: reserve_growth "memblock_double_array (boot_env kmalloc beyond)" for kmalloc beyond
proof
  fix mb s z
  assume g: "can_grow mb"
  have "(4 :: nat) = Suc 3" by simp
  then show "\<exists>ok mb'. memblock_double_array (boot_env kmalloc beyond) Reserved s z mb = Val (ok, mb') \<and>
      (\<not> ok \<longrightarrow> mb' = mb) \<and> (ok \<longrightarrow> grown s z mb mb')"
    using double_array_grows [OF g, of "boot_env kmalloc beyond" 3 s z] by (simp only: memblock_double_array_def) (simp add: boot_env_def)
qed

subsection \<open>Memory before resizing is allowed\<close>

lemma no_resize:
  assumes "\<not> can_resize mb"
  shows "memblock_double_array env w s z mb = Val (False, mb)"
proof -
  have "double_array (Suc 3) env w s z mb = Val (False, mb)"
    unfolding double_array.simps using assms by simp
  then show ?thesis unfolding memblock_double_array_def by simp
qed

subsection \<open>Assigning nodes\<close>

definition renoded :: "u64 \<Rightarrow> u64 \<Rightarrow> int \<Rightarrow> memblock_type \<Rightarrow> memblock_type \<Rightarrow> bool" where
  "renoded base e nid t t' \<longleftrightarrow> mt_wf t' \<and> minimal (rgns t') \<and>
     owners (rgns t') = {p \<in> owners (rgns t). fst p \<notin> {base ..< e}} \<union> (cover (rgns t) \<inter> {base ..< e}) \<times> {nid}"

abbreviation with_nid :: "int \<Rightarrow> memblock_region \<Rightarrow> memblock_region" where
  "with_nid nid r \<equiv> r\<lparr>rg_nid := nid\<rparr>"

lemma live_set_nids:
  assumes "arr_ok t" "s \<le> en" "en \<le> mt_cnt t"
  shows "live (set_nids nid s en t) = take s (live t) @ map (with_nid nid) (take (en - s) (drop s (live t))) @ drop en (live t)"
    and "arr_ok (set_nids nid s en t)"
proof -
  have len: "mt_cnt t \<le> length (mt_regions t)" using assms(1) by (simp add: arr_ok_def)
  obtain a b where ab: "en = s + a" "mt_cnt t = s + a + b" using assms(2,3) le_Suc_ex by metis
  have l: "live (set_nids nid s en t) = take s (live t) @ map (with_nid nid) (take a (drop s (live t))) @ drop en (live t)"
    using len by (simp add: live_def set_nids_def ab drop_take min_def take_add)
  then show "live (set_nids nid s en t) = take s (live t) @ map (with_nid nid) (take (en - s) (drop s (live t))) @ drop en (live t)"
    by (simp add: ab)
  have "map rg_size (live (set_nids nid s en t)) = map rg_size (take s (live t) @ take a (drop s (live t)) @ drop (s + a) (live t))"
    unfolding l by (simp add: ab comp_def)
  also have "take s (live t) @ take a (drop s (live t)) @ drop (s + a) (live t) = live t"
    by (metis append_take_drop_id drop_drop add.commute)
  finally show "arr_ok (set_nids nid s en t)"
    using assms(1) len by (simp add: arr_ok_def) (auto simp: set_nids_def ab min_def)
qed

lemma regions_ok_map_nid: "regions_ok (map (with_nid nid) rs) \<longleftrightarrow> regions_ok rs"
  by (induction rs) auto

lemma owners_map_nid: "owners (map (with_nid nid) rs) = cover rs \<times> {nid}"
  by (auto simp: owners_def cover_def)

lemma owners_inside:
  assumes "regions_ok rs" "base < e"
  shows "cover (filter (inside base e) (isolate base e rs)) = cover rs \<inter> {base ..< e}"
proof -
  let ?D = "isolate base e rs"
  have D: "cover ?D = cover rs" unfolding cover_owners isolate_owners [OF assms] ..
  have "x \<in> cover (filter (inside base e) ?D) \<longleftrightarrow> x \<in> cover ?D \<and> x \<in> {base ..< e}" for x
  proof
    assume "x \<in> cover (filter (inside base e) ?D)"
    then obtain r where r: "r \<in> set ?D" "inside base e r" "rg_base r \<le> x" "x < rend r" by (auto simp: cover_def)
    from isolated_inside [OF assms r(1,2)] r(3,4) have "base \<le> x" "x < e"
      by (auto intro: order.trans order.strict_trans2)
    then show "x \<in> cover ?D \<and> x \<in> {base ..< e}" using r by (auto simp: cover_def)
  next
    assume "x \<in> cover ?D \<and> x \<in> {base ..< e}"
    then obtain r where r: "r \<in> set ?D" "rg_base r \<le> x" "x < rend r" "base \<le> x" "x < e" by (auto simp: cover_def)
    then have "inside base e r" by (auto simp: inside_def)
    then show "x \<in> cover (filter (inside base e) ?D)" using r by (auto simp: cover_def)
  qed
  then show ?thesis using D by auto
qed

lemma set_node_room:
  assumes wf: "mt_wf (memory mb)" and s: "s = memblock_cap_size base sz" "s \<noteq> 0"
    and ne: "rgns (memory mb) \<noteq> []" and room: "mt_cnt (memory mb) + 2 \<le> mt_max (memory mb)"
  obtains t' where "memblock_set_node dbl env base sz nid mb = Val (None, mb\<lparr>memory := t'\<rparr>)"
    "renoded base (base + s) nid (memory mb) t'"
proof -
  let ?t = "memory mb" and ?e = "base + s" and ?b = "env_beyond env"
  have lt: "base < ?e" using cap_size_end s by simp
  have mr: "make_room 64 dbl Memory 2 base s mb = Val (True, mb)" using room by (intro make_room_done) simp_all
  obtain st en t1 where i: "isolate_scan ?b base ?e 0 0 0 ?t = Val (st, en, t1)" "arr_ok t1"
    "live t1 = isolate base ?e (rgns ?t)" "iso_range base ?e 0 0 0 (isolate base ?e (rgns ?t)) = (st, en)" "0 < mt_cnt t1"
    using isolate_scan_room [OF wf ne lt room] by metis
  let ?D = "isolate base ?e (rgns ?t)" and ?t2 = "set_nids nid st en t1"
  have okt: "regions_ok (rgns ?t)" using mt_wf_rgns_ok [OF wf] .
  have ok: "regions_ok ?D" using isolate_ok [OF okt lt] .
  note R = iso_range_cut [OF ok lt i(4)]
  have len: "length ?D = mt_cnt t1" using arr_length_live [OF i(2)] i(3) by simp
  have l2: "live ?t2 = take st ?D @ map (with_nid nid) (filter (inside base ?e) ?D) @ drop en ?D" and a2: "arr_ok ?t2"
    using live_set_nids [OF i(2) R(1)] R(2,5) len i(3) by auto
  have split: "?D = take st ?D @ filter (inside base ?e) ?D @ drop en ?D"
    using R(1,5) by (metis append_take_drop_id drop_drop le_add_diff_inverse2)
  have ok2: "regions_ok (live ?t2)"
  proof -
    have "regions_ok (take st ?D @ filter (inside base ?e) ?D @ drop en ?D)" using ok split by simp
    then show ?thesis unfolding l2 by (auto simp: regions_ok_map_nid)
  qed
  have "owners (live ?t2) = owners (take st ?D @ drop en ?D) \<union> cover (filter (inside base ?e) ?D) \<times> {nid}"
    unfolding l2 by (auto simp: owners_map_nid)
  then have o2: "owners (live ?t2) = {p \<in> owners (rgns ?t). fst p \<notin> {base ..< ?e}} \<union> (cover (rgns ?t) \<inter> {base ..< ?e}) \<times> {nid}"
    unfolding R(4) owners_filter_outside [OF okt lt] owners_inside [OF okt lt] .
  have "length (live ?t2) = mt_cnt t1" using l2 split len by (metis length_append length_map)
  then have ne2: "live ?t2 \<noteq> []" using i(5) by auto
  obtain t3 where t3: "merge_loop ?b 0 ?t2 = Val t3" "arr_ok t3" "live t3 = merge (live ?t2)"
    using merge_loop_merge [OF a2, of 0 ?b] ok2 by auto
  have "regions_ok (live t3)" "owners (live t3) = owners (live ?t2)" using merge_effect [OF ok2] t3(3) by auto
  then have "renoded base ?e nid ?t t3"
    unfolding renoded_def using mt_wfI [OF t3(2)] t3(3) ne2 o2 merge_minimal by simp
  then show ?thesis using that i(1) t3(1) mr s
    by (simp add: memblock_set_node_def memblock_isolate_range_def memblock_merge_regions_def Let_def)
qed


end
