(* ===== verification/Memblock_Memory.thy ===== *)
theory Memblock_Memory
  imports Memblock_Map
begin

text \<open>
  The memory map, growing the array of memory (\<open>memblock_double_array\<close> for \<open>memblock.memory\<close>, \<open>mm/memblock.c\<close>). The old
  array of memory is released and the new one is reserved, both in the array of reservations.

  Shown: as long as the reservations have room for three more entries, a resize of the memory array fails without effect or
  doubles the array, and no nested resize happens. Adding and removing memory are exact also when the array has to grow.
  Without that room the two arrays can collide, see \<open>resized_arrays_collide\<close>.
\<close>

subsection \<open>States and contract\<close>

text \<open>The memory array can be doubled \<open>k\<close> times in a row.\<close>

definition can_grow_memory :: "nat \<Rightarrow> memblock \<Rightarrow> bool" where
  "can_grow_memory k mb \<longleftrightarrow> mb_wf mb \<and> 5 \<le> mt_max (memory mb) \<and> mt_max (memory mb) * 2 ^ k < 2 ^ 31 \<and>
     mt_cnt (reserved mb) + 3 * k \<le> mt_max (reserved mb) \<and> mt_max (reserved mb) < 2 ^ 31"

definition memory_array_area :: "memblock \<Rightarrow> u64 set" where
  "memory_array_area mb =
     (case memory_at mb of
        Some a \<Rightarrow> if memory_in_slab mb then {}
          else {a ..< a + memblock_cap_size a (PAGE_ALIGN (array_bytes (memory mb)))}
      | None \<Rightarrow> {})"

text \<open>The reservations after a change: only the old memory array may be gone, and only free memory is new.\<close>

definition reservations_kept :: "memblock \<Rightarrow> memblock \<Rightarrow> bool" where
  "reservations_kept mb mb' \<longleftrightarrow>
     cover (rgns (reserved mb)) - memory_array_area mb \<subseteq> cover (rgns (reserved mb')) \<and>
     cover (rgns (reserved mb')) \<subseteq> cover (rgns (reserved mb)) \<union> free_mem mb MAX_NUMNODES"

definition memory_doubled :: "memblock \<Rightarrow> memblock \<Rightarrow> bool" where
  "memory_doubled mb mb' \<longleftrightarrow>
     memory mb' = moved_array (memory mb) \<and> can_resize mb' = can_resize mb \<and> mt_wf (reserved mb') \<and>
     mt_max (reserved mb') = mt_max (reserved mb) \<and> mt_cnt (reserved mb') \<le> mt_cnt (reserved mb) + 3 \<and>
     reservations_kept mb mb' \<and> memory_array_area mb' \<inter> cover (rgns (reserved mb)) = {}"

lemma can_grow_memory_small: "can_grow_memory k mb \<Longrightarrow> small mb \<and> mt_max (memory mb) < 2 ^ 32"
proof -
  assume g: "can_grow_memory k mb"
  have "mt_max (memory mb) \<le> mt_max (memory mb) * 2 ^ k" by simp
  then have "mt_max (memory mb) < 2 ^ 31" using g unfolding can_grow_memory_def by linarith
  then show ?thesis using g mt_wf_arr_ok [of "memory mb"] mt_wf_arr_ok [of "reserved mb"]
    by (auto simp: can_grow_memory_def small_def mb_wf_def arr_ok_def)
qed

lemma can_grow_memory_doubled:
  assumes "can_grow_memory (Suc k) mb" "memory_doubled mb mb'"
  shows "can_grow_memory k mb'"
  using assms moved_array_wf [of "memory mb"] by (auto simp: can_grow_memory_def memory_doubled_def mb_wf_def)

subsection \<open>One resize\<close>

lemma array_bytes_moved: "array_bytes (moved_array t) = push_bit 1 (array_bytes t)"
  by (simp add: array_bytes_def moved_array_def push_bit_eq_mult)

lemma new_memory_array_at:
  assumes wf: "mb_wf mb" "small mb"
  defines "n \<equiv> PAGE_ALIGN (push_bit 1 (array_bytes (memory mb)))"
  obtains addr where "new_array_at env Memory s z mb = Val addr"
    "\<not> env_slab env \<Longrightarrow> addr \<noteq> 0 \<Longrightarrow> addr \<le> addr + n \<and> {addr ..< addr + n} \<subseteq> free_mem mb MAX_NUMNODES"
proof (cases "env_slab env")
  case True
  then show ?thesis using that by (simp add: new_array_at_def Let_def)
next
  case False
  obtain a where a: "memblock_find_in_range mb 0 (current_limit mb) n PAGE_SIZE = Val a"
    "a \<noteq> 0 \<Longrightarrow> a \<le> a + n \<and> {a ..< a + n} \<subseteq> free_mem mb MAX_NUMNODES"
    using find_sound [OF wf, of 0 "current_limit mb" n PAGE_SIZE MAX_NUMNODES] by (auto simp: memblock_find_in_range_def)
  then show ?thesis using that [of a] False unfolding new_array_at_def Let_def n_def by simp
qed

text \<open>Releasing the old array, and reserving the new one.\<close>

abbreviation release_old :: "resizer \<Rightarrow> mb_env \<Rightarrow> memblock \<Rightarrow> memblock \<Rightarrow> memblock outcome" where
  "release_old dbl env mb mb1 \<equiv>
     (if in_slab Memory mb then Val mb1
      else case array_at Memory mb of None \<Rightarrow> Val mb1
        | Some old \<Rightarrow> bind_outcome (memblock_free dbl env old (PAGE_ALIGN (array_bytes (memory mb))) mb1) (\<lambda>(_, mb2). Val mb2))"

lemma release_old_array:
  assumes wf: "mt_wf (reserved mb)" and room: "mt_cnt (reserved mb) + 2 \<le> mt_max (reserved mb)"
    and mb1: "reserved mb1 = reserved mb"
  obtains t where "release_old dbl env mb mb1 = Val (mb1\<lparr>reserved := t\<rparr>)" "mt_wf t" "mt_max t = mt_max (reserved mb)"
    "mt_cnt t \<le> mt_cnt (reserved mb) + 2" "cover (rgns t) = cover (rgns (reserved mb)) - memory_array_area mb"
proof -
  have id: "mb1 = mb1\<lparr>reserved := reserved mb\<rparr>" using mb1 by (cases mb1) simp
  show ?thesis
  proof (cases "in_slab Memory mb \<or> array_at Memory mb = None")
    case True
    then have "release_old dbl env mb mb1 = Val mb1" "memory_array_area mb = {}"
      by (auto simp: memory_array_area_def split: option.splits)
    then show ?thesis using that [of "reserved mb"] id wf by simp
  next
    case False
    then obtain old where o: "memory_at mb = Some old" "\<not> memory_in_slab mb" by auto
    let ?b = "PAGE_ALIGN (array_bytes (memory mb))"
    let ?s = "memblock_cap_size old ?b"
    have rel: "release_old dbl env mb mb1 = bind_outcome (memblock_remove_range dbl env Reserved old ?b mb1) (\<lambda>(_, mb2). Val mb2)"
      and area: "memory_array_area mb = {old ..< old + ?s}"
      using o by (simp_all add: memblock_free_def memory_array_area_def)
    show ?thesis
    proof (cases "?s = 0")
      case True
      then have "memblock_remove_range dbl env Reserved old ?b mb1 = Val (None, mb1)"
        by (simp add: memblock_remove_range_def memblock_isolate_range_def Let_def)
      then show ?thesis using that [of "reserved mb"] rel area True id wf by simp
    next
      case f: False
      have w: "mt_wf (get_type Reserved mb1)" "mt_cnt (get_type Reserved mb1) + 2 \<le> mt_max (get_type Reserved mb1)"
        using mb1 wf room by simp_all
      obtain t where t: "memblock_remove_range dbl env Reserved old ?b mb1 = Val (None, put_type Reserved t mb1)"
          "removed old (old + ?s) (get_type Reserved mb1) t"
        using remove_range_room [OF w(1) refl f w(2)] by blast
      then show ?thesis using that [of t] rel area removed_cover [OF t(2)] mb1 by (simp add: removed_def)
    qed
  qed
qed

abbreviation reserve_new :: "resizer \<Rightarrow> mb_env \<Rightarrow> u64 \<Rightarrow> u64 \<Rightarrow> memblock \<Rightarrow> memblock outcome" where
  "reserve_new dbl env addr n mb \<equiv>
     (if env_slab env then Val mb
      else bind_outcome (memblock_reserve dbl env addr n mb) (\<lambda>(ret, mb3). if ret \<noteq> None then Trap else Val mb3))"

lemma reserve_new_array:
  assumes wf: "mt_wf (reserved mb)" and room: "mt_cnt (reserved mb) < mt_max (reserved mb)" and n: "n \<noteq> 0"
    and free: "\<not> env_slab env \<Longrightarrow> addr \<le> addr + n \<and> {addr ..< addr + n} \<inter> cover (rgns (reserved mb)) = {}"
  obtains u where "reserve_new dbl env addr n mb = Val (mb\<lparr>reserved := u\<rparr>)" "mt_wf u" "mt_max u = mt_max (reserved mb)"
    "mt_cnt u \<le> mt_cnt (reserved mb) + 1"
    "cover (rgns u) = cover (rgns (reserved mb)) \<union> (if env_slab env then {} else {addr ..< addr + n})"
proof (cases "env_slab env")
  case True
  then show ?thesis using that [of "reserved mb"] wf by simp
next
  case False
  then obtain u where u: "memblock_reserve dbl env addr n mb = Val (None, mb\<lparr>reserved := u\<rparr>)"
      "added addr (addr + n) MAX_NUMNODES (reserved mb) u" "mt_cnt u \<le> mt_cnt (reserved mb) + 1"
    using reserve_free_range [OF wf _ n _ room, of addr dbl env] free by blast
  then show ?thesis using that [of u] False added_cover [OF u(2)] by (simp add: added_def)
qed

lemma double_memory:
  assumes g: "can_grow_memory (Suc k) mb"
  shows "\<exists>ok mb'. double_array (Suc depth) env Memory s z mb = Val (ok, mb') \<and>
    (\<not> ok \<longrightarrow> mb' = mb) \<and> (ok \<longrightarrow> memory_doubled mb mb')"
proof -
  let ?m = "memory mb" and ?r = "reserved mb" and ?dbl = "double_array depth env"
  define n where "n = PAGE_ALIGN (push_bit 1 (array_bytes ?m))"
  have wf: "mb_wf mb" "mt_wf ?m" "mt_wf ?r" and room: "mt_cnt ?r + 3 \<le> mt_max ?r" and mx: "5 \<le> mt_max ?m"
    using g by (auto simp: can_grow_memory_def mb_wf_def)
  note small = can_grow_memory_small [OF g]
  obtain addr where a: "new_array_at env Memory s z mb = Val addr"
    "\<not> env_slab env \<Longrightarrow> addr \<noteq> 0 \<Longrightarrow> addr \<le> addr + n \<and> {addr ..< addr + n} \<subseteq> free_mem mb MAX_NUMNODES"
    using new_memory_array_at [OF wf(1), of env s z] small unfolding n_def by blast
  show ?thesis
  proof (cases "\<not> can_resize mb \<or> addr = 0")
    case True
    then show ?thesis using a(1) by (auto simp: Let_def)
  next
    case False
    then have ad: "addr \<noteq> 0" "can_resize mb" by auto
    define mb1 where "mb1 = set_array_at Memory (Some addr) (put_type Memory (moved_array ?m) mb)"
    have mb1: "reserved mb1 = ?r" by (simp add: mb1_def)
    have room2: "mt_cnt ?r + 2 \<le> mt_max ?r" using room by simp
    obtain t where t: "release_old ?dbl env mb mb1 = Val (mb1\<lparr>reserved := t\<rparr>)" "mt_wf t" "mt_max t = mt_max ?r"
        "mt_cnt t \<le> mt_cnt ?r + 2" "cover (rgns t) = cover (rgns ?r) - memory_array_area mb"
      by (rule release_old_array [OF wf(3) room2 mb1, of ?dbl env]) blast
    let ?mb2 = "mb1\<lparr>reserved := t\<rparr>"
    have "n \<noteq> 0" unfolding n_def using small by (intro new_size_pos [OF mx]) simp
    moreover have "addr \<le> addr + n \<and> {addr ..< addr + n} \<inter> cover (rgns (reserved ?mb2)) = {}" if "\<not> env_slab env"
      using a(2) [OF that ad(1)] t(5) by (auto simp: free_mem_def)
    moreover have "mt_wf (reserved ?mb2)" "mt_cnt (reserved ?mb2) < mt_max (reserved ?mb2)" using t(2-4) room by simp_all
    ultimately obtain u where u: "reserve_new ?dbl env addr n ?mb2 = Val (?mb2\<lparr>reserved := u\<rparr>)" "mt_wf u"
        "mt_max u = mt_max t" "mt_cnt u \<le> mt_cnt t + 1"
        "cover (rgns u) = cover (rgns t) \<union> (if env_slab env then {} else {addr ..< addr + n})"
      using reserve_new_array [of ?mb2 n env addr ?dbl] by auto
    let ?mb3 = "set_in_slab Memory (env_slab env) (?mb2\<lparr>reserved := u\<rparr>)"
    have e: "double_array (Suc depth) env Memory s z mb = Val (True, ?mb3)"
      unfolding double_array.simps Let_def get_type.simps a(1) bind_outcome.simps mb1_def [symmetric] n_def [symmetric] if_not_P [OF ad(1)]
        t(1) u(1) using ad(2) by simp
    have "PAGE_ALIGN (array_bytes (memory ?mb3)) = n" by (simp add: mb1_def n_def array_bytes_moved)
    then have area: "memory_array_area ?mb3 = (if env_slab env then {} else {addr ..< addr + n})"
      using a(2) ad(1) by (auto simp: memory_array_area_def mb1_def cap_size_id)
    have "memory_doubled mb ?mb3"
      unfolding memory_doubled_def reservations_kept_def area
      using u(2-5) t(3-5) a(2) ad(1) by (auto simp: mb1_def free_mem_def)
    then show ?thesis using e by blast
  qed
qed

subsection \<open>Clients of the resize routine\<close>

text \<open>
  After any number of resizes: the same regions, and everything as before when the array has kept its length.
\<close>

definition memory_regrown :: "memblock \<Rightarrow> memblock \<Rightarrow> bool" where
  "memory_regrown mb mb' \<longleftrightarrow>
     mt_wf (memory mb') \<and> rgns (memory mb') = rgns (memory mb) \<and> mt_cnt (memory mb') = mt_cnt (memory mb) \<and>
     mt_max (memory mb) \<le> mt_max (memory mb') \<and> (\<not> can_resize mb \<or> mt_max (memory mb') < 2 * mt_max (memory mb) \<longrightarrow> mb' = mb) \<and>
     (mt_wf (reserved mb) \<longrightarrow> mt_wf (reserved mb')) \<and> reservations_kept mb mb'"

lemma memory_regrown_refl: "mt_wf (memory mb) \<Longrightarrow> memory_regrown mb mb"
  by (auto simp: memory_regrown_def reservations_kept_def)

lemma memory_regrown_step:
  assumes wf: "mt_wf (memory mb)" "can_resize mb" and d: "memory_doubled mb mb1" and r: "memory_regrown mb1 mb2"
  shows "memory_regrown mb mb2"
proof -
  note M = moved_array_wf [OF wf(1)]
  have m: "memory mb1 = moved_array (memory mb)" using d by (simp add: memory_doubled_def)
  have lt: "2 * mt_max (memory mb) \<le> mt_max (memory mb2)" using r m M(3) by (simp add: memory_regrown_def)
  have fm: "free_mem mb1 MAX_NUMNODES \<subseteq> cover (rgns (reserved mb)) \<union> free_mem mb MAX_NUMNODES"
    using m M(2) by (auto simp: free_mem_def)
  have "reservations_kept mb mb2"
    using d r fm unfolding memory_doubled_def memory_regrown_def reservations_kept_def by blast
  then show ?thesis using wf(2) lt d r m M by (auto simp: memory_regrown_def memory_doubled_def)
qed

text \<open>
  What adding and removing memory rely on: a resize of the memory array is refused before resizing is allowed; otherwise
  it returns, and changes nothing or doubles the array.
\<close>

locale memory_growth =
  fixes dbl :: resizer
  assumes refuses: "\<not> can_resize mb \<Longrightarrow> dbl w s z mb = Val (False, mb)"
    and doubles: "can_grow_memory (Suc k) mb \<Longrightarrow> \<exists>ok mb'. dbl Memory s z mb = Val (ok, mb') \<and>
      (\<not> ok \<longrightarrow> mb' = mb) \<and> (ok \<longrightarrow> memory_doubled mb mb')"
begin

lemma make_room_memory:
  assumes "mt_wf (memory mb)" "k < rounds" "mt_cnt (memory mb) + n \<le> mt_max (memory mb) * 2 ^ k"
    and "can_resize mb \<and> mt_max (memory mb) < mt_cnt (memory mb) + n \<longrightarrow> can_grow_memory k mb"
  shows "\<exists>ok mb'. make_room rounds dbl Memory n s z mb = Val (ok, mb') \<and> memory_regrown mb mb' \<and>
    (ok \<longleftrightarrow> mt_cnt (memory mb) + n \<le> mt_max (memory mb'))"
  using assms
proof (induction k arbitrary: mb rounds)
  case 0
  then show ?case using make_room_done [of rounds Memory mb n dbl s z] memory_regrown_refl by auto
next
  case (Suc k)
  note refl = memory_regrown_refl [OF Suc.prems(1)]
  obtain rds where rds: "rounds = Suc rds" "k < rds" using Suc.prems(2) by (cases rounds) auto
  consider "mt_cnt (memory mb) + n \<le> mt_max (memory mb)" | "mt_max (memory mb) < mt_cnt (memory mb) + n" "\<not> can_resize mb"
    | "mt_max (memory mb) < mt_cnt (memory mb) + n" "can_grow_memory (Suc k) mb" "can_resize mb"
    using Suc.prems(4) by linarith
  then show ?case
  proof cases
    case 1
    then show ?thesis using refl by (auto simp: rds(1))
  next
    case 2
    then show ?thesis using refl refuses [of mb Memory s z] by (auto simp: rds(1))
  next
    case 3
    obtain ok mb1 where d: "dbl Memory s z mb = Val (ok, mb1)" "\<not> ok \<longrightarrow> mb1 = mb" "ok \<longrightarrow> memory_doubled mb mb1"
      using doubles [OF 3(2)] by blast
    have S: "make_room rounds dbl Memory n s z mb = (if ok then make_room rds dbl Memory n s z mb1 else Val (False, mb1))"
      using 3(1) d(1) by (simp add: rds(1))
    show ?thesis
    proof (cases ok)
      case False
      then show ?thesis using S d(2) 3(1) refl by auto
    next
      case True
      then have m: "memory_doubled mb mb1" using d(3) by simp
      have w1: "mt_wf (memory mb1)" "mt_cnt (memory mb1) = mt_cnt (memory mb)" "mt_max (memory mb1) = 2 * mt_max (memory mb)"
        using m moved_array_wf [OF Suc.prems(1)] by (simp_all add: memory_doubled_def)
      obtain ok' mb2 where "make_room rds dbl Memory n s z mb1 = Val (ok', mb2)" "memory_regrown mb1 mb2"
          "ok' \<longleftrightarrow> mt_cnt (memory mb) + n \<le> mt_max (memory mb2)"
        using Suc.IH [OF w1(1) rds(2)] Suc.prems(3) can_grow_memory_doubled [OF 3(2) m] w1 by auto
      then show ?thesis using S True memory_regrown_step [OF Suc.prems(1) 3(3) m] by auto
    qed
  qed
qed

lemma add_memory:
  assumes wf: "mt_wf (memory mb)" and s: "s = memblock_cap_size base sz" "s \<noteq> 0"
    and k: "k = length (fill nid (base + s) base (rgns (memory mb)))"
    and grow: "can_resize mb \<and> mt_max (memory mb) < k \<longrightarrow> can_grow_memory 2 mb"
  shows "\<exists>ret mb1 mb'. memblock_add_region dbl env Memory base sz nid mb = Val (ret, mb') \<and> memory_regrown mb mb1 \<and>
    (case ret of
       None \<Rightarrow> (\<exists>t. mb' = mb1\<lparr>memory := t\<rparr> \<and> added base (base + s) nid (memory mb1) t)
     | Some e \<Rightarrow> e = ENOMEM \<and> mb' = mb1 \<and> mt_max (memory mb1) < k)"
proof (cases "k \<le> mt_max (memory mb)")
  case True
  have "mt_wf (get_type Memory mb)" "length (fill nid (base + s) base (rgns (get_type Memory mb))) \<le> mt_max (get_type Memory mb)"
    using wf True k by simp_all
  from add_region_room [OF this(1) s this(2), of dbl env] obtain t where
    "memblock_add_region dbl env Memory base sz nid mb = Val (None, put_type Memory t mb)"
    "added base (base + s) nid (get_type Memory mb) t" by blast
  then show ?thesis using memory_regrown_refl [OF wf] by (intro exI [of _ None] exI [of _ mb] exI conjI) auto
next
  case False
  let ?t = "memory mb" and ?e = "base + s"
  have pos: "0 < mt_cnt ?t" "mt_cnt ?t \<le> mt_max ?t" "mt_max ?t = length (mt_regions ?t)"
    using mt_wf_cnt_pos [OF wf] mt_wf_arr_ok [OF wf] by (auto simp: arr_ok_def)
  have lt: "base < ?e" using cap_size_end s by simp
  have ne: "rgns ?t \<noteq> []" using False pos lt k by auto
  then have l: "rgns ?t = live ?t" using wf by (auto elim: mt_wf_cases)
  have len: "length (live ?t) = mt_cnt ?t" by (rule arr_length_live [OF mt_wf_arr_ok [OF wf]])
  have c: "add_round (env_beyond env) False nid base ?e ?t = Val (k - mt_cnt ?t, ?t)"
    unfolding k l by (rule add_round_count [OF mt_wf_arr_ok [OF wf]])
  have n: "mt_cnt ?t + (k - mt_cnt ?t) = k" using False pos(2) by simp
  have "k \<le> 2 * mt_cnt ?t + 1" using fill_at_most [of nid ?e base "live ?t"] k l len by simp
  then have "mt_cnt ?t + (k - mt_cnt ?t) \<le> mt_max ?t * 2 ^ 2" unfolding n using pos by simp
  from make_room_memory [OF wf _ this, of 64 base s] obtain ok mb1 where
    m: "make_room 64 dbl Memory (k - mt_cnt ?t) base s mb = Val (ok, mb1)" "memory_regrown mb mb1" "ok \<longleftrightarrow> k \<le> mt_max (memory mb1)"
    using grow unfolding n by auto
  have S: "memblock_add_region dbl env Memory base sz nid mb = (if \<not> ok then Val (Some ENOMEM, mb1)
      else bind_outcome (add_round (env_beyond env) True nid base ?e (memory mb1))
             (\<lambda>(_, t). bind_outcome (memblock_merge_regions (env_beyond env) t) (\<lambda>t. Val (None, mb1\<lparr>memory := t\<rparr>))))"
    using s pos mt_wf_empty_iff [OF wf] ne c m(1) by (auto simp: memblock_add_region_def Let_def)
  show ?thesis
  proof (cases ok)
    case no: False
    then show ?thesis using S m by (intro exI [of _ "Some ENOMEM"] exI [of _ mb1] exI conjI) auto
  next
    case True
    have w1: "mt_wf (memory mb1)" "rgns (memory mb1) = rgns ?t" using m(2) by (simp_all add: memory_regrown_def)
    then obtain nr t1 t2 where "add_round (env_beyond env) True nid base ?e (memory mb1) = Val (nr, t1)"
      "memblock_merge_regions (env_beyond env) t1 = Val t2" "added base ?e nid (memory mb1) t2"
      using insert_and_merge [OF w1(1) _ lt] ne m(3) True k by metis
    then show ?thesis using S True m(2) by (intro exI [of _ None] exI [of _ mb1] exI conjI) auto
  qed
qed

lemma remove_memory:
  assumes wf: "mt_wf (memory mb)" and s: "s = memblock_cap_size base sz" "s \<noteq> 0"
    and grow: "can_resize mb \<and> mt_max (memory mb) < mt_cnt (memory mb) + 2 \<longrightarrow> can_grow_memory 1 mb"
  shows "\<exists>ret mb1 mb'. memblock_remove_range dbl env Memory base sz mb = Val (ret, mb') \<and> memory_regrown mb mb1 \<and>
    (case ret of
       None \<Rightarrow> (\<exists>t. mb' = mb1\<lparr>memory := t\<rparr> \<and> removed base (base + s) (memory mb1) t)
     | Some e \<Rightarrow> e = ENOMEM \<and> mb' = mb1 \<and> mt_max (memory mb1) < mt_cnt (memory mb) + 2)"
proof (cases "mt_cnt (memory mb) + 2 \<le> mt_max (memory mb)")
  case True
  then have "mt_wf (get_type Memory mb)" "mt_cnt (get_type Memory mb) + 2 \<le> mt_max (get_type Memory mb)" using wf by simp_all
  from remove_range_room [OF this(1) s this(2), of dbl env] obtain t where
    "memblock_remove_range dbl env Memory base sz mb = Val (None, put_type Memory t mb)"
    "removed base (base + s) (get_type Memory mb) t" by blast
  then show ?thesis using memory_regrown_refl [OF wf] by (intro exI [of _ None] exI [of _ mb] exI conjI) auto
next
  case False
  define k :: nat where "k = (if can_resize mb then 1 else 2)"
  have c: "0 < mt_cnt (memory mb)" "mt_cnt (memory mb) \<le> mt_max (memory mb)"
    using mt_wf_cnt_pos [OF wf] mt_wf_arr_ok [OF wf] by (simp_all add: arr_ok_def)
  have k: "mt_cnt (memory mb) + 2 \<le> mt_max (memory mb) * 2 ^ k" "k < 64"
    using c grow False by (auto simp: k_def can_grow_memory_def)
  obtain ok mb1 where m: "make_room 64 dbl Memory 2 base s mb = Val (ok, mb1)" "memory_regrown mb mb1"
      "ok \<longleftrightarrow> mt_cnt (memory mb) + 2 \<le> mt_max (memory mb1)"
    using make_room_memory [OF wf k(2,1), of base s] grow by (auto simp: k_def)
  have w1: "mt_wf (memory mb1)" "mt_cnt (memory mb1) = mt_cnt (memory mb)" using m(2) by (simp_all add: memory_regrown_def)
  show ?thesis
  proof (cases ok)
    case no: False
    then have "memblock_remove_range dbl env Memory base sz mb = Val (Some ENOMEM, mb1)"
      using s m(1) by (simp add: memblock_remove_range_def memblock_isolate_range_def Let_def)
    then show ?thesis using m no by (intro exI [of _ "Some ENOMEM"] exI [of _ mb1] exI conjI) auto
  next
    case True
    then have room: "mt_cnt (get_type Memory mb1) + 2 \<le> mt_max (get_type Memory mb1)" using m(3) w1(2) by simp
    have S: "memblock_remove_range dbl env Memory base sz mb = memblock_remove_range dbl env Memory base sz mb1"
      using s m(1) True make_room_done [OF _ room, of 64 dbl base s]
      by (simp add: memblock_remove_range_def memblock_isolate_range_def Let_def)
    obtain t where "memblock_remove_range dbl env Memory base sz mb1 = Val (None, put_type Memory t mb1)"
        "removed base (base + s) (get_type Memory mb1) t"
      using remove_range_room [OF _ s room, of dbl env] w1(1) by auto
    then show ?thesis using S m(2) by (intro exI [of _ None] exI [of _ mb1] exI conjI) auto
  qed
qed

end

interpretation boot_memory: memory_growth "memblock_double_array env" for env
proof
  fix mb w s z k
  show "memblock_double_array env w s z mb = Val (False, mb)" if "\<not> can_resize mb" using that by (rule no_resize)
  have "(4 :: nat) = Suc 3" by simp
  then show "\<exists>ok mb'. memblock_double_array env Memory s z mb = Val (ok, mb') \<and>
      (\<not> ok \<longrightarrow> mb' = mb) \<and> (ok \<longrightarrow> memory_doubled mb mb')" if "can_grow_memory (Suc k) mb"
    using double_memory [OF that, of 3 env s z] by (simp only: memblock_double_array_def)
qed

text \<open>
  What a change of the memory leaves of the rest of the map: unless the array had to grow nothing else changes, and then only
  the place of the array, its reservation and its length do.
\<close>

definition rest_kept :: "memblock \<Rightarrow> memblock \<Rightarrow> bool" where
  "rest_kept mb mb' \<longleftrightarrow>
     mt_max (memory mb) \<le> mt_max (memory mb') \<and>
     (\<not> can_resize mb \<or> mt_max (memory mb') = mt_max (memory mb) \<longrightarrow> mb' = mb\<lparr>memory := memory mb'\<rparr>) \<and>
     (mt_wf (reserved mb) \<longrightarrow> mt_wf (reserved mb')) \<and> reservations_kept mb mb'"

lemma regrown_rest_kept:
  assumes "memory_regrown mb mb1"
  shows "rest_kept mb mb1" and "mt_max t = mt_max (memory mb1) \<Longrightarrow> rest_kept mb (mb1\<lparr>memory := t\<rparr>)"
proof -
  have "0 < mt_max (memory mb1)"
    using assms mt_wf_cnt_pos [of "memory mb1"] mt_wf_arr_ok [of "memory mb1"] by (auto simp: memory_regrown_def arr_ok_def)
  then show "rest_kept mb mb1" "mt_max t = mt_max (memory mb1) \<Longrightarrow> rest_kept mb (mb1\<lparr>memory := t\<rparr>)"
    using assms by (auto simp: memory_regrown_def rest_kept_def reservations_kept_def)
qed

end
