(* ===== verification/Memblock_Correct.thy ===== *)
theory Memblock_Correct
  imports Memblock_Memory
begin

text \<open>
  The boot-time memory map: what its operations guarantee, and three places where the code does less than it means to.
  The first part has the memory limit; the properties follow, each with a concrete memory map it applies to.
\<close>

subsection \<open>The memory limit\<close>

definition total_bytes :: "memblock_region list \<Rightarrow> nat" where
  "total_bytes rs = sum_list (map (\<lambda>r. unat (rg_size r)) rs)"

lemma limit_address_above:
  assumes "regions_ok rs" "\<And>r. r \<in> set rs \<Longrightarrow> b \<le> rg_base r" "limit \<noteq> 0"
  shows "b \<le> limit_address limit rs"
  using assms
proof (induction rs arbitrary: limit)
  case Nil
  show ?case by (simp add: ULLONG_MAX_def)
next
  case (Cons r rs)
  show ?case
  proof (cases "limit \<le> rg_size r")
    case True
    have "rg_base r \<le> rend r" using Cons.prems(1) by (simp add: less_imp_le)
    then have "rg_base r \<le> rg_base r + limit" using True by (rule word_plus_mono_right2)
    then show ?thesis using Cons.prems(2) [of r] True by auto
  next
    case False
    then show ?thesis using Cons.IH [of "limit - rg_size r"] Cons.prems by auto
  qed
qed

lemma card_word_range: "card {a ..< (b :: u64)} = unat b - unat a"
proof -
  have "inj_on unat {a ..< b}" by (rule inj_onI) (rule unsigned_word_eqI)
  moreover have "unat ` {a ..< b} = {unat a ..< unat b}"
  proof (intro equalityI subsetI)
    fix n assume n: "n \<in> {unat a ..< unat b}"
    have "unat b < 2 ^ 64" using unsigned_less [of b, where 'a = nat] by simp
    then have "unat (of_nat n :: u64) = n" using n by (simp add: unsigned_of_nat take_bit_nat_eq_self)
    then have "of_nat n \<in> {a ..< b}" "n = unat (of_nat n :: u64)" using n by (simp_all add: word_le_nat_alt word_less_nat_alt)
    then show "n \<in> unat ` {a ..< b}" by blast
  qed (auto simp: word_le_nat_alt word_less_nat_alt)
  ultimately show ?thesis using card_image [of unat "{a ..< b}"] by simp
qed

lemma unat_end: "b \<le> b + (s :: u64) \<Longrightarrow> unat (b + s) = unat b + unat s"
  by (metis unat_plus_simple)

lemma limit_exact:
  assumes "regions_ok rs" "limit \<noteq> 0"
  shows "card {x \<in> cover rs. x < limit_address limit rs} = min (unat limit) (total_bytes rs)"
  using assms
proof (induction rs arbitrary: limit)
  case Nil
  show ?case by (simp add: total_bytes_def)
next
  case (Cons r rs)
  have ok: "regions_ok rs" and r: "rg_base r < rend r" using Cons.prems(1) by auto
  have above: "rend r \<le> x" if "x \<in> cover rs" for x
    using Cons.prems cover_bounds [OF ok that] by auto
  show ?case
  proof (cases "limit \<le> rg_size r")
    case True
    have le: "rg_base r \<le> rg_base r + limit" "rg_base r + limit \<le> rend r"
      using True r by (auto intro: word_plus_mono_right2 [of _ "rg_size r"] word_plus_mono_right simp: less_imp_le)
    have "\<not> x < rg_base r + limit" if "x \<in> cover rs" for x using above [OF that] le(2) by auto
    moreover have "x < rend r" if "x < rg_base r + limit" for x using that le(2) by (rule order.strict_trans2)
    ultimately have "{x \<in> cover (r # rs). x < rg_base r + limit} = {rg_base r ..< rg_base r + limit}" by auto
    moreover have "unat limit \<le> total_bytes (r # rs)" using True by (simp add: total_bytes_def word_le_nat_alt)
    ultimately show ?thesis using True by (simp add: card_word_range unat_end [OF le(1)])
  next
    case False
    let ?m = "limit_address (limit - rg_size r) rs"
    have l: "limit - rg_size r \<noteq> 0" using False by auto
    have m: "rend r \<le> ?m" using limit_address_above [OF ok _ l] Cons.prems(1) by auto
    have e: "{x \<in> cover (r # rs). x < ?m} = {rg_base r ..< rend r} \<union> {x \<in> cover rs. x < ?m}"
      using m by auto
    have "{rg_base r ..< rend r} \<inter> {x \<in> cover rs. x < ?m} = {}" using above by fastforce
    then have "card {x \<in> cover (r # rs). x < ?m} = unat (rg_size r) + min (unat (limit - rg_size r)) (total_bytes rs)"
      unfolding e using Cons.IH [OF ok l] r by (simp add: card_Un_disjoint card_word_range unat_end less_imp_le)
    moreover have "unat (limit - rg_size r) = unat limit - unat (rg_size r)" "unat (rg_size r) \<le> unat limit"
      using False by (simp_all add: unat_sub word_le_nat_alt not_le)
    moreover have "limit_address limit (r # rs) = ?m" using False by simp
    ultimately show ?thesis by (auto simp: total_bytes_def min_def)
  qed
qed

lemma remove_above:
  assumes wf: "mt_wf (get_type w mb)" and room: "mt_cnt (get_type w mb) + 2 \<le> mt_max (get_type w mb)"
  obtains t where "memblock_remove_range dbl env w m ULLONG_MAX mb = Val (None, put_type w t mb)" "mt_wf t"
    "owners (rgns t) = {p \<in> owners (rgns (get_type w mb)). fst p < m}"
proof -
  let ?s = "memblock_cap_size m ULLONG_MAX"
  have s: "?s = ULLONG_MAX - m" by (simp add: memblock_cap_size_def min_absorb2 ULLONG_MAX_def)
  have top: "x < ULLONG_MAX" if "(x, n) \<in> owners (rgns (get_type w mb))" for x n
  proof -
    obtain r where "x < rend r" using \<open>(x, n) \<in> _\<close> by (auto simp: owners_def)
    then show ?thesis using rend_le_max [of r] by (rule order.strict_trans2)
  qed
  show ?thesis
  proof (cases "?s = 0")
    case True
    then have "m = ULLONG_MAX" using s by simp
    then have "{p \<in> owners (rgns (get_type w mb)). fst p < m} = owners (rgns (get_type w mb))" using top by auto
    then show ?thesis using that [of "get_type w mb"] wf True
      by (simp add: memblock_remove_range_def memblock_isolate_range_def Let_def)
  next
    case False
    obtain t where t: "memblock_remove_range dbl env w m ULLONG_MAX mb = Val (None, put_type w t mb)"
      "removed m (m + ?s) (get_type w mb) t"
      using remove_range_room [OF wf refl False room] by blast
    have "{p \<in> owners (rgns (get_type w mb)). fst p \<notin> {m ..< m + ?s}} = {p \<in> owners (rgns (get_type w mb)). fst p < m}"
      using top s by (auto simp: not_le not_less dest: leD)
    then show ?thesis using that t by (simp add: removed_def)
  qed
qed

lemma enforce_limit:
  assumes wf: "mb_wf mb" and room: "mt_cnt (memory mb) + 2 \<le> mt_max (memory mb)" "mt_cnt (reserved mb) + 2 \<le> mt_max (reserved mb)"
    and limit: "limit \<noteq> 0"
  defines "m \<equiv> limit_address limit (rgns (memory mb))"
  shows "\<exists>mb'. memblock_enforce_memory_limit dbl env limit mb = Val mb' \<and> mb_wf mb' \<and>
    owners (rgns (memory mb')) = {p \<in> owners (rgns (memory mb)). fst p < m} \<and>
    owners (rgns (reserved mb')) = {p \<in> owners (rgns (reserved mb)). fst p < m}"
proof -
  have mw: "mt_wf (memory mb)" and rw: "mt_wf (reserved mb)" using wf by (auto simp: mb_wf_def)
  have m: "limit_address limit (live (memory mb)) = m"
    by (rule mt_wf_cases [OF mw]) (use limit in \<open>auto simp: m_def\<close>)
  obtain t where t: "memblock_remove_range dbl env Memory m ULLONG_MAX mb = Val (None, put_type Memory t mb)" "mt_wf t"
    "owners (rgns t) = {p \<in> owners (rgns (get_type Memory mb)). fst p < m}"
    by (rule remove_above [of Memory mb dbl env m]) (use mw room(1) in auto)
  let ?mb = "put_type Memory t mb"
  obtain u where u: "memblock_remove_range dbl env Reserved m ULLONG_MAX ?mb = Val (None, put_type Reserved u ?mb)" "mt_wf u"
    "owners (rgns u) = {p \<in> owners (rgns (get_type Reserved ?mb)). fst p < m}"
    by (rule remove_above [of Reserved ?mb dbl env m]) (use rw room(2) in auto)
  show ?thesis using t u m limit by (simp add: memblock_enforce_memory_limit_def mb_wf_def)
qed

lemma enforce_limit_size:
  assumes "regions_ok rs" "regions_ok rs'" "limit \<noteq> 0"
    "owners rs' = {p \<in> owners rs. fst p < limit_address limit rs}"
  shows "total_bytes rs' = min (unat limit) (total_bytes rs)"
proof -
  have "cover rs' = {x \<in> cover rs. x < limit_address limit rs}" unfolding cover_owners assms(4) by (auto simp: image_iff)
  then have c: "card (cover rs') = min (unat limit) (total_bytes rs)" using limit_exact [OF assms(1,3)] by simp
  have "card (cover qs) = total_bytes qs" if "regions_ok qs" for qs
    using that
  proof (induction qs)
    case (Cons r qs)
    have "{rg_base r ..< rend r} \<inter> cover qs = {}"
      using Cons.prems cover_bounds [of qs _ "rend r"] by fastforce
    moreover have "finite (cover qs)" by (simp add: cover_def)
    ultimately show ?case using Cons by (simp add: card_Un_disjoint card_word_range unat_end less_imp_le total_bytes_def)
  qed (simp add: total_bytes_def)
  then show ?thesis using c assms(2) by simp
qed

subsection \<open>Properties\<close>

text \<open>A small machine: memory with a hole, one reservation, arrays of eight entries, resizing allowed.\<close>

definition no_region :: memblock_region where
  "no_region = mk_region 0 0 0"

definition example_map :: memblock where
  "example_map = \<lparr>current_limit = 0x100000,
     memory = \<lparr>mt_cnt = 2, mt_max = 8, mt_total = 0x18000,
       mt_regions = [mk_region 0x1000 0x8000 0, mk_region 0x10000 0x10000 1] @ replicate 6 no_region\<rparr>,
     reserved = \<lparr>mt_cnt = 1, mt_max = 8, mt_total = 0x1000,
       mt_regions = [mk_region 0x1f000 0x1000 MAX_NUMNODES] @ replicate 7 no_region\<rparr>,
     memory_at = None, reserved_at = None, memory_in_slab = False, reserved_in_slab = False, can_resize = True\<rparr>"

lemma example_map_live:
  "live (memory example_map) = [mk_region 0x1000 0x8000 0, mk_region 0x10000 0x10000 1]"
  "live (reserved example_map) = [mk_region 0x1f000 0x1000 MAX_NUMNODES]"
  by (simp_all add: example_map_def live_def)

lemma example_map_wf: "mb_wf example_map" "small example_map" "can_grow example_map"
proof -
  show wf: "mb_wf example_map"
    unfolding mb_wf_def mt_wf_def arr_ok_def example_map_live by (simp add: example_map_def)
  show sm: "small example_map" by (simp add: small_def example_map_def)
  show "can_grow example_map" using wf sm by (simp add: can_grow_def example_map_def)
qed

lemma example_map_rgns:
  "rgns (memory example_map) = [mk_region 0x1000 0x8000 0, mk_region 0x10000 0x10000 1]"
  "rgns (reserved example_map) = [mk_region 0x1f000 0x1000 MAX_NUMNODES]"
  by (simp_all add: rgns_def example_map_live)

text \<open>
  C5. An allocation at boot always returns. It gives 0 and changes nothing, or an aligned address of a block
  that was memory of the requested node and not reserved, below the limit, and that is reserved afterwards; all
  earlier reservations stay, except that of a region array that was moved.
\<close>

theorem memblock_alloc_safe:
  assumes "can_grow mb"
  shows "\<exists>a mb'. memblock_alloc_base_nid (memblock_double_array (boot_env kmalloc beyond)) (boot_env kmalloc beyond)
        sz align max_addr nid mb = Val (a, mb') \<and>
    allocated (round_up sz align) align max_addr nid mb a mb'"
  using assms by (rule boot.alloc_base)

theorem memblock_alloc_safe_witness:
  "can_grow example_map \<and>
   (\<exists>a mb'. memblock_alloc_base_nid (memblock_double_array (boot_env (\<lambda>_. 0) no_region)) (boot_env (\<lambda>_. 0) no_region)
        0x1000 0x1000 0 MAX_NUMNODES example_map = Val (a, mb') \<and>
      allocated (round_up 0x1000 0x1000) 0x1000 0 MAX_NUMNODES example_map a mb')"
  using memblock_alloc_safe [OF example_map_wf(3)] example_map_wf(3) by simp

text \<open>A map whose memory array is full; it was moved once, and its place is the only reservation.\<close>

definition full_map :: memblock where
  "full_map = \<lparr>current_limit = 0x100000,
     memory = \<lparr>mt_cnt = 5, mt_max = 5, mt_total = 0x1b000,
       mt_regions = [mk_region 0x1000 0x8000 0, mk_region 0x10000 0x10000 1, mk_region 0x30000 0x1000 0,
         mk_region 0x32000 0x1000 0, mk_region 0x34000 0x1000 0]\<rparr>,
     reserved = \<lparr>mt_cnt = 1, mt_max = 8, mt_total = 0x1000,
       mt_regions = [mk_region 0x8000 0x1000 MAX_NUMNODES] @ replicate 7 no_region\<rparr>,
     memory_at = Some 0x8000, reserved_at = None, memory_in_slab = False, reserved_in_slab = False, can_resize = True\<rparr>"

lemma full_map_wf: "mb_wf full_map" "can_grow_memory 2 full_map" "can_grow_memory 1 full_map"
proof -
  have l: "live (reserved full_map) = [mk_region 0x8000 0x1000 MAX_NUMNODES]"
    "live (memory full_map) = [mk_region 0x1000 0x8000 0, mk_region 0x10000 0x10000 1, mk_region 0x30000 0x1000 0,
         mk_region 0x32000 0x1000 0, mk_region 0x34000 0x1000 0]"
    by (simp_all add: full_map_def live_def)
  show wf: "mb_wf full_map" unfolding mb_wf_def mt_wf_def arr_ok_def l by (simp add: full_map_def)
  show "can_grow_memory 2 full_map" "can_grow_memory 1 full_map" using wf by (simp_all add: can_grow_memory_def full_map_def)
qed




text \<open>
  C22. Removing a range of memory, cut off at the end of the address space, always returns. It removes exactly the addresses of the range
  and leaves the array sorted and disjoint; or it returns \<open>-ENOMEM\<close>, the array lacks the two entries that
  splitting can take, and nothing is changed. Unless the array had to grow nothing but the
  memory changes. This holds for a well-formed memory array with room for two more entries, or before resizing is
  allowed, or, where the array can and must grow, when the map is well formed, the memory array has
  at least 5 and fewer than \<open>2 ^ 30\<close> entries, the reservations have fewer than \<open>2 ^ 31\<close>, and the
  reservations have room for three more entries.
\<close>

theorem memblock_remove_exact:
  assumes "mt_wf (memory mb)" "s = memblock_cap_size base sz"
    and "can_resize mb \<and> mt_max (memory mb) < mt_cnt (memory mb) + 2 \<longrightarrow> can_grow_memory 1 mb"
  shows "\<exists>ret mb'. memblock_remove (memblock_double_array env) env base sz mb = Val (ret, mb') \<and> rest_kept mb mb' \<and>
    mt_wf (memory mb') \<and>
    (case ret of
       None \<Rightarrow> owners (rgns (memory mb')) = {p \<in> owners (rgns (memory mb)). fst p \<notin> {base ..< base + s}}
     | Some e \<Rightarrow> e = ENOMEM \<and> mt_max (memory mb) < mt_cnt (memory mb) + 2 \<and> mb' = mb)"
proof (cases "s = 0")
  case True
  then have "memblock_remove (memblock_double_array env) env base sz mb = Val (None, mb)"
    using assms(2) by (simp add: memblock_remove_def memblock_remove_range_def memblock_isolate_range_def Let_def)
  then show ?thesis using True assms(1) regrown_rest_kept(1) [OF memory_regrown_refl] by (intro exI [of _ None] exI [of _ mb]) simp
next
  case False
  obtain ret mb1 mb' where r: "memblock_remove_range (memblock_double_array env) env Memory base sz mb = Val (ret, mb')"
    "memory_regrown mb mb1" "case ret of
       None \<Rightarrow> (\<exists>t. mb' = mb1\<lparr>memory := t\<rparr> \<and> removed base (base + s) (memory mb1) t)
     | Some e \<Rightarrow> e = ENOMEM \<and> mb' = mb1 \<and> mt_max (memory mb1) < mt_cnt (memory mb) + 2"
    using boot_memory.remove_memory [OF assms(1,2) False assms(3), of env env] by blast
  show ?thesis
  proof (cases ret)
    case None
    then show ?thesis using r regrown_rest_kept(2) [OF r(2)] by (auto simp: memblock_remove_def removed_def memory_regrown_def)
  next
    case (Some e)
    have "mt_cnt (memory mb) \<le> mt_max (memory mb)" using mt_wf_arr_ok [OF assms(1)] by (simp add: arr_ok_def)
    then have "mb1 = mb" using Some r(2,3) assms(3) by (auto simp: memory_regrown_def can_grow_memory_def)
    then show ?thesis using Some r assms(1) regrown_rest_kept(1) [OF r(2)] by (auto simp: memblock_remove_def)
  qed
qed

lemma full_map_remove:
  "case memblock_remove (memblock_double_array (boot_env (\<lambda>_. 0) no_region)) (boot_env (\<lambda>_. 0) no_region) 0x2000 0x1000 full_map of
     Val (ret, mb') \<Rightarrow> ret = None \<and> mt_max (memory mb') = 10 | _ \<Rightarrow> False"
  by code_simp

theorem memblock_remove_exact_witness:
  "\<exists>mb'. memblock_remove (memblock_double_array (boot_env (\<lambda>_. 0) no_region)) (boot_env (\<lambda>_. 0) no_region) 0x2000 0x1000 full_map =
      Val (None, mb') \<and> rest_kept full_map mb' \<and> mt_max (memory mb') = 10 \<and>
    owners (rgns (memory mb')) = {p \<in> owners (rgns (memory full_map)). fst p \<notin> {0x2000 ..< 0x2000 + 0x1000}}"
proof -
  have s: "memblock_cap_size 0x2000 0x1000 = 0x1000" by (simp add: memblock_cap_size_def ULLONG_MAX_def)
  have "\<exists>ret mb'. memblock_remove (memblock_double_array (boot_env (\<lambda>_. 0) no_region)) (boot_env (\<lambda>_. 0) no_region) 0x2000 0x1000 full_map =
      Val (ret, mb') \<and> rest_kept full_map mb' \<and> mt_wf (memory mb') \<and>
    (case ret of
       None \<Rightarrow> owners (rgns (memory mb')) = {p \<in> owners (rgns (memory full_map)). fst p \<notin> {0x2000 ..< 0x2000 + 0x1000}}
     | Some e \<Rightarrow> e = ENOMEM \<and> mt_max (memory full_map) < mt_cnt (memory full_map) + 2 \<and> mb' = full_map)"
    by (rule memblock_remove_exact [OF _ s [symmetric]]) (use full_map_wf in \<open>auto simp: mb_wf_def\<close>)
  then show ?thesis using full_map_remove by (auto split: option.splits)
qed

text \<open>
  C23. Both iterators over free memory end, and visit the same addresses: exactly the memory of the node that is not
  reserved, one upwards and one downwards.
\<close>

theorem free_iterators_agree:
  assumes "mb_wf mb" "small mb"
  shows "\<exists>up down. free_ranges (iter_bound mb) mb nid 0 = Val up \<and> free_ranges_rev (iter_bound mb) mb nid ULLONG_MAX = Val down \<and>
    range_set up = free_mem mb nid \<and> range_set down = free_mem mb nid \<and>
    sorted_wrt ascending up \<and> sorted_wrt descending down"
  using free_ranges_all [OF assms, of nid] free_ranges_rev_all [OF assms, of nid] by metis

theorem free_iterators_agree_witness:
  "\<exists>up down. free_ranges (iter_bound example_map) example_map 1 0 = Val up \<and>
     free_ranges_rev (iter_bound example_map) example_map 1 ULLONG_MAX = Val down \<and>
     range_set up = free_mem example_map 1 \<and> range_set down = free_mem example_map 1 \<and>
     sorted_wrt ascending up \<and> sorted_wrt descending down"
  using free_iterators_agree [OF example_map_wf(1,2)] .


text \<open>
  C24. The search for free memory gives up only when nothing fits: when it returns 0, no aligned block of the size inside one
  memory region of the node and inside the window is free of reservations.
\<close>

theorem memblock_find_complete:
  assumes "mb_wf mb" "small mb" "memblock_find_in_range_node mb start e sz (2 ^ p) nid = Val 0" "0 < sz"
    "r \<in> set (rgns (memory mb))" "node_matches nid r" "rg_base r \<le> c" "c + sz \<le> rend r"
    "c AND (2 ^ p - 1) = 0" "find_start start \<le> c" "c \<le> c + sz" "c + sz \<le> find_end mb start e"
  shows "{c ..< c + sz} \<inter> cover (rgns (reserved mb)) \<noteq> {}"
  using find_complete [OF assms(1-3,5,6,4,9-12,7,8)] .

theorem memblock_find_complete_witness:
  "{0x1f000 ..< 0x1f000 + 0x1000} \<inter> cover (rgns (reserved example_map)) \<noteq> {}"
proof (rule memblock_find_complete [where mb = example_map and start = "0x1f000" and e = "0x20000" and p = 12 and nid = 1])
  show "memblock_find_in_range_node example_map 0x1f000 0x20000 0x1000 (2 ^ 12) 1 = Val 0" by code_simp
  show "mk_region 0x10000 0x10000 1 \<in> set (rgns (memory example_map))" by (simp add: example_map_rgns)
qed (simp_all add: example_map_wf node_matches_def PAGE_SIZE_def MEMBLOCK_ALLOC_ACCESSIBLE_def max_def)

text \<open>
  The binary search over the regions answers like a look at all of them: \<open>memblock_is_memory\<close> and \<open>memblock_is_reserved\<close>
  tell whether some region contains the address.
\<close>

theorem memblock_search_linear:
  assumes "mb_wf mb"
  shows "memblock_is_memory mb addr = Val (\<exists>r \<in> set (rgns (memory mb)). rg_base r \<le> addr \<and> addr < rend r) \<and>
    memblock_is_reserved mb addr = Val (\<exists>r \<in> set (rgns (reserved mb)). rg_base r \<le> addr \<and> addr < rend r)"
proof -
  have wf: "mt_wf (memory mb)" "mt_wf (reserved mb)" using assms by (auto simp: mb_wf_def)
  have hit: "\<exists>i. memblock_search t addr = Val i \<and> (i \<noteq> - 1 \<longleftrightarrow> addr \<in> cover (rgns t))" if "mt_wf t" for t
    using memblock_search_correct [OF that, of addr] cover_nth [OF that, of addr] by force
  show ?thesis
    using hit [OF wf(1)] hit [OF wf(2)] by (auto simp: memblock_is_memory_def memblock_is_reserved_def cover_def)
qed

theorem memblock_search_linear_witness:
  "memblock_is_memory example_map 0x9000 =
     Val (\<exists>r \<in> set (rgns (memory example_map)). rg_base r \<le> 0x9000 \<and> 0x9000 < rend r) \<and>
   memblock_is_reserved example_map 0x9000 =
     Val (\<exists>r \<in> set (rgns (reserved example_map)). rg_base r \<le> 0x9000 \<and> 0x9000 < rend r)"
  by (rule memblock_search_linear [OF example_map_wf(1)])

text \<open>
  C32. A resize of the reservations at boot ends: although freeing the old array and reserving the new one can
  resize in turn, with one level of nesting allowed it returns, and it fails without effect or doubles the array.
\<close>

theorem resize_never_nests:
  assumes "can_grow mb"
  shows "\<exists>ok mb'. double_array 1 (boot_env kmalloc beyond) Reserved area_start area_size mb = Val (ok, mb') \<and>
    (\<not> ok \<longrightarrow> mb' = mb) \<and>
    (ok \<longrightarrow> mt_max (reserved mb') = 2 * mt_max (reserved mb) \<and> memory mb' = memory mb \<and> mt_wf (reserved mb'))"
  using double_array_grows [OF assms, of "boot_env kmalloc beyond" 0 area_start area_size]
  by (auto simp: boot_env_def grown_def simp del: double_array.simps)

theorem resize_never_nests_witness:
  "can_grow example_map \<and>
   (\<exists>ok mb'. double_array 1 (boot_env (\<lambda>_. 0) no_region) Reserved 0x2000 0x1000 example_map = Val (ok, mb') \<and>
     (\<not> ok \<longrightarrow> mb' = example_map) \<and>
     (ok \<longrightarrow> mt_max (reserved mb') = 2 * mt_max (reserved example_map) \<and> memory mb' = memory example_map \<and> mt_wf (reserved mb')))"
  using resize_never_nests [OF example_map_wf(3)] example_map_wf(3) by blast

text \<open>
  Assigning a node to a range changes the node of exactly the memory in the range, and leaves the array minimal.
\<close>

theorem memblock_set_node_exact:
  assumes "mt_wf (memory mb)" "rgns (memory mb) \<noteq> []" "mt_cnt (memory mb) + 2 \<le> mt_max (memory mb)"
    "s = memblock_cap_size base sz" "s \<noteq> 0"
  shows "\<exists>t. memblock_set_node dbl env base sz nid mb = Val (None, mb\<lparr>memory := t\<rparr>) \<and> mt_wf t \<and> minimal (rgns t) \<and>
    owners (rgns t) = {p \<in> owners (rgns (memory mb)). fst p \<notin> {base ..< base + s}} \<union>
      (cover (rgns (memory mb)) \<inter> {base ..< base + s}) \<times> {nid}"
  using set_node_room [OF assms(1,4,5,2,3), of dbl env nid] by (auto simp: renoded_def)

theorem memblock_set_node_exact_witness:
  "\<exists>t. memblock_set_node (memblock_double_array (boot_env (\<lambda>_. 0) no_region)) (boot_env (\<lambda>_. 0) no_region) 0x2000 0x20000 1 example_map =
       Val (None, example_map\<lparr>memory := t\<rparr>) \<and> mt_wf t \<and> minimal (rgns t) \<and>
     owners (rgns t) = {p \<in> owners (rgns (memory example_map)). fst p \<notin> {0x2000 ..< 0x2000 + 0x20000}} \<union>
       (cover (rgns (memory example_map)) \<inter> {0x2000 ..< 0x2000 + 0x20000}) \<times> {1}"
proof (rule memblock_set_node_exact)
  show "rgns (memory example_map) \<noteq> []" by (simp add: example_map_rgns)
qed (use example_map_wf(1) in \<open>simp_all add: mb_wf_def memblock_cap_size_def ULLONG_MAX_def example_map_def\<close>)

text \<open>
  Enforcing a memory limit leaves exactly the smaller of the limit and the memory there is, and no
  memory or reservation above the address where the limit is reached.
\<close>

theorem memory_limit_enforced:
  assumes "mb_wf mb" "mt_cnt (memory mb) + 2 \<le> mt_max (memory mb)" "mt_cnt (reserved mb) + 2 \<le> mt_max (reserved mb)" "limit \<noteq> 0"
  shows "\<exists>mb'. memblock_enforce_memory_limit dbl env limit mb = Val mb' \<and> mb_wf mb' \<and>
    total_bytes (rgns (memory mb')) = min (unat limit) (total_bytes (rgns (memory mb))) \<and>
    cover (rgns (reserved mb')) = {x \<in> cover (rgns (reserved mb)). x < limit_address limit (rgns (memory mb))}"
proof -
  obtain mb' where m: "memblock_enforce_memory_limit dbl env limit mb = Val mb'" "mb_wf mb'"
    "owners (rgns (memory mb')) = {p \<in> owners (rgns (memory mb)). fst p < limit_address limit (rgns (memory mb))}"
    "owners (rgns (reserved mb')) = {p \<in> owners (rgns (reserved mb)). fst p < limit_address limit (rgns (memory mb))}"
    using enforce_limit [OF assms] by blast
  have "total_bytes (rgns (memory mb')) = min (unat limit) (total_bytes (rgns (memory mb)))"
    using m(2,3) assms(1,4) by (intro enforce_limit_size) (auto simp: mb_wf_def mt_wf_rgns_ok)
  moreover have "cover (rgns (reserved mb')) = {x \<in> cover (rgns (reserved mb)). x < limit_address limit (rgns (memory mb))}"
    unfolding cover_owners m(4) by (auto simp: image_iff)
  ultimately show ?thesis using m(1,2) by blast
qed

theorem memory_limit_enforced_witness:
  "\<exists>mb'. memblock_enforce_memory_limit (memblock_double_array (boot_env (\<lambda>_. 0) no_region)) (boot_env (\<lambda>_. 0) no_region)
        0x9000 example_map = Val mb' \<and> mb_wf mb' \<and>
     total_bytes (rgns (memory mb')) = min (unat (0x9000 :: u64)) (total_bytes (rgns (memory example_map))) \<and>
     cover (rgns (reserved mb')) = {x \<in> cover (rgns (reserved example_map)). x < limit_address 0x9000 (rgns (memory example_map))}"
  by (rule memory_limit_enforced) (simp_all add: example_map_wf, simp_all add: example_map_def)

text \<open>
  Merging two neighbours in a full array copies one entry too many: what lies behind the array ends up in its last
  slot. The slot is outside \<open>cnt\<close>, so that the described memory is right, but the read is out of bounds.
\<close>

theorem merge_reads_past_array:
  "memblock_merge_regions beyond
     \<lparr>mt_cnt = 2, mt_max = 2, mt_total = 0x2000, mt_regions = [mk_region 0x1000 0x1000 0, mk_region 0x2000 0x1000 0]\<rparr> =
   Val \<lparr>mt_cnt = 1, mt_max = 2, mt_total = 0x2000, mt_regions = [mk_region 0x1000 0x2000 0, beyond]\<rparr>"
  by (simp add: memblock_merge_regions_def merge_loop.simps [of _ 0] move_regions_def Let_def)

definition crowded_map :: memblock where
  "crowded_map = \<lparr>current_limit = 0x10000,
     memory = \<lparr>mt_cnt = 1, mt_max = 5, mt_total = 0xf000, mt_regions = mk_region 0x1000 0xf000 0 # replicate 4 no_region\<rparr>,
     reserved = \<lparr>mt_cnt = 5, mt_max = 6, mt_total = 0x1400,
       mt_regions = [mk_region 0x1000 0x100 0, mk_region 0x1200 0x100 0, mk_region 0x1400 0x100 0, mk_region 0x1600 0x100 0,
         mk_region 0x8000 0x1000 0, no_region]\<rparr>,
     memory_at = Some 0x8000, reserved_at = None, memory_in_slab = False, reserved_in_slab = False, can_resize = True\<rparr>"

text \<open>
  Doubling the memory array while the reservations are nearly full: freeing the old memory array makes the
  reservations grow, and they take the place already chosen for the new memory array. Both arrays end at the same address.
\<close>

theorem resized_arrays_collide:
  "case memblock_double_array (boot_env (\<lambda>_. 0) no_region) Memory 0 0 crowded_map of
     Val (ok, mb') \<Rightarrow> ok \<and> memory_at mb' = Some 0xf000 \<and> reserved_at mb' = Some 0xf000
   | _ \<Rightarrow> False"
  by code_simp

definition low_map :: memblock where
  "low_map = crowded_map\<lparr>memory := \<lparr>mt_cnt = 1, mt_max = 5, mt_total = 0x3000, mt_regions = mk_region 0x1000 0x3000 0 # replicate 4 no_region\<rparr>,
     reserved := \<lparr>mt_cnt = 1, mt_max = 5, mt_total = 0, mt_regions = replicate 5 no_region\<rparr>\<rparr>"

text \<open>
  When the range to be reserved starts at address 0, the second search for a place for the new array has the end
  0, which means no end: the place can lie inside the range.
\<close>

theorem new_array_inside_area_at_zero:
  "new_array_at (boot_env (\<lambda>_. 0) no_region) Reserved 0 0x4000 low_map = Val 0x3000"
  by code_simp


end
