(* ===== verification/Posix_Acl.thy ===== *)
theory Posix_Acl
  imports KPrelude
begin

text \<open>
  POSIX access control lists: \<open>fs/posix_acl.c\<close> and the types of \<open>include/linux/posix_acl.h\<close>.

  An ACL is the list of its entries (\<open>a_entries[0 .. a_count - 1]\<close>), in the order of the array.
  \<open>posix_acl_valid\<close> and the other scans of \<open>FOREACH_ACL_ENTRY\<close> are recursions over that list
  with the local variables of the C function as arguments; the pointers \<open>group_obj\<close> and
  \<open>mask_obj\<close> into the array are indices.  A negative return value is \<open>Err\<close>.  The credentials of
  the current task are the record \<open>cred\<close>: its fsuid and \<open>in_group_p\<close>.  Reference counts and
  allocation are in theory \<open>Acl_Cache\<close>.

  The lemmas show that \<open>posix_acl_valid\<close> accepts exactly the entry lists of one grammar
  (\<open>acl_parts\<close>), and what every other operation computes on such a list.
\<close>

subsection \<open>Data\<close>

record posix_acl_entry =
  e_tag :: u16
  e_perm :: u16
  e_id :: u32

definition ACL_USER_OBJ :: u16 where "ACL_USER_OBJ = 0x01"
definition ACL_USER :: u16 where "ACL_USER = 0x02"
definition ACL_GROUP_OBJ :: u16 where "ACL_GROUP_OBJ = 0x04"
definition ACL_GROUP :: u16 where "ACL_GROUP = 0x08"
definition ACL_MASK :: u16 where "ACL_MASK = 0x10"
definition ACL_OTHER :: u16 where "ACL_OTHER = 0x20"

definition ACL_READ :: u16 where "ACL_READ = 0x04"
definition ACL_WRITE :: u16 where "ACL_WRITE = 0x02"
definition ACL_EXECUTE :: u16 where "ACL_EXECUTE = 0x01"

definition ACL_UNDEFINED_ID :: u32 where "ACL_UNDEFINED_ID = - 1"

definition S_IRWXU :: u16 where "S_IRWXU = 0x1C0"
definition S_IRWXG :: u16 where "S_IRWXG = 0x38"
definition S_IRWXO :: u16 where "S_IRWXO = 0x7"
definition S_IRWXUGO :: u16 where "S_IRWXUGO = (S_IRWXU OR S_IRWXG OR S_IRWXO)"

definition MAY_EXEC :: u32 where "MAY_EXEC = 0x1"
definition MAY_WRITE :: u32 where "MAY_WRITE = 0x2"
definition MAY_READ :: u32 where "MAY_READ = 0x4"
definition MAY_NOT_BLOCK :: u32 where "MAY_NOT_BLOCK = 0x80"

lemmas acl_tags = ACL_USER_OBJ_def ACL_USER_def ACL_GROUP_OBJ_def ACL_GROUP_def ACL_MASK_def
  ACL_OTHER_def

record cred =
  fsuid :: u32
  in_group_p :: "u32 \<Rightarrow> bool"

subsection \<open>posix_acl_valid\<close>

fun acl_valid_scan :: "u16 \<Rightarrow> u32 \<Rightarrow> bool \<Rightarrow> posix_acl_entry list \<Rightarrow> unit outcome" where
  "acl_valid_scan state next_id needs_mask [] = (if state = 0 then Val () else Err EINVAL)"
| "acl_valid_scan state next_id needs_mask (pa # pe) =
    (if e_perm pa AND NOT (ACL_READ OR ACL_WRITE OR ACL_EXECUTE) \<noteq> 0 then Err EINVAL
     else if e_tag pa = ACL_USER_OBJ then
       (if state = ACL_USER_OBJ then acl_valid_scan ACL_USER 0 needs_mask pe else Err EINVAL)
     else if e_tag pa = ACL_USER then
       (if state \<noteq> ACL_USER then Err EINVAL
        else if e_id pa = ACL_UNDEFINED_ID \<or> e_id pa < next_id then Err EINVAL
        else acl_valid_scan state (e_id pa + 1) True pe)
     else if e_tag pa = ACL_GROUP_OBJ then
       (if state = ACL_USER then acl_valid_scan ACL_GROUP 0 needs_mask pe else Err EINVAL)
     else if e_tag pa = ACL_GROUP then
       (if state \<noteq> ACL_GROUP then Err EINVAL
        else if e_id pa = ACL_UNDEFINED_ID \<or> e_id pa < next_id then Err EINVAL
        else acl_valid_scan state (e_id pa + 1) True pe)
     else if e_tag pa = ACL_MASK then
       (if state \<noteq> ACL_GROUP then Err EINVAL else acl_valid_scan ACL_OTHER next_id needs_mask pe)
     else if e_tag pa = ACL_OTHER then
       (if state = ACL_OTHER \<or> (state = ACL_GROUP \<and> \<not> needs_mask)
        then acl_valid_scan 0 next_id needs_mask pe else Err EINVAL)
     else Err EINVAL)"

definition posix_acl_valid :: "posix_acl_entry list \<Rightarrow> unit outcome" where
  "posix_acl_valid acl = acl_valid_scan ACL_USER_OBJ 0 False acl"

subsection \<open>posix_acl_equiv_mode and posix_acl_from_mode\<close>

fun equiv_mode_scan :: "u16 \<Rightarrow> bool \<Rightarrow> posix_acl_entry list \<Rightarrow> (u16 \<times> bool) outcome" where
  "equiv_mode_scan mode not_equiv [] = Val (mode, not_equiv)"
| "equiv_mode_scan mode not_equiv (pa # pe) =
    (if e_tag pa = ACL_USER_OBJ then
       equiv_mode_scan (mode OR push_bit 6 (e_perm pa AND S_IRWXO)) not_equiv pe
     else if e_tag pa = ACL_GROUP_OBJ then
       equiv_mode_scan (mode OR push_bit 3 (e_perm pa AND S_IRWXO)) not_equiv pe
     else if e_tag pa = ACL_OTHER then
       equiv_mode_scan (mode OR (e_perm pa AND S_IRWXO)) not_equiv pe
     else if e_tag pa = ACL_MASK then
       equiv_mode_scan ((mode AND NOT S_IRWXG) OR push_bit 3 (e_perm pa AND S_IRWXO)) True pe
     else if e_tag pa = ACL_USER \<or> e_tag pa = ACL_GROUP then
       equiv_mode_scan mode True pe
     else Err EINVAL)"

text \<open>The result is \<open>not_equiv\<close> and the new value behind \<open>mode_p\<close> (\<open>None\<close> for a null pointer).\<close>

definition posix_acl_equiv_mode ::
    "posix_acl_entry list \<Rightarrow> u16 option \<Rightarrow> (bool \<times> u16 option) outcome" where
  "posix_acl_equiv_mode acl mode_p =
    bind_outcome (equiv_mode_scan 0 False acl) (\<lambda>(mode, not_equiv).
      Val (not_equiv, map_option (\<lambda>m. (m AND NOT S_IRWXUGO) OR mode) mode_p))"

definition mode_entries :: "u16 \<Rightarrow> posix_acl_entry list" where
  "mode_entries mode =
    [\<lparr>e_tag = ACL_USER_OBJ, e_perm = drop_bit 6 (mode AND S_IRWXU), e_id = ACL_UNDEFINED_ID\<rparr>,
     \<lparr>e_tag = ACL_GROUP_OBJ, e_perm = drop_bit 3 (mode AND S_IRWXG), e_id = ACL_UNDEFINED_ID\<rparr>,
     \<lparr>e_tag = ACL_OTHER, e_perm = mode AND S_IRWXO, e_id = ACL_UNDEFINED_ID\<rparr>]"

subsection \<open>posix_acl_permission\<close>

definition check_perm :: "u32 \<Rightarrow> posix_acl_entry \<Rightarrow> unit outcome" where
  "check_perm want pa = (if ucast (e_perm pa) AND want = want then Val () else Err EACCES)"

fun check_mask :: "u32 \<Rightarrow> posix_acl_entry \<Rightarrow> posix_acl_entry list \<Rightarrow> unit outcome" where
  "check_mask want pa [] = check_perm want pa"
| "check_mask want pa (mask_obj # pe) =
    (if e_tag mask_obj = ACL_MASK then
       (if ucast (e_perm pa AND e_perm mask_obj) AND want = want then Val () else Err EACCES)
     else check_mask want pa pe)"

fun acl_perm_scan ::
    "cred \<Rightarrow> u32 \<Rightarrow> u32 \<Rightarrow> u32 \<Rightarrow> bool \<Rightarrow> posix_acl_entry list \<Rightarrow> unit outcome" where
  "acl_perm_scan c i_uid i_gid want found [] = Err EIO"
| "acl_perm_scan c i_uid i_gid want found (pa # pe) =
    (if e_tag pa = ACL_USER_OBJ then
       (if i_uid = fsuid c then check_perm want pa
        else acl_perm_scan c i_uid i_gid want found pe)
     else if e_tag pa = ACL_USER then
       (if e_id pa = fsuid c then check_mask want pa pe
        else acl_perm_scan c i_uid i_gid want found pe)
     else if e_tag pa = ACL_GROUP_OBJ then
       (if in_group_p c i_gid then
          (if ucast (e_perm pa) AND want = want then check_mask want pa pe
           else acl_perm_scan c i_uid i_gid want True pe)
        else acl_perm_scan c i_uid i_gid want found pe)
     else if e_tag pa = ACL_GROUP then
       (if in_group_p c (e_id pa) then
          (if ucast (e_perm pa) AND want = want then check_mask want pa pe
           else acl_perm_scan c i_uid i_gid want True pe)
        else acl_perm_scan c i_uid i_gid want found pe)
     else if e_tag pa = ACL_MASK then acl_perm_scan c i_uid i_gid want found pe
     else if e_tag pa = ACL_OTHER then
       (if found then Err EACCES else check_perm want pa)
     else Err EIO)"

definition posix_acl_permission ::
    "cred \<Rightarrow> u32 \<Rightarrow> u32 \<Rightarrow> posix_acl_entry list \<Rightarrow> u32 \<Rightarrow> unit outcome" where
  "posix_acl_permission c i_uid i_gid acl want =
    acl_perm_scan c i_uid i_gid
      (want AND (MAY_READ OR MAY_WRITE OR MAY_EXEC OR MAY_NOT_BLOCK)) False acl"

subsection \<open>posix_acl_create_masq and posix_acl_chmod_masq\<close>

text \<open>
  The loops update the entries in place and remember the positions of the owning group's and of
  the mask entry; \<open>i\<close> is the index of the first entry of the rest of the array.
\<close>

record masq_state =
  m_mode :: u16
  m_not_equiv :: bool
  m_group_obj :: "nat option"
  m_mask_obj :: "nat option"

fun create_masq_loop ::
    "nat \<Rightarrow> masq_state \<Rightarrow> posix_acl_entry list \<Rightarrow> (posix_acl_entry list \<times> masq_state) outcome" where
  "create_masq_loop i s [] = Val ([], s)"
| "create_masq_loop i s (pa # pe) =
    bind_outcome
      (if e_tag pa = ACL_USER_OBJ then
         (let p = e_perm pa AND (drop_bit 6 (m_mode s) OR NOT S_IRWXO) in
          Val (pa\<lparr>e_perm := p\<rparr>, s\<lparr>m_mode := m_mode s AND (push_bit 6 p OR NOT S_IRWXU)\<rparr>))
       else if e_tag pa = ACL_USER \<or> e_tag pa = ACL_GROUP then Val (pa, s\<lparr>m_not_equiv := True\<rparr>)
       else if e_tag pa = ACL_GROUP_OBJ then Val (pa, s\<lparr>m_group_obj := Some i\<rparr>)
       else if e_tag pa = ACL_OTHER then
         (let p = e_perm pa AND (m_mode s OR NOT S_IRWXO) in
          Val (pa\<lparr>e_perm := p\<rparr>, s\<lparr>m_mode := m_mode s AND (p OR NOT S_IRWXO)\<rparr>))
       else if e_tag pa = ACL_MASK then
         Val (pa, s\<lparr>m_mask_obj := Some i, m_not_equiv := True\<rparr>)
       else Err EIO)
      (\<lambda>(pa', s'). bind_outcome (create_masq_loop (Suc i) s' pe) (\<lambda>(pe', s''). Val (pa' # pe', s'')))"

definition group_class_masq :: "nat \<Rightarrow> u16 \<Rightarrow> posix_acl_entry list \<Rightarrow> posix_acl_entry list \<times> u16" where
  "group_class_masq k mode es =
    (let p = e_perm (es ! k) AND (drop_bit 3 mode OR NOT S_IRWXO) in
     (es[k := (es ! k)\<lparr>e_perm := p\<rparr>], mode AND (push_bit 3 p OR NOT S_IRWXG)))"

definition posix_acl_create_masq ::
    "posix_acl_entry list \<Rightarrow> u16 \<Rightarrow> (posix_acl_entry list \<times> u16 \<times> bool) outcome" where
  "posix_acl_create_masq acl mode_p =
    bind_outcome
      (create_masq_loop 0
         \<lparr>m_mode = mode_p, m_not_equiv = False, m_group_obj = None, m_mask_obj = None\<rparr> acl)
      (\<lambda>(es, s).
        bind_outcome
          (case m_mask_obj s of
             Some k \<Rightarrow> Val (group_class_masq k (m_mode s) es)
           | None \<Rightarrow>
               (case m_group_obj s of
                  None \<Rightarrow> Err EIO
                | Some k \<Rightarrow> Val (group_class_masq k (m_mode s) es)))
          (\<lambda>(es', mode). Val (es', (mode_p AND NOT S_IRWXUGO) OR mode, m_not_equiv s)))"

fun chmod_masq_loop ::
    "u16 \<Rightarrow> nat \<Rightarrow> nat option \<Rightarrow> nat option \<Rightarrow> posix_acl_entry list \<Rightarrow>
     (posix_acl_entry list \<times> nat option \<times> nat option) outcome" where
  "chmod_masq_loop mode i group_obj mask_obj [] = Val ([], group_obj, mask_obj)"
| "chmod_masq_loop mode i group_obj mask_obj (pa # pe) =
    bind_outcome
      (if e_tag pa = ACL_USER_OBJ then
         Val (pa\<lparr>e_perm := drop_bit 6 (mode AND S_IRWXU)\<rparr>, group_obj, mask_obj)
       else if e_tag pa = ACL_USER \<or> e_tag pa = ACL_GROUP then Val (pa, group_obj, mask_obj)
       else if e_tag pa = ACL_GROUP_OBJ then Val (pa, Some i, mask_obj)
       else if e_tag pa = ACL_MASK then Val (pa, group_obj, Some i)
       else if e_tag pa = ACL_OTHER then
         Val (pa\<lparr>e_perm := mode AND S_IRWXO\<rparr>, group_obj, mask_obj)
       else Err EIO)
      (\<lambda>(pa', g, m).
        bind_outcome (chmod_masq_loop mode (Suc i) g m pe) (\<lambda>(pe', r). Val (pa' # pe', r)))"

definition posix_acl_chmod_masq ::
    "posix_acl_entry list \<Rightarrow> u16 \<Rightarrow> posix_acl_entry list outcome" where
  "posix_acl_chmod_masq acl mode =
    bind_outcome (chmod_masq_loop mode 0 None None acl)
      (\<lambda>(es, group_obj, mask_obj).
        case mask_obj of
          Some k \<Rightarrow> Val (es[k := (es ! k)\<lparr>e_perm := drop_bit 3 (mode AND S_IRWXG)\<rparr>])
        | None \<Rightarrow>
            (case group_obj of
               None \<Rightarrow> Err EIO
             | Some k \<Rightarrow> Val (es[k := (es ! k)\<lparr>e_perm := drop_bit 3 (mode AND S_IRWXG)\<rparr>])))"

subsection \<open>The grammar of valid ACLs\<close>

definition perm_ok :: "posix_acl_entry \<Rightarrow> bool" where
  "perm_ok e \<longleftrightarrow> e_perm e AND NOT S_IRWXO = 0"

definition named_entries :: "u16 \<Rightarrow> posix_acl_entry list \<Rightarrow> bool" where
  "named_entries t es \<longleftrightarrow> (\<forall>e\<in>set es. e_tag e = t \<and> e_id e \<noteq> ACL_UNDEFINED_ID) \<and>
    sorted_wrt (<) (map e_id es)"

definition acl_parts ::
    "posix_acl_entry \<Rightarrow> posix_acl_entry list \<Rightarrow> posix_acl_entry \<Rightarrow> posix_acl_entry list \<Rightarrow>
     posix_acl_entry list \<Rightarrow> posix_acl_entry \<Rightarrow> bool" where
  "acl_parts uo us go gs ms ot \<longleftrightarrow>
    e_tag uo = ACL_USER_OBJ \<and> named_entries ACL_USER us \<and>
    e_tag go = ACL_GROUP_OBJ \<and> named_entries ACL_GROUP gs \<and>
    (ms = [] \<and> us = [] \<and> gs = [] \<or> (\<exists>m. ms = [m] \<and> e_tag m = ACL_MASK)) \<and>
    e_tag ot = ACL_OTHER \<and>
    (\<forall>e\<in>set (uo # us @ go # gs @ ms @ [ot]). perm_ok e)"

definition well_formed_acl :: "posix_acl_entry list \<Rightarrow> bool" where
  "well_formed_acl acl \<longleftrightarrow>
    (\<exists>uo us go gs ms ot. acl = uo # us @ go # gs @ ms @ [ot] \<and> acl_parts uo us go gs ms ot)"

lemma perm_ok_iff:
  "e_perm e AND NOT (ACL_READ OR ACL_WRITE OR ACL_EXECUTE) = 0 \<longleftrightarrow> perm_ok e"
  "e_perm e AND NOT ACL_READ AND NOT ACL_WRITE AND NOT ACL_EXECUTE = 0 \<longleftrightarrow> perm_ok e"
  by (simp_all add: perm_ok_def ACL_READ_def ACL_WRITE_def ACL_EXECUTE_def S_IRWXO_def)

lemma acl_tags_distinct [simp]:
  "ACL_USER_OBJ \<noteq> ACL_USER" "ACL_USER_OBJ \<noteq> ACL_GROUP_OBJ" "ACL_USER_OBJ \<noteq> ACL_GROUP"
  "ACL_USER_OBJ \<noteq> ACL_MASK" "ACL_USER_OBJ \<noteq> ACL_OTHER" "ACL_USER \<noteq> ACL_USER_OBJ"
  "ACL_USER \<noteq> ACL_GROUP_OBJ" "ACL_USER \<noteq> ACL_GROUP" "ACL_USER \<noteq> ACL_MASK" "ACL_USER \<noteq> ACL_OTHER"
  "ACL_GROUP_OBJ \<noteq> ACL_USER_OBJ" "ACL_GROUP_OBJ \<noteq> ACL_USER" "ACL_GROUP_OBJ \<noteq> ACL_GROUP"
  "ACL_GROUP_OBJ \<noteq> ACL_MASK" "ACL_GROUP_OBJ \<noteq> ACL_OTHER" "ACL_GROUP \<noteq> ACL_USER_OBJ"
  "ACL_GROUP \<noteq> ACL_USER" "ACL_GROUP \<noteq> ACL_GROUP_OBJ" "ACL_GROUP \<noteq> ACL_MASK"
  "ACL_GROUP \<noteq> ACL_OTHER" "ACL_MASK \<noteq> ACL_USER_OBJ" "ACL_MASK \<noteq> ACL_USER"
  "ACL_MASK \<noteq> ACL_GROUP_OBJ" "ACL_MASK \<noteq> ACL_GROUP" "ACL_MASK \<noteq> ACL_OTHER"
  "ACL_OTHER \<noteq> ACL_USER_OBJ" "ACL_OTHER \<noteq> ACL_USER" "ACL_OTHER \<noteq> ACL_GROUP_OBJ"
  "ACL_OTHER \<noteq> ACL_GROUP" "ACL_OTHER \<noteq> ACL_MASK" "ACL_USER_OBJ \<noteq> 0" "ACL_USER \<noteq> 0"
  "ACL_GROUP_OBJ \<noteq> 0" "ACL_GROUP \<noteq> 0" "ACL_MASK \<noteq> 0" "ACL_OTHER \<noteq> 0"
  by (simp_all add: acl_tags)

text \<open>The named entries the scan accepts when the next id must be at least \<open>lo\<close>.\<close>

fun named_from :: "u16 \<Rightarrow> u32 \<Rightarrow> posix_acl_entry list \<Rightarrow> bool" where
  "named_from t lo [] = True"
| "named_from t lo (e # es) =
    (e_tag e = t \<and> perm_ok e \<and> e_id e \<noteq> ACL_UNDEFINED_ID \<and> lo \<le> e_id e \<and>
     named_from t (e_id e + 1) es)"

lemma next_id_le: "x \<noteq> ACL_UNDEFINED_ID \<Longrightarrow> x + 1 \<le> y \<longleftrightarrow> x < (y :: u32)"
proof -
  assume "x \<noteq> ACL_UNDEFINED_ID"
  then have "x + 1 \<noteq> 0" by (simp add: ACL_UNDEFINED_ID_def eq_neg_iff_add_eq_0)
  then have "unat (x + 1) = unat x + 1" using unatSuc [of x] by (simp add: add.commute)
  then show ?thesis by (simp add: word_le_nat_alt word_less_nat_alt Suc_le_eq)
qed

lemma named_from_iff:
  "named_from t lo es \<longleftrightarrow> named_entries t es \<and> (\<forall>e\<in>set es. perm_ok e \<and> lo \<le> e_id e)"
proof (induction es arbitrary: lo)
  case (Cons e es)
  then show ?case
    by (auto simp: named_entries_def next_id_le intro: order.trans less_imp_le)
qed (simp add: named_entries_def)

lemma acl_valid_scan_result: "acl_valid_scan st i n es = Val () \<or> acl_valid_scan st i n es = Err EINVAL"
  by (induction st i n es rule: acl_valid_scan.induct) auto

lemma acl_valid_scan_end: "acl_valid_scan 0 i n es = Val () \<longleftrightarrow> es = []"
  by (cases es) (simp_all del: acl_tags_distinct add: acl_tags)

lemma acl_valid_scan_other:
  "acl_valid_scan ACL_OTHER i n es = Val () \<longleftrightarrow>
    (\<exists>ot. es = [ot] \<and> e_tag ot = ACL_OTHER \<and> perm_ok ot)"
  by (cases es) (auto simp: acl_valid_scan_end perm_ok_iff)

definition acl_tail :: "bool \<Rightarrow> posix_acl_entry list \<Rightarrow> bool" where
  "acl_tail n es \<longleftrightarrow> (\<exists>ms ot. es = ms @ [ot] \<and> e_tag ot = ACL_OTHER \<and> perm_ok ot \<and>
    (ms = [] \<and> \<not> n \<or> (\<exists>m. ms = [m] \<and> e_tag m = ACL_MASK \<and> perm_ok m)))"

lemma acl_tail_Cons:
  "acl_tail n (e # es) \<longleftrightarrow> perm_ok e \<and>
    (e_tag e = ACL_OTHER \<and> es = [] \<and> \<not> n \<or>
     e_tag e = ACL_MASK \<and> (\<exists>ot. es = [ot] \<and> e_tag ot = ACL_OTHER \<and> perm_ok ot))"
  by (auto simp: acl_tail_def Cons_eq_append_conv)

lemma ex_append_Cons:
  "(\<exists>gs tl. e # es = gs @ tl \<and> P gs tl) \<longleftrightarrow> P [] (e # es) \<or> (\<exists>gs tl. es = gs @ tl \<and> P (e # gs) tl)"
  (is "?lhs \<longleftrightarrow> ?rhs")
proof
  assume ?lhs
  then obtain gs tl where r: "e # es = gs @ tl" "P gs tl" by blast
  then show ?rhs by (cases gs) auto
next
  assume ?rhs
  then consider "P [] (e # es)" | gs tl where "e # es = (e # gs) @ tl" "P (e # gs) tl" by auto
  then show ?lhs by cases (blast intro: append_Nil [symmetric])+
qed

lemma ex_append_Cons3:
  "(\<exists>us go rest. e # es = us @ go # rest \<and> P us go rest) \<longleftrightarrow>
    P [] e es \<or> (\<exists>us go rest. es = us @ go # rest \<and> P (e # us) go rest)"
  (is "?lhs \<longleftrightarrow> ?rhs")
proof
  assume ?lhs
  then obtain us go rest where r: "e # es = us @ go # rest" "P us go rest" by blast
  then show ?rhs by (cases us) auto
next
  assume ?rhs
  then consider "e # es = [] @ e # es" "P [] e es"
    | us go rest where "e # es = (e # us) @ go # rest" "P (e # us) go rest" by auto
  then show ?lhs by cases blast+
qed

lemma acl_valid_scan_group:
  "acl_valid_scan ACL_GROUP lo n es = Val () \<longleftrightarrow>
    (\<exists>gs tl. es = gs @ tl \<and> named_from ACL_GROUP lo gs \<and> acl_tail (n \<or> gs \<noteq> []) tl)"
proof (induction es arbitrary: lo n)
  case Nil
  then show ?case by (simp add: acl_tail_def)
next
  case (Cons e es)
  have split: "(\<exists>gs tl. e # es = gs @ tl \<and> named_from ACL_GROUP lo gs \<and> acl_tail (n \<or> gs \<noteq> []) tl)
    \<longleftrightarrow> acl_tail n (e # es) \<or> (e_tag e = ACL_GROUP \<and> perm_ok e \<and> e_id e \<noteq> ACL_UNDEFINED_ID \<and>
      lo \<le> e_id e \<and> (\<exists>gs tl. es = gs @ tl \<and> named_from ACL_GROUP (e_id e + 1) gs \<and> acl_tail True tl))"
    by (subst ex_append_Cons) auto
  show ?case
    unfolding split
    by (auto simp: Cons.IH acl_tail_Cons perm_ok_iff acl_valid_scan_other acl_valid_scan_end not_less)
qed

lemma acl_valid_scan_user:
  "acl_valid_scan ACL_USER lo n es = Val () \<longleftrightarrow>
    (\<exists>us go rest. es = us @ go # rest \<and> named_from ACL_USER lo us \<and> e_tag go = ACL_GROUP_OBJ \<and>
      perm_ok go \<and> acl_valid_scan ACL_GROUP 0 (n \<or> us \<noteq> []) rest = Val ())"
proof (induction es arbitrary: lo n)
  case Nil
  then show ?case by simp
next
  case (Cons e es)
  show ?case
    unfolding ex_append_Cons3
    by (auto simp: Cons.IH perm_ok_iff not_less)
qed

lemma acl_valid_scan_start:
  "acl_valid_scan ACL_USER_OBJ 0 False acl = Val () \<longleftrightarrow>
    (\<exists>uo rest. acl = uo # rest \<and> e_tag uo = ACL_USER_OBJ \<and> perm_ok uo \<and>
      acl_valid_scan ACL_USER 0 False rest = Val ())"
  by (cases acl) (auto simp: perm_ok_iff)

lemma well_formed_acl_scan: "acl_valid_scan ACL_USER_OBJ 0 False acl = Val () \<longleftrightarrow> well_formed_acl acl"
proof
  assume "acl_valid_scan ACL_USER_OBJ 0 False acl = Val ()"
  then obtain uo r1 where 1: "acl = uo # r1" "e_tag uo = ACL_USER_OBJ" "perm_ok uo"
      "acl_valid_scan ACL_USER 0 False r1 = Val ()"
    unfolding acl_valid_scan_start by blast
  from 1(4) obtain us go r2 where 2: "r1 = us @ go # r2" "named_from ACL_USER 0 us"
      "e_tag go = ACL_GROUP_OBJ" "perm_ok go"
      "acl_valid_scan ACL_GROUP 0 (False \<or> us \<noteq> []) r2 = Val ()"
    unfolding acl_valid_scan_user by blast
  from 2(5) obtain gs tl where 3: "r2 = gs @ tl" "named_from ACL_GROUP 0 gs"
      "acl_tail ((False \<or> us \<noteq> []) \<or> gs \<noteq> []) tl"
    unfolding acl_valid_scan_group by blast
  have acl: "acl = uo # us @ go # gs @ tl" using 1(1) 2(1) 3(1) by simp
  have parts: "e_tag uo = ACL_USER_OBJ" "perm_ok uo" "named_from ACL_USER 0 us"
      "e_tag go = ACL_GROUP_OBJ" "perm_ok go" "named_from ACL_GROUP 0 gs"
      "acl_tail (us \<noteq> [] \<or> gs \<noteq> []) tl"
    using 1 2 3 by simp_all
  from parts(7) obtain ms ot where tl: "tl = ms @ [ot]" "e_tag ot = ACL_OTHER" "perm_ok ot"
      "ms = [] \<and> \<not> (us \<noteq> [] \<or> gs \<noteq> []) \<or> (\<exists>m. ms = [m] \<and> e_tag m = ACL_MASK \<and> perm_ok m)"
    unfolding acl_tail_def by blast
  have "acl_parts uo us go gs ms ot"
    using parts(1-6) tl(2-4) unfolding named_from_iff acl_parts_def by auto
  with acl tl(1) show "well_formed_acl acl" unfolding well_formed_acl_def by auto
next
  assume "well_formed_acl acl"
  then obtain uo us go gs ms ot where acl: "acl = uo # us @ go # gs @ ms @ [ot]"
    and parts: "acl_parts uo us go gs ms ot" unfolding well_formed_acl_def by blast
  have "acl_tail (us \<noteq> [] \<or> gs \<noteq> []) (ms @ [ot])"
    using parts unfolding acl_parts_def acl_tail_def by auto
  moreover have "named_from ACL_USER 0 us" "named_from ACL_GROUP 0 gs"
    using parts unfolding acl_parts_def named_from_iff by auto
  ultimately show "acl_valid_scan ACL_USER_OBJ 0 False acl = Val ()"
    using parts
    unfolding acl acl_valid_scan_start acl_valid_scan_user acl_valid_scan_group acl_parts_def
    by simp blast
qed

lemma posix_acl_valid_parts: "posix_acl_valid acl = (if well_formed_acl acl then Val () else Err EINVAL)"
  using acl_valid_scan_result [of ACL_USER_OBJ 0 False acl] well_formed_acl_scan [of acl]
  by (auto simp: posix_acl_valid_def)

subsection \<open>What posix_acl_permission decides\<close>

text \<open>
  The access check of POSIX 1003.1e on an ACL, by the tags of the entries: the owner's entry
  decides for the owner, a named user's entry within the mask for that user, any entry of a
  group of the process within the mask for its members, and the last entry for the others.
\<close>

definition grants :: "u16 \<Rightarrow> u32 \<Rightarrow> bool" where
  "grants p want \<longleftrightarrow> ucast p AND want = want"

definition with_tag :: "u16 \<Rightarrow> posix_acl_entry list \<Rightarrow> posix_acl_entry list" where
  "with_tag t acl = filter (\<lambda>e. e_tag e = t) acl"

definition mask_of :: "posix_acl_entry list \<Rightarrow> u16" where
  "mask_of acl = (case with_tag ACL_MASK acl of [] \<Rightarrow> NOT 0 | m # _ \<Rightarrow> e_perm m)"

definition matching_groups :: "cred \<Rightarrow> u32 \<Rightarrow> posix_acl_entry list \<Rightarrow> posix_acl_entry list" where
  "matching_groups c i_gid acl =
    (if in_group_p c i_gid then with_tag ACL_GROUP_OBJ acl else []) @
    filter (\<lambda>e. in_group_p c (e_id e)) (with_tag ACL_GROUP acl)"

definition posix_access :: "cred \<Rightarrow> u32 \<Rightarrow> u32 \<Rightarrow> posix_acl_entry list \<Rightarrow> u32 \<Rightarrow> bool" where
  "posix_access c i_uid i_gid acl want =
    (if i_uid = fsuid c then list_ex (\<lambda>e. grants (e_perm e) want) (with_tag ACL_USER_OBJ acl)
     else case find (\<lambda>e. e_id e = fsuid c) (with_tag ACL_USER acl) of
       Some e \<Rightarrow> grants (e_perm e AND mask_of acl) want
     | None \<Rightarrow>
        (if matching_groups c i_gid acl \<noteq> []
         then list_ex (\<lambda>e. grants (e_perm e AND mask_of acl) want) (matching_groups c i_gid acl)
         else list_ex (\<lambda>e. grants (e_perm e) want) (with_tag ACL_OTHER acl)))"

definition decide :: "bool \<Rightarrow> unit outcome" where
  "decide b = (if b then Val () else Err EACCES)"

lemma with_tag_simps [simp]:
  "with_tag t [] = []"
  "with_tag t (e # es) = (if e_tag e = t then e # with_tag t es else with_tag t es)"
  "with_tag t (xs @ ys) = with_tag t xs @ with_tag t ys"
  by (simp_all add: with_tag_def)

lemma with_tag_named [simp]:
  "named_entries s es \<Longrightarrow> with_tag t es = (if s = t then es else [])"
  by (auto simp: with_tag_def named_entries_def filter_id_conv filter_empty_conv)

lemma grants_and: "grants (p AND q) want \<longleftrightarrow> grants p want \<and> grants q want"
  by (auto simp: grants_def bit_eq_iff bit_simps)

lemma check_perm_decide: "check_perm want pa = decide (grants (e_perm pa) want)"
  by (simp add: check_perm_def decide_def grants_def)

lemma check_mask_skip:
  "\<forall>e\<in>set xs. e_tag e \<noteq> ACL_MASK \<Longrightarrow> check_mask want pa (xs @ ys) = check_mask want pa ys"
  by (induction xs) auto

lemma perm_scan_users:
  assumes "\<forall>e\<in>set us. e_tag e = ACL_USER"
  shows "acl_perm_scan c i_uid i_gid want found (us @ rest) =
    (case find (\<lambda>e. e_id e = fsuid c) us of Some e \<Rightarrow> check_mask want e rest
     | None \<Rightarrow> acl_perm_scan c i_uid i_gid want found rest)"
  using assms by (induction us) (auto simp: check_mask_skip)

lemma perm_scan_groups:
  assumes "\<forall>e\<in>set gs. e_tag e = ACL_GROUP"
  shows "acl_perm_scan c i_uid i_gid want found (gs @ rest) =
    (case find (\<lambda>e. in_group_p c (e_id e) \<and> grants (e_perm e) want) gs of
       Some e \<Rightarrow> check_mask want e rest
     | None \<Rightarrow> acl_perm_scan c i_uid i_gid want
                (found \<or> (\<exists>e\<in>set gs. in_group_p c (e_id e))) rest)"
  using assms
  by (induction gs arbitrary: found) (auto simp: check_mask_skip grants_def split: option.split)

lemma find_None_iff_all: "find P xs = None \<longleftrightarrow> (\<forall>x\<in>set xs. \<not> P x)"
  by (auto simp: find_None_iff)

lemma find_Some_holds: "find P xs = Some x \<Longrightarrow> x \<in> set xs \<and> P x"
  by (auto simp: find_Some_iff)

locale acl_shape =
  fixes uo us go gs ms ot
  assumes parts: "acl_parts uo us go gs ms ot"
begin

lemma tags: "e_tag uo = ACL_USER_OBJ" "e_tag go = ACL_GROUP_OBJ" "e_tag ot = ACL_OTHER"
  "named_entries ACL_USER us" "named_entries ACL_GROUP gs"
  using parts by (simp_all add: acl_parts_def)

lemma us_tags: "\<forall>e\<in>set us. e_tag e = ACL_USER"
  and gs_tags: "\<forall>e\<in>set gs. e_tag e = ACL_GROUP"
  using tags by (auto simp: named_entries_def)

lemma ms_cases:
  obtains "ms = []" "us = []" "gs = []" | m where "ms = [m]" "e_tag m = ACL_MASK"
  using parts by (auto simp: acl_parts_def)

abbreviation "acl \<equiv> uo # us @ go # gs @ ms @ [ot]"

lemma with_tag_parts [simp]:
  "with_tag t us = (if t = ACL_USER then us else [])"
  "with_tag t gs = (if t = ACL_GROUP then gs else [])"
  "with_tag t ms = (if t = ACL_MASK then ms else [])"
  using tags by (simp_all) (rule ms_cases; simp)

lemma check_mask_tail: "check_mask want e (ms @ [ot]) = decide (grants (e_perm e AND mask_of acl) want)"
  by (rule ms_cases) (simp_all add: mask_of_def tags check_perm_decide decide_def grants_def)

lemma check_mask_groups:
  "check_mask want e (gs @ ms @ [ot]) = decide (grants (e_perm e AND mask_of acl) want)"
  using check_mask_skip [of gs want e "ms @ [ot]"] gs_tags by (simp add: check_mask_tail)

lemma check_mask_users:
  "check_mask want e (go # gs @ ms @ [ot]) = decide (grants (e_perm e AND mask_of acl) want)"
  by (simp add: tags check_mask_groups)

lemma perm_scan_tail:
  "acl_perm_scan c i_uid i_gid want found (ms @ [ot]) =
    (if found then Err EACCES else decide (grants (e_perm ot) want))"
  by (rule ms_cases) (simp_all add: tags check_perm_decide)

lemma matching_groups_set:
  "set (matching_groups c i_gid acl) =
    (if in_group_p c i_gid then {go} else {}) \<union> {e \<in> set gs. in_group_p c (e_id e)}"
  by (simp add: matching_groups_def tags)

lemma matching_groups_Nil:
  "matching_groups c i_gid acl = [] \<longleftrightarrow> \<not> (in_group_p c i_gid \<or> (\<exists>e\<in>set gs. in_group_p c (e_id e)))"
  by (auto simp: matching_groups_def tags filter_empty_conv)

lemma perm_scan_group_class:
  "acl_perm_scan c i_uid i_gid want False (go # gs @ ms @ [ot]) =
    (if matching_groups c i_gid acl \<noteq> []
     then decide (list_ex (\<lambda>e. grants (e_perm e AND mask_of acl) want) (matching_groups c i_gid acl))
     else decide (grants (e_perm ot) want))"
proof (cases "in_group_p c i_gid \<and> grants (e_perm go) want")
  case True
  then show ?thesis
    by (auto simp: tags matching_groups_def check_mask_groups grants_and decide_def list_ex_iff
        grants_def [of "e_perm go" want, symmetric])
next
  case False
  have "acl_perm_scan c i_uid i_gid want False (go # gs @ ms @ [ot]) =
      acl_perm_scan c i_uid i_gid want (in_group_p c i_gid) (gs @ ms @ [ot])"
    using False by (auto simp: tags grants_def)
  also have "\<dots> = (if matching_groups c i_gid acl \<noteq> []
     then decide (list_ex (\<lambda>e. grants (e_perm e AND mask_of acl) want) (matching_groups c i_gid acl))
     else decide (grants (e_perm ot) want))"
  proof (cases "find (\<lambda>e. in_group_p c (e_id e) \<and> grants (e_perm e) want) gs")
    case None
    have none: "\<not> list_ex (\<lambda>e. grants (e_perm e AND mask_of acl) want) (matching_groups c i_gid acl)"
      using None False by (auto simp: matching_groups_set grants_and find_None_iff_all list_ex_iff)
    show ?thesis
      unfolding perm_scan_groups [OF gs_tags] None option.case perm_scan_tail
      using none by (simp add: matching_groups_Nil decide_def)
  next
    case (Some e)
    from find_Some_holds [OF this] have e: "e \<in> set (matching_groups c i_gid acl)"
      "grants (e_perm e) want"
      by (simp_all add: matching_groups_set)
    then show ?thesis
      unfolding perm_scan_groups [OF gs_tags] Some option.case check_mask_tail
      by (auto simp: grants_and list_ex_iff decide_def)
  qed
  finally show ?thesis .
qed

lemma perm_scan_acl:
  "acl_perm_scan c i_uid i_gid want False acl = decide (posix_access c i_uid i_gid acl want)"
proof (cases "i_uid = fsuid c")
  case True
  then show ?thesis by (simp add: tags posix_access_def check_perm_decide)
next
  case False
  then have "acl_perm_scan c i_uid i_gid want False acl =
      acl_perm_scan c i_uid i_gid want False (us @ go # gs @ ms @ [ot])"
    by (simp add: tags)
  then show ?thesis
    unfolding perm_scan_users [OF us_tags] perm_scan_group_class check_mask_users
    using False by (auto simp: tags posix_access_def decide_def split: option.split)
qed

end

subsection \<open>The mode bits of an ACL\<close>

text \<open>The entry of the group class: the mask when there is one, otherwise the owning group's.\<close>

definition class_perm :: "posix_acl_entry \<Rightarrow> posix_acl_entry list \<Rightarrow> u16" where
  "class_perm go ms = (case ms of [] \<Rightarrow> e_perm go | m # _ \<Rightarrow> e_perm m)"

definition perm_bits :: "u16 \<Rightarrow> u16 \<Rightarrow> u16 \<Rightarrow> u16" where
  "perm_bits u g o' = push_bit 6 (u AND S_IRWXO) OR push_bit 3 (g AND S_IRWXO) OR (o' AND S_IRWXO)"

definition set_perm :: "u16 \<Rightarrow> posix_acl_entry \<Rightarrow> posix_acl_entry" where
  "set_perm p e = e\<lparr>e_perm := p\<rparr>"

text \<open>The entry list with new permissions for the owner, the group class and the others.\<close>

definition with_perms ::
    "posix_acl_entry \<Rightarrow> posix_acl_entry list \<Rightarrow> posix_acl_entry \<Rightarrow> posix_acl_entry list \<Rightarrow>
     posix_acl_entry list \<Rightarrow> posix_acl_entry \<Rightarrow> u16 \<Rightarrow> u16 \<Rightarrow> u16 \<Rightarrow> posix_acl_entry list" where
  "with_perms uo us go gs ms ot u g o' =
    set_perm u uo # us @ (if ms = [] then set_perm g go else go) # gs @ map (set_perm g) ms @
    [set_perm o' ot]"

lemma mode_masks:
  "S_IRWXU = push_bit 6 (mask 3)" "S_IRWXG = push_bit 3 (mask 3)" "S_IRWXO = mask 3"
  by (simp_all add: S_IRWXU_def S_IRWXG_def S_IRWXO_def mask_eq_exp_minus_1)

lemma S_IRWXUGO_mask: "S_IRWXUGO = mask 9"
  by (simp add: S_IRWXUGO_def S_IRWXU_def S_IRWXG_def S_IRWXO_def mask_eq_exp_minus_1)

lemma bit_modes:
  "bit S_IRWXU n \<longleftrightarrow> 6 \<le> n \<and> n < 9" "bit S_IRWXG n \<longleftrightarrow> 3 \<le> n \<and> n < 6" "bit S_IRWXO n \<longleftrightarrow> n < 3"
  "bit S_IRWXUGO n \<longleftrightarrow> n < 9"
  by (auto simp: mode_masks S_IRWXUGO_mask bit_simps)

lemma perm_ok_bits: "perm_ok e \<longleftrightarrow> (\<forall>n. bit (e_perm e) n \<longrightarrow> n < 3)"
  using bit_imp_le_length [of "e_perm e"]
  by (auto simp: perm_ok_def bit_eq_iff bit_simps bit_modes)

lemma bit_perm_bits:
  "bit (perm_bits u g o') n \<longleftrightarrow>
    (n < 3 \<and> bit o' n) \<or> (3 \<le> n \<and> n < 6 \<and> bit g (n - 3)) \<or> (6 \<le> n \<and> n < 9 \<and> bit u (n - 6))"
  by (auto simp: perm_bits_def bit_simps bit_modes)

lemma perm_bits_of_mode:
  "perm_bits (drop_bit 6 (mode AND S_IRWXU)) (drop_bit 3 (mode AND S_IRWXG)) (mode AND S_IRWXO) =
    mode AND S_IRWXUGO"
proof (rule bit_word_eqI)
  fix n :: nat
  show "bit (perm_bits (drop_bit 6 (mode AND S_IRWXU)) (drop_bit 3 (mode AND S_IRWXG)) (mode AND S_IRWXO)) n \<longleftrightarrow>
      bit (mode AND S_IRWXUGO) n"
    by (cases "n < 3"; cases "n < 6") (auto simp: bit_perm_bits bit_simps bit_modes)
qed

lemma perm_bits_and:
  "perm_bits (u AND drop_bit 6 mode) (g AND drop_bit 3 mode) (o' AND mode) =
    mode AND perm_bits u g o'"
  by (rule bit_word_eqI) (auto simp: bit_perm_bits bit_simps bit_modes)

lemma perm_bits_UGO [simp]: "perm_bits u g o' AND S_IRWXUGO = perm_bits u g o'"
  by (rule bit_word_eqI) (auto simp: bit_perm_bits bit_simps bit_modes)

lemma perm_ok_set_perm:
  "perm_ok (set_perm (drop_bit 6 (mode AND S_IRWXU)) e)" "perm_ok (set_perm (drop_bit 3 (mode AND S_IRWXG)) e)"
  "perm_ok (set_perm (mode AND S_IRWXO) e)" "perm_ok e \<Longrightarrow> perm_ok (set_perm (e_perm e AND p) e')"
  by (auto simp: perm_ok_bits set_perm_def bit_simps bit_modes)

lemma set_perm_simps [simp]:
  "e_tag (set_perm p e) = e_tag e" "e_id (set_perm p e) = e_id e" "e_perm (set_perm p e) = p"
  by (simp_all add: set_perm_def)

lemma equiv_scan_named:
  "\<forall>e\<in>set es. e_tag e = ACL_USER \<or> e_tag e = ACL_GROUP \<Longrightarrow>
   equiv_mode_scan mode ne (es @ rest) = equiv_mode_scan mode (ne \<or> es \<noteq> []) rest"
  by (induction es arbitrary: ne) auto

lemma mask_replaces_group:
  "(((push_bit 6 (u AND S_IRWXO) OR push_bit 3 (g AND S_IRWXO)) AND NOT S_IRWXG) OR
     push_bit 3 (p AND S_IRWXO)) OR (o' AND S_IRWXO) = perm_bits u p o'"
  by (rule bit_word_eqI) (auto simp: bit_perm_bits bit_simps bit_modes)

context acl_shape
begin

lemma equiv_mode_acl:
  "equiv_mode_scan 0 False acl = Val (perm_bits (e_perm uo) (class_perm go ms) (e_perm ot), ms \<noteq> [])"
proof -
  have "equiv_mode_scan 0 False acl = equiv_mode_scan
      (push_bit 6 (e_perm uo AND S_IRWXO) OR push_bit 3 (e_perm go AND S_IRWXO))
      (us \<noteq> [] \<or> gs \<noteq> []) (ms @ [ot])"
    using us_tags gs_tags by (simp add: tags equiv_scan_named)
  also have "\<dots> = Val (perm_bits (e_perm uo) (class_perm go ms) (e_perm ot), ms \<noteq> [])"
  proof (rule ms_cases)
    fix m assume "ms = [m]" "e_tag m = ACL_MASK"
    then show ?thesis
      by (simp add: tags class_perm_def mask_replaces_group del: push_bit_and)
  qed (simp add: tags class_perm_def perm_bits_def or.assoc)
  finally show ?thesis .
qed

lemma parts_with_perms:
  assumes "perm_ok (set_perm u uo)" "perm_ok (set_perm g go)" "perm_ok (set_perm o' ot)"
  shows "acl_parts (set_perm u uo) us (if ms = [] then set_perm g go else go) gs
    (map (set_perm g) ms) (set_perm o' ot)"
proof -
  have "perm_ok (set_perm g e)" for e using assms(2) by (simp add: perm_ok_def)
  then show ?thesis
    using parts assms by (auto simp: acl_parts_def)
qed

lemma well_formed_with_perms:
  assumes "perm_ok (set_perm u uo)" "perm_ok (set_perm g go)" "perm_ok (set_perm o' ot)"
  shows "well_formed_acl (with_perms uo us go gs ms ot u g o')"
  unfolding well_formed_acl_def with_perms_def using parts_with_perms [OF assms] by blast

end

lemma equiv_mode_with_perms:
  assumes parts: "acl_parts uo us go gs ms ot"
    and ok: "perm_ok (set_perm u uo)" "perm_ok (set_perm g go)" "perm_ok (set_perm o' ot)"
  shows "equiv_mode_scan 0 False (with_perms uo us go gs ms ot u g o') =
    Val (perm_bits u g o', ms \<noteq> [])"
proof -
  let ?go = "if ms = [] then set_perm g go else go"
  have "acl_shape (set_perm u uo) us ?go gs (map (set_perm g) ms) (set_perm o' ot)"
    by (rule acl_shape.intro) (rule acl_shape.parts_with_perms [OF acl_shape.intro [OF parts] ok])
  from acl_shape.equiv_mode_acl [OF this] show ?thesis
    by (cases ms) (simp_all add: with_perms_def class_perm_def)
qed

subsection \<open>What the two masquerading operations compute\<close>

lemma chmod_loop_named:
  "\<forall>e\<in>set es. e_tag e = ACL_USER \<or> e_tag e = ACL_GROUP \<Longrightarrow>
   chmod_masq_loop mode i g m (es @ rest) =
     bind_outcome (chmod_masq_loop mode (i + length es) g m rest) (\<lambda>(es', r). Val (es @ es', r))"
proof (induction es arbitrary: i)
  case Nil
  show ?case by (cases "chmod_masq_loop mode i g m rest") auto
next
  case (Cons e es)
  then show ?case
    by (cases "chmod_masq_loop mode (Suc (i + length es)) g m rest") auto
qed

lemma create_loop_named:
  "\<forall>e\<in>set es. e_tag e = ACL_USER \<or> e_tag e = ACL_GROUP \<Longrightarrow>
   create_masq_loop i s (es @ rest) =
     bind_outcome (create_masq_loop (i + length es) (s\<lparr>m_not_equiv := m_not_equiv s \<or> es \<noteq> []\<rparr>) rest)
       (\<lambda>(es', r). Val (es @ es', r))"
proof (induction es arbitrary: i s)
  case Nil
  show ?case by (cases "create_masq_loop i s rest") auto
next
  case (Cons e es)
  then show ?case
    by (cases "create_masq_loop (Suc (i + length es)) (s\<lparr>m_not_equiv := True\<rparr>) rest") auto
qed

context acl_shape
begin

lemma chmod_masq_acl:
  "posix_acl_chmod_masq acl mode =
    Val (with_perms uo us go gs ms ot (drop_bit 6 (mode AND S_IRWXU)) (drop_bit 3 (mode AND S_IRWXG))
      (mode AND S_IRWXO))"
proof (rule ms_cases)
  assume "ms = []" "us = []" "gs = []"
  then show ?thesis
    by (simp add: posix_acl_chmod_masq_def tags with_perms_def set_perm_def)
next
  fix m assume "ms = [m]" "e_tag m = ACL_MASK"
  then show ?thesis
    using us_tags gs_tags
    by (simp add: posix_acl_chmod_masq_def tags chmod_loop_named with_perms_def set_perm_def
        nth_append list_update_append)
qed

end

text \<open>
  The permissions \<open>posix_acl_create_masq\<close> leaves are the old ones cut down to the mode, and the
  mode it returns is the old one cut down to the permissions of the ACL.
\<close>

definition cut :: "nat \<Rightarrow> u16 \<Rightarrow> u16 \<Rightarrow> u16" where
  "cut k p mode = p AND (drop_bit k mode OR NOT S_IRWXO)"

lemma cut_perm_ok: "perm_ok e \<Longrightarrow> cut k (e_perm e) mode = e_perm e AND drop_bit k mode"
  by (rule bit_word_eqI) (auto simp: cut_def perm_ok_bits bit_simps bit_modes)

lemma cut_mode:
  "cut 3 p ((mode AND (push_bit 6 q OR NOT S_IRWXU)) AND (r OR NOT S_IRWXO)) = cut 3 p mode"
  "cut 0 p (mode AND (push_bit 6 q OR NOT S_IRWXU)) = cut 0 p mode"
  by (rule bit_word_eqI, auto simp: cut_def bit_simps bit_modes)+

lemma create_mode_bits:
  "(mode AND NOT S_IRWXUGO) OR
     (((mode AND (push_bit 6 (cut 6 u mode) OR NOT S_IRWXU)) AND (cut 0 o' mode OR NOT S_IRWXO)) AND
      (push_bit 3 (cut 3 g mode) OR NOT S_IRWXG)) =
    mode AND (perm_bits u g o' OR NOT S_IRWXUGO)"
proof (rule bit_word_eqI)
  fix n :: nat
  assume "n < LENGTH(16)"
  then consider "n < 3" | "3 \<le> n" "n < 6" | "6 \<le> n" "n < 9" | "9 \<le> n" "n < 16" by fastforce
  then show "bit ((mode AND NOT S_IRWXUGO) OR
     (((mode AND (push_bit 6 (cut 6 u mode) OR NOT S_IRWXU)) AND (cut 0 o' mode OR NOT S_IRWXO)) AND
      (push_bit 3 (cut 3 g mode) OR NOT S_IRWXG))) n \<longleftrightarrow>
      bit (mode AND (perm_bits u g o' OR NOT S_IRWXUGO)) n"
    by cases (auto simp: cut_def bit_perm_bits bit_simps bit_modes)
qed

lemma group_class_masq_cut:
  "group_class_masq k mode es =
    (es[k := set_perm (cut 3 (e_perm (es ! k)) mode) (es ! k)],
     mode AND (push_bit 3 (cut 3 (e_perm (es ! k)) mode) OR NOT S_IRWXG))"
  by (simp add: group_class_masq_def cut_def set_perm_def Let_def)

lemma create_step_owner:
  "e_tag uo = ACL_USER_OBJ \<Longrightarrow> create_masq_loop i s (uo # es) =
    bind_outcome (create_masq_loop (Suc i)
       (s\<lparr>m_mode := m_mode s AND (push_bit 6 (cut 6 (e_perm uo) (m_mode s)) OR NOT S_IRWXU)\<rparr>) es)
      (\<lambda>(es', s'). Val (set_perm (cut 6 (e_perm uo) (m_mode s)) uo # es', s'))"
  by (simp add: cut_def set_perm_def Let_def)

lemma create_step_other:
  "e_tag ot = ACL_OTHER \<Longrightarrow> create_masq_loop i s [ot] =
    Val ([set_perm (cut 0 (e_perm ot) (m_mode s)) ot],
         s\<lparr>m_mode := m_mode s AND (cut 0 (e_perm ot) (m_mode s) OR NOT S_IRWXO)\<rparr>)"
  by (simp add: cut_def set_perm_def Let_def)

lemma create_step_group:
  "e_tag go = ACL_GROUP_OBJ \<Longrightarrow> create_masq_loop i s (go # es) =
    bind_outcome (create_masq_loop (Suc i) (s\<lparr>m_group_obj := Some i\<rparr>) es) (\<lambda>(es', s'). Val (go # es', s'))"
  "e_tag go = ACL_MASK \<Longrightarrow> create_masq_loop i s (go # es) =
    bind_outcome (create_masq_loop (Suc i) (s\<lparr>m_mask_obj := Some i, m_not_equiv := True\<rparr>) es)
      (\<lambda>(es', s'). Val (go # es', s'))"
  by simp_all

lemmas create_steps = create_step_owner create_step_other create_step_group create_loop_named

context acl_shape
begin

lemma create_masq_acl:
  "posix_acl_create_masq acl mode =
    Val (with_perms uo us go gs ms ot (cut 6 (e_perm uo) mode) (cut 3 (class_perm go ms) mode)
           (cut 0 (e_perm ot) mode),
         mode AND (perm_bits (e_perm uo) (class_perm go ms) (e_perm ot) OR NOT S_IRWXUGO), ms \<noteq> [])"
proof (rule ms_cases)
  assume "ms = []" "us = []" "gs = []"
  then show ?thesis
    by (simp add: posix_acl_create_masq_def tags create_steps with_perms_def group_class_masq_cut
        class_perm_def cut_mode create_mode_bits del: create_masq_loop.simps)
next
  fix m assume "ms = [m]" "e_tag m = ACL_MASK"
  then show ?thesis
    using us_tags gs_tags
    by (simp add: posix_acl_create_masq_def tags create_steps with_perms_def group_class_masq_cut
        class_perm_def cut_mode create_mode_bits nth_append list_update_append
        del: create_masq_loop.simps)
qed

lemma perms_ok: "perm_ok uo" "perm_ok ot" "class_perm go ms AND NOT S_IRWXO = 0"
  using parts by (auto simp: acl_parts_def class_perm_def perm_ok_def)

end

subsection \<open>The operations on valid ACLs\<close>

lemma cut_ok: "perm_ok (set_perm (cut k p mode) e) \<longleftrightarrow> p AND NOT S_IRWXO = 0"
  by (auto simp: perm_ok_def cut_def bit_eq_iff bit_simps bit_modes)

lemma perm_bits_cut:
  assumes "u AND NOT S_IRWXO = 0" "g AND NOT S_IRWXO = 0" "o' AND NOT S_IRWXO = 0"
  shows "perm_bits (cut 6 u mode) (cut 3 g mode) (cut 0 o' mode) = mode AND perm_bits u g o'"
proof -
  have "cut k p mode = p AND drop_bit k mode" if "p AND NOT S_IRWXO = 0" for k p
    using cut_perm_ok [of "\<lparr>e_tag = 0, e_perm = p, e_id = 0\<rparr>" k mode] that by (simp add: perm_ok_def)
  with assms show ?thesis using perm_bits_and [of u mode g o'] by simp
qed

lemma grants_cut: "grants (cut k p mode AND q) want \<Longrightarrow> grants (p AND q) want"
  by (auto simp: grants_def cut_def bit_eq_iff bit_simps)

lemma grants_cut': "grants (cut k p mode) want \<Longrightarrow> grants p want"
  using grants_cut [of k p mode "NOT 0" want] by simp

lemma with_perms_access:
  assumes parts: "acl_parts uo us go gs ms ot"
    and acc: "posix_access c i_uid i_gid (with_perms uo us go gs ms ot (cut 6 (e_perm uo) mode)
      (cut 3 (class_perm go ms) mode) (cut 0 (e_perm ot) mode)) want"
  shows "posix_access c i_uid i_gid (uo # us @ go # gs @ ms @ [ot]) want"
proof -
  note shape = acl_shape.intro [OF parts]
  note t = acl_shape.tags [OF shape] acl_shape.with_tag_parts [OF shape]
  show ?thesis
  proof (rule acl_shape.ms_cases [OF shape])
    assume "ms = []" "us = []" "gs = []"
    then show ?thesis
      using acc t by (auto simp: posix_access_def with_perms_def matching_groups_def mask_of_def
          class_perm_def dest: grants_cut' split: if_splits)
  next
    fix m assume "ms = [m]" "e_tag m = ACL_MASK"
    then show ?thesis
      using acc t
      by (auto simp: posix_access_def with_perms_def matching_groups_def mask_of_def class_perm_def
          grants_and list_ex_iff dest: grants_cut' split: if_splits option.splits)
  qed
qed

lemma create_masq_valid:
  assumes "well_formed_acl acl"
  obtains acl' m ne where "equiv_mode_scan 0 False acl = Val (m, ne)"
    "posix_acl_create_masq acl mode = Val (acl', mode AND (m OR NOT S_IRWXUGO), ne)"
    "well_formed_acl acl'" "equiv_mode_scan 0 False acl' = Val (mode AND m, ne)"
    "\<And>c i_uid i_gid want. posix_access c i_uid i_gid acl' want \<Longrightarrow> posix_access c i_uid i_gid acl want"
proof -
  from assms obtain uo us go gs ms ot where acl: "acl = uo # us @ go # gs @ ms @ [ot]"
    and parts: "acl_parts uo us go gs ms ot" unfolding well_formed_acl_def by blast
  note shape = acl_shape.intro [OF parts]
  note p = acl_shape.perms_ok [OF shape]
  have ok: "perm_ok (set_perm (cut 6 (e_perm uo) mode) uo)"
    "perm_ok (set_perm (cut 3 (class_perm go ms) mode) go)" "perm_ok (set_perm (cut 0 (e_perm ot) mode) ot)"
    using p unfolding cut_ok by (simp_all add: perm_ok_def)
  show ?thesis
  proof (rule that)
    show "equiv_mode_scan 0 False acl =
        Val (perm_bits (e_perm uo) (class_perm go ms) (e_perm ot), ms \<noteq> [])"
      unfolding acl by (rule acl_shape.equiv_mode_acl [OF shape])
    show "posix_acl_create_masq acl mode =
      Val (with_perms uo us go gs ms ot (cut 6 (e_perm uo) mode) (cut 3 (class_perm go ms) mode)
             (cut 0 (e_perm ot) mode),
           mode AND (perm_bits (e_perm uo) (class_perm go ms) (e_perm ot) OR NOT S_IRWXUGO), ms \<noteq> [])"
      unfolding acl by (rule acl_shape.create_masq_acl [OF shape])
    show "well_formed_acl (with_perms uo us go gs ms ot (cut 6 (e_perm uo) mode)
        (cut 3 (class_perm go ms) mode) (cut 0 (e_perm ot) mode))"
      by (rule acl_shape.well_formed_with_perms [OF shape ok])
    show "equiv_mode_scan 0 False (with_perms uo us go gs ms ot (cut 6 (e_perm uo) mode)
        (cut 3 (class_perm go ms) mode) (cut 0 (e_perm ot) mode)) =
        Val (mode AND perm_bits (e_perm uo) (class_perm go ms) (e_perm ot), ms \<noteq> [])"
      using equiv_mode_with_perms [OF parts ok] perm_bits_cut p by (simp add: perm_ok_def)
  qed (use with_perms_access [OF parts] acl in simp)
qed

lemma chmod_masq_valid:
  assumes "well_formed_acl acl"
  obtains acl' m ne where "equiv_mode_scan 0 False acl = Val (m, ne)"
    "posix_acl_chmod_masq acl mode = Val acl'" "well_formed_acl acl'"
    "equiv_mode_scan 0 False acl' = Val (mode AND S_IRWXUGO, ne)"
    "with_tag ACL_USER acl' = with_tag ACL_USER acl" "with_tag ACL_GROUP acl' = with_tag ACL_GROUP acl"
proof -
  from assms obtain uo us go gs ms ot where acl: "acl = uo # us @ go # gs @ ms @ [ot]"
    and parts: "acl_parts uo us go gs ms ot" unfolding well_formed_acl_def by blast
  note shape = acl_shape.intro [OF parts]
  note ok = perm_ok_set_perm(1) [of mode uo] perm_ok_set_perm(2) [of mode go] perm_ok_set_perm(3) [of mode ot]
  let ?acl = "with_perms uo us go gs ms ot (drop_bit 6 (mode AND S_IRWXU)) (drop_bit 3 (mode AND S_IRWXG))
    (mode AND S_IRWXO)"
  show ?thesis
  proof (rule that)
    show "equiv_mode_scan 0 False acl =
        Val (perm_bits (e_perm uo) (class_perm go ms) (e_perm ot), ms \<noteq> [])"
      unfolding acl by (rule acl_shape.equiv_mode_acl [OF shape])
    show "posix_acl_chmod_masq acl mode = Val ?acl"
      unfolding acl by (rule acl_shape.chmod_masq_acl [OF shape])
    show "well_formed_acl ?acl"
      by (rule acl_shape.well_formed_with_perms [OF shape ok])
    show "equiv_mode_scan 0 False ?acl = Val (mode AND S_IRWXUGO, ms \<noteq> [])"
      unfolding equiv_mode_with_perms [OF parts ok] perm_bits_of_mode ..
    have "with_tag t (map (set_perm g) ms) = (if t = ACL_MASK then map (set_perm g) ms else [])" for t g
      by (rule acl_shape.ms_cases [OF shape]) simp_all
    then show "with_tag ACL_USER ?acl = with_tag ACL_USER acl"
      "with_tag ACL_GROUP ?acl = with_tag ACL_GROUP acl"
      using acl_shape.tags [OF shape] acl_shape.with_tag_parts [OF shape]
      by (auto simp: acl with_perms_def)
  qed
qed

subsection \<open>The ACL of a mode\<close>

lemma mode_entries_parts:
  "acl_parts (mode_entries mode ! 0) [] (mode_entries mode ! 1) [] [] (mode_entries mode ! 2)"
  by (auto simp: mode_entries_def acl_parts_def named_entries_def perm_ok_bits bit_simps bit_modes)

lemma mode_entries_list:
  "mode_entries mode = mode_entries mode ! 0 # [] @ mode_entries mode ! 1 # [] @ [] @ [mode_entries mode ! 2]"
  by (simp add: mode_entries_def)

interpretation minimal: acl_shape "mode_entries mode ! 0" "[]" "mode_entries mode ! 1" "[]" "[]"
    "mode_entries mode ! 2" for mode
  by unfold_locales (rule mode_entries_parts)

lemma well_formed_mode_entries: "well_formed_acl (mode_entries mode)"
  unfolding well_formed_acl_def using mode_entries_list mode_entries_parts by metis

lemma equiv_mode_entries: "equiv_mode_scan 0 False (mode_entries mode) = Val (mode AND S_IRWXUGO, False)"
proof -
  have "equiv_mode_scan 0 False (mode_entries mode) =
      Val (perm_bits (drop_bit 6 (mode AND S_IRWXU)) (drop_bit 3 (mode AND S_IRWXG)) (mode AND S_IRWXO), False)"
    using minimal.equiv_mode_acl [of mode] by (simp add: mode_entries_def class_perm_def del: drop_bit_and)
  then show ?thesis by (simp only: perm_bits_of_mode)
qed

lemma access_mode_entries:
  "posix_access c i_uid i_gid (mode_entries mode) want \<longleftrightarrow>
    grants (drop_bit (if i_uid = fsuid c then 6 else if in_group_p c i_gid then 3 else 0) mode AND S_IRWXO) want"
proof -
  have "drop_bit 6 mode AND S_IRWXO = drop_bit 6 (mode AND S_IRWXU)"
    "drop_bit 3 mode AND S_IRWXO = drop_bit 3 (mode AND S_IRWXG)"
    by (auto intro!: bit_word_eqI simp: bit_simps bit_modes)
  then show ?thesis
    by (simp add: posix_access_def mode_entries_def matching_groups_def mask_of_def)
qed

end
