(* ===== verification/Acl_Cache.thy ===== *)
theory Acl_Cache
  imports Posix_Acl "HOL-Library.Multiset"
begin

text \<open>
  ACLs as reference-counted objects: allocation, \<open>posix_acl_dup\<close> and \<open>posix_acl_release\<close>, the
  copying operations \<open>posix_acl_create\<close> and \<open>posix_acl_chmod\<close> of \<open>fs/posix_acl.c\<close>, and the cache of
  an inode's two ACLs of \<open>include/linux/posix_acl.h\<close>.

  The heap maps addresses to ACLs; an access to an address that holds none, or to the marker
  \<open>ACL_NOT_CACHED\<close>, is a \<open>Trap\<close>.  A freed ACL leaves the heap (the end of the grace period of
  \<open>kfree_rcu\<close>).  The allocator is the parameter \<open>kmem\<close>: \<open>kmalloc\<close> gives an address for a size, or
  fails, and \<open>stale\<close> is what the memory at the address held before.  Each operation takes effect
  as one step: the code holds the inode's lock around the accesses to a slot.

  The lemmas show that a count of the references held in slots and by callers stays equal to the
  counter of every ACL through any sequence of operations.
\<close>

subsection \<open>Objects and references\<close>

record posix_acl =
  a_refcount :: u32
  a_entries :: "posix_acl_entry list"

type_synonym acl_heap = "nat \<rightharpoonup> posix_acl"

datatype acl_ref = ACL_NULL | ACL_NOT_CACHED | ACL_AT nat

record kmem =
  kmalloc :: "acl_heap \<Rightarrow> nat \<Rightarrow> nat option"
  stale :: "nat \<Rightarrow> nat \<Rightarrow> posix_acl_entry"

definition posix_acl_dup :: "acl_ref \<Rightarrow> acl_heap \<Rightarrow> acl_heap outcome" where
  "posix_acl_dup acl h =
    (case acl of
       ACL_NULL \<Rightarrow> Val h
     | ACL_NOT_CACHED \<Rightarrow> Trap
     | ACL_AT a \<Rightarrow>
        (case h a of None \<Rightarrow> Trap | Some x \<Rightarrow> Val (h(a \<mapsto> x\<lparr>a_refcount := a_refcount x + 1\<rparr>))))"

definition posix_acl_release :: "acl_ref \<Rightarrow> acl_heap \<Rightarrow> acl_heap outcome" where
  "posix_acl_release acl h =
    (case acl of
       ACL_NULL \<Rightarrow> Val h
     | ACL_NOT_CACHED \<Rightarrow> Trap
     | ACL_AT a \<Rightarrow>
        (case h a of None \<Rightarrow> Trap
         | Some x \<Rightarrow>
            (if a_refcount x - 1 = 0 then Val (h(a := None))
             else Val (h(a \<mapsto> x\<lparr>a_refcount := a_refcount x - 1\<rparr>)))))"

text \<open>\<open>sizeof (struct posix_acl)\<close> is 24 and \<open>sizeof (struct posix_acl_entry)\<close> is 8.\<close>

definition posix_acl_init :: "posix_acl \<Rightarrow> posix_acl" where
  "posix_acl_init acl = acl\<lparr>a_refcount := 1\<rparr>"

definition posix_acl_alloc :: "kmem \<Rightarrow> nat \<Rightarrow> acl_heap \<Rightarrow> acl_ref \<times> acl_heap" where
  "posix_acl_alloc k n h =
    (case kmalloc k h (24 + n * 8) of
       None \<Rightarrow> (ACL_NULL, h)
     | Some a \<Rightarrow>
        (ACL_AT a, h(a \<mapsto> posix_acl_init \<lparr>a_refcount = 0, a_entries = map (stale k a) [0..<n]\<rparr>)))"

definition posix_acl_clone :: "kmem \<Rightarrow> acl_ref \<Rightarrow> acl_heap \<Rightarrow> (acl_ref \<times> acl_heap) outcome" where
  "posix_acl_clone k acl h =
    (case acl of
       ACL_NULL \<Rightarrow> Val (ACL_NULL, h)
     | ACL_NOT_CACHED \<Rightarrow> Trap
     | ACL_AT a \<Rightarrow>
        (case h a of None \<Rightarrow> Trap
         | Some x \<Rightarrow>
            (case kmalloc k h (24 + length (a_entries x) * 8) of
               None \<Rightarrow> Val (ACL_NULL, h)
             | Some b \<Rightarrow> Val (ACL_AT b, h(b \<mapsto> x\<lparr>a_refcount := 1\<rparr>)))))"

definition put_entries :: "acl_ref \<Rightarrow> posix_acl_entry list \<Rightarrow> acl_heap \<Rightarrow> acl_heap outcome" where
  "put_entries acl es h =
    (case acl of ACL_AT a \<Rightarrow> (case h a of None \<Rightarrow> Trap | Some x \<Rightarrow> Val (h(a \<mapsto> x\<lparr>a_entries := es\<rparr>)))
     | _ \<Rightarrow> Trap)"

definition entries_at :: "acl_ref \<Rightarrow> acl_heap \<Rightarrow> posix_acl_entry list outcome" where
  "entries_at acl h =
    (case acl of ACL_AT a \<Rightarrow> (case h a of None \<Rightarrow> Trap | Some x \<Rightarrow> Val (a_entries x)) | _ \<Rightarrow> Trap)"

definition set_entry :: "nat \<Rightarrow> posix_acl_entry \<Rightarrow> posix_acl_entry list \<Rightarrow> posix_acl_entry list outcome" where
  "set_entry i e es = (if i < length es then Val (es[i := e]) else Trap)"

text \<open>The result of \<open>posix_acl_from_mode\<close> is the new ACL or \<open>Err ENOMEM\<close>.\<close>

definition posix_acl_from_mode :: "kmem \<Rightarrow> u16 \<Rightarrow> acl_heap \<Rightarrow> (acl_ref outcome \<times> acl_heap) outcome" where
  "posix_acl_from_mode k mode h =
    (case posix_acl_alloc k 3 h of
       (acl, h1) \<Rightarrow>
        if acl = ACL_NULL then Val (Err ENOMEM, h1)
        else bind_outcome (entries_at acl h1) (\<lambda>es0.
             bind_outcome (set_entry 0 (mode_entries mode ! 0) es0) (\<lambda>es1.
             bind_outcome (set_entry 1 (mode_entries mode ! 1) es1) (\<lambda>es2.
             bind_outcome (set_entry 2 (mode_entries mode ! 2) es2) (\<lambda>es3.
             bind_outcome (put_entries acl es3 h1) (\<lambda>h2. Val (Val acl, h2)))))))"

subsection \<open>Copies with new permissions\<close>

text \<open>
  \<open>posix_acl_create\<close> and \<open>posix_acl_chmod\<close> replace the caller's reference: the results are the
  return value, the new \<open>*acl\<close> and the new \<open>*mode_p\<close>.
\<close>

definition posix_acl_create ::
    "kmem \<Rightarrow> acl_ref \<Rightarrow> u16 \<Rightarrow> acl_heap \<Rightarrow> (bool outcome \<times> acl_ref \<times> u16 \<times> acl_heap) outcome" where
  "posix_acl_create k acl mode_p h =
    bind_outcome (posix_acl_clone k acl h) (\<lambda>(clone, h1).
    bind_outcome
      (if clone = ACL_NULL then Val (Err ENOMEM, ACL_NULL, mode_p, h1)
       else bind_outcome (entries_at clone h1) (\<lambda>es.
         (case posix_acl_create_masq es mode_p of
            Val (es', mode, not_equiv) \<Rightarrow>
              bind_outcome (put_entries clone es' h1) (\<lambda>h2. Val (Val not_equiv, clone, mode, h2))
          | Err e \<Rightarrow>
              bind_outcome (posix_acl_release clone h1) (\<lambda>h2. Val (Err e, ACL_NULL, mode_p, h2))
          | Trap \<Rightarrow> Trap)))
      (\<lambda>(err, clone', mode, h3).
        bind_outcome (posix_acl_release acl h3) (\<lambda>h4. Val (err, clone', mode, h4))))"

definition posix_acl_chmod ::
    "kmem \<Rightarrow> acl_ref \<Rightarrow> u16 \<Rightarrow> acl_heap \<Rightarrow> (unit outcome \<times> acl_ref \<times> acl_heap) outcome" where
  "posix_acl_chmod k acl mode h =
    bind_outcome (posix_acl_clone k acl h) (\<lambda>(clone, h1).
    bind_outcome
      (if clone = ACL_NULL then Val (Err ENOMEM, ACL_NULL, h1)
       else bind_outcome (entries_at clone h1) (\<lambda>es.
         (case posix_acl_chmod_masq es mode of
            Val es' \<Rightarrow> bind_outcome (put_entries clone es' h1) (\<lambda>h2. Val (Val (), clone, h2))
          | Err e \<Rightarrow>
              bind_outcome (posix_acl_release clone h1) (\<lambda>h2. Val (Err e, ACL_NULL, h2))
          | Trap \<Rightarrow> Trap)))
      (\<lambda>(err, clone', h3).
        bind_outcome (posix_acl_release acl h3) (\<lambda>h4. Val (err, clone', h4))))"

subsection \<open>The ACL cache of an inode\<close>

text \<open>
  The fields of an inode the permission checks read: \<open>i_posixacl\<close>, \<open>i_rdonly\<close> and \<open>i_immutable\<close> are
  the flags behind \<open>IS_POSIXACL\<close>, \<open>IS_RDONLY\<close> and \<open>IS_IMMUTABLE\<close>, \<open>i_fastperm\<close> is \<open>IOP_FASTPERM\<close> of
  \<open>i_opflags\<close>.
\<close>

record inode =
  i_mode :: u16
  i_uid :: u32
  i_gid :: u32
  i_posixacl :: bool
  i_rdonly :: bool
  i_immutable :: bool
  i_fastperm :: bool
  i_acl :: acl_ref
  i_default_acl :: acl_ref

definition ACL_TYPE_ACCESS :: u32 where "ACL_TYPE_ACCESS = 0x8000"
definition ACL_TYPE_DEFAULT :: u32 where "ACL_TYPE_DEFAULT = 0x4000"

text \<open>\<open>acl_by_type\<close> gives the address of a slot; here, the lookup and the store through it.\<close>

definition acl_by_type :: "inode \<Rightarrow> u32 \<Rightarrow> acl_ref outcome" where
  "acl_by_type inode ty =
    (if ty = ACL_TYPE_ACCESS then Val (i_acl inode)
     else if ty = ACL_TYPE_DEFAULT then Val (i_default_acl inode)
     else Trap)"

definition store_by_type :: "inode \<Rightarrow> u32 \<Rightarrow> acl_ref \<Rightarrow> inode outcome" where
  "store_by_type inode ty acl =
    (if ty = ACL_TYPE_ACCESS then Val (inode\<lparr>i_acl := acl\<rparr>)
     else if ty = ACL_TYPE_DEFAULT then Val (inode\<lparr>i_default_acl := acl\<rparr>)
     else Trap)"

definition get_cached_acl :: "inode \<Rightarrow> u32 \<Rightarrow> acl_heap \<Rightarrow> (acl_ref \<times> acl_heap) outcome" where
  "get_cached_acl inode ty h =
    bind_outcome (acl_by_type inode ty) (\<lambda>acl.
      if acl \<noteq> ACL_NULL then
        (if acl \<noteq> ACL_NOT_CACHED
         then bind_outcome (posix_acl_dup acl h) (\<lambda>h'. Val (acl, h'))
         else Val (acl, h))
      else Val (acl, h))"

definition get_cached_acl_rcu :: "inode \<Rightarrow> u32 \<Rightarrow> acl_ref outcome" where
  "get_cached_acl_rcu inode ty = acl_by_type inode ty"

definition set_cached_acl :: "inode \<Rightarrow> u32 \<Rightarrow> acl_ref \<Rightarrow> acl_heap \<Rightarrow> (inode \<times> acl_heap) outcome" where
  "set_cached_acl inode ty acl h =
    bind_outcome (acl_by_type inode ty) (\<lambda>old.
    bind_outcome (posix_acl_dup acl h) (\<lambda>h1.
    bind_outcome (store_by_type inode ty acl) (\<lambda>inode'.
      if old \<noteq> ACL_NOT_CACHED
      then bind_outcome (posix_acl_release old h1) (\<lambda>h2. Val (inode', h2))
      else Val (inode', h1))))"

definition forget_cached_acl :: "inode \<Rightarrow> u32 \<Rightarrow> acl_heap \<Rightarrow> (inode \<times> acl_heap) outcome" where
  "forget_cached_acl inode ty h =
    bind_outcome (acl_by_type inode ty) (\<lambda>old.
    bind_outcome (store_by_type inode ty ACL_NOT_CACHED) (\<lambda>inode'.
      if old \<noteq> ACL_NOT_CACHED
      then bind_outcome (posix_acl_release old h) (\<lambda>h1. Val (inode', h1))
      else Val (inode', h)))"

definition release_cached :: "acl_ref \<Rightarrow> acl_heap \<Rightarrow> acl_heap outcome" where
  "release_cached old h = (if old \<noteq> ACL_NOT_CACHED then posix_acl_release old h else Val h)"

definition forget_all_cached_acls :: "inode \<Rightarrow> acl_heap \<Rightarrow> (inode \<times> acl_heap) outcome" where
  "forget_all_cached_acls inode h =
    bind_outcome (release_cached (i_acl inode) h) (\<lambda>h1.
    bind_outcome (release_cached (i_default_acl inode) h1) (\<lambda>h2.
      Val (inode\<lparr>i_acl := ACL_NOT_CACHED, i_default_acl := ACL_NOT_CACHED\<rparr>, h2)))"

definition cache_no_acl :: "inode \<Rightarrow> inode" where
  "cache_no_acl inode = inode\<lparr>i_acl := ACL_NULL, i_default_acl := ACL_NULL\<rparr>"

subsection \<open>Counting references\<close>

definition fresh_kmalloc :: "kmem \<Rightarrow> bool" where
  "fresh_kmalloc k \<longleftrightarrow> (\<forall>h n a. kmalloc k h n = Some a \<longrightarrow> h a = None)"

definition refs_of :: "acl_ref \<Rightarrow> nat multiset" where
  "refs_of acl = (case acl of ACL_AT a \<Rightarrow> {#a#} | _ \<Rightarrow> {#})"

text \<open>
  The multiset \<open>R\<close> holds every reference there is: exactly the addresses in \<open>R\<close> are allocated, their
  counters are the number of references, and their entries are a valid ACL.
\<close>

definition counted :: "nat multiset \<Rightarrow> acl_heap \<Rightarrow> bool" where
  "counted R h \<longleftrightarrow> size R < 2 ^ 32 \<and>
    (\<forall>a. case h a of None \<Rightarrow> count R a = 0
      | Some x \<Rightarrow> 0 < count R a \<and> a_refcount x = of_nat (count R a) \<and> well_formed_acl (a_entries x))"

definition entries_kept :: "acl_heap \<Rightarrow> acl_heap \<Rightarrow> bool" where
  "entries_kept h h' \<longleftrightarrow>
    (\<forall>a x y. h a = Some x \<longrightarrow> h' a = Some y \<longrightarrow> a_entries y = a_entries x)"

lemma refs_of_simps [simp]: "refs_of ACL_NULL = {#}" "refs_of ACL_NOT_CACHED = {#}" "refs_of (ACL_AT a) = {#a#}"
  by (simp_all add: refs_of_def)

lemma countedD:
  "counted R h \<Longrightarrow> (case h a of None \<Rightarrow> count R a = 0
    | Some x \<Rightarrow> 0 < count R a \<and> a_refcount x = of_nat (count R a) \<and> well_formed_acl (a_entries x))"
  by (simp add: counted_def)

lemma counted_Some:
  assumes "counted R h" "a \<in># R"
  obtains x where "h a = Some x" "a_refcount x = of_nat (count R a)" "well_formed_acl (a_entries x)"
  using countedD [OF assms(1), of a] assms(2) that by (cases "h a") (auto simp: not_in_iff [symmetric])

lemma counted_lt: "counted R h \<Longrightarrow> count R a < 2 ^ 32"
  using count_le_size [of R a] by (simp add: counted_def)

lemma counted_count: "counted R h \<Longrightarrow> 0 < count R a \<longleftrightarrow> h a \<noteq> None"
  by (auto simp: counted_def split: option.splits)

lemma counted_update:
  assumes "counted R h" "size S < 2 ^ 32" "0 < count S a" "\<forall>b. b \<noteq> a \<longrightarrow> count S b = count R b"
    "a_refcount x = of_nat (count S a)" "well_formed_acl (a_entries x)"
  shows "counted S (h(a \<mapsto> x))"
  unfolding counted_def
proof (intro conjI allI)
  fix b
  show "case (h(a \<mapsto> x)) b of None \<Rightarrow> count S b = 0
    | Some x \<Rightarrow> 0 < count S b \<and> a_refcount x = of_nat (count S b) \<and> well_formed_acl (a_entries x)"
    using countedD [OF assms(1), of b] assms(3-6)
    by (cases "b = a") (simp_all del: count_greater_zero_iff split: option.splits)
qed (rule assms(2))

lemma counted_delete:
  assumes "counted R h" "count R a = 1"
  shows "counted (R - {#a#}) (h(a := None))"
  unfolding counted_def
proof (intro conjI allI)
  show "size (R - {#a#}) < 2 ^ 32"
    using assms(1) size_Diff1_le [of R a] by (simp add: counted_def)
  fix b
  show "case (h(a := None)) b of None \<Rightarrow> count (R - {#a#}) b = 0
    | Some x \<Rightarrow> 0 < count (R - {#a#}) b \<and> a_refcount x = of_nat (count (R - {#a#}) b) \<and>
        well_formed_acl (a_entries x)"
    using countedD [OF assms(1), of b] assms(2)
    by (cases "b = a") (simp_all del: count_greater_zero_iff split: option.splits)
qed

lemma dup_counted:
  assumes R: "counted R h" and acl: "acl \<noteq> ACL_NOT_CACHED" "refs_of acl \<subseteq># R" "size R + 1 < 2 ^ 32"
  obtains h' where "posix_acl_dup acl h = Val h'" "counted (R + refs_of acl) h'" "entries_kept h h'"
proof (cases acl)
  case ACL_NULL
  with R that [of h] show ?thesis by (simp add: posix_acl_dup_def entries_kept_def)
next
  case (ACL_AT a)
  with acl have "a \<in># R" by simp
  from counted_Some [OF R this] obtain x where x: "h a = Some x" "a_refcount x = of_nat (count R a)"
    "well_formed_acl (a_entries x)" by blast
  let ?h = "h(a \<mapsto> x\<lparr>a_refcount := a_refcount x + 1\<rparr>)"
  have "counted (R + {#a#}) ?h"
    by (rule counted_update [OF R]) (use x acl(3) in auto)
  then show ?thesis using that [of ?h] x ACL_AT by (simp add: posix_acl_dup_def entries_kept_def)
qed (use acl in simp)

lemma of_nat_eq_0_iff_u32: "n < 2 ^ 32 \<Longrightarrow> (of_nat n :: u32) = 0 \<longleftrightarrow> n = 0"
  by (auto simp: word_of_nat_eq_0_iff dest: dvd_imp_le)

lemma release_counted:
  assumes R: "counted R h" and acl: "acl \<noteq> ACL_NOT_CACHED" "refs_of acl \<subseteq># R"
  obtains h' where "posix_acl_release acl h = Val h'" "counted (R - refs_of acl) h'" "entries_kept h h'"
proof (cases acl)
  case ACL_NULL
  with R that [of h] show ?thesis by (simp add: posix_acl_release_def entries_kept_def)
next
  case (ACL_AT a)
  with acl have a: "a \<in># R" by simp
  from counted_Some [OF R this] obtain x where x: "h a = Some x" "a_refcount x = of_nat (count R a)"
    "well_formed_acl (a_entries x)" by blast
  have sz: "size (R - {#a#}) < 2 ^ 32"
    using R size_Diff1_le [of R a] by (simp add: counted_def)
  have pred: "a_refcount x - 1 = of_nat (count R a - 1)"
    using x(2) a by (simp add: of_nat_diff Suc_le_eq)
  have lt: "count R a - 1 < 2 ^ 32" using counted_lt [OF R, of a] by simp
  have zero: "a_refcount x - 1 = 0 \<longleftrightarrow> count R a = 1"
    using of_nat_eq_0_iff_u32 [OF lt] count_greater_zero_iff [of R a] a unfolding pred by linarith
  show ?thesis
  proof (cases "count R a = 1")
    case True
    have "counted (R - {#a#}) (h(a := None))"
      by (rule counted_delete [OF R True])
    then show ?thesis
      using that [of "h(a := None)"] x zero True ACL_AT by (simp add: posix_acl_release_def entries_kept_def)
  next
    case False
    let ?h = "h(a \<mapsto> x\<lparr>a_refcount := a_refcount x - 1\<rparr>)"
    have "Suc 0 < count R a" using False count_greater_zero_iff [of R a] a by linarith
    then have "counted (R - {#a#}) ?h"
      by (intro counted_update [OF R sz]) (use x pred in auto)
    then show ?thesis
      using that [of ?h] x zero False ACL_AT by (simp add: posix_acl_release_def entries_kept_def)
  qed
qed (use acl in simp)

lemma alloc_counted:
  assumes "counted R h" "h a = None" "size R + 1 < 2 ^ 32" "a_refcount x = 1" "well_formed_acl (a_entries x)"
  shows "counted (R + {#a#}) (h(a \<mapsto> x))" "entries_kept h (h(a \<mapsto> x))"
proof -
  have "count R a = 0" using countedD [OF assms(1), of a] assms(2) by simp
  then show "counted (R + {#a#}) (h(a \<mapsto> x))"
    by (intro counted_update [OF assms(1)]) (use assms in auto)
qed (use assms(2) in \<open>auto simp: entries_kept_def\<close>)

lemma entries_kept_trans:
  "entries_kept h h1 \<Longrightarrow> entries_kept h1 h2 \<Longrightarrow> (\<forall>a. h a \<noteq> None \<longrightarrow> h2 a \<noteq> None \<longrightarrow> h1 a \<noteq> None) \<Longrightarrow>
   entries_kept h h2"
  unfolding entries_kept_def by (metis option.distinct(1) option.exhaust)

subsection \<open>Each operation keeps the count\<close>

lemma from_mode_counted:
  assumes R: "counted R h" and k: "fresh_kmalloc k" and "size R + 1 < 2 ^ 32"
  obtains ret h' where "posix_acl_from_mode k mode h = Val (ret, h')"
    "ret = Err ENOMEM \<and> h' = h \<or> (\<exists>a. ret = Val (ACL_AT a) \<and> h a = None \<and>
       h' = h(a \<mapsto> \<lparr>a_refcount = 1, a_entries = mode_entries mode\<rparr>))"
    "counted (R + (case ret of Val r \<Rightarrow> refs_of r | _ \<Rightarrow> {#})) h'" "entries_kept h h'"
proof (cases "kmalloc k h 48")
  case None
  with that [of "Err ENOMEM" h] R show ?thesis
    by (simp add: posix_acl_from_mode_def posix_acl_alloc_def entries_kept_def)
next
  case (Some a)
  let ?x = "\<lparr>a_refcount = 1, a_entries = mode_entries mode\<rparr>"
  have a: "h a = None" using k Some by (auto simp: fresh_kmalloc_def)
  have run: "posix_acl_from_mode k mode h = Val (Val (ACL_AT a), h(a \<mapsto> ?x))"
    using Some
    by (simp add: posix_acl_from_mode_def posix_acl_alloc_def posix_acl_init_def entries_at_def
        put_entries_def set_entry_def mode_entries_def upt_rec)
  have "counted (R + {#a#}) (h(a \<mapsto> ?x))" "entries_kept h (h(a \<mapsto> ?x))"
    using alloc_counted [OF R a assms(3), of ?x] by (simp_all add: well_formed_mode_entries)
  with that [OF run] a show ?thesis by simp
qed

text \<open>The common shape of the two copying operations: clone, rewrite the clone, release the original.\<close>

lemma clone_counted:
  assumes R: "counted R h" and k: "fresh_kmalloc k" and acl: "a \<in># R" "size R + 1 < 2 ^ 32"
  obtains x where "h a = Some x" "well_formed_acl (a_entries x)"
    "posix_acl_clone k (ACL_AT a) h = Val (ACL_NULL, h) \<or>
     (\<exists>b. h b = None \<and> posix_acl_clone k (ACL_AT a) h = Val (ACL_AT b, h(b \<mapsto> x\<lparr>a_refcount := 1\<rparr>)))"
proof -
  from counted_Some [OF R acl(1)] obtain x where x: "h a = Some x" "well_formed_acl (a_entries x)" by blast
  show ?thesis
    by (rule that [OF x]) (use x k in \<open>auto simp: posix_acl_clone_def fresh_kmalloc_def split: option.split\<close>)
qed

lemma copy_counted:
  assumes R: "counted R h" and a: "a \<in># R" and sz: "size R + 1 < 2 ^ 32"
    and b: "h b = None" and y: "a_refcount y = 1" "well_formed_acl (a_entries y)"
  obtains h' where "posix_acl_release (ACL_AT a) (h(b \<mapsto> y)) = Val h'"
    "counted (R - {#a#} + {#b#}) h'" "entries_kept h h'" "\<exists>z. h' b = Some z \<and> a_entries z = a_entries y"
proof -
  have ab: "a \<noteq> b" using countedD [OF R, of b] a b by (auto simp: count_eq_zero_iff)
  note n = alloc_counted [OF R b sz y]
  obtain h' where
    h': "posix_acl_release (ACL_AT a) (h(b \<mapsto> y)) = Val h'" "counted (R + {#b#} - {#a#}) h'"
    "entries_kept (h(b \<mapsto> y)) h'"
    by (rule release_counted [OF n(1), of "ACL_AT a"]) (use a in simp_all)
  have m: "R + {#b#} - {#a#} = R - {#a#} + {#b#}" using ab a by (simp add: multiset_eq_iff)
  have kept: "entries_kept h h'"
    by (rule entries_kept_trans [OF n(2) h'(3)]) auto
  have "h' b \<noteq> None" using counted_count [OF h'(2), of b] ab by simp
  then obtain z where z: "h' b = Some z" by blast
  then have "a_entries z = a_entries y"
    using h'(3) [unfolded entries_kept_def, rule_format, of b y z] by simp
  with z show ?thesis using that [OF h'(1) _ kept] h'(2) unfolding m by simp
qed

text \<open>What the caller of \<open>posix_acl_create\<close> and \<open>posix_acl_chmod\<close> gets: a copy, or \<open>ENOMEM\<close> and no ACL.\<close>

lemma create_counted:
  assumes R: "counted R h" and k: "fresh_kmalloc k" and a: "a \<in># R" and sz: "size R + 1 < 2 ^ 32"
  obtains x err acl' mode' h' where "h a = Some x"
    "posix_acl_create k (ACL_AT a) mode h = Val (err, acl', mode', h')"
    "counted (R - {#a#} + refs_of acl') h'" "entries_kept h h'" "acl' \<noteq> ACL_NOT_CACHED"
    "(err, acl', mode') = (Err ENOMEM, ACL_NULL, mode) \<or>
     (\<exists>es ne. posix_acl_create_masq (a_entries x) mode = Val (es, mode', ne) \<and> err = Val ne \<and>
       entries_at acl' h' = Val es)"
proof -
  from clone_counted [OF R k a sz] obtain x where x: "h a = Some x" "well_formed_acl (a_entries x)"
    and clone: "posix_acl_clone k (ACL_AT a) h = Val (ACL_NULL, h) \<or>
      (\<exists>b. h b = None \<and> posix_acl_clone k (ACL_AT a) h = Val (ACL_AT b, h(b \<mapsto> x\<lparr>a_refcount := 1\<rparr>)))"
    by blast
  from clone show ?thesis
  proof
    assume c: "posix_acl_clone k (ACL_AT a) h = Val (ACL_NULL, h)"
    obtain h' where
      "posix_acl_release (ACL_AT a) h = Val h'" "counted (R - {#a#}) h'" "entries_kept h h'"
      by (rule release_counted [OF R, of "ACL_AT a"]) (use a in simp_all)
    with that [OF x(1), of "Err ENOMEM" ACL_NULL mode h'] c show ?thesis
      by (simp add: posix_acl_create_def)
  next
    assume "\<exists>b. h b = None \<and> posix_acl_clone k (ACL_AT a) h = Val (ACL_AT b, h(b \<mapsto> x\<lparr>a_refcount := 1\<rparr>))"
    then obtain b where b: "h b = None"
      and c: "posix_acl_clone k (ACL_AT a) h = Val (ACL_AT b, h(b \<mapsto> x\<lparr>a_refcount := 1\<rparr>))" by blast
    obtain es mode' ne where
      m: "posix_acl_create_masq (a_entries x) mode = Val (es, mode', ne)" "well_formed_acl es"
      by (rule create_masq_valid [OF x(2), of mode])
    obtain h' where
      h': "posix_acl_release (ACL_AT a) (h(b \<mapsto> x\<lparr>a_refcount := 1, a_entries := es\<rparr>)) = Val h'"
      "counted (R - {#a#} + {#b#}) h'" "entries_kept h h'" "\<exists>z. h' b = Some z \<and> a_entries z = es"
      by (rule copy_counted [OF R a sz b, of "x\<lparr>a_refcount := 1, a_entries := es\<rparr>"]) (use m(2) in simp_all)
    have "posix_acl_create k (ACL_AT a) mode h = Val (Val ne, ACL_AT b, mode', h')"
      using c m h'(1) x by (simp add: posix_acl_create_def entries_at_def put_entries_def)
    from that [OF x(1) this] h' m show ?thesis by (auto simp: entries_at_def)
  qed
qed

lemma chmod_counted:
  assumes R: "counted R h" and k: "fresh_kmalloc k" and a: "a \<in># R" and sz: "size R + 1 < 2 ^ 32"
  obtains x err acl' h' where "h a = Some x"
    "posix_acl_chmod k (ACL_AT a) mode h = Val (err, acl', h')"
    "counted (R - {#a#} + refs_of acl') h'" "entries_kept h h'" "acl' \<noteq> ACL_NOT_CACHED"
    "(err, acl') = (Err ENOMEM, ACL_NULL) \<or>
     (\<exists>es. posix_acl_chmod_masq (a_entries x) mode = Val es \<and> err = Val () \<and> entries_at acl' h' = Val es)"
proof -
  from clone_counted [OF R k a sz] obtain x where x: "h a = Some x" "well_formed_acl (a_entries x)"
    and clone: "posix_acl_clone k (ACL_AT a) h = Val (ACL_NULL, h) \<or>
      (\<exists>b. h b = None \<and> posix_acl_clone k (ACL_AT a) h = Val (ACL_AT b, h(b \<mapsto> x\<lparr>a_refcount := 1\<rparr>)))"
    by blast
  from clone show ?thesis
  proof
    assume c: "posix_acl_clone k (ACL_AT a) h = Val (ACL_NULL, h)"
    obtain h' where
      "posix_acl_release (ACL_AT a) h = Val h'" "counted (R - {#a#}) h'" "entries_kept h h'"
      by (rule release_counted [OF R, of "ACL_AT a"]) (use a in simp_all)
    with that [OF x(1), of "Err ENOMEM" ACL_NULL h'] c show ?thesis
      by (simp add: posix_acl_chmod_def)
  next
    assume "\<exists>b. h b = None \<and> posix_acl_clone k (ACL_AT a) h = Val (ACL_AT b, h(b \<mapsto> x\<lparr>a_refcount := 1\<rparr>))"
    then obtain b where b: "h b = None"
      and c: "posix_acl_clone k (ACL_AT a) h = Val (ACL_AT b, h(b \<mapsto> x\<lparr>a_refcount := 1\<rparr>))" by blast
    from chmod_masq_valid [OF x(2), of mode] obtain es where
      m: "posix_acl_chmod_masq (a_entries x) mode = Val es" "well_formed_acl es" by blast
    obtain h' where
      h': "posix_acl_release (ACL_AT a) (h(b \<mapsto> x\<lparr>a_refcount := 1, a_entries := es\<rparr>)) = Val h'"
      "counted (R - {#a#} + {#b#}) h'" "entries_kept h h'" "\<exists>z. h' b = Some z \<and> a_entries z = es"
      by (rule copy_counted [OF R a sz b, of "x\<lparr>a_refcount := 1, a_entries := es\<rparr>"]) (use m(2) in simp_all)
    have "posix_acl_chmod k (ACL_AT a) mode h = Val (Val (), ACL_AT b, h')"
      using c m h'(1) x by (simp add: posix_acl_chmod_def entries_at_def put_entries_def)
    from that [OF x(1) this] h' m show ?thesis by (auto simp: entries_at_def)
  qed
qed

subsection \<open>The cache operations keep the count\<close>

definition ino_refs :: "inode \<Rightarrow> nat multiset" where
  "ino_refs ino = refs_of (i_acl ino) + refs_of (i_default_acl ino)"

definition acl_type_ok :: "u32 \<Rightarrow> bool" where
  "acl_type_ok ty \<longleftrightarrow> ty = ACL_TYPE_ACCESS \<or> ty = ACL_TYPE_DEFAULT"

lemma acl_types_distinct [simp]: "ACL_TYPE_ACCESS \<noteq> ACL_TYPE_DEFAULT" "ACL_TYPE_DEFAULT \<noteq> ACL_TYPE_ACCESS"
  by (simp_all add: ACL_TYPE_ACCESS_def ACL_TYPE_DEFAULT_def)

lemma slot_refs:
  assumes "acl_type_ok ty"
  obtains old rest where "acl_by_type ino ty = Val old" "ino_refs ino = refs_of old + rest"
    "\<forall>acl. \<exists>ino'. store_by_type ino ty acl = Val ino' \<and> ino_refs ino' = refs_of acl + rest \<and>
       acl_by_type ino' ty = Val acl"
  using assms unfolding acl_type_ok_def
proof
  assume "ty = ACL_TYPE_ACCESS"
  then show ?thesis
    using that [of "i_acl ino" "refs_of (i_default_acl ino)"]
    by (simp add: acl_by_type_def store_by_type_def ino_refs_def)
next
  assume "ty = ACL_TYPE_DEFAULT"
  then show ?thesis
    using that [of "i_default_acl ino" "refs_of (i_acl ino)"]
    by (simp add: acl_by_type_def store_by_type_def ino_refs_def add.commute)
qed

lemma kept_via:
  assumes "counted R h" "counted (R + S) h1" "entries_kept h h1" "entries_kept h1 h2"
  shows "entries_kept h h2"
proof (rule entries_kept_trans [OF assms(3,4)], intro allI impI)
  fix a assume "h a \<noteq> None"
  then have "0 < count (R + S) a"
    unfolding counted_count [OF assms(1), symmetric] by simp
  then show "h1 a \<noteq> None" using counted_count [OF assms(2), of a] by blast
qed

lemma get_cached_counted:
  assumes "counted R h" "ino_refs ino \<subseteq># R" "acl_type_ok ty" "size R + 1 < 2 ^ 32"
  obtains acl h' where "get_cached_acl ino ty h = Val (acl, h')" "acl_by_type ino ty = Val acl"
    "counted (R + refs_of acl) h'" "entries_kept h h'"
proof -
  obtain old rest where old: "acl_by_type ino ty = Val old" "ino_refs ino = refs_of old + rest"
    by (rule slot_refs [OF assms(3), of ino])
  show ?thesis
  proof (cases "old = ACL_NOT_CACHED")
    case True
    then show ?thesis
      using that [of old h] old assms(1) by (simp add: get_cached_acl_def entries_kept_def)
  next
    case False
    have "refs_of old \<subseteq># R" using old(2) assms(2) by (metis mset_subset_eq_add_left subset_mset.order_trans)
    with dup_counted [OF assms(1) False _ assms(4)] obtain h' where
      h': "posix_acl_dup old h = Val h'" "counted (R + refs_of old) h'" "entries_kept h h'" by blast
    have "get_cached_acl ino ty h = Val (old, h')"
      using old(1) h'(1) False by (auto simp: get_cached_acl_def posix_acl_dup_def)
    from that [OF this old(1) h'(2,3)] show ?thesis .
  qed
qed

lemma release_cached_counted:
  assumes "counted R h" "refs_of old \<subseteq># R"
  obtains h' where "release_cached old h = Val h'" "counted (R - refs_of old) h'" "entries_kept h h'"
proof (cases "old = ACL_NOT_CACHED")
  case True
  then show ?thesis using that [of h] assms(1) by (simp add: release_cached_def entries_kept_def)
next
  case False
  with release_counted [OF assms(1) False assms(2)] that show ?thesis by (auto simp: release_cached_def)
qed

lemma set_cached_counted:
  assumes R: "counted R h" and ino: "ino_refs ino \<subseteq># R" and ty: "acl_type_ok ty"
    and acl: "acl \<noteq> ACL_NOT_CACHED" "refs_of acl \<subseteq># R" and sz: "size R + 1 < 2 ^ 32"
  obtains ino' h' where "set_cached_acl ino ty acl h = Val (ino', h')"
    "counted (R - ino_refs ino + ino_refs ino') h'" "entries_kept h h'" "acl_by_type ino' ty = Val acl"
proof -
  obtain old rest where old: "acl_by_type ino ty = Val old" "ino_refs ino = refs_of old + rest"
    and st: "\<forall>acl. \<exists>ino'. store_by_type ino ty acl = Val ino' \<and> ino_refs ino' = refs_of acl + rest \<and>
       acl_by_type ino' ty = Val acl"
    by (rule slot_refs [OF ty, of ino])
  from st obtain ino' where ino': "store_by_type ino ty acl = Val ino'"
    "ino_refs ino' = refs_of acl + rest" "acl_by_type ino' ty = Val acl" by blast
  obtain h1 where h1: "posix_acl_dup acl h = Val h1" "counted (R + refs_of acl) h1" "entries_kept h h1"
    by (rule dup_counted [OF R acl sz])
  from ino old(2) obtain Q where Q: "R = refs_of old + rest + Q"
    by (metis subset_mset.le_iff_add)
  obtain h2 where h2: "release_cached old h1 = Val h2" "counted (R + refs_of acl - refs_of old) h2"
      "entries_kept h1 h2"
    by (rule release_cached_counted [OF h1(2), of old]) (simp add: Q add.assoc)
  have run: "set_cached_acl ino ty acl h = Val (ino', h2)"
    using old(1) h1(1) ino'(1) h2(1) by (simp add: set_cached_acl_def release_cached_def split: if_splits)
  have eq: "R + refs_of acl - refs_of old = R - ino_refs ino + ino_refs ino'"
    unfolding ino'(2) old(2) Q by (simp add: multiset_eq_iff)
  show ?thesis
    by (rule that [OF run h2(2) [unfolded eq] kept_via [OF R h1(2,3) h2(3)] ino'(3)])
qed

lemma forget_cached_counted:
  assumes R: "counted R h" and ino: "ino_refs ino \<subseteq># R" and ty: "acl_type_ok ty"
  obtains ino' h' where "forget_cached_acl ino ty h = Val (ino', h')"
    "counted (R - ino_refs ino + ino_refs ino') h'" "entries_kept h h'"
proof -
  obtain old rest where old: "acl_by_type ino ty = Val old" "ino_refs ino = refs_of old + rest"
    and st: "\<forall>acl. \<exists>ino'. store_by_type ino ty acl = Val ino' \<and> ino_refs ino' = refs_of acl + rest \<and>
       acl_by_type ino' ty = Val acl"
    by (rule slot_refs [OF ty, of ino])
  from st [rule_format, of ACL_NOT_CACHED] obtain ino' where ino': "store_by_type ino ty ACL_NOT_CACHED = Val ino'"
    "ino_refs ino' = rest" by auto
  from ino old(2) obtain Q where Q: "R = refs_of old + rest + Q"
    by (metis subset_mset.le_iff_add)
  obtain h2 where h2: "release_cached old h = Val h2" "counted (R - refs_of old) h2" "entries_kept h h2"
    by (rule release_cached_counted [OF R, of old]) (simp add: Q add.assoc)
  have run: "forget_cached_acl ino ty h = Val (ino', h2)"
    using old(1) ino'(1) h2(1) by (simp add: forget_cached_acl_def release_cached_def split: if_splits)
  have eq: "R - refs_of old = R - ino_refs ino + ino_refs ino'"
    unfolding ino'(2) old(2) Q by (simp add: multiset_eq_iff)
  show ?thesis by (rule that [OF run h2(2) [unfolded eq] h2(3)])
qed

lemma forget_all_counted:
  assumes R: "counted R h" and ino: "ino_refs ino \<subseteq># R"
  obtains ino' h' where "forget_all_cached_acls ino h = Val (ino', h')" "ino_refs ino' = {#}"
    "counted (R - ino_refs ino) h'" "entries_kept h h'"
proof -
  from ino obtain Q where Q: "R = refs_of (i_acl ino) + refs_of (i_default_acl ino) + Q"
    unfolding ino_refs_def by (metis subset_mset.le_iff_add)
  obtain h1 where h1: "release_cached (i_acl ino) h = Val h1" "counted (R - refs_of (i_acl ino)) h1"
      "entries_kept h h1"
    by (rule release_cached_counted [OF R, of "i_acl ino"]) (simp add: Q add.assoc)
  obtain h2 where h2: "release_cached (i_default_acl ino) h1 = Val h2"
      "counted (R - refs_of (i_acl ino) - refs_of (i_default_acl ino)) h2" "entries_kept h1 h2"
    by (rule release_cached_counted [OF h1(2), of "i_default_acl ino"]) (simp add: Q add.assoc)
  have kept: "entries_kept h h2"
  proof (rule entries_kept_trans [OF h1(3) h2(3)], intro allI impI)
    fix a assume "h2 a \<noteq> None"
    then have "0 < count (R - refs_of (i_acl ino)) a"
      unfolding counted_count [OF h2(2), symmetric] by (simp only: count_diff)
    then show "h1 a \<noteq> None" using counted_count [OF h1(2), of a] by blast
  qed
  show ?thesis
    using that [of "ino\<lparr>i_acl := ACL_NOT_CACHED, i_default_acl := ACL_NOT_CACHED\<rparr>" h2] h1 h2 kept
    by (simp add: forget_all_cached_acls_def ino_refs_def)
qed

subsection \<open>Sequences of operations\<close>

text \<open>
  The inodes of a filesystem, the heap of ACLs and the references its code holds.  \<open>acl_exec\<close> runs
  one operation on an inode or on a held reference; \<open>acl_op_ok\<close> is what the callers see to:
  they name an inode and one of its slots, pass only references they hold, and do not use
  \<open>cache_no_acl\<close> on an inode that caches an ACL.  There are fewer than 2 to the 32 references.
\<close>

record acl_state =
  inodes :: "inode list"
  acls :: acl_heap
  held :: "nat multiset"

datatype acl_op =
    Op_get nat u32
  | Op_release nat
  | Op_set nat u32 acl_ref
  | Op_forget nat u32
  | Op_forget_all nat
  | Op_no_acl nat
  | Op_from_mode u16
  | Op_create nat u16
  | Op_chmod nat u16

definition all_refs :: "acl_state \<Rightarrow> nat multiset" where
  "all_refs s = held s + sum_list (map ino_refs (inodes s))"

definition put_inode :: "nat \<Rightarrow> (inode \<times> acl_heap) outcome \<Rightarrow> acl_state \<Rightarrow> acl_state outcome" where
  "put_inode i r s = bind_outcome r (\<lambda>(ino, h). Val (s\<lparr>inodes := (inodes s)[i := ino], acls := h\<rparr>))"

fun acl_exec :: "kmem \<Rightarrow> acl_op \<Rightarrow> acl_state \<Rightarrow> acl_state outcome" where
  "acl_exec k (Op_get i ty) s =
    bind_outcome (get_cached_acl (inodes s ! i) ty (acls s))
      (\<lambda>(acl, h). Val (s\<lparr>acls := h, held := held s + refs_of acl\<rparr>))"
| "acl_exec k (Op_release a) s =
    bind_outcome (posix_acl_release (ACL_AT a) (acls s)) (\<lambda>h. Val (s\<lparr>acls := h, held := held s - {#a#}\<rparr>))"
| "acl_exec k (Op_set i ty acl) s = put_inode i (set_cached_acl (inodes s ! i) ty acl (acls s)) s"
| "acl_exec k (Op_forget i ty) s = put_inode i (forget_cached_acl (inodes s ! i) ty (acls s)) s"
| "acl_exec k (Op_forget_all i) s = put_inode i (forget_all_cached_acls (inodes s ! i) (acls s)) s"
| "acl_exec k (Op_no_acl i) s = put_inode i (Val (cache_no_acl (inodes s ! i), acls s)) s"
| "acl_exec k (Op_from_mode mode) s =
    bind_outcome (posix_acl_from_mode k mode (acls s))
      (\<lambda>(ret, h). Val (s\<lparr>acls := h, held := held s + (case ret of Val acl \<Rightarrow> refs_of acl | _ \<Rightarrow> {#})\<rparr>))"
| "acl_exec k (Op_create a mode) s =
    bind_outcome (posix_acl_create k (ACL_AT a) mode (acls s))
      (\<lambda>(err, acl, mode', h). Val (s\<lparr>acls := h, held := held s - {#a#} + refs_of acl\<rparr>))"
| "acl_exec k (Op_chmod a mode) s =
    bind_outcome (posix_acl_chmod k (ACL_AT a) mode (acls s))
      (\<lambda>(err, acl, h). Val (s\<lparr>acls := h, held := held s - {#a#} + refs_of acl\<rparr>))"

fun acl_op_ok :: "acl_op \<Rightarrow> acl_state \<Rightarrow> bool" where
  "acl_op_ok (Op_get i ty) s \<longleftrightarrow> i < length (inodes s) \<and> acl_type_ok ty"
| "acl_op_ok (Op_release a) s \<longleftrightarrow> a \<in># held s"
| "acl_op_ok (Op_set i ty acl) s \<longleftrightarrow> i < length (inodes s) \<and> acl_type_ok ty \<and>
    acl \<noteq> ACL_NOT_CACHED \<and> refs_of acl \<subseteq># held s"
| "acl_op_ok (Op_forget i ty) s \<longleftrightarrow> i < length (inodes s) \<and> acl_type_ok ty"
| "acl_op_ok (Op_forget_all i) s \<longleftrightarrow> i < length (inodes s)"
| "acl_op_ok (Op_no_acl i) s \<longleftrightarrow> i < length (inodes s) \<and> ino_refs (inodes s ! i) = {#}"
| "acl_op_ok (Op_from_mode mode) s \<longleftrightarrow> True"
| "acl_op_ok (Op_create a mode) s \<longleftrightarrow> a \<in># held s"
| "acl_op_ok (Op_chmod a mode) s \<longleftrightarrow> a \<in># held s"

inductive acl_reachable :: "kmem \<Rightarrow> acl_state \<Rightarrow> bool" for k where
  acl_start: "\<forall>ino\<in>set inos. i_acl ino = ACL_NOT_CACHED \<and> i_default_acl ino = ACL_NOT_CACHED \<Longrightarrow>
    acl_reachable k \<lparr>inodes = inos, acls = Map.empty, held = {#}\<rparr>"
| acl_next: "acl_reachable k s \<Longrightarrow> acl_op_ok op s \<Longrightarrow> size (all_refs s) + 1 < 2 ^ 32 \<Longrightarrow>
    acl_exec k op s = Val s' \<Longrightarrow> acl_reachable k s'"

lemma inode_refs_split:
  assumes "i < length inos"
  obtains rest where "sum_list (map ino_refs inos) = ino_refs (inos ! i) + rest"
    "\<forall>ino. sum_list (map ino_refs (inos[i := ino])) = ino_refs ino + rest"
proof
  let ?rest = "sum_list (map ino_refs (take i inos @ drop (Suc i) inos))"
  show "\<forall>ino. sum_list (map ino_refs (inos[i := ino])) = ino_refs ino + ?rest"
    using assms by (simp add: upd_conv_take_nth_drop add_ac)
  then show "sum_list (map ino_refs inos) = ino_refs (inos ! i) + ?rest"
    by (metis list_update_id)
qed

lemma put_inode_counted:
  assumes i: "i < length (inodes s)"
    and r: "r = Val (ino', h')" "counted (all_refs s - ino_refs (inodes s ! i) + ino_refs ino') h'"
    and kept: "entries_kept (acls s) h'"
  shows "\<exists>s'. put_inode i r s = Val s' \<and> counted (all_refs s') (acls s') \<and>
    entries_kept (acls s) (acls s')"
proof -
  obtain rest where rest: "sum_list (map ino_refs (inodes s)) = ino_refs (inodes s ! i) + rest"
      "\<forall>ino. sum_list (map ino_refs ((inodes s)[i := ino])) = ino_refs ino + rest"
    by (rule inode_refs_split [OF i])
  have "all_refs (s\<lparr>inodes := (inodes s)[i := ino'], acls := h'\<rparr>) =
      all_refs s - ino_refs (inodes s ! i) + ino_refs ino'"
    using rest by (simp add: all_refs_def multiset_eq_iff)
  with r kept show ?thesis by (simp add: put_inode_def)
qed

lemma ino_refs_sub: "i < length (inodes s) \<Longrightarrow> ino_refs (inodes s ! i) \<subseteq># all_refs s"
  by (rule inode_refs_split [of i "inodes s"]) (auto simp: all_refs_def)

lemma held_diff:
  assumes "M \<subseteq># held s"
  shows "all_refs s - M + N = held s - M + N + sum_list (map ino_refs (inodes s))"
proof (rule multiset_eqI)
  fix a
  show "count (all_refs s - M + N) a = count (held s - M + N + sum_list (map ino_refs (inodes s))) a"
    using mset_subset_eq_count [OF assms, of a] by (simp add: all_refs_def)
qed

lemma held_sub: "M \<subseteq># held s \<Longrightarrow> M \<subseteq># all_refs s"
  by (simp add: all_refs_def subset_mset.add_increasing2)

lemma acl_exec_counted:
  assumes R: "counted (all_refs s) (acls s)" and k: "fresh_kmalloc k" and ok: "acl_op_ok op s"
    and sz: "size (all_refs s) + 1 < 2 ^ 32"
  shows "\<exists>s'. acl_exec k op s = Val s' \<and> counted (all_refs s') (acls s') \<and>
    entries_kept (acls s) (acls s')"
proof (cases op)
  case (Op_get i ty)
  with ok have i: "i < length (inodes s)" "acl_type_ok ty" by simp_all
  from get_cached_counted [OF R ino_refs_sub [OF i(1)] i(2) sz] obtain acl h' where
    "get_cached_acl (inodes s ! i) ty (acls s) = Val (acl, h')" "counted (all_refs s + refs_of acl) h'"
    "entries_kept (acls s) h'" by blast
  then show ?thesis using Op_get by (simp add: all_refs_def add_ac)
next
  case (Op_release a)
  then have a: "{#a#} \<subseteq># held s" using ok by simp
  obtain h' where "posix_acl_release (ACL_AT a) (acls s) = Val h'" "counted (all_refs s - {#a#}) h'"
      "entries_kept (acls s) h'"
    by (rule release_counted [OF R, of "ACL_AT a"]) (use held_sub [OF a] in simp_all)
  then show ?thesis using Op_release held_diff [OF a, of "{#}"] by (simp add: all_refs_def)
next
  case (Op_set i ty acl)
  with ok have i: "i < length (inodes s)" "acl_type_ok ty" "acl \<noteq> ACL_NOT_CACHED" "refs_of acl \<subseteq># held s"
    by simp_all
  from set_cached_counted [OF R ino_refs_sub [OF i(1)] i(2,3) held_sub [OF i(4)] sz]
  show ?thesis using Op_set put_inode_counted [OF i(1)] by (metis acl_exec.simps(3))
next
  case (Op_forget i ty)
  with ok have i: "i < length (inodes s)" "acl_type_ok ty" by simp_all
  from forget_cached_counted [OF R ino_refs_sub [OF i(1)] i(2)]
  show ?thesis using Op_forget put_inode_counted [OF i(1)] by (metis acl_exec.simps(4))
next
  case (Op_forget_all i)
  with ok have i: "i < length (inodes s)" by simp
  from forget_all_counted [OF R ino_refs_sub [OF i]] obtain ino' h' where
    f: "forget_all_cached_acls (inodes s ! i) (acls s) = Val (ino', h')" "ino_refs ino' = {#}"
    "counted (all_refs s - ino_refs (inodes s ! i)) h'" "entries_kept (acls s) h'" by blast
  with put_inode_counted [OF i f(1)] Op_forget_all show ?thesis by simp
next
  case (Op_no_acl i)
  with ok have i: "i < length (inodes s)" "ino_refs (inodes s ! i) = {#}" by simp_all
  with put_inode_counted [OF i(1), of _ "cache_no_acl (inodes s ! i)" "acls s"] R Op_no_acl show ?thesis
    by (simp add: cache_no_acl_def ino_refs_def entries_kept_def)
next
  case (Op_from_mode mode)
  from from_mode_counted [OF R k sz, of mode] obtain ret h' where
    "posix_acl_from_mode k mode (acls s) = Val (ret, h')"
    "counted (all_refs s + (case ret of Val r \<Rightarrow> refs_of r | _ \<Rightarrow> {#})) h'" "entries_kept (acls s) h'"
    by blast
  then show ?thesis using Op_from_mode by (simp add: all_refs_def add_ac)
next
  case (Op_create a mode)
  then have a: "{#a#} \<subseteq># held s" using ok by simp
  then have "a \<in># all_refs s" using held_sub [OF a] by simp
  from create_counted [OF R k this sz, of mode] obtain err acl' mode' h' where
    "posix_acl_create k (ACL_AT a) mode (acls s) = Val (err, acl', mode', h')"
    "counted (all_refs s - {#a#} + refs_of acl') h'" "entries_kept (acls s) h'" by metis
  then show ?thesis using Op_create held_diff [OF a, of "refs_of acl'"] by (simp add: all_refs_def add_ac)
next
  case (Op_chmod a mode)
  then have a: "{#a#} \<subseteq># held s" using ok by simp
  then have "a \<in># all_refs s" using held_sub [OF a] by simp
  from chmod_counted [OF R k this sz, of mode] obtain err acl' h' where
    "posix_acl_chmod k (ACL_AT a) mode (acls s) = Val (err, acl', h')"
    "counted (all_refs s - {#a#} + refs_of acl') h'" "entries_kept (acls s) h'" by metis
  then show ?thesis using Op_chmod held_diff [OF a, of "refs_of acl'"] by (simp add: all_refs_def add_ac)
qed

lemma acl_reachable_counted:
  "acl_reachable k s \<Longrightarrow> fresh_kmalloc k \<Longrightarrow> counted (all_refs s) (acls s)"
proof (induction rule: acl_reachable.induct)
  case (acl_start inos)
  then have "sum_list (map ino_refs inos) = {#}"
    by (induction inos) (auto simp: ino_refs_def)
  then show ?case by (simp add: counted_def all_refs_def)
next
  case (acl_next s op s')
  then show ?case using acl_exec_counted [of s k op] by auto
qed

subsection \<open>Giving everything back\<close>

fun acl_run :: "kmem \<Rightarrow> acl_op list \<Rightarrow> acl_state \<Rightarrow> acl_state outcome" where
  "acl_run k [] s = Val s"
| "acl_run k (op # ops) s = bind_outcome (acl_exec k op s) (acl_run k ops)"

definition drain_ops :: "acl_state \<Rightarrow> acl_op list" where
  "drain_ops s = map Op_release (sorted_list_of_multiset (held s)) @ map Op_forget_all [0..<length (inodes s)]"

lemma acl_run_append: "acl_run k (xs @ ys) s = bind_outcome (acl_run k xs s) (acl_run k ys)"
proof (induction xs arbitrary: s)
  case (Cons op xs)
  then show ?case by (cases "acl_exec k op s") simp_all
qed simp

lemma release_held:
  "counted (all_refs s) (acls s) \<Longrightarrow> held s = mset xs \<Longrightarrow>
   \<exists>s'. acl_run k (map Op_release xs) s = Val s' \<and> counted (all_refs s') (acls s') \<and>
     held s' = {#} \<and> inodes s' = inodes s"
proof (induction xs arbitrary: s)
  case (Cons a xs)
  then have a: "{#a#} \<subseteq># held s" by simp
  obtain h' where h': "posix_acl_release (ACL_AT a) (acls s) = Val h'" "counted (all_refs s - {#a#}) h'"
    by (rule release_counted [OF Cons.prems(1), of "ACL_AT a"]) (use held_sub [OF a] in simp_all)
  let ?s = "s\<lparr>acls := h', held := held s - {#a#}\<rparr>"
  have "counted (all_refs ?s) (acls ?s)"
    using h'(2) held_diff [OF a, of "{#}"] by (simp add: all_refs_def)
  moreover have "held ?s = mset xs" using Cons.prems(2) by simp
  ultimately obtain s' where "acl_run k (map Op_release xs) ?s = Val s'" "counted (all_refs s') (acls s')"
    "held s' = {#}" "inodes s' = inodes ?s"
    using Cons.IH [of ?s] by blast
  with h'(1) show ?case by simp
qed simp

lemma forget_inodes:
  "counted (all_refs s) (acls s) \<Longrightarrow> held s = {#} \<Longrightarrow> m \<le> length (inodes s) \<Longrightarrow>
   \<exists>s'. acl_run k (map Op_forget_all [0..<m]) s = Val s' \<and> counted (all_refs s') (acls s') \<and>
     held s' = {#} \<and> length (inodes s') = length (inodes s) \<and> (\<forall>i<m. ino_refs (inodes s' ! i) = {#})"
proof (induction m)
  case (Suc m)
  then obtain s1 where s1: "acl_run k (map Op_forget_all [0..<m]) s = Val s1"
    "counted (all_refs s1) (acls s1)" "held s1 = {#}" "length (inodes s1) = length (inodes s)"
    "\<forall>i<m. ino_refs (inodes s1 ! i) = {#}" by auto
  have m: "m < length (inodes s1)" using Suc.prems(3) s1(4) by simp
  obtain ino' h' where f: "forget_all_cached_acls (inodes s1 ! m) (acls s1) = Val (ino', h')"
      "ino_refs ino' = {#}" "counted (all_refs s1 - ino_refs (inodes s1 ! m)) h'"
      "entries_kept (acls s1) h'"
    by (rule forget_all_counted [OF s1(2) ino_refs_sub [OF m]])
  let ?s = "s1\<lparr>inodes := (inodes s1)[m := ino'], acls := h'\<rparr>"
  from put_inode_counted [OF m f(1)] f have "counted (all_refs ?s) (acls ?s)" by (simp add: put_inode_def)
  moreover have "\<forall>i<Suc m. ino_refs (inodes ?s ! i) = {#}"
    using s1(5) f(2) m by (simp add: nth_list_update less_Suc_eq)
  moreover have "acl_run k (map Op_forget_all [0..<Suc m]) s = Val ?s"
    using s1(1) f(1) by (simp add: acl_run_append put_inode_def)
  ultimately show ?case using s1(3,4) by (intro exI [of _ ?s]) simp
qed simp

lemma counted_empty: "counted {#} h \<Longrightarrow> h = Map.empty"
proof
  fix a assume "counted {#} h"
  from countedD [OF this, of a] show "h a = None" by (simp split: option.splits)
qed

lemma drain_empties:
  assumes "counted (all_refs s) (acls s)"
  shows "\<exists>s'. acl_run k (drain_ops s) s = Val s' \<and> acls s' = Map.empty"
proof -
  obtain s1 where s1: "acl_run k (map Op_release (sorted_list_of_multiset (held s))) s = Val s1"
    "counted (all_refs s1) (acls s1)" "held s1 = {#}" "inodes s1 = inodes s"
    using release_held [OF assms, of "sorted_list_of_multiset (held s)" k] by auto
  obtain s2 where s2: "acl_run k (map Op_forget_all [0..<length (inodes s)]) s1 = Val s2"
    "counted (all_refs s2) (acls s2)" "held s2 = {#}" "length (inodes s2) = length (inodes s1)"
    "\<forall>i<length (inodes s). ino_refs (inodes s2 ! i) = {#}"
    using forget_inodes [OF s1(2,3), of "length (inodes s)" k] s1(4) by auto
  have "\<forall>ino\<in>set (inodes s2). ino_refs ino = {#}"
    using s2(4,5) s1(4) by (auto simp: in_set_conv_nth)
  then have "sum_list (map ino_refs (inodes s2)) = {#}"
    by (simp add: sum_list_0 cong: map_cong)
  then have "acls s2 = Map.empty"
    using counted_empty s2(2,3) by (simp add: all_refs_def)
  with s1(1) s2(1) show ?thesis by (simp add: drain_ops_def acl_run_append)
qed

end
