(* ===== verification/Permission.thy ===== *)
theory Permission
  imports Acl_Cache
begin

text \<open>
  Permission checks of \<open>fs/namei.c\<close>: \<open>check_acl\<close>, \<open>acl_permission_check\<close>, \<open>generic_permission\<close> and
  \<open>inode_permission\<close>, with the ACL cache of theory \<open>Acl_Cache\<close> and the decision of theory \<open>Posix_Acl\<close>.

  What a filesystem and the rest of the kernel supply is the record \<open>perm_env\<close>: the inode
  operations \<open>get_acl\<close> and \<open>permission\<close> (absent for a null pointer), the capabilities of the current
  task, the device control group and the security module.  A result carries the return value
  (\<open>Val ()\<close> for 0) and the inode and the heap afterwards; the outer \<open>Trap\<close> is a bad memory access.
\<close>

datatype capability = CAP_DAC_OVERRIDE | CAP_DAC_READ_SEARCH

type_synonym perm_result = "(unit outcome \<times> inode \<times> acl_heap) outcome"

record perm_env =
  op_get_acl :: "(inode \<Rightarrow> u32 \<Rightarrow> acl_heap \<Rightarrow> acl_ref outcome \<times> inode \<times> acl_heap) option"
  op_permission :: "(inode \<Rightarrow> u32 \<Rightarrow> acl_heap \<Rightarrow> perm_result) option"
  inode_capable :: "inode \<Rightarrow> capability \<Rightarrow> bool"
  devcgroup_inode_permission :: "inode \<Rightarrow> u32 \<Rightarrow> unit outcome"
  security_inode_permission :: "inode \<Rightarrow> u32 \<Rightarrow> unit outcome"

definition S_IFMT :: u16 where "S_IFMT = 0xF000"
definition S_IFLNK :: u16 where "S_IFLNK = 0xA000"
definition S_IFREG :: u16 where "S_IFREG = 0x8000"
definition S_IFDIR :: u16 where "S_IFDIR = 0x4000"
definition S_IXUGO :: u16 where "S_IXUGO = 0x49"

definition S_ISLNK :: "u16 \<Rightarrow> bool" where "S_ISLNK m \<longleftrightarrow> m AND S_IFMT = S_IFLNK"
definition S_ISREG :: "u16 \<Rightarrow> bool" where "S_ISREG m \<longleftrightarrow> m AND S_IFMT = S_IFREG"
definition S_ISDIR :: "u16 \<Rightarrow> bool" where "S_ISDIR m \<longleftrightarrow> m AND S_IFMT = S_IFDIR"

subsection \<open>Checks\<close>

definition check_acl_ref :: "cred \<Rightarrow> inode \<Rightarrow> acl_ref \<Rightarrow> u32 \<Rightarrow> acl_heap \<Rightarrow> perm_result" where
  "check_acl_ref c inode acl msk h =
    (if acl \<noteq> ACL_NULL then
       bind_outcome (entries_at acl h) (\<lambda>es.
       bind_outcome (posix_acl_release acl h) (\<lambda>h'.
         Val (posix_acl_permission c (i_uid inode) (i_gid inode) es msk, inode, h')))
     else Val (Err EAGAIN, inode, h))"

definition check_acl :: "cred \<Rightarrow> perm_env \<Rightarrow> inode \<Rightarrow> u32 \<Rightarrow> acl_heap \<Rightarrow> perm_result" where
  "check_acl c env inode msk h =
    (if msk AND MAY_NOT_BLOCK \<noteq> 0 then
       bind_outcome (get_cached_acl_rcu inode ACL_TYPE_ACCESS) (\<lambda>acl.
         if acl = ACL_NULL then Val (Err EAGAIN, inode, h)
         else if acl = ACL_NOT_CACHED then Val (Err ECHILD, inode, h)
         else bind_outcome (entries_at acl h) (\<lambda>es.
           Val (posix_acl_permission c (i_uid inode) (i_gid inode) es (msk AND NOT MAY_NOT_BLOCK),
                inode, h)))
     else
       bind_outcome (get_cached_acl inode ACL_TYPE_ACCESS h) (\<lambda>(acl, h1).
         if acl = ACL_NOT_CACHED then
           (case op_get_acl env of
              Some get_acl \<Rightarrow>
                (case get_acl inode ACL_TYPE_ACCESS h1 of
                   (Val acl', inode', h') \<Rightarrow> check_acl_ref c inode' acl' msk h'
                 | (Err e, inode', h') \<Rightarrow> Val (Err e, inode', h')
                 | (Trap, _, _) \<Rightarrow> Trap)
            | None \<Rightarrow>
                bind_outcome (set_cached_acl inode ACL_TYPE_ACCESS ACL_NULL h1)
                  (\<lambda>(inode', h'). Val (Err EAGAIN, inode', h')))
         else check_acl_ref c inode acl msk h1))"

definition mode_check :: "u32 \<Rightarrow> u32 \<Rightarrow> unit outcome" where
  "mode_check mode msk =
    (if msk AND NOT mode AND (MAY_READ OR MAY_WRITE OR MAY_EXEC) = 0 then Val () else Err EACCES)"

definition acl_permission_check :: "cred \<Rightarrow> perm_env \<Rightarrow> inode \<Rightarrow> u32 \<Rightarrow> acl_heap \<Rightarrow> perm_result" where
  "acl_permission_check c env inode msk h =
    (let mode = ucast (i_mode inode) :: u32 in
     if fsuid c = i_uid inode then Val (mode_check (drop_bit 6 mode) msk, inode, h)
     else bind_outcome
       (if i_posixacl inode \<and> i_mode inode AND S_IRWXG \<noteq> 0 then check_acl c env inode msk h
        else Val (Err EAGAIN, inode, h))
       (\<lambda>(error, inode', h').
         if error \<noteq> Err EAGAIN then Val (error, inode', h')
         else Val (mode_check (if in_group_p c (i_gid inode') then drop_bit 3 mode else mode) msk,
                   inode', h')))"

definition generic_permission :: "cred \<Rightarrow> perm_env \<Rightarrow> inode \<Rightarrow> u32 \<Rightarrow> acl_heap \<Rightarrow> perm_result" where
  "generic_permission c env inode msk h =
    bind_outcome (acl_permission_check c env inode msk h) (\<lambda>(ret, inode', h').
      if ret \<noteq> Err EACCES then Val (ret, inode', h')
      else if S_ISDIR (i_mode inode') then
        (if inode_capable env inode' CAP_DAC_OVERRIDE then Val (Val (), inode', h')
         else if msk AND MAY_WRITE = 0 \<and> inode_capable env inode' CAP_DAC_READ_SEARCH
         then Val (Val (), inode', h')
         else Val (Err EACCES, inode', h'))
      else if (msk AND MAY_EXEC = 0 \<or> i_mode inode' AND S_IXUGO \<noteq> 0) \<and>
        inode_capable env inode' CAP_DAC_OVERRIDE then Val (Val (), inode', h')
      else if msk AND (MAY_READ OR MAY_WRITE OR MAY_EXEC) = MAY_READ \<and>
        inode_capable env inode' CAP_DAC_READ_SEARCH then Val (Val (), inode', h')
      else Val (Err EACCES, inode', h'))"

definition do_inode_permission :: "cred \<Rightarrow> perm_env \<Rightarrow> inode \<Rightarrow> u32 \<Rightarrow> acl_heap \<Rightarrow> perm_result" where
  "do_inode_permission c env inode msk h =
    (if \<not> i_fastperm inode then
       (case op_permission env of
          Some permission \<Rightarrow> permission inode msk h
        | None \<Rightarrow> generic_permission c env (inode\<lparr>i_fastperm := True\<rparr>) msk h)
     else generic_permission c env inode msk h)"

definition inode_permission :: "cred \<Rightarrow> perm_env \<Rightarrow> inode \<Rightarrow> u32 \<Rightarrow> acl_heap \<Rightarrow> perm_result" where
  "inode_permission c env inode msk h =
    (if msk AND MAY_WRITE \<noteq> 0 \<and> i_rdonly inode \<and>
        (S_ISREG (i_mode inode) \<or> S_ISDIR (i_mode inode) \<or> S_ISLNK (i_mode inode))
     then Val (Err EROFS, inode, h)
     else if msk AND MAY_WRITE \<noteq> 0 \<and> i_immutable inode then Val (Err EACCES, inode, h)
     else bind_outcome (do_inode_permission c env inode msk h) (\<lambda>(retval, inode', h').
       if retval \<noteq> Val () then Val (retval, inode', h')
       else if devcgroup_inode_permission env inode' msk \<noteq> Val ()
       then Val (devcgroup_inode_permission env inode' msk, inode', h')
       else Val (security_inode_permission env inode' msk, inode', h')))"

subsection \<open>The cached ACL and the mode\<close>

text \<open>
  An inode whose access ACL is cached at address \<open>a\<close>, with permission bits in step with the ACL,
  as \<open>posix_acl_equiv_mode\<close> leaves them.
\<close>

definition acl_in_step :: "inode \<Rightarrow> acl_heap \<Rightarrow> nat \<Rightarrow> posix_acl_entry list \<Rightarrow> bool" where
  "acl_in_step inode h a es \<longleftrightarrow> i_acl inode = ACL_AT a \<and>
    (case h a of None \<Rightarrow> False | Some x \<Rightarrow> a_refcount x \<noteq> 0 \<and> a_entries x = es) \<and>
    posix_acl_valid es = Val () \<and>
    (case posix_acl_equiv_mode es (Some (i_mode inode)) of
       Val (_, m) \<Rightarrow> m = Some (i_mode inode) | _ \<Rightarrow> False)"

definition rwx :: u32 where "rwx = (MAY_READ OR MAY_WRITE OR MAY_EXEC)"

lemma rwx_mask: "rwx = mask 3"
  by (simp add: rwx_def MAY_READ_def MAY_WRITE_def MAY_EXEC_def mask_eq_exp_minus_1)

lemma bit_rwx: "bit rwx n \<longleftrightarrow> n < 3"
  by (auto simp: rwx_mask bit_mask_iff)

lemma bit_MAY_NOT_BLOCK: "bit MAY_NOT_BLOCK n \<longleftrightarrow> n = 7"
proof -
  have "MAY_NOT_BLOCK = push_bit 7 1" by (simp add: MAY_NOT_BLOCK_def)
  moreover have "bit (push_bit 7 (1 :: u32)) n \<longleftrightarrow> n = 7"
    unfolding bit_push_bit_iff by (auto simp: bit_1_iff)
  ultimately show ?thesis by (simp only:)
qed

lemma want_rcu:
  "(msk AND NOT MAY_NOT_BLOCK) AND (MAY_READ OR MAY_WRITE OR MAY_EXEC OR MAY_NOT_BLOCK) = msk AND rwx"
proof -
  have "MAY_READ OR MAY_WRITE OR MAY_EXEC OR MAY_NOT_BLOCK = rwx OR MAY_NOT_BLOCK"
    by (simp add: rwx_def or.assoc)
  then show ?thesis by (auto intro!: bit_word_eqI simp: bit_simps bit_rwx bit_MAY_NOT_BLOCK)
qed

lemma mask_not_block: "msk AND MAY_NOT_BLOCK = 0 \<Longrightarrow> msk AND NOT MAY_NOT_BLOCK = msk"
  by (auto simp: bit_eq_iff bit_simps bit_MAY_NOT_BLOCK)

lemma mode_check_grants:
  "mode_check (drop_bit k (ucast mode)) msk = decide (grants (drop_bit k mode AND S_IRWXO) (msk AND rwx))"
proof -
  have "k + n < 32" if "bit mode (k + n)" for n
    using bit_imp_le_length [OF that] by simp
  then have "msk AND NOT (drop_bit k (ucast mode)) AND rwx = 0 \<longleftrightarrow>
      grants (drop_bit k mode AND S_IRWXO) (msk AND rwx)"
    by (auto simp: grants_def bit_eq_iff bit_simps bit_rwx bit_modes)
  then show ?thesis by (simp add: mode_check_def decide_def rwx_def)
qed

lemma acl_in_step_parts:
  assumes "acl_in_step inode h a es"
  obtains x uo us go gs ms ot where "i_acl inode = ACL_AT a" "h a = Some x" "a_refcount x \<noteq> 0"
    "a_entries x = es" "es = uo # us @ go # gs @ ms @ [ot]" "acl_parts uo us go gs ms ot"
    "i_mode inode AND S_IRWXUGO = perm_bits (e_perm uo) (class_perm go ms) (e_perm ot)"
proof -
  from assms have "well_formed_acl es"
    by (auto simp: acl_in_step_def posix_acl_valid_parts split: if_splits)
  then obtain uo us go gs ms ot where es: "es = uo # us @ go # gs @ ms @ [ot]"
    and parts: "acl_parts uo us go gs ms ot" unfolding well_formed_acl_def by blast
  have "i_mode inode = (i_mode inode AND NOT S_IRWXUGO) OR perm_bits (e_perm uo) (class_perm go ms) (e_perm ot)"
    using assms acl_shape.equiv_mode_acl [OF acl_shape.intro [OF parts]]
    by (simp add: acl_in_step_def es posix_acl_equiv_mode_def split: option.splits)
  then have "i_mode inode AND S_IRWXUGO =
      ((i_mode inode AND NOT S_IRWXUGO) OR perm_bits (e_perm uo) (class_perm go ms) (e_perm ot)) AND S_IRWXUGO"
    by simp
  also have "\<dots> = perm_bits (e_perm uo) (class_perm go ms) (e_perm ot)"
    by (rule bit_word_eqI) (auto simp: bit_simps bit_modes bit_perm_bits)
  finally show ?thesis
    using that [OF _ _ _ _ es parts] assms by (auto simp: acl_in_step_def split: option.splits)
qed

lemma owner_bits:
  assumes "mode AND S_IRWXUGO = perm_bits u g o'"
  shows "drop_bit 6 mode AND S_IRWXO = u AND S_IRWXO"
proof (rule bit_word_eqI)
  fix n :: nat
  have "bit (mode AND S_IRWXUGO) (n + 6) = bit (perm_bits u g o') (n + 6)" by (simp only: assms)
  then show "bit (drop_bit 6 mode AND S_IRWXO) n \<longleftrightarrow> bit (u AND S_IRWXO) n"
    by (auto simp: bit_simps bit_modes bit_perm_bits add.commute)
qed

lemma perm_ok_and: "perm_ok e \<Longrightarrow> e_perm e AND S_IRWXO = e_perm e"
  by (rule bit_word_eqI) (auto simp: perm_ok_bits bit_simps bit_modes)

lemma dup_release: "h a = Some x \<Longrightarrow> a_refcount x \<noteq> 0 \<Longrightarrow>
  posix_acl_release (ACL_AT a) (h(a \<mapsto> x\<lparr>a_refcount := a_refcount x + 1\<rparr>)) = Val h"
  by (auto simp: posix_acl_release_def)

text \<open>With the ACL in the cache, both modes of the check give the verdict of the ACL and keep the heap.\<close>

lemma check_acl_cached:
  assumes "i_acl inode = ACL_AT a" "h a = Some x" "a_refcount x \<noteq> 0"
  shows "check_acl c env inode msk h =
    Val (acl_perm_scan c (i_uid inode) (i_gid inode) (msk AND rwx) False (a_entries x), inode, h)"
proof (cases "msk AND MAY_NOT_BLOCK = 0")
  case True
  have "msk AND (MAY_READ OR MAY_WRITE OR MAY_EXEC OR MAY_NOT_BLOCK) = msk AND rwx"
    using want_rcu [of msk] mask_not_block [OF True] by simp
  then show ?thesis
    using True assms dup_release [of h a x]
    by (simp add: check_acl_def get_cached_acl_def acl_by_type_def posix_acl_dup_def check_acl_ref_def
        entries_at_def posix_acl_permission_def)
next
  case False
  then show ?thesis
    using assms want_rcu [of msk]
    by (simp add: check_acl_def get_cached_acl_rcu_def acl_by_type_def entries_at_def
        posix_acl_permission_def)
qed

lemma acl_check_in_step:
  assumes step: "acl_in_step inode h a es"
    and acl: "i_posixacl inode" "i_mode inode AND S_IRWXG \<noteq> 0"
  shows "acl_permission_check c env inode msk h =
    Val (decide (posix_access c (i_uid inode) (i_gid inode) es (msk AND rwx)), inode, h)"
proof -
  from acl_in_step_parts [OF step] obtain x uo us go gs ms ot where
    x: "i_acl inode = ACL_AT a" "h a = Some x" "a_refcount x \<noteq> 0" "a_entries x = es"
    and es: "es = uo # us @ go # gs @ ms @ [ot]" and parts: "acl_parts uo us go gs ms ot"
    and bits: "i_mode inode AND S_IRWXUGO = perm_bits (e_perm uo) (class_perm go ms) (e_perm ot)"
    by blast
  note shape = acl_shape.intro [OF parts]
  show ?thesis
  proof (cases "fsuid c = i_uid inode")
    case True
    have "mode_check (drop_bit 6 (ucast (i_mode inode))) msk = decide (grants (e_perm uo) (msk AND rwx))"
      unfolding mode_check_grants owner_bits [OF bits]
      using perm_ok_and [of uo] acl_shape.perms_ok [OF shape] by simp
    then show ?thesis
      using True acl_shape.with_tag_parts [OF shape] acl_shape.tags [OF shape]
      by (simp add: acl_permission_check_def posix_access_def es)
  next
    case False
    then show ?thesis
      using acl check_acl_cached [of inode a h x] x(1-3) acl_shape.perm_scan_acl [OF shape] x(4)
      by (auto simp: acl_permission_check_def es decide_def)
  qed
qed

subsection \<open>What a granted access means\<close>

lemma inode_permission_granted:
  assumes "inode_permission c env inode msk h = Val (Val (), inode', h')"
  shows "devcgroup_inode_permission env inode' msk = Val ()" "security_inode_permission env inode' msk = Val ()"
    "do_inode_permission c env inode msk h = Val (Val (), inode', h')"
    "msk AND MAY_WRITE \<noteq> 0 \<Longrightarrow> \<not> i_immutable inode \<and>
      (i_rdonly inode \<longrightarrow> \<not> (S_ISREG (i_mode inode) \<or> S_ISDIR (i_mode inode) \<or> S_ISLNK (i_mode inode)))"
  using assms by (auto simp: inode_permission_def split: if_splits)

end
