(* ===== verification/Acl_Xattr.thy ===== *)
theory Acl_Xattr
  imports Acl_Cache
begin

text \<open>
  The extended-attribute form of an ACL: \<open>fs/xattr_acl.c\<close> and \<open>include/linux/posix_acl_xattr.h\<close>.

  A buffer is its list of bytes (\<open>None\<close> for a null pointer); reads and writes outside of it are a
  \<open>Trap\<close>.  The header is a little-endian 32-bit version, each entry a 16-bit tag, a 16-bit
  permission set and a 32-bit id.  \<open>int\<close> results of the size computations are kept at 32 bits.

  The lemmas show that parsing stays inside the buffer, and that parsing what
  \<open>posix_acl_to_xattr\<close> wrote gives the ACL back.
\<close>

definition POSIX_ACL_XATTR_VERSION :: u32 where "POSIX_ACL_XATTR_VERSION = 0x0002"

definition posix_acl_xattr_size :: "u32 \<Rightarrow> u64" where
  "posix_acl_xattr_size n = 4 + scast n * 8"

definition posix_acl_xattr_count :: "u64 \<Rightarrow> u32" where
  "posix_acl_xattr_count sz =
    (if sz < 4 then - 1
     else if (sz - 4) mod 8 \<noteq> 0 then - 1
     else ucast ((sz - 4) div 8))"

definition rd16 :: "u8 list \<Rightarrow> nat \<Rightarrow> u16 outcome" where
  "rd16 buf off = bind_outcome (rd buf off 2) (\<lambda>bs. Val (of_nat (le_val bs)))"

definition rd32 :: "u8 list \<Rightarrow> nat \<Rightarrow> u32 outcome" where
  "rd32 buf off = bind_outcome (rd buf off 4) (\<lambda>bs. Val (of_nat (le_val bs)))"

text \<open>The loop over \<open>n\<close> entries from offset \<open>off\<close>; an unknown tag is \<open>Err EINVAL\<close> (\<open>goto fail\<close>).\<close>

fun from_xattr_loop :: "u8 list \<Rightarrow> nat \<Rightarrow> nat \<Rightarrow> posix_acl_entry list outcome" where
  "from_xattr_loop buf off 0 = Val []"
| "from_xattr_loop buf off (Suc n) =
    bind_outcome (rd16 buf off) (\<lambda>tag.
    bind_outcome (rd16 buf (off + 2)) (\<lambda>perm.
    bind_outcome
      (if tag = ACL_USER_OBJ \<or> tag = ACL_GROUP_OBJ \<or> tag = ACL_MASK \<or> tag = ACL_OTHER
       then Val ACL_UNDEFINED_ID
       else if tag = ACL_USER \<or> tag = ACL_GROUP then rd32 buf (off + 4)
       else Err EINVAL)
      (\<lambda>i. bind_outcome (from_xattr_loop buf (off + 8) n)
        (\<lambda>es. Val (\<lparr>e_tag = tag, e_perm = perm, e_id = i\<rparr> # es)))))"

text \<open>The result is a pointer (\<open>ACL_NULL\<close> for no ACL) or an error.\<close>

definition posix_acl_from_xattr ::
    "kmem \<Rightarrow> u8 list option \<Rightarrow> u64 \<Rightarrow> acl_heap \<Rightarrow> (acl_ref outcome \<times> acl_heap) outcome" where
  "posix_acl_from_xattr k buf sz h =
    (case buf of
       None \<Rightarrow> Val (Val ACL_NULL, h)
     | Some bs \<Rightarrow>
        if sz < 4 then Val (Err EINVAL, h)
        else bind_outcome (rd32 bs 0) (\<lambda>version.
          if version \<noteq> POSIX_ACL_XATTR_VERSION then Val (Err EOPNOTSUPP, h)
          else let count = posix_acl_xattr_count sz in
            if sint count < 0 then Val (Err EINVAL, h)
            else if count = 0 then Val (Val ACL_NULL, h)
            else (case posix_acl_alloc k (unat count) h of
              (acl, h1) \<Rightarrow>
                if acl = ACL_NULL then Val (Err ENOMEM, h1)
                else (case from_xattr_loop bs 4 (unat count) of
                  Val es \<Rightarrow> bind_outcome (put_entries acl es h1) (\<lambda>h2. Val (Val acl, h2))
                | Err e \<Rightarrow> bind_outcome (posix_acl_release acl h1) (\<lambda>h2. Val (Err e, h2))
                | Trap \<Rightarrow> Trap))))"

fun to_xattr_loop :: "u8 list \<Rightarrow> nat \<Rightarrow> posix_acl_entry list \<Rightarrow> u8 list outcome" where
  "to_xattr_loop buf off [] = Val buf"
| "to_xattr_loop buf off (e # es) =
    bind_outcome (wr_bytes buf off (le_bytes 2 (unat (e_tag e)))) (\<lambda>buf.
    bind_outcome (wr_bytes buf (off + 2) (le_bytes 2 (unat (e_perm e)))) (\<lambda>buf.
    bind_outcome (wr_bytes buf (off + 4) (le_bytes 4 (unat (e_id e)))) (\<lambda>buf.
      to_xattr_loop buf (off + 8) es)))"

text \<open>
  The result is the return value and the buffer; \<open>real_size > size\<close> compares the \<open>int\<close> after its
  conversion to \<open>size_t\<close>.
\<close>

definition posix_acl_to_xattr ::
    "posix_acl_entry list \<Rightarrow> u8 list option \<Rightarrow> u64 \<Rightarrow> (u32 outcome \<times> u8 list option) outcome" where
  "posix_acl_to_xattr acl buf sz =
    (let real_size = ucast (posix_acl_xattr_size (of_nat (length acl))) :: u32 in
     case buf of
       None \<Rightarrow> Val (Val real_size, None)
     | Some bs \<Rightarrow>
        if (scast real_size :: u64) > sz then Val (Err ERANGE, buf)
        else bind_outcome (wr_bytes bs 0 (le_bytes 4 (unat POSIX_ACL_XATTR_VERSION))) (\<lambda>bs.
             bind_outcome (to_xattr_loop bs 4 acl) (\<lambda>bs. Val (Val real_size, Some bs))))"

subsection \<open>Round trip\<close>

definition entry_bytes :: "posix_acl_entry \<Rightarrow> u8 list" where
  "entry_bytes e = le_bytes 2 (unat (e_tag e)) @ le_bytes 2 (unat (e_perm e)) @ le_bytes 4 (unat (e_id e))"

definition xattr_bytes :: "posix_acl_entry list \<Rightarrow> u8 list" where
  "xattr_bytes es = le_bytes 4 (unat POSIX_ACL_XATTR_VERSION) @ concat (map entry_bytes es)"

text \<open>An entry as parsing leaves it: a known tag, and an id only for a named user or group.\<close>

definition parsed_entry :: "posix_acl_entry \<Rightarrow> bool" where
  "parsed_entry e \<longleftrightarrow> e_tag e \<in> {ACL_USER, ACL_GROUP} \<or>
    e_tag e \<in> {ACL_USER_OBJ, ACL_GROUP_OBJ, ACL_MASK, ACL_OTHER} \<and> e_id e = ACL_UNDEFINED_ID"

lemma length_entry_bytes [simp]: "length (entry_bytes e) = 8"
  by (simp add: entry_bytes_def)

lemma length_entries_bytes [simp]: "length (concat (map entry_bytes es)) = 8 * length es"
  by (induction es) simp_all

lemma u16_le_bytes: "(of_nat (le_val (le_bytes 2 (unat (w :: u16)))) :: u16) = w"
proof -
  have "unat w < 256 ^ 2" using unsigned_less [of w, where 'a = nat] by simp
  then show ?thesis by (simp add: le_val_le_bytes)
qed

lemma u32_le_bytes: "(of_nat (le_val (le_bytes 4 (unat (w :: u32)))) :: u32) = w"
proof -
  have "unat w < 256 ^ 4" using unsigned_less [of w, where 'a = nat] by simp
  then show ?thesis by (simp add: le_val_le_bytes)
qed

lemma rd_entry:
  assumes "length pre = n"
  shows "rd16 (pre @ entry_bytes e @ post) n = Val (e_tag e)"
    "rd16 (pre @ entry_bytes e @ post) (n + 2) = Val (e_perm e)"
    "rd32 (pre @ entry_bytes e @ post) (n + 4) = Val (e_id e)"
proof -
  let ?t = "le_bytes 2 (unat (e_tag e))" and ?p = "le_bytes 2 (unat (e_perm e))"
    and ?i = "le_bytes 4 (unat (e_id e))"
  have eq: "pre @ entry_bytes e @ post = (pre @ ?t) @ ?p @ (?i @ post)"
    "pre @ entry_bytes e @ post = (pre @ ?t @ ?p) @ ?i @ post"
    "pre @ entry_bytes e @ post = pre @ ?t @ (?p @ ?i @ post)"
    by (simp_all add: entry_bytes_def)
  have "rd (pre @ entry_bytes e @ post) n 2 = Val ?t"
    unfolding eq(3) by (rule rd_at) (use assms in simp_all)
  then show "rd16 (pre @ entry_bytes e @ post) n = Val (e_tag e)"
    by (simp add: rd16_def u16_le_bytes)
  have "rd (pre @ entry_bytes e @ post) (n + 2) 2 = Val ?p"
    unfolding eq(1) by (rule rd_at) (use assms in simp_all)
  then show "rd16 (pre @ entry_bytes e @ post) (n + 2) = Val (e_perm e)"
    by (simp add: rd16_def u16_le_bytes)
  have "rd (pre @ entry_bytes e @ post) (n + 4) 4 = Val ?i"
    unfolding eq(2) by (rule rd_at) (use assms in simp_all)
  then show "rd32 (pre @ entry_bytes e @ post) (n + 4) = Val (e_id e)"
    by (simp add: rd32_def u32_le_bytes)
qed

lemma from_xattr_loop_bytes:
  "length pre = off \<Longrightarrow> \<forall>e\<in>set es. parsed_entry e \<Longrightarrow>
   from_xattr_loop (pre @ concat (map entry_bytes es)) off (length es) = Val es"
proof (induction es arbitrary: pre off)
  case (Cons e es)
  have IH: "from_xattr_loop (pre @ entry_bytes e @ concat (map entry_bytes es)) (off + 8) (length es) = Val es"
    using Cons.IH [of "pre @ entry_bytes e" "off + 8"] Cons.prems by simp
  have "parsed_entry e" using Cons.prems(2) by simp
  then show ?case
    using rd_entry [OF Cons.prems(1), of e "concat (map entry_bytes es)"] IH
    by (cases e) (auto simp: parsed_entry_def)
qed simp

lemma split_at:
  assumes "m \<le> length xs"
  obtains a b where "xs = a @ b" "length a = m"
  using assms that [of "take m xs" "drop m xs"] by simp

lemma to_xattr_loop_bytes:
  "length pre = off \<Longrightarrow> length old = 8 * length es \<Longrightarrow>
   to_xattr_loop (pre @ old @ post) off es = Val (pre @ concat (map entry_bytes es) @ post)"
proof (induction es arbitrary: pre off old)
  case (Cons e es)
  obtain o1 r1 where 1: "old = o1 @ r1" "length o1 = 2"
    by (rule split_at [of 2 old]) (use Cons.prems in simp)
  obtain o2 r2 where 2: "r1 = o2 @ r2" "length o2 = 2"
    by (rule split_at [of 2 r1]) (use Cons.prems 1 in simp)
  obtain o3 o4 where 3: "r2 = o3 @ o4" "length o3 = 4"
    by (rule split_at [of 4 r2]) (use Cons.prems 1 2 in simp)
  have old: "old = o1 @ o2 @ o3 @ o4" "length o1 = 2" "length o2 = 2" "length o3 = 4"
    "length o4 = 8 * length es"
    using 1 2 3 Cons.prems(2) by simp_all
  let ?t = "le_bytes 2 (unat (e_tag e))" and ?p = "le_bytes 2 (unat (e_perm e))"
    and ?i = "le_bytes 4 (unat (e_id e))"
  have "wr_bytes (pre @ old @ post) off ?t = Val (pre @ ?t @ (o2 @ o3 @ o4 @ post))"
    using wr_bytes_at [OF Cons.prems(1), of o1 ?t "o2 @ o3 @ o4 @ post"] old by simp
  moreover have "wr_bytes (pre @ ?t @ (o2 @ o3 @ o4 @ post)) (off + 2) ?p =
      Val ((pre @ ?t) @ ?p @ (o3 @ o4 @ post))"
    using wr_bytes_at [of "pre @ ?t" "off + 2" o2 ?p "o3 @ o4 @ post"] Cons.prems(1) old by simp
  moreover have "wr_bytes ((pre @ ?t) @ ?p @ (o3 @ o4 @ post)) (off + 4) ?i =
      Val ((pre @ entry_bytes e) @ o4 @ post)"
    using wr_bytes_at [of "pre @ ?t @ ?p" "off + 4" o3 ?i "o4 @ post"] Cons.prems(1) old
    by (simp add: entry_bytes_def)
  moreover have "to_xattr_loop ((pre @ entry_bytes e) @ o4 @ post) (off + 8) es =
      Val ((pre @ entry_bytes e) @ concat (map entry_bytes es) @ post)"
    by (rule Cons.IH) (use Cons.prems(1) old in simp_all)
  ultimately show ?case by simp
qed simp

subsection \<open>Sizes\<close>

lemma sint_of_nat_u32: "n < 2 ^ 31 \<Longrightarrow> sint (of_nat n :: u32) = int n"
  by (simp add: signed_of_nat signed_take_bit_int_eq_self)

lemma scast_of_nat_u32: "n < 2 ^ 31 \<Longrightarrow> (scast (of_nat n :: u32) :: u64) = of_nat n"
  using sint_of_nat_u32 [of n] by (simp add: signed_of_nat signed_take_bit_int_eq_self)

lemma xattr_size_of_nat: "n < 2 ^ 31 \<Longrightarrow> posix_acl_xattr_size (of_nat n) = of_nat (4 + 8 * n)"
  by (simp add: posix_acl_xattr_size_def scast_of_nat_u32 mult.commute)

lemma xattr_real_size:
  assumes "4 + 8 * n < 2 ^ 31"
  shows "(ucast (posix_acl_xattr_size (of_nat n)) :: u32) = of_nat (4 + 8 * n)"
    "(scast (ucast (posix_acl_xattr_size (of_nat n)) :: u32) :: u64) = of_nat (4 + 8 * n)"
proof -
  have "n < 2 ^ 31" using assms by simp
  then show 1: "(ucast (posix_acl_xattr_size (of_nat n)) :: u32) = of_nat (4 + 8 * n)"
    using assms by (simp add: xattr_size_of_nat unsigned_of_nat take_bit_nat_eq_self del: of_nat_add of_nat_mult)
  show "(scast (ucast (posix_acl_xattr_size (of_nat n)) :: u32) :: u64) = of_nat (4 + 8 * n)"
    unfolding 1 by (rule scast_of_nat_u32 [OF assms])
qed

lemma xattr_count_of_nat:
  assumes "4 + 8 * n < 2 ^ 31"
  shows "posix_acl_xattr_count (of_nat (4 + 8 * n)) = of_nat n"
proof -
  have sub: "(of_nat (4 + 8 * n) :: u64) - 4 = of_nat (8 * n)" by simp
  have un: "unat (of_nat (8 * n) :: u64) = 8 * n" "unat (of_nat (4 + 8 * n) :: u64) = 4 + 8 * n"
    using assms by (simp_all add: unsigned_of_nat take_bit_nat_eq_self del: of_nat_mult of_nat_add)
  have m: "unat ((of_nat (8 * n) :: u64) mod 8) = 0" and d: "unat ((of_nat (8 * n) :: u64) div 8) = n"
    using un(1) by (simp_all add: unat_mod_distrib unat_div_distrib del: of_nat_mult)
  have "(of_nat (8 * n) :: u64) div 8 = of_nat (unat ((of_nat (8 * n) :: u64) div 8))" by simp
  then have "(of_nat (8 * n) :: u64) div 8 = of_nat n" unfolding d .
  moreover have "(of_nat (8 * n) :: u64) mod 8 = 0" using m unfolding unsigned_eq_0_iff .
  moreover have "\<not> (of_nat (4 + 8 * n) :: u64) < 4"
    using un(2) by (simp add: word_less_nat_alt del: of_nat_mult of_nat_add)
  ultimately show ?thesis
    unfolding posix_acl_xattr_count_def sub using assms
    by (simp add: unsigned_of_nat take_bit_nat_eq_self)
qed

subsection \<open>Parsing what was written\<close>

lemma length_xattr_bytes [simp]: "length (xattr_bytes es) = 4 + 8 * length es"
  by (simp add: xattr_bytes_def)

lemma to_xattr_bytes:
  assumes n: "4 + 8 * length es < 2 ^ 31" "4 + 8 * length es \<le> length buf" "length buf < 2 ^ 64"
  shows "posix_acl_to_xattr es (Some buf) (of_nat (length buf)) =
    Val (Val (of_nat (4 + 8 * length es)), Some (xattr_bytes es @ drop (4 + 8 * length es) buf))"
proof -
  obtain v r where v: "buf = v @ r" "length v = 4"
    by (rule split_at [of 4 buf]) (use n(2) in simp)
  obtain old post where r: "r = old @ post" "length old = 8 * length es"
    by (rule split_at [of "8 * length es" r]) (use n(2) v in simp)
  let ?v = "le_bytes 4 (unat POSIX_ACL_XATTR_VERSION)"
  have 1: "wr_bytes buf 0 ?v = Val (?v @ old @ post)"
    using wr_bytes_at [of "[]" 0 v ?v r] v r by simp
  have 2: "to_xattr_loop (?v @ old @ post) 4 es = Val (?v @ concat (map entry_bytes es) @ post)"
    by (rule to_xattr_loop_bytes) (use r in simp_all)
  have 3: "\<not> (of_nat (4 + 8 * length es) :: u64) > of_nat (length buf)"
    using n by (simp add: word_less_nat_alt unsigned_of_nat take_bit_nat_eq_self del: of_nat_add of_nat_mult)
  have 4: "xattr_bytes es @ drop (4 + 8 * length es) buf = ?v @ concat (map entry_bytes es) @ post"
    using v r by (simp add: xattr_bytes_def)
  show ?thesis
    unfolding posix_acl_to_xattr_def Let_def xattr_real_size [OF n(1)] option.case 4
    using 1 2 3 scast_of_nat_u32 [OF n(1)] by (simp del: of_nat_add of_nat_mult)
qed

lemma from_xattr_bytes:
  assumes es: "es \<noteq> []" "\<forall>e\<in>set es. parsed_entry e" "4 + 8 * length es < 2 ^ 31"
  shows "posix_acl_from_xattr k (Some (xattr_bytes es)) (of_nat (length (xattr_bytes es))) h =
    (case kmalloc k h (24 + length es * 8) of
       None \<Rightarrow> Val (Err ENOMEM, h)
     | Some a \<Rightarrow> Val (Val (ACL_AT a), h(a \<mapsto> \<lparr>a_refcount = 1, a_entries = es\<rparr>)))"
proof -
  let ?v = "le_bytes 4 (unat POSIX_ACL_XATTR_VERSION)"
  have n: "length es < 2 ^ 31" "0 < length es" using es by simp_all
  have un: "unat (of_nat (length es) :: u32) = length es"
    using n by (simp add: unsigned_of_nat take_bit_nat_eq_self)
  have pos: "\<not> sint (of_nat (length es) :: u32) < 0" "(of_nat (length es) :: u32) \<noteq> 0"
    using sint_of_nat_u32 [OF n(1)] un n(2) by (simp, metis unsigned_0 less_irrefl)
  have ver: "rd32 (xattr_bytes es) 0 = Val POSIX_ACL_XATTR_VERSION"
    using rd_at [of "[]" 0 ?v 4 "concat (map entry_bytes es)"] by (simp add: rd32_def xattr_bytes_def u32_le_bytes)
  have loop: "from_xattr_loop (xattr_bytes es) 4 (length es) = Val es"
    unfolding xattr_bytes_def by (rule from_xattr_loop_bytes) (use es in simp_all)
  have lt: "\<not> (of_nat (4 + 8 * length es) :: u64) < 4"
    using es(3) by (simp add: word_less_nat_alt unsigned_of_nat take_bit_nat_eq_self del: of_nat_add of_nat_mult)
  show ?thesis
    unfolding posix_acl_from_xattr_def length_xattr_bytes option.case xattr_count_of_nat [OF es(3)] Let_def
    using lt ver pos un loop
    by (simp add: posix_acl_alloc_def posix_acl_init_def put_entries_def split: option.split
        del: of_nat_add of_nat_mult)
qed

subsection \<open>Parsing any buffer\<close>

lemma rd_ok: "off + n \<le> length buf \<Longrightarrow> \<exists>bs. rd buf off n = Val bs"
  by (simp add: rd_def)

lemma from_xattr_loop_safe:
  "off + 8 * n \<le> length buf \<Longrightarrow>
   from_xattr_loop buf off n = Err EINVAL \<or>
   (\<exists>es. from_xattr_loop buf off n = Val es \<and> length es = n \<and> (\<forall>e\<in>set es. parsed_entry e))"
proof (induction n arbitrary: off)
  case (Suc n)
  have "\<exists>t. rd16 buf off = Val t" "\<exists>p. rd16 buf (off + 2) = Val p" "\<exists>i. rd32 buf (off + 4) = Val i"
    using Suc.prems by (simp_all add: rd16_def rd32_def rd_def)
  then obtain t p i where "rd16 buf off = Val t" "rd16 buf (off + 2) = Val p" "rd32 buf (off + 4) = Val i"
    by blast
  then show ?case
    using Suc.IH [of "off + 8"] Suc.prems by (auto simp: parsed_entry_def)
qed simp

lemma xattr_count_fits:
  assumes "sint (posix_acl_xattr_count sz) \<ge> 0"
  shows "4 + 8 * unat (posix_acl_xattr_count sz) \<le> unat sz"
proof -
  have ge: "\<not> sz < 4" "\<not> (sz - 4) mod 8 \<noteq> 0"
    using assms by (auto simp: posix_acl_xattr_count_def split: if_splits)
  have "unat (ucast ((sz - 4) div 8) :: u32) \<le> unat ((sz - 4) div 8)"
    by (simp add: unsigned_ucast_eq take_bit_eq_mod)
  also have "\<dots> = (unat sz - 4) div 8"
    using ge(1) by (simp add: unat_div_distrib unat_sub not_less)
  finally have "unat (ucast ((sz - 4) div 8) :: u32) \<le> (unat sz - 4) div 8" .
  moreover have "4 \<le> unat sz" using ge(1) by (simp add: word_less_nat_alt)
  ultimately show ?thesis
    unfolding posix_acl_xattr_count_def using ge by (simp add: less_eq_div_iff_mult_less_eq)
qed

lemma from_xattr_safe_run:
  assumes len: "length bs = unat sz" and k: "fresh_kmalloc k"
  shows "\<exists>ret h'. posix_acl_from_xattr k (Some bs) sz h = Val (ret, h') \<and>
    (h' = h \<and> ret \<in> {Val ACL_NULL, Err EINVAL, Err EOPNOTSUPP, Err ENOMEM} \<or>
     (\<exists>a es. ret = Val (ACL_AT a) \<and> h a = None \<and> es \<noteq> [] \<and> (\<forall>e\<in>set es. parsed_entry e) \<and>
       h' = h(a \<mapsto> \<lparr>a_refcount = 1, a_entries = es\<rparr>)))"
proof (cases "sz < 4")
  case True
  then show ?thesis by (simp add: posix_acl_from_xattr_def)
next
  case False
  then have "4 \<le> length bs" using len by (simp add: word_less_nat_alt)
  then obtain v where v: "rd32 bs 0 = Val v" by (auto simp: rd32_def rd_def)
  let ?n = "posix_acl_xattr_count sz"
  consider "v \<noteq> POSIX_ACL_XATTR_VERSION" | "v = POSIX_ACL_XATTR_VERSION" "sint ?n < 0"
    | "v = POSIX_ACL_XATTR_VERSION" "\<not> sint ?n < 0" "?n = 0"
    | "v = POSIX_ACL_XATTR_VERSION" "\<not> sint ?n < 0" "?n \<noteq> 0" "kmalloc k h (24 + unat ?n * 8) = None"
    | a where "v = POSIX_ACL_XATTR_VERSION" "\<not> sint ?n < 0" "?n \<noteq> 0" "kmalloc k h (24 + unat ?n * 8) = Some a"
    by fastforce
  then show ?thesis
  proof cases
    case (5 a)
    have a: "h a = None" using k 5(4) by (auto simp: fresh_kmalloc_def)
    have "4 + 8 * unat ?n \<le> length bs" using xattr_count_fits [of sz] 5(2) len by simp
    from from_xattr_loop_safe [OF this] show ?thesis
    proof
      assume "from_xattr_loop bs 4 (unat ?n) = Err EINVAL"
      moreover have "h(a := None) = h" using a by auto
      ultimately show ?thesis
        using False v 5 by (simp add: posix_acl_from_xattr_def posix_acl_alloc_def posix_acl_init_def
            posix_acl_release_def Let_def)
    next
      assume "\<exists>es. from_xattr_loop bs 4 (unat ?n) = Val es \<and> length es = unat ?n \<and> (\<forall>e\<in>set es. parsed_entry e)"
      then obtain es where es: "from_xattr_loop bs 4 (unat ?n) = Val es" "length es = unat ?n"
        "\<forall>e\<in>set es. parsed_entry e" by blast
      have "es \<noteq> []" using es(2) 5(3) by (auto simp: unsigned_eq_0_iff)
      moreover have "posix_acl_from_xattr k (Some bs) sz h =
          Val (Val (ACL_AT a), h(a \<mapsto> \<lparr>a_refcount = 1, a_entries = es\<rparr>))"
        using es False v 5
        by (simp add: posix_acl_from_xattr_def posix_acl_alloc_def posix_acl_init_def put_entries_def Let_def)
      ultimately show ?thesis using a es(3) by blast
    qed
  qed (use False v in \<open>simp_all add: posix_acl_from_xattr_def posix_acl_alloc_def Let_def\<close>)
qed

end
