(* ===== verification/Acl_Correct.thy ===== *)
theory Acl_Correct
  imports Permission Acl_Xattr
begin

text \<open>
  The properties of access control lists: which ACLs are valid and what they decide, what creation
  and \<open>chmod\<close> do to them, that reference counts stay exact and every ACL is given back, that the
  permission check of an inode agrees with its ACL, and the extended-attribute form.
\<close>

subsection \<open>An example\<close>

text \<open>Owner rw, user 1000 rw, owning group none, mask \<open>m\<close>, others r.\<close>

definition example_acl :: "u16 \<Rightarrow> posix_acl_entry list" where
  "example_acl m =
    [\<lparr>e_tag = ACL_USER_OBJ, e_perm = 6, e_id = ACL_UNDEFINED_ID\<rparr>,
     \<lparr>e_tag = ACL_USER, e_perm = 6, e_id = 1000\<rparr>,
     \<lparr>e_tag = ACL_GROUP_OBJ, e_perm = 0, e_id = ACL_UNDEFINED_ID\<rparr>,
     \<lparr>e_tag = ACL_MASK, e_perm = m, e_id = ACL_UNDEFINED_ID\<rparr>,
     \<lparr>e_tag = ACL_OTHER, e_perm = 4, e_id = ACL_UNDEFINED_ID\<rparr>]"

definition example_kmem :: kmem where
  "example_kmem = \<lparr>kmalloc = (\<lambda>h n. find (\<lambda>a. h a = None) [0..<4]),
    stale = (\<lambda>a i. \<lparr>e_tag = 0, e_perm = 0, e_id = 0\<rparr>)\<rparr>"

definition example_inode :: "u16 \<Rightarrow> inode" where
  "example_inode mode = \<lparr>i_mode = mode, i_uid = 0, i_gid = 0, i_posixacl = True, i_rdonly = False,
    i_immutable = False, i_fastperm = False, i_acl = ACL_AT 0, i_default_acl = ACL_NULL\<rparr>"

definition example_heap :: "u16 \<Rightarrow> acl_heap" where
  "example_heap m = [0 \<mapsto> \<lparr>a_refcount = 1, a_entries = example_acl m\<rparr>]"

definition example_cred :: cred where
  "example_cred = \<lparr>fsuid = 1000, in_group_p = (\<lambda>g. g = 1000)\<rparr>"

definition example_env :: perm_env where
  "example_env = \<lparr>op_get_acl = None, op_permission = None, inode_capable = (\<lambda>_ _. False),
    devcgroup_inode_permission = (\<lambda>_ _. Val ()), security_inode_permission = (\<lambda>_ _. Val ())\<rparr>"

lemma example_kmem_fresh: "fresh_kmalloc example_kmem"
  by (auto simp: fresh_kmalloc_def example_kmem_def find_Some_iff)

subsection \<open>Validity and decisions\<close>

text \<open>C15. posix_acl_valid accepts exactly the entry lists made of the owner's entry, named users with
  strictly increasing ids, the owning group's entry, named groups with strictly increasing ids, an
  optional mask, and the others' entry, where the mask is present whenever there is a named entry,
  no named id is undefined and no permission has bits beyond rwx; every other list is EINVAL.\<close>

theorem posix_acl_valid_grammar:
  "posix_acl_valid acl = (if well_formed_acl acl then Val () else Err EINVAL)"
  by (rule posix_acl_valid_parts)

text \<open>C10. On a valid ACL posix_acl_permission never fails with EIO: it grants access exactly when the
  POSIX access check does, by the owner's entry for the owner, by a named user's entry within the
  mask, by some entry of a group of the process within the mask, and by the others' entry
  otherwise; a refusal is EACCES.\<close>

theorem posix_acl_permission_correct:
  assumes "posix_acl_valid acl = Val ()"
  shows "posix_acl_permission c uid gid acl want =
    (if posix_access c uid gid acl (want AND (MAY_READ OR MAY_WRITE OR MAY_EXEC OR MAY_NOT_BLOCK))
     then Val () else Err EACCES)"
proof -
  from assms have "well_formed_acl acl" by (simp add: posix_acl_valid_parts split: if_splits)
  then obtain uo us go gs ms ot where acl: "acl = uo # us @ go # gs @ ms @ [ot]"
    and parts: "acl_parts uo us go gs ms ot" unfolding well_formed_acl_def by blast
  show ?thesis
    unfolding posix_acl_permission_def acl acl_shape.perm_scan_acl [OF acl_shape.intro [OF parts]] decide_def ..
qed

theorem posix_acl_permission_correct_witness:
  "posix_acl_valid (example_acl 4) = Val () \<and>
   posix_acl_permission example_cred 0 0 (example_acl 4) MAY_READ =
    (if posix_access example_cred 0 0 (example_acl 4)
        (MAY_READ AND (MAY_READ OR MAY_WRITE OR MAY_EXEC OR MAY_NOT_BLOCK)) then Val () else Err EACCES)"
proof -
  have v: "posix_acl_valid (example_acl 4) = Val ()" by code_simp
  show ?thesis
    using v posix_acl_permission_correct [OF v, of example_cred 0 0 MAY_READ] by simp
qed

subsection \<open>Creation and chmod\<close>

text \<open>C27. Creating a file under a valid default ACL: the ACL stays valid, the mode loses exactly the
  permissions that the ACL does not grant to its class, the mode of the new ACL is the new mode,
  the return value tells whether the ACL is more than the mode, and the new ACL grants nothing
  that the default ACL does not grant.\<close>

theorem acl_create_consistent:
  assumes "posix_acl_valid acl = Val ()"
  shows "\<exists>acl' mode' m ne.
    posix_acl_equiv_mode acl (Some 0) = Val (ne, Some m) \<and>
    posix_acl_create_masq acl mode = Val (acl', mode', ne) \<and>
    mode' = mode AND (m OR NOT S_IRWXUGO) \<and>
    posix_acl_valid acl' = Val () \<and>
    posix_acl_equiv_mode acl' (Some mode') = Val (ne, Some mode') \<and>
    (\<forall>c uid gid want. posix_access c uid gid acl' want \<longrightarrow> posix_access c uid gid acl want)"
proof -
  from assms have wf: "well_formed_acl acl" by (simp add: posix_acl_valid_parts split: if_splits)
  from create_masq_valid [OF wf, of mode] obtain acl' m ne where
    c: "equiv_mode_scan 0 False acl = Val (m, ne)"
    "posix_acl_create_masq acl mode = Val (acl', mode AND (m OR NOT S_IRWXUGO), ne)"
    "well_formed_acl acl'" "equiv_mode_scan 0 False acl' = Val (mode AND m, ne)"
    "\<forall>c uid gid want. posix_access c uid gid acl' want \<longrightarrow> posix_access c uid gid acl want"
    by metis
  have "((mode AND (m OR NOT S_IRWXUGO)) AND NOT S_IRWXUGO) OR (mode AND m) = mode AND (m OR NOT S_IRWXUGO)"
    by (rule bit_word_eqI) (auto simp: bit_simps)
  then show ?thesis
    using c by (simp add: posix_acl_equiv_mode_def posix_acl_valid_parts)
qed

theorem acl_create_consistent_witness:
  "posix_acl_valid (example_acl 7) = Val () \<and>
   (\<exists>acl' mode' m ne.
    posix_acl_equiv_mode (example_acl 7) (Some 0) = Val (ne, Some m) \<and>
    posix_acl_create_masq (example_acl 7) 0x1B6 = Val (acl', mode', ne) \<and>
    mode' = 0x1B6 AND (m OR NOT S_IRWXUGO) \<and>
    posix_acl_valid acl' = Val () \<and>
    posix_acl_equiv_mode acl' (Some mode') = Val (ne, Some mode') \<and>
    (\<forall>c uid gid want. posix_access c uid gid acl' want \<longrightarrow> posix_access c uid gid (example_acl 7) want))"
proof -
  have v: "posix_acl_valid (example_acl 7) = Val ()" by code_simp
  show ?thesis using v acl_create_consistent [OF v, of "0x1B6"] by blast
qed

text \<open>C28. chmod on a valid ACL: the ACL stays valid, its mode becomes the permission bits of the new
  mode, its named users and groups are untouched, and it is as much more than the mode as before.\<close>

theorem acl_chmod_consistent:
  assumes "posix_acl_valid acl = Val ()"
  shows "\<exists>acl' m ne.
    posix_acl_equiv_mode acl (Some 0) = Val (ne, Some m) \<and>
    posix_acl_chmod_masq acl mode = Val acl' \<and>
    posix_acl_valid acl' = Val () \<and>
    posix_acl_equiv_mode acl' (Some 0) = Val (ne, Some (mode AND S_IRWXUGO)) \<and>
    with_tag ACL_USER acl' = with_tag ACL_USER acl \<and> with_tag ACL_GROUP acl' = with_tag ACL_GROUP acl"
proof -
  from assms have wf: "well_formed_acl acl" by (simp add: posix_acl_valid_parts split: if_splits)
  from chmod_masq_valid [OF wf, of mode] obtain acl' m ne where
    "equiv_mode_scan 0 False acl = Val (m, ne)" "posix_acl_chmod_masq acl mode = Val acl'"
    "well_formed_acl acl'" "equiv_mode_scan 0 False acl' = Val (mode AND S_IRWXUGO, ne)"
    "with_tag ACL_USER acl' = with_tag ACL_USER acl" "with_tag ACL_GROUP acl' = with_tag ACL_GROUP acl"
    by metis
  then show ?thesis by (simp add: posix_acl_equiv_mode_def posix_acl_valid_parts)
qed

theorem acl_chmod_consistent_witness:
  "posix_acl_valid (example_acl 7) = Val () \<and>
   (\<exists>acl' m ne.
    posix_acl_equiv_mode (example_acl 7) (Some 0) = Val (ne, Some m) \<and>
    posix_acl_chmod_masq (example_acl 7) 0x1A4 = Val acl' \<and>
    posix_acl_valid acl' = Val () \<and>
    posix_acl_equiv_mode acl' (Some 0) = Val (ne, Some (0x1A4 AND S_IRWXUGO)) \<and>
    with_tag ACL_USER acl' = with_tag ACL_USER (example_acl 7) \<and>
    with_tag ACL_GROUP acl' = with_tag ACL_GROUP (example_acl 7))"
proof -
  have v: "posix_acl_valid (example_acl 7) = Val ()" by code_simp
  show ?thesis using v acl_chmod_consistent [OF v, of "0x1A4"] by blast
qed

subsection \<open>Reference counts\<close>

text \<open>One inode with an empty cache, and the state after allocating the ACL of mode 0644.\<close>

definition example_start :: acl_state where
  "example_start = \<lparr>inodes = [(example_inode 0x1A4)\<lparr>i_acl := ACL_NOT_CACHED, i_default_acl := ACL_NOT_CACHED\<rparr>],
    acls = Map.empty, held = {#}\<rparr>"

definition example_state :: acl_state where
  "example_state = example_start\<lparr>acls := [0 \<mapsto> \<lparr>a_refcount = 1, a_entries = mode_entries 0x1A4\<rparr>], held := {#0#}\<rparr>"

lemma example_from_mode: "acl_exec example_kmem (Op_from_mode 0x1A4) example_start = Val example_state"
proof -
  have "kmalloc example_kmem Map.empty 48 = Some 0" by (simp add: example_kmem_def upt_rec)
  then show ?thesis
    by (simp add: example_start_def example_state_def posix_acl_from_mode_def posix_acl_alloc_def
        posix_acl_init_def entries_at_def put_entries_def set_entry_def mode_entries_def upt_rec)
qed

lemma example_refs: "all_refs example_start = {#}" "all_refs example_state = {#0#}"
  by (simp_all add: all_refs_def example_start_def example_state_def example_inode_def ino_refs_def)

lemma example_reachable: "acl_reachable example_kmem example_state"
proof (rule acl_next)
  show "acl_reachable example_kmem example_start"
    unfolding example_start_def by (rule acl_start) simp
  show "acl_exec example_kmem (Op_from_mode 0x1A4) example_start = Val example_state"
    by (rule example_from_mode)
qed (simp_all add: example_refs)

text \<open>C6. Through every sequence of operations on the ACL cache and on held references, with an
  allocator that returns unused addresses, an operation runs without touching a freed ACL; after
  it, the allocated ACLs are exactly the referenced ones, each counter is the number of references
  in inode slots and in the hands of callers, every ACL is valid, and the entries of an ACL that
  existed before are unchanged: create and chmod write only to their copy.\<close>

theorem acl_refcounts_exact:
  assumes "fresh_kmalloc k" "acl_reachable k s" "acl_op_ok op s" "size (all_refs s) + 1 < 2 ^ 32"
  shows "\<exists>s'. acl_exec k op s = Val s' \<and>
    (\<forall>a. acls s' a = None \<longleftrightarrow> a \<notin># all_refs s') \<and>
    (\<forall>a x. acls s' a = Some x \<longrightarrow>
      unat (a_refcount x) = count (all_refs s') a \<and> posix_acl_valid (a_entries x) = Val ()) \<and>
    entries_kept (acls s) (acls s')"
proof -
  obtain s' where s': "acl_exec k op s = Val s'" "counted (all_refs s') (acls s')"
    "entries_kept (acls s) (acls s')"
    using acl_exec_counted [OF acl_reachable_counted [OF assms(2,1)] assms(1,3,4)] by blast
  have "unat (a_refcount x) = count (all_refs s') a \<and> posix_acl_valid (a_entries x) = Val ()"
    if "acls s' a = Some x" for a x
    using countedD [OF s'(2), of a] counted_lt [OF s'(2), of a] that
    by (simp add: unat_of_nat_u32 posix_acl_valid_parts)
  moreover have "acls s' a = None \<longleftrightarrow> a \<notin># all_refs s'" for a
    using counted_count [OF s'(2), of a] by simp
  ultimately show ?thesis using s' by blast
qed

theorem acl_refcounts_exact_witness:
  "fresh_kmalloc example_kmem \<and> acl_reachable example_kmem example_state \<and>
   acl_op_ok (Op_set 0 ACL_TYPE_ACCESS (ACL_AT 0)) example_state \<and>
   size (all_refs example_state) + 1 < 2 ^ 32 \<and>
   (\<exists>s'. acl_exec example_kmem (Op_set 0 ACL_TYPE_ACCESS (ACL_AT 0)) example_state = Val s' \<and>
    (\<forall>a. acls s' a = None \<longleftrightarrow> a \<notin># all_refs s') \<and>
    (\<forall>a x. acls s' a = Some x \<longrightarrow>
      unat (a_refcount x) = count (all_refs s') a \<and> posix_acl_valid (a_entries x) = Val ()) \<and>
    entries_kept (acls example_state) (acls s'))"
proof -
  have ok: "acl_op_ok (Op_set 0 ACL_TYPE_ACCESS (ACL_AT 0)) example_state"
    by (simp add: example_state_def example_start_def acl_type_ok_def)
  have sz: "size (all_refs example_state) + 1 < 2 ^ 32" by (simp add: example_refs)
  show ?thesis
    using acl_refcounts_exact [OF example_kmem_fresh example_reachable ok sz]
      example_kmem_fresh example_reachable ok sz by blast
qed

text \<open>C29. No ACL is lost: from every state that operations on the cache can reach, releasing the held
  references and forgetting the cached ACLs of all inodes runs to its end and leaves no ACL
  allocated.\<close>

theorem acls_all_freed:
  assumes "fresh_kmalloc k" "acl_reachable k s"
  shows "\<exists>s'. acl_run k (drain_ops s) s = Val s' \<and> acls s' = Map.empty"
  by (rule drain_empties [OF acl_reachable_counted [OF assms(2,1)]])

theorem acls_all_freed_witness:
  "fresh_kmalloc example_kmem \<and> acl_reachable example_kmem example_state \<and>
   (\<exists>s'. acl_run example_kmem (drain_ops example_state) example_state = Val s' \<and> acls s' = Map.empty)"
  using acls_all_freed [OF example_kmem_fresh example_reachable] example_kmem_fresh example_reachable
  by blast

subsection \<open>Permission checks of an inode\<close>




text \<open>C38. With all group-class bits zero acl_permission_check skips the ACL: a named user whose entry
  the empty mask cuts to nothing, so that posix_acl_permission refuses, is granted what the others
  have.\<close>

theorem empty_mask_grants_others:
  "acl_in_step (example_inode 0x184) (example_heap 0) 0 (example_acl 0) \<and>
   posix_acl_permission example_cred 0 0 (example_acl 0) MAY_READ = Err EACCES \<and>
   generic_permission example_cred example_env (example_inode 0x184) MAY_READ (example_heap 0) =
     Val (Val (), example_inode 0x184, example_heap 0)"
proof (intro conjI)
  show "acl_in_step (example_inode 0x184) (example_heap 0) 0 (example_acl 0)" by code_simp
  show "posix_acl_permission example_cred 0 0 (example_acl 0) MAY_READ = Err EACCES" by code_simp
  show "generic_permission example_cred example_env (example_inode 0x184) MAY_READ (example_heap 0) =
     Val (Val (), example_inode 0x184, example_heap 0)"
    by (simp add: generic_permission_def acl_permission_check_def mode_check_def example_inode_def
        example_cred_def S_IRWXG_def MAY_READ_def MAY_WRITE_def MAY_EXEC_def)
qed

text \<open>C31. The non-blocking check of path walk agrees with the blocking one: when the cached ACL of the
  inode is a live object and the non-blocking check gives an answer other than ECHILD, the
  blocking check gives the same answer, and neither changes the inode or the heap.\<close>

theorem rcu_walk_agrees:
  assumes "\<forall>a. i_acl inode = ACL_AT a \<longrightarrow> (\<exists>x. h a = Some x \<and> a_refcount x \<noteq> 0)"
    "msk AND MAY_NOT_BLOCK = 0"
    "acl_permission_check c env inode (msk OR MAY_NOT_BLOCK) h = Val (ret, inode', h')" "ret \<noteq> Err ECHILD"
  shows "acl_permission_check c env inode msk h = Val (ret, inode, h) \<and> inode' = inode \<and> h' = h"
proof -
  have rwx: "(msk OR MAY_NOT_BLOCK) AND rwx = msk AND rwx"
    by (rule bit_word_eqI) (auto simp: bit_simps bit_rwx bit_MAY_NOT_BLOCK)
  have nb: "(msk OR MAY_NOT_BLOCK) AND MAY_NOT_BLOCK \<noteq> 0"
  proof
    assume "(msk OR MAY_NOT_BLOCK) AND MAY_NOT_BLOCK = 0"
    then have "bit ((msk OR MAY_NOT_BLOCK) AND MAY_NOT_BLOCK) 7 = bit (0 :: u32) 7" by simp
    then show False by (simp add: bit_simps bit_MAY_NOT_BLOCK)
  qed
  have mode: "mode_check mode (msk OR MAY_NOT_BLOCK) = mode_check mode msk" for mode
  proof -
    have "(msk OR MAY_NOT_BLOCK) AND NOT mode AND rwx = msk AND NOT mode AND rwx"
      by (rule bit_word_eqI) (auto simp: bit_simps bit_rwx bit_MAY_NOT_BLOCK)
    then show ?thesis by (simp add: mode_check_def rwx_def [symmetric])
  qed
  show ?thesis
  proof (cases "i_acl inode")
    case ACL_NULL
    then show ?thesis
      using assms(2,3) nb
      by (auto simp: acl_permission_check_def Let_def check_acl_def get_cached_acl_rcu_def
          get_cached_acl_def acl_by_type_def check_acl_ref_def mode split: if_splits)
  next
    case ACL_NOT_CACHED
    then show ?thesis
      using assms(2-4) nb
      by (auto simp: acl_permission_check_def Let_def check_acl_def get_cached_acl_rcu_def
          acl_by_type_def mode split: if_splits)
  next
    case (ACL_AT a)
    with assms(1) obtain x where "h a = Some x" "a_refcount x \<noteq> 0" by blast
    from check_acl_cached [where h = h, OF ACL_AT this] show ?thesis
      using assms(3) rwx
      by (auto simp: acl_permission_check_def Let_def mode split: if_splits)
  qed
qed

theorem rcu_walk_agrees_witness:
  "MAY_WRITE AND MAY_NOT_BLOCK = 0 \<and>
   acl_permission_check example_cred example_env (example_inode 0x1B4) MAY_WRITE (example_heap 6) =
     Val (Val (), example_inode 0x1B4, example_heap 6)"
proof -
  have 1: "\<forall>a. i_acl (example_inode 0x1B4) = ACL_AT a \<longrightarrow> (\<exists>x. example_heap 6 a = Some x \<and> a_refcount x \<noteq> 0)"
    by (simp add: example_inode_def example_heap_def)
  have 2: "MAY_WRITE AND MAY_NOT_BLOCK = 0" by (simp add: MAY_WRITE_def MAY_NOT_BLOCK_def)
  have "acl_in_step (example_inode 0x1B4) (example_heap 6) 0 (example_acl 6)" by code_simp
  moreover have "i_posixacl (example_inode 0x1B4)" "i_mode (example_inode 0x1B4) AND S_IRWXG \<noteq> 0"
    by (code_simp, code_simp)
  moreover have "posix_access example_cred (i_uid (example_inode 0x1B4)) (i_gid (example_inode 0x1B4))
      (example_acl 6) ((MAY_WRITE OR MAY_NOT_BLOCK) AND rwx)" by code_simp
  ultimately have 3: "acl_permission_check example_cred example_env (example_inode 0x1B4)
      (MAY_WRITE OR MAY_NOT_BLOCK) (example_heap 6) = Val (Val (), example_inode 0x1B4, example_heap 6)"
    by (simp add: acl_check_in_step decide_def)
  show ?thesis using 2 rcu_walk_agrees [OF 1 2 3] by simp
qed

subsection \<open>The extended-attribute form\<close>

text \<open>C17. Writing a valid ACL as an extended attribute into a buffer that is large enough succeeds, and
  parsing the bytes written gives the same ACL, with one reference, whenever memory is available.
  The ids of entries other than named users and groups must be undefined, as parsing leaves them.\<close>

theorem xattr_round_trip:
  assumes "posix_acl_valid acl = Val ()" "\<forall>e\<in>set acl. e_tag e \<notin> {ACL_USER, ACL_GROUP} \<longrightarrow> e_id e = ACL_UNDEFINED_ID"
    "4 + 8 * length acl < 2 ^ 31" "length buf = 4 + 8 * length acl"
    "kmalloc k h (24 + length acl * 8) = Some a"
  shows "\<exists>bs. posix_acl_to_xattr acl (Some buf) (of_nat (length buf)) = Val (Val (of_nat (length buf)), Some bs) \<and>
    posix_acl_from_xattr k (Some bs) (of_nat (length bs)) h =
      Val (Val (ACL_AT a), h(a \<mapsto> \<lparr>a_refcount = 1, a_entries = acl\<rparr>))"
proof -
  from assms(1) have "well_formed_acl acl" by (simp add: posix_acl_valid_parts split: if_splits)
  then obtain uo us go gs ms ot where acl: "acl = uo # us @ go # gs @ ms @ [ot]"
    and parts: "acl_parts uo us go gs ms ot" unfolding well_formed_acl_def by blast
  have "\<forall>e\<in>set acl. e_tag e \<in> {ACL_USER_OBJ, ACL_USER, ACL_GROUP_OBJ, ACL_GROUP, ACL_MASK, ACL_OTHER}"
    using parts unfolding acl_parts_def named_entries_def acl by auto
  with assms(2) have p: "\<forall>e\<in>set acl. parsed_entry e" by (auto simp: parsed_entry_def)
  have ne: "acl \<noteq> []" unfolding acl by simp
  show ?thesis
    using to_xattr_bytes [OF assms(3), of buf] from_xattr_bytes [OF ne p assms(3), of k h] assms(3-5)
    by (simp del: of_nat_add of_nat_mult)
qed

theorem xattr_round_trip_witness:
  "posix_acl_valid (example_acl 6) = Val () \<and>
   kmalloc example_kmem Map.empty (24 + length (example_acl 6) * 8) = Some 0 \<and>
   (\<exists>bs. posix_acl_to_xattr (example_acl 6) (Some (replicate 44 0)) (of_nat (length (replicate 44 (0 :: u8)))) =
        Val (Val (of_nat (length (replicate 44 (0 :: u8)))), Some bs) \<and>
    posix_acl_from_xattr example_kmem (Some bs) (of_nat (length bs)) Map.empty =
      Val (Val (ACL_AT 0), Map.empty(0 \<mapsto> \<lparr>a_refcount = 1, a_entries = example_acl 6\<rparr>)))"
proof -
  have 1: "posix_acl_valid (example_acl 6) = Val ()" by code_simp
  have 2: "\<forall>e\<in>set (example_acl 6). e_tag e \<notin> {ACL_USER, ACL_GROUP} \<longrightarrow> e_id e = ACL_UNDEFINED_ID"
    by (simp add: example_acl_def)
  have 3: "4 + 8 * length (example_acl 6) < 2 ^ 31" "length (replicate 44 (0 :: u8)) = 4 + 8 * length (example_acl 6)"
    by (simp_all add: example_acl_def)
  have 4: "kmalloc example_kmem Map.empty (24 + length (example_acl 6) * 8) = Some 0"
    by (simp add: example_kmem_def upt_rec)
  show ?thesis using xattr_round_trip [OF 1 2 3 4] 1 4 by blast
qed

text \<open>C30. Parsing any extended attribute stays inside the buffer: it gives no ACL, one of the errors
  EINVAL, EOPNOTSUPP and ENOMEM with nothing left allocated, or a fresh ACL with one reference
  whose entries have known tags and ids only for named users and groups.\<close>

theorem from_xattr_safe:
  assumes "length bs = unat sz" "fresh_kmalloc k"
  shows "\<exists>ret h'. posix_acl_from_xattr k (Some bs) sz h = Val (ret, h') \<and>
    (h' = h \<and> ret \<in> {Val ACL_NULL, Err EINVAL, Err EOPNOTSUPP, Err ENOMEM} \<or>
     (\<exists>a es. ret = Val (ACL_AT a) \<and> h a = None \<and> es \<noteq> [] \<and> list_all parsed_entry es \<and>
       h' = h(a \<mapsto> \<lparr>a_refcount = 1, a_entries = es\<rparr>)))"
  unfolding list_all_iff by (rule from_xattr_safe_run [OF assms])

theorem from_xattr_safe_witness:
  "length [2, 0, 0, 0, 99, 0, 0, 0, 0, 0, 0, 0 :: u8] = unat (12 :: u64) \<and> fresh_kmalloc example_kmem \<and>
   (\<exists>ret h'. posix_acl_from_xattr example_kmem (Some [2, 0, 0, 0, 99, 0, 0, 0, 0, 0, 0, 0]) 12 Map.empty =
       Val (ret, h') \<and>
    (h' = Map.empty \<and> ret \<in> {Val ACL_NULL, Err EINVAL, Err EOPNOTSUPP, Err ENOMEM} \<or>
     (\<exists>a es. ret = Val (ACL_AT a) \<and> Map.empty a = (None :: posix_acl option) \<and> es \<noteq> [] \<and>
       list_all parsed_entry es \<and> h' = Map.empty(a \<mapsto> \<lparr>a_refcount = 1, a_entries = es\<rparr>))))"
proof -
  have 1: "length [2, 0, 0, 0, 99, 0, 0, 0, 0, 0, 0, 0 :: u8] = unat (12 :: u64)" by simp
  show ?thesis
    using 1 example_kmem_fresh from_xattr_safe [OF 1 example_kmem_fresh, of Map.empty] by blast
qed

end
