(* ===== verification/Sem.thy ===== *)
theory Sem
  imports KPrelude
begin

text \<open>
  System V semaphores: \<open>ipc/sem.c\<close> on one semaphore array, under the array's lock.

  The array is the record \<open>sem_array\<close>: the semaphores with their queues of simple operations, the
  queue of all sleeping operations, the number of complex ones among them, and the adjustments to
  undo at exit, by undo list (\<open>list_id\<close>).  An entry of the two queues is the record \<open>sem_queue\<close>; the
  entry lives on the stack of its sleeping task, which identifies it.  \<open>semval\<close> and \<open>sem_op\<close> are
  integers in the ranges of their C types, \<open>semadj\<close> is kept in the range of \<open>short\<close>.

  An access outside an array, a null undo structure and a \<open>BUG_ON\<close> are a \<open>Trap\<close>.  The lists of
  tasks to wake up are the results of the operations: each pair is an entry and the status that
  \<open>wake_up_sem_queue_do\<close> stores in it after the lock is dropped.
\<close>

subsection \<open>Data\<close>

record sembuf =
  sem_num :: nat
  sem_op :: int
  sem_flg :: u16

definition SEM_UNDO :: u16 where "SEM_UNDO = 0x1000"
definition IPC_NOWAIT :: u16 where "IPC_NOWAIT = 0x800"
definition SEMVMX :: int where "SEMVMX = 32767"
definition SEMAEM :: int where "SEMAEM = SEMVMX"
definition SEMOPM_FAST :: nat where "SEMOPM_FAST = 64"
definition SEMMSL_FAST :: nat where "SEMMSL_FAST = 256"

record sem_queue =
  sleeper :: nat
  q_undo :: "nat option"
  q_pid :: int
  q_sops :: "sembuf list"
  q_alter :: bool

record sem =
  semval :: int
  sempid :: int
  sem_simple :: "sem_queue list"

record sem_array =
  sem_base :: "sem list"
  sem_pending :: "sem_queue list"
  complex_count :: int
  sem_undos :: "nat \<rightharpoonup> int list"
  sem_otime :: int
  sem_ctime :: int

definition undo_flag :: "sembuf \<Rightarrow> bool" where
  "undo_flag sop \<longleftrightarrow> sem_flg sop AND SEM_UNDO \<noteq> 0"

definition nowait_flag :: "sembuf \<Rightarrow> bool" where
  "nowait_flag sop \<longleftrightarrow> sem_flg sop AND IPC_NOWAIT \<noteq> 0"

text \<open>Conversion of an \<open>int\<close> to \<open>short\<close>.\<close>

definition to_short :: "int \<Rightarrow> int" where
  "to_short x = (x + 32768) mod 65536 - 32768"

subsection \<open>try_atomic_semop\<close>

text \<open>The result 0 is \<open>Semop_done\<close>, 1 is \<open>Semop_sleep\<close>, a negative error number is \<open>Semop_fail\<close>.\<close>

datatype semop_result = Semop_done | Semop_sleep | Semop_fail errno

datatype semop_stop = Stop_done | Stop_range | Stop_block sembuf

definition undo_exceeds :: "int list option \<Rightarrow> sembuf \<Rightarrow> bool outcome" where
  "undo_exceeds adj sop =
    (if undo_flag sop then
       (case adj of
          None \<Rightarrow> Trap
        | Some a \<Rightarrow>
           if sem_num sop < length a then
             (let undo = a ! sem_num sop - sem_op sop in
              Val (undo < - SEMAEM - 1 \<or> undo > SEMAEM))
           else Trap)
     else Val False)"

text \<open>The first loop; \<open>dn\<close> holds the operations performed so far, the last one first.\<close>

fun semop_loop ::
    "int list option \<Rightarrow> sem list \<Rightarrow> sembuf list \<Rightarrow> sembuf list \<Rightarrow>
     (semop_stop \<times> sem list \<times> sembuf list) outcome" where
  "semop_loop adj base dn [] = Val (Stop_done, base, dn)"
| "semop_loop adj base dn (sop # sops) =
    (if \<not> sem_num sop < length base then Trap
     else let curr = base ! sem_num sop; result = semval curr + sem_op sop in
       if sem_op sop = 0 \<and> semval curr \<noteq> 0 then Val (Stop_block sop, base, dn)
       else if result < 0 then Val (Stop_block sop, base, dn)
       else if result > SEMVMX then Val (Stop_range, base, dn)
       else bind_outcome (undo_exceeds adj sop) (\<lambda>exceeds.
         if exceeds then Val (Stop_range, base, dn)
         else semop_loop adj (base[sem_num sop := curr\<lparr>semval := result\<rparr>]) (sop # dn) sops))"

fun semop_commit :: "int \<Rightarrow> sem list \<Rightarrow> int list option \<Rightarrow> sembuf list \<Rightarrow> sem list \<times> int list option" where
  "semop_commit pid base adj [] = (base, adj)"
| "semop_commit pid base adj (sop # dn) =
    semop_commit pid
      (base[sem_num sop := (base ! sem_num sop)\<lparr>sempid := pid\<rparr>])
      (if undo_flag sop
       then map_option (\<lambda>a. a[sem_num sop := to_short (a ! sem_num sop - sem_op sop)]) adj else adj)
      dn"

fun semop_undo :: "sem list \<Rightarrow> sembuf list \<Rightarrow> sem list" where
  "semop_undo base [] = base"
| "semop_undo base (sop # dn) =
    semop_undo
      (base[sem_num sop := (base ! sem_num sop)\<lparr>semval := semval (base ! sem_num sop) - sem_op sop\<rparr>]) dn"

definition undo_of :: "sem_array \<Rightarrow> nat option \<Rightarrow> int list option" where
  "undo_of sma un = (case un of None \<Rightarrow> None | Some u \<Rightarrow> sem_undos sma u)"

definition put_undo :: "nat option \<Rightarrow> int list option \<Rightarrow> sem_array \<Rightarrow> sem_array" where
  "put_undo un adj sma =
    (case (un, adj) of (Some u, Some a) \<Rightarrow> sma\<lparr>sem_undos := (sem_undos sma)(u \<mapsto> a)\<rparr> | _ \<Rightarrow> sma)"

definition try_atomic_semop ::
    "sem_array \<Rightarrow> sembuf list \<Rightarrow> nat option \<Rightarrow> int \<Rightarrow> (semop_result \<times> sem_array) outcome" where
  "try_atomic_semop sma sops un pid =
    bind_outcome (semop_loop (undo_of sma un) (sem_base sma) [] sops) (\<lambda>(stop, base, dn).
      case stop of
        Stop_done \<Rightarrow>
          (case semop_commit pid base (undo_of sma un) dn of
             (base', adj') \<Rightarrow> Val (Semop_done, put_undo un adj' (sma\<lparr>sem_base := base'\<rparr>)))
      | Stop_range \<Rightarrow> Val (Semop_fail ERANGE, sma\<lparr>sem_base := semop_undo base dn\<rparr>)
      | Stop_block sop \<Rightarrow>
          Val (if nowait_flag sop then Semop_fail EAGAIN else Semop_sleep,
               sma\<lparr>sem_base := semop_undo base dn\<rparr>))"

subsection \<open>Waking up sleeping operations\<close>

type_synonym wakeups = "(sem_queue \<times> semop_result) list"

definition wake_up_sem_queue_prepare :: "wakeups \<Rightarrow> sem_queue \<Rightarrow> semop_result \<Rightarrow> wakeups" where
  "wake_up_sem_queue_prepare pt q error = pt @ [(q, error)]"

definition list_del :: "sem_queue \<Rightarrow> sem_queue list \<Rightarrow> sem_queue list" where
  "list_del q qs = filter (\<lambda>x. sleeper x \<noteq> sleeper q) qs"

definition unlink_queue :: "sem_array \<Rightarrow> sem_queue \<Rightarrow> sem_array" where
  "unlink_queue sma q =
    (let sma1 = sma\<lparr>sem_pending := list_del q (sem_pending sma)\<rparr> in
     if length (q_sops q) = 1 then
       (let n = sem_num (hd (q_sops q)); curr = sem_base sma1 ! n in
        sma1\<lparr>sem_base := (sem_base sma1)[n := curr\<lparr>sem_simple := list_del q (sem_simple curr)\<rparr>]\<rparr>)
     else sma1\<lparr>complex_count := complex_count sma1 - 1\<rparr>)"

definition check_restart :: "sem_array \<Rightarrow> sem_queue \<Rightarrow> bool outcome" where
  "check_restart sma q =
    (if \<not> q_alter q then Val False
     else if complex_count sma \<noteq> 0 then Val True
     else if length (q_sops q) > 1 then Val True
     else let n = sem_num (hd (q_sops q)); curr = sem_base sma ! n in
       if \<not> n < length (sem_base sma) then Trap
       else if sem_simple curr = [] then Val False
       else if semval curr \<noteq> 0 then
         (if sem_op (hd (q_sops q)) \<ge> 0 then Trap else Val False)
       else let h = hd (sem_simple curr) in
         if length (q_sops h) \<noteq> 1 then Trap
         else if sem_num (hd (q_sops h)) \<noteq> n then Trap
         else Val (sem_op (hd (q_sops h)) = 0))"

text \<open>
  One walk over the rest of the list that \<open>update_queue\<close> scans; the first component of the result
  is \<open>goto again\<close>.  \<open>None\<close> is the semaphore number -1.
\<close>

fun update_walk ::
    "nat option \<Rightarrow> sem_queue list \<Rightarrow> sem_array \<Rightarrow> wakeups \<Rightarrow> bool \<Rightarrow>
     (bool \<times> sem_array \<times> wakeups \<times> bool) outcome" where
  "update_walk semnum [] sma pt completed = Val (False, sma, pt, completed)"
| "update_walk semnum (q # walk) sma pt completed =
    (if (case semnum of None \<Rightarrow> False | Some n \<Rightarrow> semval (sem_base sma ! n) = 0 \<and> q_alter q)
     then Val (False, sma, pt, completed)
     else bind_outcome (try_atomic_semop sma (q_sops q) (q_undo q) (q_pid q)) (\<lambda>(error, sma1).
       if error = Semop_sleep then update_walk semnum walk sma1 pt completed
       else let sma2 = unlink_queue sma1 q in
         bind_outcome (if error = Semop_done then check_restart sma2 q else Val False) (\<lambda>restart.
           let pt' = wake_up_sem_queue_prepare pt q error; completed' = (completed \<or> error = Semop_done) in
           if restart then Val (True, sma2, pt', completed')
           else update_walk semnum walk sma2 pt' completed')))"

definition pending_list :: "nat option \<Rightarrow> sem_array \<Rightarrow> sem_queue list" where
  "pending_list semnum sma =
    (case semnum of None \<Rightarrow> sem_pending sma | Some n \<Rightarrow> sem_simple (sem_base sma ! n))"

text \<open>Each walk that ends with \<open>goto again\<close> has removed an entry, so the fuel is the length of the queue.\<close>

fun update_again ::
    "nat \<Rightarrow> nat option \<Rightarrow> sem_array \<Rightarrow> wakeups \<Rightarrow> bool \<Rightarrow> (sem_array \<times> wakeups \<times> bool) outcome" where
  "update_again 0 semnum sma pt completed = Trap"
| "update_again (Suc fuel) semnum sma pt completed =
    bind_outcome (update_walk semnum (pending_list semnum sma) sma pt completed)
      (\<lambda>(again, sma', pt', completed').
        if again then update_again fuel semnum sma' pt' completed' else Val (sma', pt', completed'))"

definition update_queue ::
    "sem_array \<Rightarrow> nat option \<Rightarrow> wakeups \<Rightarrow> (sem_array \<times> wakeups \<times> bool) outcome" where
  "update_queue sma semnum pt =
    (let semnum' = (if complex_count sma \<noteq> 0 then None else semnum) in
     if (case semnum' of None \<Rightarrow> False | Some n \<Rightarrow> \<not> n < length (sem_base sma)) then Trap
     else update_again (Suc (length (sem_pending sma))) semnum' sma pt False)"

fun smart_loop ::
    "sembuf list \<Rightarrow> sem_array \<Rightarrow> wakeups \<Rightarrow> bool \<Rightarrow> (sem_array \<times> wakeups \<times> bool) outcome" where
  "smart_loop [] sma pt otime = Val (sma, pt, otime)"
| "smart_loop (sop # sops) sma pt otime =
    (if \<not> sem_num sop < length (sem_base sma) then Trap
     else if sem_op sop > 0 \<or> (sem_op sop < 0 \<and> semval (sem_base sma ! sem_num sop) = 0)
     then bind_outcome (update_queue sma (Some (sem_num sop)) pt) (\<lambda>(sma', pt', completed).
       smart_loop sops sma' pt' (otime \<or> completed))
     else smart_loop sops sma pt otime)"

text \<open>\<open>t\<close> is \<open>get_seconds ()\<close>; \<open>None\<close> for the operations is the null pointer.\<close>

definition do_smart_update ::
    "int \<Rightarrow> sem_array \<Rightarrow> sembuf list option \<Rightarrow> bool \<Rightarrow> wakeups \<Rightarrow> (sem_array \<times> wakeups) outcome" where
  "do_smart_update t sma sops otime pt =
    bind_outcome
      (if complex_count sma \<noteq> 0 \<or> sops = None then
         bind_outcome (update_queue sma None pt)
           (\<lambda>(sma', pt', completed). Val (sma', pt', otime \<or> completed))
       else smart_loop (the sops) sma pt otime)
      (\<lambda>(sma', pt', otime'). Val (if otime' then sma'\<lparr>sem_otime := t\<rparr> else sma', pt'))"

subsection \<open>Counts of waiting tasks\<close>

definition count_semncnt :: "sem_array \<Rightarrow> nat \<Rightarrow> nat" where
  "count_semncnt sma semnum =
    sum_list (map (\<lambda>q. length (filter (\<lambda>sop. sem_num sop = semnum \<and> sem_op sop < 0 \<and> \<not> nowait_flag sop)
      (q_sops q))) (sem_pending sma))"

definition count_semzcnt :: "sem_array \<Rightarrow> nat \<Rightarrow> nat" where
  "count_semzcnt sma semnum =
    sum_list (map (\<lambda>q. length (filter (\<lambda>sop. sem_num sop = semnum \<and> sem_op sop = 0 \<and> \<not> nowait_flag sop)
      (q_sops q))) (sem_pending sma))"

subsection \<open>semtimedop\<close>

text \<open>
  What the rest of the kernel decides during a system call: \<open>denied\<close> is a failing \<open>ipcperms\<close> for an
  altering or a reading call, \<open>security\<close> the verdict of the security module, \<open>no_memory\<close> and
  \<open>bad_address\<close> failing allocations and user copies, \<open>bad_timespec\<close> a failing copy of the timeout,
  \<open>undo_list\<close> the error of \<open>get_undo_list\<close>, \<open>lock_check\<close> the error of \<open>sem_lock_check\<close>, \<open>deleted\<close> that
  the array is gone when the lock is taken again, \<open>stale_undo\<close> that the undo structure found is one
  of a removed array with the same identifier (\<open>semid\<close> -1 in it), and \<open>now\<close> the time.
\<close>

record sem_env =
  denied :: "bool \<Rightarrow> bool"
  security :: "errno option"
  no_memory :: bool
  bad_address :: bool
  bad_timespec :: bool
  undo_list :: "errno option"
  lock_check :: "errno option"
  deleted :: bool
  stale_undo :: bool
  now :: int
  sc_semopm :: nat

definition find_alloc_undo :: "sem_env \<Rightarrow> nat \<Rightarrow> sem_array \<Rightarrow> sem_array outcome" where
  "find_alloc_undo env ulp sma =
    (case undo_list env of
       Some e \<Rightarrow> Err e
     | None \<Rightarrow>
     case sem_undos sma ulp of
       Some un \<Rightarrow> Val sma
     | None \<Rightarrow>
        case lock_check env of
          Some e \<Rightarrow> Err e
        | None \<Rightarrow>
        if no_memory env then Err ENOMEM
        else if deleted env then Err EIDRM
        else Val (sma\<lparr>sem_undos := (sem_undos sma)(ulp \<mapsto> replicate (length (sem_base sma)) 0)\<rparr>))"

datatype sem_return = Sem_value int | Sem_error errno | Sem_sleeping

text \<open>\<open>timeout\<close> is \<open>tv_sec\<close> and \<open>tv_nsec\<close>.\<close>

definition bad_timeout :: "(int \<times> int) option \<Rightarrow> bool" where
  "bad_timeout timeout =
    (case timeout of None \<Rightarrow> False | Some (sec, nsec) \<Rightarrow> sec < 0 \<or> nsec < 0 \<or> nsec \<ge> 1000000000)"

definition queue_semop :: "sem_queue \<Rightarrow> sem_array \<Rightarrow> sem_array" where
  "queue_semop q sma =
    (let sma1 = sma\<lparr>sem_pending := (if q_alter q then sem_pending sma @ [q] else q # sem_pending sma)\<rparr> in
     if length (q_sops q) = 1 then
       (let n = sem_num (hd (q_sops q)); curr = sem_base sma1 ! n in
        sma1\<lparr>sem_base := (sem_base sma1)[n :=
          curr\<lparr>sem_simple := (if q_alter q then sem_simple curr @ [q] else q # sem_simple curr)\<rparr>]\<rparr>)
     else sma1\<lparr>complex_count := complex_count sma1 + 1\<rparr>)"

text \<open>The operations under the lock, and going to sleep when they have to wait.\<close>

definition semop_locked ::
    "int \<Rightarrow> nat \<Rightarrow> int \<Rightarrow> nat option \<Rightarrow> bool \<Rightarrow> sembuf list \<Rightarrow> sem_array \<Rightarrow>
     (sem_return \<times> sem_array \<times> wakeups) outcome" where
  "semop_locked t task pid un alter sops sma =
    bind_outcome (try_atomic_semop sma sops un pid) (\<lambda>(error, sma2).
      case error of
        Semop_done \<Rightarrow>
          if alter then
            bind_outcome (do_smart_update t sma2 (Some sops) True [])
              (\<lambda>(sma3, tasks). Val (Sem_value 0, sma3, tasks))
          else Val (Sem_value 0, sma2, [])
      | Semop_fail e \<Rightarrow> Val (Sem_error e, sma2, [])
      | Semop_sleep \<Rightarrow>
          Val (Sem_sleeping,
               queue_semop \<lparr>sleeper = task, q_undo = un, q_pid = pid, q_sops = sops, q_alter = alter\<rparr> sma2, []))"

text \<open>The checks before the undo structure is looked for.\<close>

definition semtimedop_args :: "sem_env \<Rightarrow> int \<Rightarrow> sembuf list \<Rightarrow> (int \<times> int) option \<Rightarrow> errno option" where
  "semtimedop_args env semid sops timeout =
    (if length sops < 1 \<or> semid < 0 then Some EINVAL
     else if length sops > sc_semopm env then Some E2BIG
     else if length sops > SEMOPM_FAST \<and> no_memory env then Some ENOMEM
     else if bad_address env then Some EFAULT
     else if timeout \<noteq> None \<and> bad_timespec env then Some EFAULT
     else if bad_timeout timeout then Some EINVAL
     else None)"

text \<open>From the system call to its return or to going to sleep.\<close>

definition semtimedop ::
    "sem_env \<Rightarrow> int \<Rightarrow> nat \<Rightarrow> int \<Rightarrow> nat \<Rightarrow> sembuf list \<Rightarrow> (int \<times> int) option \<Rightarrow> sem_array \<Rightarrow>
     (sem_return \<times> sem_array \<times> wakeups) outcome" where
  "semtimedop env semid task pid ulp sops timeout sma =
    (case semtimedop_args env semid sops timeout of
       Some e \<Rightarrow> Val (Sem_error e, sma, [])
     | None \<Rightarrow>
       let undos = list_ex undo_flag sops; alter = list_ex (\<lambda>sop. sem_op sop \<noteq> 0) sops;
           un = (if undos then Some ulp else None) in
       case (if undos then find_alloc_undo env ulp sma else Val sma) of
         Err e \<Rightarrow> Val (Sem_error e, sma, [])
       | Trap \<Rightarrow> Trap
       | Val sma1 \<Rightarrow>
          if lock_check env \<noteq> None then Val (Sem_error (the (lock_check env)), sma1, [])
          else if undos \<and> stale_undo env then Val (Sem_error EIDRM, sma1, [])
          else if list_ex (\<lambda>sop. sem_num sop \<ge> length (sem_base sma1)) sops
          then Val (Sem_error EFBIG, sma1, [])
          else if denied env alter then Val (Sem_error EACCES, sma1, [])
          else (case security env of
            Some e \<Rightarrow> Val (Sem_error e, sma1, [])
          | None \<Rightarrow>
             semop_locked (now env) task pid un alter sops sma1))"

text \<open>
  A task that runs again after sleeping with its entry \<open>q\<close>.  With a status it returns that status
  (it does not touch the array any more); without one it takes the lock, and removes its entry
  because the time has passed or a signal is pending, or goes back to sleep.
\<close>

definition semtimedop_awake ::
    "sem_queue \<Rightarrow> semop_result option \<Rightarrow> bool \<Rightarrow> bool \<Rightarrow> sem_array \<Rightarrow> sem_return \<times> sem_array" where
  "semtimedop_awake q status timed_out signal_pending sma =
    (case status of
       Some Semop_done \<Rightarrow> (Sem_value 0, sma)
     | Some (Semop_fail e) \<Rightarrow> (Sem_error e, sma)
     | Some Semop_sleep \<Rightarrow> (Sem_value 1, sma)
     | None \<Rightarrow>
        if timed_out then (Sem_error EAGAIN, unlink_queue sma q)
        else if signal_pending then (Sem_error EINTR, unlink_queue sma q)
        else (Sem_sleeping, sma))"

subsection \<open>semctl\<close>

datatype semctl_cmd = GETPID | GETVAL | GETALL | GETNCNT | GETZCNT | SETVAL int | SETALL "u16 list"

definition set_values :: "u16 list \<Rightarrow> sem list \<Rightarrow> sem list" where
  "set_values vals base = map2 (\<lambda>v s. s\<lparr>semval := uint v\<rparr>) vals base"

definition clear_undos :: "(nat \<rightharpoonup> int list) \<Rightarrow> nat \<rightharpoonup> int list" where
  "clear_undos undos u = map_option (map (\<lambda>_. 0)) (undos u)"

definition clear_undo_of :: "nat \<Rightarrow> (nat \<rightharpoonup> int list) \<Rightarrow> nat \<rightharpoonup> int list" where
  "clear_undo_of n undos u = map_option (\<lambda>a. a[n := 0]) (undos u)"

text \<open>
  \<open>SETALL\<close> carries the values read from user space, \<open>nsems\<close> of them, each an \<open>unsigned short\<close>.  The
  result is the return value, what \<open>GETALL\<close> copies to user space, the array and the wake-ups.
\<close>

definition semctl_main ::
    "sem_env \<Rightarrow> int \<Rightarrow> int \<Rightarrow> semctl_cmd \<Rightarrow> sem_array \<Rightarrow>
     (sem_return \<times> int list \<times> sem_array \<times> wakeups) outcome" where
  "semctl_main env pid semnum cmd sma =
    (let nsems = length (sem_base sma);
         writes = (case cmd of SETVAL _ \<Rightarrow> True | SETALL _ \<Rightarrow> True | _ \<Rightarrow> False);
         fail = (\<lambda>e. Val (Sem_error e, [], sma, [])) in
     case lock_check env of
       Some e \<Rightarrow> fail e
     | None \<Rightarrow>
     if denied env writes then fail EACCES
     else case security env of
       Some e \<Rightarrow> fail e
     | None \<Rightarrow>
     (case cmd of
        GETALL \<Rightarrow>
          if nsems > SEMMSL_FAST \<and> no_memory env then fail ENOMEM
          else if nsems > SEMMSL_FAST \<and> deleted env then fail EIDRM
          else if bad_address env then fail EFAULT
          else Val (Sem_value 0, map semval (sem_base sma), sma, [])
      | SETALL vals \<Rightarrow>
          if nsems > SEMMSL_FAST \<and> no_memory env then fail ENOMEM
          else if bad_address env then fail EFAULT
          else if list_ex (\<lambda>v. uint v > SEMVMX) vals then fail ERANGE
          else if deleted env then fail EIDRM
          else bind_outcome
            (do_smart_update (now env)
               (sma\<lparr>sem_base := set_values vals (sem_base sma), sem_undos := clear_undos (sem_undos sma),
                    sem_ctime := now env\<rparr>) None False [])
            (\<lambda>(sma', tasks). Val (Sem_value 0, [], sma', tasks))
      | _ \<Rightarrow>
          if semnum < 0 \<or> semnum \<ge> int nsems then fail EINVAL
          else let n = nat semnum; curr = sem_base sma ! n in
            case cmd of
              GETVAL \<Rightarrow> Val (Sem_value (semval curr), [], sma, [])
            | GETPID \<Rightarrow> Val (Sem_value (sempid curr), [], sma, [])
            | GETNCNT \<Rightarrow> Val (Sem_value (int (count_semncnt sma n)), [], sma, [])
            | GETZCNT \<Rightarrow> Val (Sem_value (int (count_semzcnt sma n)), [], sma, [])
            | SETVAL val \<Rightarrow>
                if val > SEMVMX \<or> val < 0 then fail ERANGE
                else bind_outcome
                  (do_smart_update (now env)
                     (sma\<lparr>sem_undos := clear_undo_of n (sem_undos sma),
                          sem_base := (sem_base sma)[n := curr\<lparr>semval := val, sempid := pid\<rparr>],
                          sem_ctime := now env\<rparr>) None False [])
                  (\<lambda>(sma', tasks). Val (Sem_value 0, [], sma', tasks))
            | _ \<Rightarrow> fail EINVAL))"

subsection \<open>Creation, removal and exit\<close>

text \<open>
  \<open>newary\<close> with the limit \<open>sc_semmns\<close> and the semaphores in use, both of type \<open>int\<close>; \<open>addid\<close> is the error of \<open>ipc_addid\<close>.  The caller
  \<open>sys_semget\<close> has refused a negative \<open>nsems\<close> and one above \<open>sc_semmsl\<close>; the size of the array in bytes is taken to fit an \<open>int\<close>.
\<close>

definition to_int :: "int \<Rightarrow> int" where
  "to_int x = (x + 2 ^ 31) mod 2 ^ 32 - 2 ^ 31"

definition newary :: "sem_env \<Rightarrow> int \<Rightarrow> int \<Rightarrow> errno option \<Rightarrow> int \<Rightarrow> (sem_array \<times> int) outcome" where
  "newary env used_sems sc_semmns addid nsems =
    (if nsems = 0 then Err EINVAL
     else if to_int (used_sems + nsems) > sc_semmns then Err ENOSPC
     else if no_memory env then Err ENOMEM
     else case security env of
       Some e \<Rightarrow> Err e
     | None \<Rightarrow>
        case addid of
          Some e \<Rightarrow> Err e
        | None \<Rightarrow>
           Val (\<lparr>sem_base = replicate (nat nsems) \<lparr>semval = 0, sempid = 0, sem_simple = []\<rparr>, sem_pending = [],
                 complex_count = 0, sem_undos = Map.empty, sem_otime = 0, sem_ctime = now env\<rparr>,
                to_int (used_sems + nsems)))"

fun remove_all :: "sem_queue list \<Rightarrow> sem_array \<Rightarrow> wakeups \<Rightarrow> sem_array \<times> wakeups" where
  "remove_all [] sma tasks = (sma, tasks)"
| "remove_all (q # qs) sma tasks =
    remove_all qs (unlink_queue sma q) (wake_up_sem_queue_prepare tasks q (Semop_fail EIDRM))"

definition freeary :: "int \<Rightarrow> sem_array \<Rightarrow> sem_array \<times> wakeups \<times> int" where
  "freeary used_sems sma =
    (case remove_all (sem_pending sma) (sma\<lparr>sem_undos := Map.empty\<rparr>) [] of
       (sma', tasks) \<Rightarrow> (sma', tasks, to_int (used_sems - int (length (sem_base sma)))))"

fun undo_adjust :: "int \<Rightarrow> int list \<Rightarrow> sem list \<Rightarrow> sem list" where
  "undo_adjust pid (adj # adjs) (s # base) =
    (if adj \<noteq> 0
     then (let v = semval s + adj; v = (if v < 0 then 0 else v); v = (if v > SEMVMX then SEMVMX else v) in
           s\<lparr>semval := v, sempid := pid\<rparr>)
     else s) # undo_adjust pid adjs base"
| "undo_adjust pid [] base = base"
| "undo_adjust pid (adj # adjs) [] = []"

text \<open>What \<open>exit_sem\<close> does to one array with the undo structure of the list \<open>ulp\<close>.\<close>

definition exit_undo :: "int \<Rightarrow> int \<Rightarrow> nat \<Rightarrow> sem_array \<Rightarrow> (sem_array \<times> wakeups) outcome" where
  "exit_undo t pid ulp sma =
    (case sem_undos sma ulp of
       None \<Rightarrow> Val (sma, [])
     | Some adj \<Rightarrow>
        if length adj < length (sem_base sma) then Trap
        else do_smart_update t
          (sma\<lparr>sem_undos := (sem_undos sma)(ulp := None), sem_base := undo_adjust pid adj (sem_base sma)\<rparr>)
          None True [])"

subsection \<open>Tasks and their undo lists\<close>

text \<open>
  The tasks that share one array.  \<open>undo_list_of\<close> is \<open>sysvsem.undo_list\<close> of each live task (\<open>Some None\<close>
  the null pointer), \<open>undo_refcnt\<close> the reference counts of the allocated undo lists.
\<close>

record sem_sys =
  sys_array :: sem_array
  undo_list_of :: "nat \<rightharpoonup> nat option"
  undo_refcnt :: "nat \<rightharpoonup> int"

text \<open>\<open>fresh\<close> is the undo list that \<open>kzalloc\<close> returns.\<close>

definition get_undo_list :: "sem_env \<Rightarrow> nat \<Rightarrow> nat \<Rightarrow> sem_sys \<Rightarrow> (nat \<times> sem_sys) outcome" where
  "get_undo_list env fresh task sys =
    (case undo_list_of sys task of
       None \<Rightarrow> Trap
     | Some (Some ulp) \<Rightarrow> Val (ulp, sys)
     | Some None \<Rightarrow>
        if no_memory env then Err ENOMEM
        else Val (fresh, sys\<lparr>undo_list_of := (undo_list_of sys)(task \<mapsto> Some fresh),
                              undo_refcnt := (undo_refcnt sys)(fresh \<mapsto> 1)\<rparr>))"

text \<open>\<open>semtimedop\<close> in a task, which gets its undo list on the way to \<open>find_alloc_undo\<close>.\<close>

definition task_semtimedop ::
    "sem_env \<Rightarrow> int \<Rightarrow> nat \<Rightarrow> int \<Rightarrow> nat \<Rightarrow> sembuf list \<Rightarrow> (int \<times> int) option \<Rightarrow> sem_sys \<Rightarrow>
     (sem_return \<times> sem_sys \<times> wakeups) outcome" where
  "task_semtimedop env semid task pid fresh sops timeout sys =
    (let got = (if semtimedop_args env semid sops timeout = None \<and> list_ex undo_flag sops
                then get_undo_list env fresh task sys else Val (fresh, sys));
         call = (\<lambda>err ulp sys'. bind_outcome
           (semtimedop (env\<lparr>undo_list := err\<rparr>) semid task pid ulp sops timeout (sys_array sys'))
           (\<lambda>(ret, sma, ws). Val (ret, sys'\<lparr>sys_array := sma\<rparr>, ws))) in
     case got of
       Trap \<Rightarrow> Trap
     | Err e \<Rightarrow> call (Some e) fresh sys
     | Val (ulp, sys') \<Rightarrow> call None ulp sys')"

text \<open>The flag is \<open>CLONE_SYSVSEM\<close>; \<open>task\<close> is the parent.\<close>

definition copy_semundo :: "sem_env \<Rightarrow> bool \<Rightarrow> nat \<Rightarrow> nat \<Rightarrow> nat \<Rightarrow> sem_sys \<Rightarrow> sem_sys outcome" where
  "copy_semundo env clone_sysvsem fresh task child sys =
    (if clone_sysvsem then
       bind_outcome (get_undo_list env fresh task sys) (\<lambda>(ulp, sys').
         case undo_refcnt sys' ulp of
           None \<Rightarrow> Trap
         | Some n \<Rightarrow>
            Val (sys'\<lparr>undo_list_of := (undo_list_of sys')(child \<mapsto> Some ulp),
                       undo_refcnt := (undo_refcnt sys')(ulp \<mapsto> n + 1)\<rparr>))
     else Val (sys\<lparr>undo_list_of := (undo_list_of sys)(child \<mapsto> None)\<rparr>))"

text \<open>The task is gone afterwards; the last one of an undo list frees the list.\<close>

definition exit_sem :: "int \<Rightarrow> int \<Rightarrow> nat \<Rightarrow> sem_sys \<Rightarrow> (sem_sys \<times> wakeups) outcome" where
  "exit_sem t pid task sys =
    (let sys1 = sys\<lparr>undo_list_of := (undo_list_of sys)(task := None)\<rparr> in
     case undo_list_of sys task of
       None \<Rightarrow> Trap
     | Some None \<Rightarrow> Val (sys1, [])
     | Some (Some ulp) \<Rightarrow>
        case undo_refcnt sys ulp of
          None \<Rightarrow> Trap
        | Some n \<Rightarrow>
           if n - 1 \<noteq> 0 then Val (sys1\<lparr>undo_refcnt := (undo_refcnt sys)(ulp \<mapsto> n - 1)\<rparr>, [])
           else bind_outcome (exit_undo t pid ulp (sys_array sys1)) (\<lambda>(sma, ws).
             Val (sys1\<lparr>sys_array := sma, undo_refcnt := (undo_refcnt sys)(ulp := None)\<rparr>, ws)))"

end
