(* ===== verification/Sem_Atomic.thy ===== *)
theory Sem_Atomic
  imports Sem
begin

text \<open>
  What \<open>try_atomic_semop\<close> of theory \<open>Sem\<close> computes: the operations of one call applied in order to the
  values, all of them or none (\<open>ref_semop\<close>), with the queues of the array untouched.
\<close>

definition svals :: "sem_array \<Rightarrow> int list" where
  "svals sma = map semval (sem_base sma)"

text \<open>The operations in order, on the values alone; the second component counts for \<open>Semop_done\<close>.\<close>

fun ref_semop :: "int list \<Rightarrow> int list option \<Rightarrow> sembuf list \<Rightarrow> semop_result \<times> int list" where
  "ref_semop vals adj [] = (Semop_done, vals)"
| "ref_semop vals adj (sop # sops) =
    (let v = vals ! sem_num sop; v' = v + sem_op sop; undo = the adj ! sem_num sop - sem_op sop in
     if sem_op sop = 0 \<and> v \<noteq> 0 \<or> v' < 0
     then (if nowait_flag sop then Semop_fail EAGAIN else Semop_sleep, vals)
     else if v' > SEMVMX \<or> undo_flag sop \<and> \<not> (- SEMAEM - 1 \<le> undo \<and> undo \<le> SEMAEM)
     then (Semop_fail ERANGE, vals)
     else ref_semop (vals[sem_num sop := v']) adj sops)"

text \<open>Operations whose accesses stay inside the array and inside the undo structure.\<close>

definition sops_fit :: "nat \<Rightarrow> int list option \<Rightarrow> sembuf list \<Rightarrow> bool" where
  "sops_fit n adj sops \<longleftrightarrow>
    (\<forall>sop\<in>set sops. sem_num sop < n \<and> (undo_flag sop \<longrightarrow> (\<exists>a. adj = Some a \<and> length a = n)))"

lemma length_semop_undo [simp]: "length (semop_undo base dn) = length base"
  by (induction base dn rule: semop_undo.induct) simp_all

lemma semop_step_undo:
  "n < length base \<Longrightarrow>
   (let b' = base[n := (base ! n)\<lparr>semval := semval (base ! n) + d\<rparr>]
    in b'[n := (b' ! n)\<lparr>semval := semval (b' ! n) - d\<rparr>]) = base"
  by (simp add: Let_def)

lemma undo_exceeds_fit:
  "sops_fit n adj (sop # sops) \<Longrightarrow>
   undo_exceeds adj sop = Val (undo_flag sop \<and>
     \<not> (- SEMAEM - 1 \<le> the adj ! sem_num sop - sem_op sop \<and> the adj ! sem_num sop - sem_op sop \<le> SEMAEM))"
  by (auto simp: undo_exceeds_def sops_fit_def Let_def)

definition stop_result :: "semop_stop \<Rightarrow> semop_result" where
  "stop_result stop =
    (case stop of Stop_done \<Rightarrow> Semop_done | Stop_range \<Rightarrow> Semop_fail ERANGE
     | Stop_block sop \<Rightarrow> if nowait_flag sop then Semop_fail EAGAIN else Semop_sleep)"

text \<open>
  The loop follows the reference; undoing what it has done gives the array back, and it changes
  nothing but values.
\<close>

lemma semop_loop_ref:
  assumes "sops_fit (length base) adj sops"
  shows "\<exists>stop base' dn'. semop_loop adj base dn sops = Val (stop, base', dn') \<and>
    stop_result stop = fst (ref_semop (map semval base) adj sops) \<and>
    semop_undo base' dn' = semop_undo base dn \<and> length base' = length base \<and>
    map sem_simple base' = map sem_simple base \<and>
    (stop = Stop_done \<longrightarrow> map semval base' = snd (ref_semop (map semval base) adj sops) \<and> dn' = rev sops @ dn)"
  using assms
proof (induction sops arbitrary: base dn)
  case Nil
  then show ?case by (simp add: stop_result_def)
next
  case (Cons sop sops)
  let ?n = "sem_num sop"
  let ?b = "base[?n := (base ! ?n)\<lparr>semval := semval (base ! ?n) + sem_op sop\<rparr>]"
  have n: "?n < length base" using Cons.prems by (simp add: sops_fit_def)
  have fit: "sops_fit (length ?b) adj sops" using Cons.prems by (simp add: sops_fit_def)
  note ex = undo_exceeds_fit [OF Cons.prems]
  have vals: "map semval ?b = (map semval base)[?n := map semval base ! ?n + sem_op sop]"
    using n by (simp add: map_update)
  have simple: "map sem_simple ?b = map sem_simple base"
    using n by (simp add: map_update list_update_same_conv)
  have undo: "semop_undo ?b (sop # dn) = semop_undo base dn"
    using semop_step_undo [OF n, of "sem_op sop"] by (simp add: Let_def)
  show ?case
  proof (cases "sem_op sop = 0 \<and> semval (base ! ?n) \<noteq> 0 \<or> semval (base ! ?n) + sem_op sop < 0 \<or>
      semval (base ! ?n) + sem_op sop > SEMVMX \<or>
      undo_flag sop \<and> \<not> (- SEMAEM - 1 \<le> the adj ! ?n - sem_op sop \<and> the adj ! ?n - sem_op sop \<le> SEMAEM)")
    case True
    then show ?thesis
      using n ex by (auto simp: Let_def stop_result_def)
  next
    case False
    then have step: "semop_loop adj base dn (sop # sops) = semop_loop adj ?b (sop # dn) sops"
      using n ex by (auto simp: Let_def)
    have ref: "ref_semop (map semval base) adj (sop # sops) = ref_semop (map semval ?b) adj sops"
      using False n unfolding vals by (auto simp: Let_def)
    from Cons.IH [OF fit, of "sop # dn"] show ?thesis
      unfolding step ref using undo simple by simp
  qed
qed

definition short_int :: "int \<Rightarrow> bool" where
  "short_int x \<longleftrightarrow> - 32768 \<le> x \<and> x \<le> 32767"

definition adj_ok :: "nat \<Rightarrow> int list option \<Rightarrow> bool" where
  "adj_ok n adj \<longleftrightarrow> (\<forall>a. adj = Some a \<longrightarrow> length a = n \<and> (\<forall>x\<in>set a. short_int x))"

definition undos_ok :: "sem_array \<Rightarrow> bool" where
  "undos_ok sma \<longleftrightarrow> (\<forall>u. adj_ok (length (sem_base sma)) (sem_undos sma u))"

lemma short_to_short [simp]: "short_int (to_short x)"
  using pos_mod_bound [of 65536 "x + 32768"] by (simp add: to_short_def short_int_def)

lemma to_short_id: "short_int x \<Longrightarrow> to_short x = x"
  by (simp add: to_short_def short_int_def)

lemma set_pid_keeps:
  "map semval (base[n := (base ! n)\<lparr>sempid := pid\<rparr>]) = map semval base"
  "map sem_simple (base[n := (base ! n)\<lparr>sempid := pid\<rparr>]) = map sem_simple base"
  by (cases "n < length base";
      simp add: map_update list_update_same_conv list_update_beyond not_less)+

lemma adj_ok_to_short: "adj_ok n adj \<Longrightarrow> adj_ok n (map_option (\<lambda>a. a[i := to_short (g a)]) adj)"
proof -
  have "short_int y" if "y \<in> set (a[i := to_short (g a)])" "\<forall>x\<in>set a. short_int x" for y a
    using that set_update_subset_insert [of a i "to_short (g a)"] by auto
  then show "adj_ok n adj \<Longrightarrow> adj_ok n (map_option (\<lambda>a. a[i := to_short (g a)]) adj)"
    by (auto simp: adj_ok_def)
qed

lemma semop_commit_base:
  "semop_commit pid base adj dn = (base', adj') \<Longrightarrow>
   map semval base' = map semval base \<and> map sem_simple base' = map sem_simple base \<and> length base' = length base"
  by (induction pid base adj dn rule: semop_commit.induct) (auto simp: set_pid_keeps)

lemma semop_commit_adj:
  "semop_commit pid base adj dn = (base', adj') \<Longrightarrow>
   (adj' = None \<longleftrightarrow> adj = None) \<and> (adj_ok n adj \<longrightarrow> adj_ok n adj')"
proof (induction pid base adj dn rule: semop_commit.induct)
  case (2 pid base adj sop dn)
  then show ?case by (cases "undo_flag sop") (auto simp: adj_ok_to_short)
qed simp

lemma semop_commit_zero:
  "semop_commit pid base adj dn = (base', adj') \<Longrightarrow> \<forall>sop\<in>set dn. sem_op sop = 0 \<Longrightarrow> adj_ok n adj \<Longrightarrow>
   \<forall>sop\<in>set dn. sem_num sop < n \<Longrightarrow> adj' = adj"
proof (induction pid base adj dn rule: semop_commit.induct)
  case (2 pid base adj sop dn)
  have "(if undo_flag sop then map_option (\<lambda>a. a[sem_num sop := to_short (a ! sem_num sop - sem_op sop)]) adj else adj) = adj"
    using 2(3-5) by (cases adj) (auto simp: adj_ok_def to_short_id list_update_same_conv)
  with 2 show ?case by simp
qed simp

text \<open>Two arrays with the same queues, up to values, process ids and adjustments.\<close>

definition same_queues :: "sem_array \<Rightarrow> sem_array \<Rightarrow> bool" where
  "same_queues sma sma' \<longleftrightarrow> sem_pending sma' = sem_pending sma \<and> complex_count sma' = complex_count sma \<and>
    length (sem_base sma') = length (sem_base sma) \<and>
    map sem_simple (sem_base sma') = map sem_simple (sem_base sma) \<and> dom (sem_undos sma') = dom (sem_undos sma)"

lemma try_atomic_ref:
  assumes "sops_fit (length (sem_base sma)) (undo_of sma un) sops" "undos_ok sma"
  obtains r sma' where "try_atomic_semop sma sops un pid = Val (r, sma')"
    "r = fst (ref_semop (svals sma) (undo_of sma un) sops)"
    "r \<noteq> Semop_done \<longrightarrow> sma' = sma"
    "r = Semop_done \<longrightarrow> svals sma' = snd (ref_semop (svals sma) (undo_of sma un) sops)"
    "same_queues sma sma'" "undos_ok sma'"
    "\<forall>u. un \<noteq> Some u \<longrightarrow> sem_undos sma' u = sem_undos sma u"
    "sem_otime sma' = sem_otime sma" "sem_ctime sma' = sem_ctime sma"
    "(\<forall>sop\<in>set sops. sem_op sop = 0) \<longrightarrow> sem_undos sma' = sem_undos sma"
proof -
  from semop_loop_ref [OF assms(1), of "[]"] obtain stop base dn where
    l: "semop_loop (undo_of sma un) (sem_base sma) [] sops = Val (stop, base, dn)"
    "stop_result stop = fst (ref_semop (svals sma) (undo_of sma un) sops)"
    "semop_undo base dn = sem_base sma" "length base = length (sem_base sma)"
    "map sem_simple base = map sem_simple (sem_base sma)"
    "stop = Stop_done \<longrightarrow> map semval base = snd (ref_semop (svals sma) (undo_of sma un) sops) \<and> dn = rev sops"
    unfolding svals_def by auto
  show ?thesis
  proof (cases "stop = Stop_done")
    case False
    have "try_atomic_semop sma sops un pid = Val (stop_result stop, sma)"
      using l(1,3) False by (cases stop) (auto simp: try_atomic_semop_def stop_result_def)
    moreover have "stop_result stop \<noteq> Semop_done"
      using False by (cases stop) (auto simp: stop_result_def)
    ultimately show ?thesis
      using that [of "stop_result stop" sma] l(2) assms(2) by (simp add: same_queues_def)
  next
    case True
    obtain base' adj' where c: "semop_commit pid base (undo_of sma un) dn = (base', adj')" by fastforce
    note kb = semop_commit_base [OF c]
    note ka = semop_commit_adj [OF c, of "length (sem_base sma)"]
    let ?s = "put_undo un adj' (sma\<lparr>sem_base := base'\<rparr>)"
    have run: "try_atomic_semop sma sops un pid = Val (Semop_done, ?s)"
      using l(1) True c by (simp add: try_atomic_semop_def)
    have f: "sem_base ?s = base'" "sem_pending ?s = sem_pending sma" "complex_count ?s = complex_count sma"
      "sem_otime ?s = sem_otime sma" "sem_ctime ?s = sem_ctime sma"
      by (auto simp: put_undo_def split: option.splits)
    have u: "sem_undos ?s v = (if un = Some v then adj' else sem_undos sma v)" for v
      using ka by (auto simp: put_undo_def undo_of_def split: option.splits)
    have un: "adj_ok (length (sem_base sma)) (undo_of sma un)"
      using assms(2) by (auto simp: undos_ok_def undo_of_def adj_ok_def split: option.splits)
    show ?thesis
    proof (rule that [OF run])
      show "Semop_done = Semop_done \<longrightarrow> svals ?s = snd (ref_semop (svals sma) (undo_of sma un) sops)"
        using kb l(6) True by (simp add: svals_def f)
      have "(sem_undos ?s v = None) = (sem_undos sma v = None)" for v
        using ka unfolding u by (auto simp: undo_of_def)
      then have "dom (sem_undos ?s) = dom (sem_undos sma)" by (simp add: dom_def)
      then show "same_queues sma ?s"
        using kb l(4,5) unfolding same_queues_def f by simp
      show "undos_ok ?s"
        using assms(2) ka un kb l(4) unfolding undos_ok_def f u by auto
      show "\<forall>v. un \<noteq> Some v \<longrightarrow> sem_undos ?s v = sem_undos sma v"
        unfolding u by simp
      have "sem_undos ?s v = sem_undos sma v" if zero: "\<forall>sop\<in>set sops. sem_op sop = 0" for v
      proof -
        have "adj' = undo_of sma un"
          by (rule semop_commit_zero [OF c _ un]) (use zero l(6) True assms(1) in \<open>auto simp: sops_fit_def\<close>)
        then show ?thesis unfolding u by (auto simp: undo_of_def)
      qed
      then show "(\<forall>sop\<in>set sops. sem_op sop = 0) \<longrightarrow> sem_undos ?s = sem_undos sma" by blast
    qed (use l(2) True f in \<open>simp_all add: stop_result_def\<close>)
  qed
qed

subsection \<open>The reference\<close>

definition in_range :: "int list \<Rightarrow> bool" where
  "in_range vals \<longleftrightarrow> (\<forall>v\<in>set vals. 0 \<le> v \<and> v \<le> SEMVMX)"

definition net :: "nat \<Rightarrow> sembuf list \<Rightarrow> int" where
  "net n sops = sum_list (map sem_op (filter (\<lambda>sop. sem_num sop = n) sops))"

lemma length_ref_semop [simp]: "length (snd (ref_semop vals adj sops)) = length vals"
  by (induction vals adj sops rule: ref_semop.induct) (simp_all add: Let_def)

lemma ref_semop_range:
  "fst (ref_semop vals adj sops) = Semop_done \<Longrightarrow> in_range vals \<Longrightarrow> in_range (snd (ref_semop vals adj sops))"
proof (induction vals adj sops rule: ref_semop.induct)
  case (2 vals adj sop sops)
  let ?v = "vals ! sem_num sop + sem_op sop"
  have "in_range (vals[sem_num sop := ?v])" if "0 \<le> ?v" "?v \<le> SEMVMX"
    using 2(3) that set_update_subset_insert [of vals "sem_num sop" ?v] by (auto simp: in_range_def)
  with 2 show ?case by (auto simp: Let_def split: if_splits)
qed simp

lemma ref_semop_net:
  "fst (ref_semop vals adj sops) = Semop_done \<Longrightarrow> n < length vals \<Longrightarrow>
   snd (ref_semop vals adj sops) ! n = vals ! n + net n sops"
proof (induction vals adj sops rule: ref_semop.induct)
  case (2 vals adj sop sops)
  then show ?case by (auto simp: Let_def net_def nth_list_update split: if_splits)
qed (simp add: net_def)

lemma ref_semop_zero:
  "fst (ref_semop vals adj sops) = Semop_done \<Longrightarrow> \<forall>sop\<in>set sops. sem_op sop = 0 \<Longrightarrow>
   snd (ref_semop vals adj sops) = vals"
proof (rule nth_equalityI)
  assume zero: "\<forall>sop\<in>set sops. sem_op sop = 0"
  then have "net n sops = 0" for n by (induction sops) (auto simp: net_def)
  then show "snd (ref_semop vals adj sops) ! n = vals ! n"
    if "fst (ref_semop vals adj sops) = Semop_done" "n < length (snd (ref_semop vals adj sops))" for n
    using ref_semop_net [OF that(1), of n] that(2) by simp
qed simp

lemma net_pos: "net n sops > 0 \<Longrightarrow> \<exists>sop\<in>set sops. sem_num sop = n \<and> sem_op sop > 0"
proof (rule ccontr)
  assume "net n sops > 0" and no: "\<not> (\<exists>sop\<in>set sops. sem_num sop = n \<and> sem_op sop > 0)"
  from no have "net n sops \<le> 0"
    unfolding net_def by (intro sum_list_nonpos) (auto simp: not_less)
  with \<open>net n sops > 0\<close> show False by simp
qed

lemma net_neg: "net n sops < 0 \<Longrightarrow> \<exists>sop\<in>set sops. sem_num sop = n \<and> sem_op sop < 0"
proof (rule ccontr)
  assume "net n sops < 0" and no: "\<not> (\<exists>sop\<in>set sops. sem_num sop = n \<and> sem_op sop < 0)"
  from no have "0 \<le> net n sops"
    unfolding net_def by (intro sum_list_nonneg) (auto simp: not_less)
  with \<open>net n sops < 0\<close> show False by simp
qed

lemma ref_semop_simple:
  "fst (ref_semop vals adj [sop]) = Semop_sleep \<longleftrightarrow>
    \<not> nowait_flag sop \<and> (sem_op sop = 0 \<and> vals ! sem_num sop \<noteq> 0 \<or> vals ! sem_num sop + sem_op sop < 0)"
  by (auto simp: Let_def)

end
