(* ===== verification/Sem_Wait.thy ===== *)
theory Sem_Wait
  imports Sem_Atomic
begin

text \<open>
  The queues of sleeping semaphore operations: the invariant of a semaphore array, and that
  \<open>update_queue\<close> and \<open>do_smart_update\<close> of theory \<open>Sem\<close> complete, in the order of the queue, every sleeping
  operation that can be completed, although they scan less than the whole queue.
\<close>

subsection \<open>The invariant\<close>

definition simple_on :: "nat \<Rightarrow> sem_queue \<Rightarrow> bool" where
  "simple_on n q \<longleftrightarrow> length (q_sops q) = 1 \<and> sem_num (hd (q_sops q)) = n"

definition q_ok :: "sem_array \<Rightarrow> sem_queue \<Rightarrow> bool" where
  "q_ok sma q \<longleftrightarrow> q_sops q \<noteq> [] \<and>
    sops_fit (length (sem_base sma)) (undo_of sma (q_undo q)) (q_sops q) \<and>
    (q_alter q \<longleftrightarrow> (\<exists>sop\<in>set (q_sops q). sem_op sop \<noteq> 0)) \<and>
    (length (q_sops q) = 1 \<longrightarrow> sem_op (hd (q_sops q)) \<le> 0 \<and> \<not> nowait_flag (hd (q_sops q))) \<and>
    (\<forall>u. q_undo q = Some u \<longrightarrow> sem_undos sma u \<noteq> None)"

definition zero_first :: "sem_queue list \<Rightarrow> bool" where
  "zero_first qs \<longleftrightarrow> sorted_wrt (\<lambda>p q. q_alter p \<longrightarrow> q_alter q) qs"

definition sem_wf :: "sem_array \<Rightarrow> bool" where
  "sem_wf sma \<longleftrightarrow> in_range (svals sma) \<and> undos_ok sma \<and>
    distinct (map sleeper (sem_pending sma)) \<and> (\<forall>q\<in>set (sem_pending sma). q_ok sma q) \<and>
    (\<forall>n<length (sem_base sma). sem_simple (sem_base sma ! n) = filter (simple_on n) (sem_pending sma)) \<and>
    complex_count sma = int (length (filter (\<lambda>q. length (q_sops q) \<noteq> 1) (sem_pending sma))) \<and>
    zero_first (sem_pending sma)"

text \<open>An operation that cannot be completed now, and an array where no sleeping one can.\<close>

definition blocked :: "sem_array \<Rightarrow> sem_queue \<Rightarrow> bool" where
  "blocked sma q \<longleftrightarrow>
    fst (ref_semop (svals sma) (undo_of sma (q_undo q)) (q_sops q)) = Semop_sleep"

definition quiet :: "sem_array \<Rightarrow> bool" where
  "quiet sma \<longleftrightarrow> (\<forall>q\<in>set (sem_pending sma). blocked sma q)"

lemma q_ok_num: "q_ok sma q \<Longrightarrow> sem_num (hd (q_sops q)) < length (sem_base sma)"
  unfolding q_ok_def sops_fit_def using list.set_sel(1) by blast

lemma svals_nth [simp]: "n < length (sem_base sma) \<Longrightarrow> svals sma ! n = semval (sem_base sma ! n)"
  by (simp add: svals_def)

lemma length_svals [simp]: "length (svals sma) = length (sem_base sma)"
  by (simp add: svals_def)

lemma undos_ok_length: "undos_ok sma \<Longrightarrow> undo_of sma un = Some a \<Longrightarrow> length a = length (sem_base sma)"
  by (auto simp: undos_ok_def adj_ok_def undo_of_def split: option.splits)

lemma q_ok_same:
  assumes "q_ok sma q" "same_queues sma sma'" "undos_ok sma'"
  shows "q_ok sma' q"
proof -
  have d: "sem_undos sma' u = None \<longleftrightarrow> sem_undos sma u = None" for u
    using assms(2) unfolding same_queues_def by (metis domIff)
  have "\<exists>a. undo_of sma' (q_undo q) = Some a \<and> length a = length (sem_base sma)"
    if "undo_of sma (q_undo q) = Some b" for b
  proof -
    from that d have "undo_of sma' (q_undo q) \<noteq> None"
      by (auto simp: undo_of_def split: option.splits) (metis not_None_eq option.distinct(1))+
    then obtain a where "undo_of sma' (q_undo q) = Some a" by auto
    with undos_ok_length [OF assms(3) this] assms(2) show ?thesis by (simp add: same_queues_def)
  qed
  then show ?thesis
    using assms(1,2) d unfolding q_ok_def sops_fit_def same_queues_def by auto
qed

lemma wf_same_queues:
  assumes "sem_wf sma" "same_queues sma sma'" "in_range (svals sma')" "undos_ok sma'"
  shows "sem_wf sma'"
proof -
  have "sem_simple (sem_base sma' ! n) = sem_simple (sem_base sma ! n)" if "n < length (sem_base sma)" for n
    using assms(2) that unfolding same_queues_def by (metis length_map nth_map)
  then show ?thesis
    using assms q_ok_same [OF _ assms(2,4)] unfolding sem_wf_def same_queues_def by auto
qed

lemma wf_sleepers:
  "sem_wf sma \<Longrightarrow> p \<in> set (sem_pending sma) \<Longrightarrow> q \<in> set (sem_pending sma) \<Longrightarrow> sleeper p = sleeper q \<longleftrightarrow> p = q"
  unfolding sem_wf_def by (auto simp: distinct_map inj_on_def)

lemma list_del_set:
  assumes "sem_wf sma" "q \<in> set (sem_pending sma)" "set qs \<subseteq> set (sem_pending sma)"
  shows "list_del q qs = filter (\<lambda>x. x \<noteq> q) qs"
  unfolding list_del_def using wf_sleepers [OF assms(1) _ assms(2)] assms(3)
  by (intro filter_cong) auto

lemma unlink_fields:
  "sem_pending (unlink_queue sma q) = list_del q (sem_pending sma)"
  "length (sem_base (unlink_queue sma q)) = length (sem_base sma)"
  "svals (unlink_queue sma q) = svals sma" "sem_undos (unlink_queue sma q) = sem_undos sma"
proof -
  have "map semval (base[n := (base ! n)\<lparr>sem_simple := l\<rparr>]) = map semval base" for base :: "sem list" and n l
    by (cases "n < length base") (simp_all add: map_update list_update_same_conv list_update_beyond not_less)
  then show "svals (unlink_queue sma q) = svals sma"
    by (simp add: unlink_queue_def svals_def Let_def)
qed (simp_all add: unlink_queue_def Let_def)

lemma unlink_blocked [simp]: "blocked (unlink_queue sma q) p = blocked sma p"
  by (simp add: blocked_def unlink_fields undo_of_def cong: option.case_cong)

lemma unlink_q_ok [simp]: "q_ok (unlink_queue sma q) p = q_ok sma p"
  by (simp add: q_ok_def unlink_fields undo_of_def cong: option.case_cong)

lemma filter_remove_length:
  "distinct qs \<Longrightarrow> q \<in> set qs \<Longrightarrow> P q \<Longrightarrow> length (filter P (filter (\<lambda>x. x \<noteq> q) qs)) + 1 = length (filter P qs)"
  by (induction qs) (auto intro!: arg_cong [where f = length] filter_cong)

lemma unlink_wf:
  assumes wf: "sem_wf sma" and q: "q \<in> set (sem_pending sma)"
  shows "sem_wf (unlink_queue sma q)"
proof -
  let ?s = "unlink_queue sma q"
  have p: "sem_pending ?s = filter (\<lambda>x. x \<noteq> q) (sem_pending sma)"
    using list_del_set [OF wf q] by (simp add: unlink_fields)
  have dist: "distinct (sem_pending sma)" using wf by (simp add: sem_wf_def distinct_map)
  have simple: "sem_simple (sem_base ?s ! n) = filter (simple_on n) (sem_pending ?s)"
    if n: "n < length (sem_base ?s)" for n
  proof -
    have old: "sem_simple (sem_base sma ! n) = filter (simple_on n) (sem_pending sma)"
      using wf n by (simp add: sem_wf_def unlink_fields)
    have del: "list_del q (filter (simple_on n) (sem_pending sma)) = filter (simple_on n) (sem_pending ?s)"
      unfolding p by (subst list_del_set [OF wf q]) (auto simp: conj_commute)
    have keep: "\<not> simple_on n q \<Longrightarrow> filter (simple_on n) (sem_pending ?s) = filter (simple_on n) (sem_pending sma)"
      unfolding p by (auto simp: filter_filter intro!: filter_cong)
    show ?thesis
    proof (cases "simple_on n q")
      case True
      then have "sem_simple (sem_base ?s ! n) = list_del q (sem_simple (sem_base sma ! n))"
        using n by (simp add: unlink_queue_def Let_def simple_on_def)
      then show ?thesis unfolding old del .
    next
      case False
      then have "sem_simple (sem_base ?s ! n) = sem_simple (sem_base sma ! n)"
        using n by (auto simp: unlink_queue_def Let_def simple_on_def nth_list_update)
      then show ?thesis using keep [OF False] old by simp
    qed
  qed
  have count: "complex_count ?s = int (length (filter (\<lambda>q. length (q_sops q) \<noteq> 1) (sem_pending ?s)))"
  proof (cases "length (q_sops q) = 1")
    case True
    then have "filter (\<lambda>q. length (q_sops q) \<noteq> 1) (sem_pending ?s) =
        filter (\<lambda>q. length (q_sops q) \<noteq> 1) (sem_pending sma)"
      unfolding p by (auto simp: filter_filter intro!: filter_cong)
    then show ?thesis using wf True by (simp add: sem_wf_def unlink_queue_def Let_def)
  next
    case False
    then show ?thesis
      using wf filter_remove_length [OF dist q, of "\<lambda>q. length (q_sops q) \<noteq> 1"]
      unfolding p by (simp add: sem_wf_def unlink_queue_def Let_def)
  qed
  show ?thesis
    unfolding sem_wf_def
  proof (intro conjI)
    show "undos_ok ?s" using wf by (simp add: sem_wf_def undos_ok_def unlink_fields)
    show "distinct (map sleeper (sem_pending ?s))"
      using wf unfolding p by (simp add: sem_wf_def distinct_map_filter)
    show "\<forall>p\<in>set (sem_pending ?s). q_ok ?s p"
      using wf unfolding p by (simp add: sem_wf_def)
    show "zero_first (sem_pending ?s)"
      using wf unfolding p by (simp add: sem_wf_def zero_first_def sorted_wrt_filter)
  qed (use wf simple count in \<open>simp_all add: sem_wf_def unlink_fields\<close>)
qed

subsection \<open>One sleeping operation\<close>

lemma same_queues_refl [simp]: "same_queues sma sma"
  by (simp add: same_queues_def)

lemma try_wf:
  assumes wf: "sem_wf sma" and fit: "sops_fit (length (sem_base sma)) (undo_of sma un) sops"
  obtains r sma' where "try_atomic_semop sma sops un pid = Val (r, sma')"
    "r = fst (ref_semop (svals sma) (undo_of sma un) sops)" "sem_wf sma'"
    "r \<noteq> Semop_done \<longrightarrow> sma' = sma"
    "r = Semop_done \<longrightarrow> svals sma' = snd (ref_semop (svals sma) (undo_of sma un) sops)"
    "same_queues sma sma'" "\<forall>u. un \<noteq> Some u \<longrightarrow> sem_undos sma' u = sem_undos sma u"
    "(\<forall>sop\<in>set sops. sem_op sop = 0) \<longrightarrow> sem_undos sma' = sem_undos sma"
proof -
  have u: "undos_ok sma" using wf by (simp add: sem_wf_def)
  obtain r sma' where t: "try_atomic_semop sma sops un pid = Val (r, sma')"
    "r = fst (ref_semop (svals sma) (undo_of sma un) sops)" "r \<noteq> Semop_done \<longrightarrow> sma' = sma"
    "r = Semop_done \<longrightarrow> svals sma' = snd (ref_semop (svals sma) (undo_of sma un) sops)"
    "same_queues sma sma'" "undos_ok sma'" "\<forall>u. un \<noteq> Some u \<longrightarrow> sem_undos sma' u = sem_undos sma u"
    "(\<forall>sop\<in>set sops. sem_op sop = 0) \<longrightarrow> sem_undos sma' = sem_undos sma"
    by (rule try_atomic_ref [OF fit u, of pid]) blast
  have "in_range (svals sma')"
  proof (cases "r = Semop_done")
    case True
    then show ?thesis
      using t(2,4) ref_semop_range [of "svals sma" "undo_of sma un" sops] wf by (simp add: sem_wf_def)
  next
    case False
    then show ?thesis using t(3) wf by (simp add: sem_wf_def)
  qed
  from wf_same_queues [OF wf t(5) this t(6)] that [OF t(1,2)] t show ?thesis by blast
qed

text \<open>The values only fall on the semaphore of a completed simple operation.\<close>

lemma simple_sops: "length (q_sops q) = 1 \<Longrightarrow> q_sops q = [hd (q_sops q)]"
  by (cases "q_sops q") auto

lemma blocked_simple:
  "length (q_sops q) = 1 \<Longrightarrow> blocked sma q \<longleftrightarrow> \<not> nowait_flag (hd (q_sops q)) \<and>
    (sem_op (hd (q_sops q)) = 0 \<and> svals sma ! sem_num (hd (q_sops q)) \<noteq> 0 \<or>
     svals sma ! sem_num (hd (q_sops q)) + sem_op (hd (q_sops q)) < 0)"
  unfolding blocked_def using simple_sops [of q] ref_semop_simple by metis

lemma blocked_cong:
  "svals sma' = svals sma \<Longrightarrow> sem_undos sma' = sem_undos sma \<Longrightarrow> blocked sma' q = blocked sma q"
  by (simp add: blocked_def undo_of_def cong: option.case_cong)

lemma complex_zero:
  assumes "sem_wf sma" "complex_count sma = 0" "p \<in> set (sem_pending sma)"
  shows "length (q_sops p) = 1"
  using assms unfolding sem_wf_def by (auto simp: filter_empty_conv)

lemma simple_list_head:
  assumes wf: "sem_wf sma" and n: "n < length (sem_base sma)"
    and p: "p \<in> set (sem_pending sma)" "simple_on n p" "\<not> q_alter p"
  shows "sem_simple (sem_base sma ! n) \<noteq> []" "\<not> q_alter (hd (sem_simple (sem_base sma ! n)))"
proof -
  have l: "sem_simple (sem_base sma ! n) = filter (simple_on n) (sem_pending sma)"
    using wf n by (simp add: sem_wf_def)
  then have mem: "p \<in> set (sem_simple (sem_base sma ! n))" using p by simp
  then show "sem_simple (sem_base sma ! n) \<noteq> []" by auto
  have "sorted_wrt (\<lambda>p q. q_alter p \<longrightarrow> q_alter q) (sem_simple (sem_base sma ! n))"
    unfolding l using wf by (simp add: sem_wf_def zero_first_def sorted_wrt_filter)
  then show "\<not> q_alter (hd (sem_simple (sem_base sma ! n)))"
    using mem p(3) by (cases "sem_simple (sem_base sma ! n)") auto
qed

lemma alter_simple:
  assumes "q_ok sma q" "length (q_sops q) = 1"
  shows "q_alter q \<longleftrightarrow> sem_op (hd (q_sops q)) < 0" "\<not> q_alter q \<longleftrightarrow> sem_op (hd (q_sops q)) = 0"
  using assms simple_sops [OF assms(2)] unfolding q_ok_def by (metis list.set_intros(1) list.set_sel(1) nless_le set_ConsD empty_iff empty_set)+

text \<open>
  \<open>check_restart\<close> never runs into a \<open>BUG_ON\<close>, and when it does not ask for a restart, everything that
  was blocked before the operation \<open>q\<close> still is.
\<close>

lemma check_restart_total:
  assumes wf: "sem_wf sma" and q: "q_ok sma q"
  obtains b where "check_restart sma q = Val b"
    "\<not> b \<and> q_alter q \<longrightarrow> complex_count sma = 0 \<and> length (q_sops q) = 1 \<and>
      (svals sma ! sem_num (hd (q_sops q)) \<noteq> 0 \<or>
       (\<forall>p\<in>set (sem_pending sma). simple_on (sem_num (hd (q_sops q))) p \<longrightarrow> q_alter p))"
proof (cases "q_alter q \<and> complex_count sma = 0 \<and> length (q_sops q) = 1")
  case False
  then have "check_restart sma q = Val (q_alter q)"
    using q unfolding check_restart_def q_ok_def by (cases "q_sops q") auto
  with that [of "q_alter q"] show ?thesis by simp
next
  case True
  let ?n = "sem_num (hd (q_sops q))"
  let ?l = "sem_simple (sem_base sma ! ?n)"
  have n: "?n < length (sem_base sma)"
    by (rule q_ok_num [OF q])
  have l: "?l = filter (simple_on ?n) (sem_pending sma)" using wf n by (simp add: sem_wf_def)
  have neg: "sem_op (hd (q_sops q)) < 0" using alter_simple [OF q] True by blast
  have head: "length (q_sops (hd ?l)) = 1 \<and> sem_num (hd (q_sops (hd ?l))) = ?n" if "?l \<noteq> []"
  proof -
    from that have "hd ?l \<in> set ?l" by simp
    then show ?thesis unfolding l by (simp add: simple_on_def)
  qed
  have hok: "q_ok sma (hd ?l)" if "?l \<noteq> []"
  proof -
    from that have "hd ?l \<in> set ?l" by simp
    then have "hd ?l \<in> set (sem_pending sma)" unfolding l by simp
    then show ?thesis using wf by (simp add: sem_wf_def)
  qed
  let ?b = "?l \<noteq> [] \<and> semval (sem_base sma ! ?n) = 0 \<and> sem_op (hd (q_sops (hd ?l))) = 0"
  have run: "check_restart sma q = Val ?b"
    using True n neg head unfolding check_restart_def Let_def by auto
  show ?thesis
  proof (rule that [OF run])
    have "q_alter p" if no: "\<not> ?b" and p: "p \<in> set (sem_pending sma)" "simple_on ?n p" "svals sma ! ?n = 0" for p
    proof (rule ccontr)
      assume "\<not> q_alter p"
      from simple_list_head [OF wf n p(1,2) this] have "?l \<noteq> []" "\<not> q_alter (hd ?l)" by simp_all
      with alter_simple(2) [OF hok] head no p(3) n show False by simp
    qed
    then show "\<not> ?b \<and> q_alter q \<longrightarrow> complex_count sma = 0 \<and> length (q_sops q) = 1 \<and>
      (svals sma ! ?n \<noteq> 0 \<or> (\<forall>p\<in>set (sem_pending sma). simple_on ?n p \<longrightarrow> q_alter p))"
      using True by blast
  qed
qed

subsection \<open>Sequences of wake-ups\<close>

text \<open>Wake-ups in which each entry leaves the queue with the result of its operation on the array then.\<close>

inductive wake_steps :: "sem_array \<Rightarrow> wakeups \<Rightarrow> sem_array \<Rightarrow> bool" where
  wake_nil: "wake_steps sma [] sma"
| wake_cons: "q \<in> set (sem_pending sma) \<Longrightarrow>
    try_atomic_semop sma (q_sops q) (q_undo q) (q_pid q) = Val (r, sma1) \<Longrightarrow> r \<noteq> Semop_sleep \<Longrightarrow>
    wake_steps (unlink_queue sma1 q) ws sma' \<Longrightarrow> wake_steps sma ((q, r) # ws) sma'"

text \<open>The same, where each entry is the first of the queue that can be completed.\<close>

inductive fifo_steps :: "sem_array \<Rightarrow> wakeups \<Rightarrow> sem_array \<Rightarrow> bool" where
  fifo_nil: "fifo_steps sma [] sma"
| fifo_cons: "sem_pending sma = ps @ q # qs \<Longrightarrow> \<forall>p\<in>set ps. blocked sma p \<Longrightarrow>
    try_atomic_semop sma (q_sops q) (q_undo q) (q_pid q) = Val (r, sma1) \<Longrightarrow> r \<noteq> Semop_sleep \<Longrightarrow>
    fifo_steps (unlink_queue sma1 q) ws sma' \<Longrightarrow> fifo_steps sma ((q, r) # ws) sma'"

lemma wake_steps_append: "wake_steps a xs b \<Longrightarrow> wake_steps b ys c \<Longrightarrow> wake_steps a (xs @ ys) c"
  by (induction rule: wake_steps.induct) (auto intro: wake_cons)

lemma fifo_steps_append: "fifo_steps a xs b \<Longrightarrow> fifo_steps b ys c \<Longrightarrow> fifo_steps a (xs @ ys) c"
  by (induction rule: fifo_steps.induct) (auto intro: fifo_cons)

text \<open>Completing the operation \<open>q\<close>: what changes, and what stays blocked.\<close>

lemma complete_step:
  assumes wf: "sem_wf sma" and q: "q \<in> set (sem_pending sma)"
  obtains r sma1 where
    "try_atomic_semop sma (q_sops q) (q_undo q) (q_pid q) = Val (r, sma1)"
    "r = Semop_sleep \<longleftrightarrow> blocked sma q" "sem_wf sma1" "r \<noteq> Semop_done \<longrightarrow> sma1 = sma"
    "same_queues sma sma1" "sem_wf (unlink_queue sma1 q)"
    "sem_pending (unlink_queue sma1 q) = filter (\<lambda>x. x \<noteq> q) (sem_pending sma)"
    "r = Semop_done \<longrightarrow> (\<forall>m<length (sem_base sma). svals sma1 ! m = svals sma ! m + net m (q_sops q))"
    "(\<forall>sop\<in>set (q_sops q). sem_op sop = 0) \<longrightarrow> svals sma1 = svals sma \<and> sem_undos sma1 = sem_undos sma"
proof -
  have ok: "q_ok sma q" using wf q by (simp add: sem_wf_def)
  then have fit: "sops_fit (length (sem_base sma)) (undo_of sma (q_undo q)) (q_sops q)" by (simp add: q_ok_def)
  obtain r sma1 where t: "try_atomic_semop sma (q_sops q) (q_undo q) (q_pid q) = Val (r, sma1)"
    "r = fst (ref_semop (svals sma) (undo_of sma (q_undo q)) (q_sops q))" "sem_wf sma1"
    "r \<noteq> Semop_done \<longrightarrow> sma1 = sma"
    "r = Semop_done \<longrightarrow> svals sma1 = snd (ref_semop (svals sma) (undo_of sma (q_undo q)) (q_sops q))"
    "same_queues sma sma1" "(\<forall>sop\<in>set (q_sops q). sem_op sop = 0) \<longrightarrow> sem_undos sma1 = sem_undos sma"
    by (rule try_wf [OF wf fit, of "q_pid q"]) blast
  have q1: "q \<in> set (sem_pending sma1)" using q t(6) by (simp add: same_queues_def)
  show ?thesis
  proof (rule that [OF t(1) _ t(3,4,6) unlink_wf [OF t(3) q1]])
    show "r = Semop_sleep \<longleftrightarrow> blocked sma q" using t(2) by (simp add: blocked_def)
    show "sem_pending (unlink_queue sma1 q) = filter (\<lambda>x. x \<noteq> q) (sem_pending sma)"
      using list_del_set [OF t(3) q1] t(6) by (simp add: unlink_fields same_queues_def)
    show "r = Semop_done \<longrightarrow> (\<forall>m<length (sem_base sma). svals sma1 ! m = svals sma ! m + net m (q_sops q))"
      using t(2,5) ref_semop_net [of "svals sma" "undo_of sma (q_undo q)" "q_sops q"] by simp
    show "(\<forall>sop\<in>set (q_sops q). sem_op sop = 0) \<longrightarrow> svals sma1 = svals sma \<and> sem_undos sma1 = sem_undos sma"
      using t(2,4,5,7) ref_semop_zero [of "svals sma" "undo_of sma (q_undo q)" "q_sops q"] by metis
  qed
qed

lemma net_simple: "length (q_sops q) = 1 \<Longrightarrow>
  net m (q_sops q) = (if m = sem_num (hd (q_sops q)) then sem_op (hd (q_sops q)) else 0)"
  by (cases "q_sops q") (auto simp: net_def)

lemma no_restart_blocked:
  assumes wf: "sem_wf sma" "sem_wf sma2" and q: "q_ok sma q"
    and sub: "set (sem_pending sma2) \<subseteq> set (sem_pending sma)" "length (sem_base sma2) = length (sem_base sma)"
    and vals: "\<forall>m<length (sem_base sma). svals sma2 ! m = svals sma ! m + net m (q_sops q)"
    and zero: "(\<forall>sop\<in>set (q_sops q). sem_op sop = 0) \<longrightarrow> svals sma2 = svals sma \<and> sem_undos sma2 = sem_undos sma"
    and no: "q_alter q \<longrightarrow> complex_count sma2 = 0 \<and> length (q_sops q) = 1 \<and>
      (svals sma2 ! sem_num (hd (q_sops q)) \<noteq> 0 \<or>
       (\<forall>p\<in>set (sem_pending sma2). simple_on (sem_num (hd (q_sops q))) p \<longrightarrow> q_alter p))"
    and p: "p \<in> set (sem_pending sma2)" "blocked sma p"
  shows "blocked sma2 p"
proof (cases "q_alter q")
  case False
  then have "\<forall>sop\<in>set (q_sops q). sem_op sop = 0" using q by (auto simp: q_ok_def)
  with zero p(2) blocked_cong show ?thesis by blast
next
  case True
  with no have c: "complex_count sma2 = 0" and lq: "length (q_sops q) = 1" by simp_all
  have lp: "length (q_sops p) = 1" by (rule complex_zero [OF wf(2) c p(1)])
  have okp: "q_ok sma p" "q_ok sma2 p" using wf sub(1) p(1) by (auto simp: sem_wf_def)
  have neg: "sem_op (hd (q_sops q)) < 0" using alter_simple(1) [OF q lq] True by simp
  let ?n = "sem_num (hd (q_sops q))" and ?m = "sem_num (hd (q_sops p))"
  have m: "?m < length (sem_base sma)"
    by (rule q_ok_num [OF okp(1)])
  have v: "svals sma2 ! ?m = svals sma ! ?m + (if ?m = ?n then sem_op (hd (q_sops q)) else 0)"
    using vals m net_simple [OF lq, of ?m] by simp
  have "sem_op (hd (q_sops p)) = 0 \<Longrightarrow> ?m = ?n \<Longrightarrow> svals sma2 ! ?n \<noteq> 0"
    using no True alter_simple(2) [OF okp(2) lp] p(1) lp unfolding simple_on_def by auto
  then show ?thesis
    using p(2) v neg unfolding blocked_simple [OF lp] by (auto split: if_splits)
qed

lemma walk_tl:
  assumes "distinct qs" "q # walk = filter (\<lambda>x. x \<in> set (q # walk)) qs"
  shows "walk = filter (\<lambda>x. x \<in> set walk) qs" "walk = filter (\<lambda>x. x \<in> set walk) (filter (\<lambda>x. x \<noteq> q) qs)"
    "q \<in> set qs" "q \<notin> set walk"
proof -
  have "distinct (q # walk)" using assms by (metis distinct_filter)
  then show nq: "q \<notin> set walk" by simp
  have "q \<in> set (filter (\<lambda>x. x \<in> set (q # walk)) qs)"
    unfolding assms(2) [symmetric] by simp
  then show "q \<in> set qs" by simp
  have w: "filter (\<lambda>x. x \<noteq> q) walk = walk" by (rule filter_True) (use nq in auto)
  have "filter (\<lambda>x. x \<in> set walk) qs = filter (\<lambda>x. x \<noteq> q) (filter (\<lambda>x. x \<in> set (q # walk)) qs)"
    unfolding filter_filter using nq by (intro filter_cong) auto
  also have "\<dots> = filter (\<lambda>x. x \<noteq> q) (q # walk)" by (simp only: assms(2) [symmetric])
  finally show 1: "walk = filter (\<lambda>x. x \<in> set walk) qs" using w by simp
  have "filter (\<lambda>x. x \<in> set walk) (filter (\<lambda>x. x \<noteq> q) qs) = filter (\<lambda>x. x \<in> set walk) qs"
    unfolding filter_filter using nq by (intro filter_cong) auto
  with 1 show "walk = filter (\<lambda>x. x \<in> set walk) (filter (\<lambda>x. x \<noteq> q) qs)" by simp
qed

lemma walk_first:
  assumes "q # walk = filter (\<lambda>x. x \<in> set (q # walk)) qs"
  obtains ps rest where "qs = ps @ q # rest" "\<forall>p\<in>set ps. p \<notin> set (q # walk)"
proof -
  from assms obtain ps rest where "qs = ps @ q # rest" "\<forall>p\<in>set ps. \<not> p \<in> set (q # walk)"
    unfolding Cons_eq_filter_iff by blast
  with that show ?thesis by blast
qed

subsection \<open>Walks over a queue\<close>

text \<open>
  Before a walk over \<open>walk\<close>, everything else in the queue is blocked, apart from entries \<open>other\<close>
  that the caller takes care of; when the walk is over the list of one semaphore, there are only
  simple operations, and the others are not on this semaphore.
\<close>

definition walk_pre :: "nat option \<Rightarrow> (sem_queue \<Rightarrow> bool) \<Rightarrow> sem_array \<Rightarrow> sem_queue set \<Rightarrow> bool" where
  "walk_pre semnum oth sma walk \<longleftrightarrow> sem_wf sma \<and>
    (\<forall>p\<in>set (sem_pending sma). p \<in> walk \<or> blocked sma p \<or> oth p) \<and>
    (\<forall>n. semnum = Some n \<longrightarrow> n < length (sem_base sma) \<and> complex_count sma = 0 \<and>
      (\<forall>p\<in>walk. simple_on n p) \<and> (\<forall>p. oth p \<longrightarrow> \<not> simple_on n p))"

definition walk_post ::
    "nat option \<Rightarrow> (sem_queue \<Rightarrow> bool) \<Rightarrow> sem_array \<Rightarrow> wakeups \<Rightarrow> sem_array \<Rightarrow> bool" where
  "walk_post semnum oth sma ws sma' \<longleftrightarrow> sem_wf sma' \<and>
    set (sem_pending sma') \<subseteq> set (sem_pending sma) \<and>
    length (sem_pending sma') + length ws = length (sem_pending sma) \<and>
    length (sem_base sma') = length (sem_base sma) \<and>
    (complex_count sma = 0 \<longrightarrow> complex_count sma' = 0) \<and>
    (\<forall>n m. semnum = Some n \<longrightarrow> m < length (sem_base sma) \<longrightarrow> m \<noteq> n \<longrightarrow> svals sma' ! m = svals sma ! m) \<and>
    wake_steps sma ws sma' \<and> ((\<forall>p. \<not> oth p) \<longrightarrow> fifo_steps sma ws sma')"

lemma walk_post_refl: "sem_wf sma \<Longrightarrow> walk_post semnum oth sma [] sma"
  by (simp add: walk_post_def wake_nil fifo_nil)

lemma walk_post_trans:
  "walk_post semnum oth a xs b \<Longrightarrow> walk_post semnum oth b ys c \<Longrightarrow> walk_post semnum oth a (xs @ ys) c"
  unfolding walk_post_def by (auto intro: wake_steps_append fifo_steps_append)

text \<open>The first entry of the walk leaves the queue.\<close>

lemma walk_post_step:
  assumes pre: "walk_pre semnum oth sma (set (q # walk))"
    and sub: "q # walk = filter (\<lambda>x. x \<in> set (q # walk)) (sem_pending sma)"
    and t: "try_atomic_semop sma (q_sops q) (q_undo q) (q_pid q) = Val (r, sma1)" "r \<noteq> Semop_sleep"
    and c: "r \<noteq> Semop_done \<longrightarrow> sma1 = sma" "same_queues sma sma1" "sem_wf (unlink_queue sma1 q)"
      "sem_pending (unlink_queue sma1 q) = filter (\<lambda>x. x \<noteq> q) (sem_pending sma)"
      "r = Semop_done \<longrightarrow> (\<forall>m<length (sem_base sma). svals sma1 ! m = svals sma ! m + net m (q_sops q))"
  shows "walk_post semnum oth sma [(q, r)] (unlink_queue sma1 q)"
proof -
  have wf: "sem_wf sma" using pre by (simp add: walk_pre_def)
  have dist: "distinct (sem_pending sma)" using wf by (simp add: sem_wf_def distinct_map)
  note w = walk_tl [OF dist sub]
  have len: "length (sem_pending (unlink_queue sma1 q)) + 1 = length (sem_pending sma)"
    using filter_remove_length [OF dist w(3), of "\<lambda>_. True"] unfolding c(4) by simp
  have vals: "svals (unlink_queue sma1 q) ! m = svals sma ! m"
    if "semnum = Some n" "m < length (sem_base sma)" "m \<noteq> n" for n m
  proof (cases "r = Semop_done")
    case True
    have "simple_on n q" using pre that(1) by (simp add: walk_pre_def)
    then have "net m (q_sops q) = 0" using net_simple [of q m] that(3) by (auto simp: simple_on_def)
    then show ?thesis using c(5) True that(2) by (simp add: unlink_fields)
  qed (use c(1) in \<open>simp add: unlink_fields\<close>)
  have zero: "complex_count sma = 0 \<longrightarrow> complex_count (unlink_queue sma1 q) = 0"
  proof
    assume 0: "complex_count sma = 0"
    have "\<forall>p\<in>set (sem_pending (unlink_queue sma1 q)). length (q_sops p) = 1"
      unfolding c(4) using complex_zero [OF wf 0] by simp
    then show "complex_count (unlink_queue sma1 q) = 0"
      using c(3) by (simp add: sem_wf_def filter_empty_conv)
  qed
  have wake: "wake_steps sma [(q, r)] (unlink_queue sma1 q)"
    by (rule wake_cons [OF w(3) t wake_nil])
  have fifo: "fifo_steps sma [(q, r)] (unlink_queue sma1 q)" if "\<forall>p. \<not> oth p"
  proof -
    obtain ps rest where ps: "sem_pending sma = ps @ q # rest" "\<forall>p\<in>set ps. p \<notin> set (q # walk)"
      by (rule walk_first [OF sub])
    then have "\<forall>p\<in>set ps. blocked sma p" using pre that by (auto simp: walk_pre_def)
    then show ?thesis by (rule fifo_cons [OF ps(1) _ t fifo_nil])
  qed
  show ?thesis
    unfolding walk_post_def
  proof (intro conjI)
    show "set (sem_pending (unlink_queue sma1 q)) \<subseteq> set (sem_pending sma)" unfolding c(4) by auto
    show "length (sem_base (unlink_queue sma1 q)) = length (sem_base sma)"
      using c(2) by (simp add: unlink_fields same_queues_def)
  qed (use c(3) len vals zero wake fifo in simp_all)
qed

text \<open>After it, the rest of the walk can go on unless a restart is due.\<close>

lemma walk_pre_step:
  assumes pre: "walk_pre semnum oth sma (set (q # walk))"
    and sub: "q # walk = filter (\<lambda>x. x \<in> set (q # walk)) (sem_pending sma)"
    and post: "walk_post semnum oth sma [(q, r)] sma2" "sem_pending sma2 = filter (\<lambda>x. x \<noteq> q) (sem_pending sma)"
    and keep: "\<And>p. p \<in> set (sem_pending sma2) \<Longrightarrow> blocked sma p \<Longrightarrow> blocked sma2 p"
  shows "walk_pre semnum oth sma2 (set walk)"
  using assms unfolding walk_pre_def walk_post_def by auto

text \<open>With all values of one semaphore's operations fixed elsewhere, a restart begins with its list again.\<close>

lemma walk_pre_again:
  assumes pre: "walk_pre semnum oth sma W" and post: "walk_post semnum oth sma ws sma2"
  shows "walk_pre semnum oth sma2 (set (pending_list semnum sma2))"
proof (cases semnum)
  case None
  then show ?thesis using post by (auto simp: walk_pre_def walk_post_def pending_list_def)
next
  case (Some n)
  have n: "n < length (sem_base sma)" "complex_count sma = 0" "\<forall>p\<in>W. simple_on n p" "\<forall>p. oth p \<longrightarrow> \<not> simple_on n p"
    using pre Some by (simp_all add: walk_pre_def)
  have wf: "sem_wf sma" "sem_wf sma2" using pre post by (simp_all add: walk_pre_def walk_post_def)
  have l: "set (pending_list semnum sma2) = {p \<in> set (sem_pending sma2). simple_on n p}"
    using wf(2) n(1) post Some by (auto simp: sem_wf_def walk_post_def pending_list_def)
  have "blocked sma2 p \<or> oth p" if p: "p \<in> set (sem_pending sma2)" "\<not> simple_on n p" for p
  proof -
    have p0: "p \<in> set (sem_pending sma)" using p(1) post by (auto simp: walk_post_def)
    have lp: "length (q_sops p) = 1" by (rule complex_zero [OF wf(1) n(2) p0])
    have m: "sem_num (hd (q_sops p)) < length (sem_base sma)"
      using wf(1) p0 q_ok_num unfolding sem_wf_def by blast
    have "svals sma2 ! sem_num (hd (q_sops p)) = svals sma ! sem_num (hd (q_sops p))"
      using post Some m p(2) lp by (auto simp: walk_post_def simple_on_def)
    then have "blocked sma2 p = blocked sma p" by (simp add: blocked_simple [OF lp])
    then show ?thesis using pre p0 p(2) n(3) by (auto simp: walk_pre_def)
  qed
  then show ?thesis
    using Some n post wf(2) l by (auto simp: walk_pre_def walk_post_def)
qed

lemma zero_first_filter: "zero_first qs \<Longrightarrow> zero_first (filter P qs)"
  by (simp add: zero_first_def sorted_wrt_filter)

text \<open>The early end of a walk over one semaphore's list: the value is 0 and only decrements follow.\<close>

lemma walk_break:
  assumes pre: "walk_pre (Some n) oth sma (set (q # walk))"
    and sub: "q # walk = filter (\<lambda>x. x \<in> set (q # walk)) (sem_pending sma)"
    and stop: "semval (sem_base sma ! n) = 0" "q_alter q" and p: "p \<in> set (sem_pending sma)"
  shows "blocked sma p \<or> oth p"
proof (cases "p \<in> set (q # walk)")
  case False
  then show ?thesis using pre p by (auto simp: walk_pre_def)
next
  case True
  have wf: "sem_wf sma" and n: "n < length (sem_base sma)" and s: "simple_on n p"
    using pre True by (auto simp: walk_pre_def)
  have "zero_first (q # walk)"
    by (subst sub) (use wf in \<open>simp add: zero_first_filter sem_wf_def\<close>)
  then have "q_alter p" using True stop(2) by (auto simp: zero_first_def)
  moreover have ok: "q_ok sma p" using wf p by (simp add: sem_wf_def)
  moreover have lp: "length (q_sops p) = 1" using s by (simp add: simple_on_def)
  ultimately have "sem_op (hd (q_sops p)) < 0" "\<not> nowait_flag (hd (q_sops p))"
    using alter_simple(1) [OF ok lp] by (simp_all add: q_ok_def)
  then show ?thesis
    using s stop(1) n by (simp add: blocked_simple [OF lp] simple_on_def)
qed

lemma update_walk_ok:
  assumes "walk_pre semnum oth sma (set walk)"
    "walk = filter (\<lambda>x. x \<in> set walk) (sem_pending sma)"
  shows "\<exists>again sma' ws c'. update_walk semnum walk sma pt completed = Val (again, sma', pt @ ws, c') \<and>
    walk_post semnum oth sma ws sma' \<and> (again \<longrightarrow> ws \<noteq> []) \<and>
    (\<not> again \<longrightarrow> (\<forall>p\<in>set (sem_pending sma'). blocked sma' p \<or> oth p))"
  using assms
proof (induction walk arbitrary: sma pt completed)
  case Nil
  then show ?case using walk_post_refl [of sma semnum oth] by (auto simp: walk_pre_def)
next
  case (Cons q walk)
  note pre = Cons.prems(1) and sub = Cons.prems(2)
  have wf: "sem_wf sma" using pre by (simp add: walk_pre_def)
  have dist: "distinct (sem_pending sma)" using wf by (simp add: sem_wf_def distinct_map)
  note w = walk_tl [OF dist sub]
  have okq: "q_ok sma q" using wf w(3) by (simp add: sem_wf_def)
  obtain r sma1 where t: "try_atomic_semop sma (q_sops q) (q_undo q) (q_pid q) = Val (r, sma1)"
    "r = Semop_sleep \<longleftrightarrow> blocked sma q" "sem_wf sma1" "r \<noteq> Semop_done \<longrightarrow> sma1 = sma"
    "same_queues sma sma1" "sem_wf (unlink_queue sma1 q)"
    "sem_pending (unlink_queue sma1 q) = filter (\<lambda>x. x \<noteq> q) (sem_pending sma)"
    "r = Semop_done \<longrightarrow> (\<forall>m<length (sem_base sma). svals sma1 ! m = svals sma ! m + net m (q_sops q))"
    "(\<forall>sop\<in>set (q_sops q). sem_op sop = 0) \<longrightarrow> svals sma1 = svals sma \<and> sem_undos sma1 = sem_undos sma"
    by (rule complete_step [OF wf w(3)])
  let ?stop = "case semnum of None \<Rightarrow> False | Some n \<Rightarrow> semval (sem_base sma ! n) = 0 \<and> q_alter q"
  let ?s2 = "unlink_queue sma1 q"
  consider (stop) ?stop | (sleep) "\<not> ?stop" "r = Semop_sleep" | (go) "\<not> ?stop" "r \<noteq> Semop_sleep" by blast
  then show ?case
  proof cases
    case stop
    then obtain n where n: "semnum = Some n" "semval (sem_base sma ! n) = 0" "q_alter q"
      by (auto split: option.splits)
    have "\<forall>p\<in>set (sem_pending sma). blocked sma p \<or> oth p"
      using walk_break [OF pre [unfolded n(1)] sub n(2,3)] by blast
    then show ?thesis using stop walk_post_refl [OF wf, of semnum oth] by auto
  next
    case sleep
    have "walk_pre semnum oth sma (set walk)"
      using pre t(2) sleep(2) by (auto simp: walk_pre_def)
    from Cons.IH [OF this w(1), of pt completed] show ?thesis using sleep t(1,4) by simp
  next
    case go
    have post: "walk_post semnum oth sma [(q, r)] ?s2"
      by (rule walk_post_step [OF pre sub t(1) go(2) t(4-8)])
    have ok2: "q_ok ?s2 q" using q_ok_same [OF okq t(5)] t(3) by (simp add: sem_wf_def)
    obtain b where b: "check_restart ?s2 q = Val b"
      "\<not> b \<and> q_alter q \<longrightarrow> complex_count ?s2 = 0 \<and> length (q_sops q) = 1 \<and>
        (svals ?s2 ! sem_num (hd (q_sops q)) \<noteq> 0 \<or>
         (\<forall>p\<in>set (sem_pending ?s2). simple_on (sem_num (hd (q_sops q))) p \<longrightarrow> q_alter p))"
      by (rule check_restart_total [OF t(6) ok2])
    let ?restart = "r = Semop_done \<and> b"
    have keep: "blocked ?s2 p" if "\<not> ?restart" "p \<in> set (sem_pending ?s2)" "blocked sma p" for p
    proof (cases "r = Semop_done")
      case True
      show ?thesis
        by (rule no_restart_blocked [OF wf t(6) okq])
          (use True that t(5,7-9) b(2) in \<open>auto simp: unlink_fields same_queues_def\<close>)
    next
      case False
      then show ?thesis using t(4) that(3) by simp
    qed
    have run: "update_walk semnum (q # walk) sma pt completed =
        (if ?restart then Val (True, ?s2, pt @ [(q, r)], completed \<or> r = Semop_done)
         else update_walk semnum walk ?s2 (pt @ [(q, r)]) (completed \<or> r = Semop_done))"
      using go t(1) b(1) by (simp add: wake_up_sem_queue_prepare_def Let_def)
    show ?thesis
    proof (cases ?restart)
      case True
      then show ?thesis unfolding run using post by auto
    next
      case False
      have "walk_pre semnum oth ?s2 (set walk)"
        by (rule walk_pre_step [OF pre sub post t(7) keep [OF False]])
      from Cons.IH [OF this, of "pt @ [(q, r)]" "completed \<or> r = Semop_done"] w(2) obtain again sma' ws c' where
        i: "update_walk semnum walk ?s2 (pt @ [(q, r)]) (completed \<or> r = Semop_done) =
            Val (again, sma', (pt @ [(q, r)]) @ ws, c')"
        "walk_post semnum oth ?s2 ws sma'" "\<not> again \<longrightarrow> (\<forall>p\<in>set (sem_pending sma'). blocked sma' p \<or> oth p)"
        unfolding t(7) by blast
      have "walk_post semnum oth sma ((q, r) # ws) sma'"
        using walk_post_trans [OF post i(2)] by simp
      with False i(1,3) show ?thesis unfolding run by auto
    qed
  qed
qed

lemma pending_list_filter:
  assumes "walk_pre semnum oth sma (set (pending_list semnum sma))"
  shows "pending_list semnum sma = filter (\<lambda>x. x \<in> set (pending_list semnum sma)) (sem_pending sma)"
proof (cases semnum)
  case None
  then show ?thesis by (simp add: pending_list_def filter_id_conv)
next
  case (Some n)
  then have "sem_wf sma" "n < length (sem_base sma)" using assms unfolding walk_pre_def by blast+
  then have l: "pending_list semnum sma = filter (simple_on n) (sem_pending sma)"
    unfolding Some pending_list_def by (simp add: sem_wf_def)
  show ?thesis unfolding l by (rule filter_cong) auto
qed

lemma update_again_ok:
  assumes "walk_pre semnum oth sma (set (pending_list semnum sma))" "length (sem_pending sma) < fuel"
  shows "\<exists>sma' ws c'. update_again fuel semnum sma pt completed = Val (sma', pt @ ws, c') \<and>
    walk_post semnum oth sma ws sma' \<and> (\<forall>p\<in>set (sem_pending sma'). blocked sma' p \<or> oth p)"
  using assms
proof (induction fuel arbitrary: sma pt completed)
  case (Suc fuel)
  from update_walk_ok [OF Suc.prems(1) pending_list_filter [OF Suc.prems(1)]] obtain again sma1 ws c where
    w: "update_walk semnum (pending_list semnum sma) sma pt completed = Val (again, sma1, pt @ ws, c)"
    "walk_post semnum oth sma ws sma1" "again \<longrightarrow> ws \<noteq> []"
    "\<not> again \<longrightarrow> (\<forall>p\<in>set (sem_pending sma1). blocked sma1 p \<or> oth p)"
    by blast
  show ?case
  proof (cases again)
    case False
    then show ?thesis using w by auto
  next
    case True
    then have "0 < length ws" using w(3) by simp
    moreover have "length (sem_pending sma1) + length ws = length (sem_pending sma)"
      using w(2) unfolding walk_post_def by blast
    ultimately have "length (sem_pending sma1) < fuel" using Suc.prems(2) by linarith
    from Suc.IH [OF walk_pre_again [OF Suc.prems(1) w(2)] this, of "pt @ ws" c] obtain sma' ws' c' where
      i: "update_again fuel semnum sma1 (pt @ ws) c = Val (sma', (pt @ ws) @ ws', c')"
      "walk_post semnum oth sma1 ws' sma'" "\<forall>p\<in>set (sem_pending sma'). blocked sma' p \<or> oth p"
      by blast
    then show ?thesis using w(1) True walk_post_trans [OF w(2) i(2)] by auto
  qed
qed simp

subsection \<open>update_queue and do_smart_update\<close>

lemma update_queue_all:
  assumes wf: "sem_wf sma" and all: "semnum = None \<or> complex_count sma \<noteq> 0"
  shows "\<exists>sma' ws c. update_queue sma semnum pt = Val (sma', pt @ ws, c) \<and>
    walk_post None (\<lambda>_. False) sma ws sma' \<and> quiet sma'"
proof -
  have pre: "walk_pre None (\<lambda>_. False) sma (set (pending_list None sma))"
    using wf by (simp add: walk_pre_def pending_list_def)
  have "update_queue sma semnum pt = update_again (Suc (length (sem_pending sma))) None sma pt False"
    using all by (auto simp: update_queue_def)
  with update_again_ok [OF pre, of "Suc (length (sem_pending sma))" pt False] show ?thesis
    by (auto simp: quiet_def)
qed

lemma update_queue_one:
  assumes wf: "sem_wf sma" and n: "complex_count sma = 0" "n < length (sem_base sma)"
    and oth: "\<forall>p\<in>set (sem_pending sma). simple_on n p \<or> blocked sma p \<or> oth p" "\<forall>p. oth p \<longrightarrow> \<not> simple_on n p"
  shows "\<exists>sma' ws c. update_queue sma (Some n) pt = Val (sma', pt @ ws, c) \<and>
    walk_post (Some n) oth sma ws sma' \<and> (\<forall>p\<in>set (sem_pending sma'). blocked sma' p \<or> oth p)"
proof -
  have l: "set (pending_list (Some n) sma) = {p \<in> set (sem_pending sma). simple_on n p}"
    using wf n(2) by (auto simp: sem_wf_def pending_list_def)
  have pre: "walk_pre (Some n) oth sma (set (pending_list (Some n) sma))"
    using assms unfolding walk_pre_def l by auto
  have "update_queue sma (Some n) pt = update_again (Suc (length (sem_pending sma))) (Some n) sma pt False"
    using n by (simp add: update_queue_def Let_def del: update_again.simps)
  with update_again_ok [OF pre, of "Suc (length (sem_pending sma))" pt False] show ?thesis by simp
qed

text \<open>The entries that the rest of the loop of \<open>do_smart_update\<close> still has to look at.\<close>

definition touched :: "sembuf list \<Rightarrow> sem_array \<Rightarrow> sem_queue \<Rightarrow> bool" where
  "touched sops sma p \<longleftrightarrow> (\<exists>sop\<in>set sops. simple_on (sem_num sop) p \<and>
    (sem_op sop > 0 \<or> sem_op sop < 0 \<and> svals sma ! sem_num sop = 0))"

lemma smart_loop_ok:
  assumes "sem_wf sma" "complex_count sma = 0" "\<forall>sop\<in>set sops. sem_num sop < length (sem_base sma)"
    "\<forall>p\<in>set (sem_pending sma). blocked sma p \<or> touched sops sma p"
  shows "\<exists>sma' ws o'. smart_loop sops sma pt otime = Val (sma', pt @ ws, o') \<and>
    sem_wf sma' \<and> quiet sma' \<and> wake_steps sma ws sma'"
  using assms
proof (induction sops arbitrary: sma pt otime)
  case Nil
  then show ?case by (auto simp: quiet_def touched_def intro: wake_nil)
next
  case (Cons sop sops)
  let ?n = "sem_num sop"
  let ?trigger = "sem_op sop > 0 \<or> sem_op sop < 0 \<and> semval (sem_base sma ! ?n) = 0"
  have n: "?n < length (sem_base sma)" using Cons.prems(3) by simp
  show ?case
  proof (cases ?trigger)
    case False
    then have "\<forall>p\<in>set (sem_pending sma). blocked sma p \<or> touched sops sma p"
      using Cons.prems(4) n by (auto simp: touched_def)
    with Cons.IH [OF Cons.prems(1,2), of pt otime] Cons.prems(3) False n show ?thesis by auto
  next
    case True
    define oth where "oth p \<longleftrightarrow> touched sops sma p \<and> \<not> simple_on ?n p" for p
    have oth: "\<forall>p\<in>set (sem_pending sma). simple_on ?n p \<or> blocked sma p \<or> oth p" "\<forall>p. oth p \<longrightarrow> \<not> simple_on ?n p"
      using Cons.prems(4) by (auto simp: oth_def touched_def)
    obtain sma1 ws c where u: "update_queue sma (Some ?n) pt = Val (sma1, pt @ ws, c)"
      "walk_post (Some ?n) oth sma ws sma1" "\<forall>p\<in>set (sem_pending sma1). blocked sma1 p \<or> oth p"
      using update_queue_one [OF Cons.prems(1,2) n oth, of pt] by blast
    have post: "sem_wf sma1" "complex_count sma1 = 0" "length (sem_base sma1) = length (sem_base sma)"
      "\<forall>m<length (sem_base sma). m \<noteq> ?n \<longrightarrow> svals sma1 ! m = svals sma ! m" "wake_steps sma ws sma1"
      using u(2) Cons.prems(2) unfolding walk_post_def by auto
    have "touched sops sma1 p" if "oth p" for p
    proof -
      from that obtain s where s: "s \<in> set sops" "simple_on (sem_num s) p"
        "sem_op s > 0 \<or> sem_op s < 0 \<and> svals sma ! sem_num s = 0"
        unfolding oth_def touched_def by blast
      have "sem_num s \<noteq> ?n" using that s(2) by (auto simp: oth_def)
      moreover have "sem_num s < length (sem_base sma)" using s(1) Cons.prems(3) by simp
      ultimately show ?thesis using post(4) s unfolding touched_def by metis
    qed
    then have "\<forall>p\<in>set (sem_pending sma1). blocked sma1 p \<or> touched sops sma1 p" using u(3) by blast
    from Cons.IH [OF post(1,2) _ this, of "pt @ ws" "otime \<or> c"] Cons.prems(3) post(3) obtain sma' ws' o' where
      i: "smart_loop sops sma1 (pt @ ws) (otime \<or> c) = Val (sma', (pt @ ws) @ ws', o')" "sem_wf sma'" "quiet sma'"
        "wake_steps sma1 ws' sma'"
      by auto
    then show ?thesis
      using True n u(1) wake_steps_append [OF post(5) i(4)] by auto
  qed
qed

lemma otime_irrelevant [simp]:
  "sem_wf (sma\<lparr>sem_otime := t\<rparr>) = sem_wf sma" "quiet (sma\<lparr>sem_otime := t\<rparr>) = quiet sma"
  "sem_wf (sma\<lparr>sem_ctime := t\<rparr>) = sem_wf sma" "quiet (sma\<lparr>sem_ctime := t\<rparr>) = quiet sma"
  by (simp_all add: sem_wf_def quiet_def blocked_def svals_def undos_ok_def q_ok_def undo_of_def
      cong: option.case_cong)

text \<open>Wake-ups that lead from one array to another, up to the time of the last operation.\<close>

definition woken :: "sem_array \<Rightarrow> wakeups \<Rightarrow> sem_array \<Rightarrow> bool" where
  "woken sma ws sma' \<longleftrightarrow> (\<exists>s. wake_steps sma ws s \<and> sma' = s\<lparr>sem_otime := sem_otime sma'\<rparr>)"

lemma smart_update_all:
  assumes "sem_wf sma" "complex_count sma \<noteq> 0 \<or> sops = None"
  shows "\<exists>sma' ws. do_smart_update t sma sops otime [] = Val (sma', ws) \<and> sem_wf sma' \<and> quiet sma' \<and>
    woken sma ws sma'"
proof -
  obtain s ws c where u: "update_queue sma None [] = Val (s, ws, c)" "walk_post None (\<lambda>_. False) sma ws s" "quiet s"
    using update_queue_all [OF assms(1), of None "[]"] by auto
  then have "sem_wf s" "wake_steps sma ws s" by (simp_all add: walk_post_def)
  then show ?thesis
    using assms(2) u(1,3) by (auto simp: do_smart_update_def woken_def intro!: exI [of _ s])
qed

lemma smart_update_touched:
  assumes "sem_wf sma" "\<forall>sop\<in>set sops. sem_num sop < length (sem_base sma)"
    "complex_count sma = 0 \<longrightarrow> (\<forall>p\<in>set (sem_pending sma). blocked sma p \<or> touched sops sma p)"
  shows "\<exists>sma' ws. do_smart_update t sma (Some sops) otime [] = Val (sma', ws) \<and> sem_wf sma' \<and> quiet sma' \<and>
    woken sma ws sma'"
proof (cases "complex_count sma = 0")
  case False
  then show ?thesis using smart_update_all [OF assms(1)] by blast
next
  case True
  from smart_loop_ok [OF assms(1) True assms(2), of "[]" otime] assms(3) True obtain s ws o' where
    "smart_loop sops sma [] otime = Val (s, ws, o')" "sem_wf s" "quiet s" "wake_steps sma ws s" by auto
  then show ?thesis
    using True by (auto simp: do_smart_update_def woken_def intro!: exI [of _ s])
qed

text \<open>After an operation has been performed on a quiet array, the loop looks at everything it enabled.\<close>

lemma performed_touched:
  assumes wf: "sem_wf sma" "quiet sma" and wf': "sem_wf sma'" "same_queues sma sma'" "complex_count sma' = 0"
    and vals: "\<forall>m<length (sem_base sma). svals sma' ! m = svals sma ! m + net m sops"
    and p: "p \<in> set (sem_pending sma')"
  shows "blocked sma' p \<or> touched sops sma' p"
proof -
  have p0: "p \<in> set (sem_pending sma)" using p wf'(2) by (simp add: same_queues_def)
  have lp: "length (q_sops p) = 1" by (rule complex_zero [OF wf'(1,3) p])
  have ok: "q_ok sma p" using wf(1) p0 by (simp add: sem_wf_def)
  let ?n = "sem_num (hd (q_sops p))"
  have n: "?n < length (sem_base sma)"
    by (rule q_ok_num [OF ok])
  have v: "svals sma' ! ?n = svals sma ! ?n + net ?n sops" using vals n by simp
  have on: "simple_on ?n p" using lp by (simp add: simple_on_def)
  have b: "blocked sma p" using wf(2) p0 by (simp add: quiet_def)
  have "svals sma ! ?n \<in> set (svals sma)" by (rule nth_mem) (use n in simp)
  then have r: "0 \<le> svals sma ! ?n" using wf(1) unfolding sem_wf_def in_range_def by blast
  show ?thesis
  proof (rule disjCI)
    assume nt: "\<not> touched sops sma' p"
    have far: "\<not> (sem_op sop > 0 \<or> sem_op sop < 0 \<and> svals sma' ! ?n = 0)"
      if "sop \<in> set sops" "sem_num sop = ?n" for sop
      using nt on that unfolding touched_def by metis
    have "\<not> net ?n sops > 0" using net_pos [of ?n sops] far by blast
    moreover have "\<not> (net ?n sops < 0 \<and> svals sma' ! ?n = 0)" using net_neg [of ?n sops] far by blast
    ultimately show "blocked sma' p"
      using b v r unfolding blocked_simple [OF lp] by auto
  qed
qed

end
