(* ===== verification/Sem_Calls.thy ===== *)
theory Sem_Calls
  imports Sem_Wait
begin

text \<open>
  The system calls on a semaphore array as events: \<open>semtimedop\<close>, a sleeping task that wakes up on its
  own, \<open>semctl\<close> and the exit of a task.  Each keeps the invariant of theory \<open>Sem_Wait\<close> and leaves no
  sleeping operation that could be completed.
\<close>

subsection \<open>Accounting\<close>

text \<open>What a list of wake-ups adds to a semaphore.\<close>

definition wake_net :: "nat \<Rightarrow> wakeups \<Rightarrow> int" where
  "wake_net n ws = sum_list (map (\<lambda>(q, r). if r = Semop_done then net n (q_sops q) else 0) ws)"

lemma wake_steps_vals:
  "wake_steps sma ws sma' \<Longrightarrow> sem_wf sma \<Longrightarrow> sem_wf sma' \<and> length (sem_base sma') = length (sem_base sma) \<and>
    (\<forall>n<length (sem_base sma). svals sma' ! n = svals sma ! n + wake_net n ws)"
proof (induction rule: wake_steps.induct)
  case (wake_nil sma)
  then show ?case by (simp add: wake_net_def)
next
  case (wake_cons q sma r sma1 ws sma')
  obtain r' s1 where t: "try_atomic_semop sma (q_sops q) (q_undo q) (q_pid q) = Val (r', s1)"
    "r' \<noteq> Semop_done \<longrightarrow> s1 = sma" "same_queues sma s1" "sem_wf (unlink_queue s1 q)"
    "r' = Semop_done \<longrightarrow> (\<forall>m<length (sem_base sma). svals s1 ! m = svals sma ! m + net m (q_sops q))"
    by (rule complete_step [OF wake_cons.prems wake_cons.hyps(1)])
  have eq: "r' = r" "s1 = sma1" using t(1) wake_cons.hyps(2) by simp_all
  have len: "length (sem_base sma1) = length (sem_base sma)" using t(3) eq by (simp add: same_queues_def)
  have IH: "sem_wf sma'" "length (sem_base sma') = length (sem_base sma)"
    "\<forall>n<length (sem_base sma). svals sma' ! n = svals sma1 ! n + wake_net n ws"
    using wake_cons.IH t(4) eq len unfolding unlink_fields by auto
  have "svals sma1 ! n = svals sma ! n + (if r = Semop_done then net n (q_sops q) else 0)"
    if "n < length (sem_base sma)" for n
    using t(2,5) eq that by auto
  then show ?case using IH by (auto simp: wake_net_def)
qed

lemma woken_vals:
  assumes "woken sma ws sma'" "sem_wf sma"
  shows "length (sem_base sma') = length (sem_base sma)"
    "\<forall>n<length (sem_base sma). svals sma' ! n = svals sma ! n + wake_net n ws"
proof -
  from assms(1) obtain s where s: "wake_steps sma ws s" "sma' = s\<lparr>sem_otime := sem_otime sma'\<rparr>"
    by (auto simp: woken_def)
  have b: "sem_base sma' = sem_base s" by (subst s(2)) simp
  then have "svals sma' = svals s" by (simp add: svals_def)
  with b show "length (sem_base sma') = length (sem_base sma)"
    "\<forall>n<length (sem_base sma). svals sma' ! n = svals sma ! n + wake_net n ws"
    using wake_steps_vals [OF s(1) assms(2)] by (simp_all del: svals_nth)
qed

subsection \<open>semtimedop\<close>

lemma find_alloc_undo_ok:
  assumes wf: "sem_wf sma" "quiet sma" and f: "find_alloc_undo env ulp sma = Val sma1"
  shows "sem_wf sma1" "quiet sma1" "sem_base sma1 = sem_base sma" "sem_pending sma1 = sem_pending sma"
    "\<exists>a. sem_undos sma1 ulp = Some a \<and> length a = length (sem_base sma)"
proof -
  have "sem_wf sma1 \<and> quiet sma1 \<and> sem_base sma1 = sem_base sma \<and> sem_pending sma1 = sem_pending sma \<and>
    (\<exists>a. sem_undos sma1 ulp = Some a \<and> length a = length (sem_base sma))"
  proof (cases "sem_undos sma ulp")
    case (Some a)
    then have "sma1 = sma" using f by (auto simp: find_alloc_undo_def split: option.splits)
    moreover have "length a = length (sem_base sma)"
      using wf(1) Some undos_ok_length [of sma "Some ulp" a] by (simp add: sem_wf_def undo_of_def)
    ultimately show ?thesis using wf Some by simp
  next
    case None
    then have s1: "sma1 = sma\<lparr>sem_undos := (sem_undos sma)(ulp \<mapsto> replicate (length (sem_base sma)) 0)\<rparr>"
      using f by (auto simp: find_alloc_undo_def split: option.splits if_splits)
    have same: "undo_of sma1 (q_undo q) = undo_of sma (q_undo q)" if "q_ok sma q" for q
      using that None unfolding q_ok_def s1 by (auto simp: undo_of_def split: option.splits)
    have ok: "q_ok sma1 q" if "q_ok sma q" for q
      using that same [OF that] unfolding q_ok_def by (auto simp: s1)
    have "undos_ok sma1"
      using wf(1) unfolding sem_wf_def undos_ok_def adj_ok_def s1 by (auto simp: short_int_def)
    then have "sem_wf sma1" using wf(1) ok unfolding sem_wf_def by (auto simp: s1 svals_def)
    moreover have "quiet sma1"
      using wf same unfolding quiet_def blocked_def sem_wf_def by (auto simp: s1 svals_def)
    ultimately show ?thesis by (simp add: s1)
  qed
  then show "sem_wf sma1" "quiet sma1" "sem_base sma1 = sem_base sma" "sem_pending sma1 = sem_pending sma"
    "\<exists>a. sem_undos sma1 ulp = Some a \<and> length a = length (sem_base sma)" by simp_all
qed

lemma queue_fields:
  "sem_pending (queue_semop q sma) = (if q_alter q then sem_pending sma @ [q] else q # sem_pending sma)"
  "length (sem_base (queue_semop q sma)) = length (sem_base sma)"
  "svals (queue_semop q sma) = svals sma" "sem_undos (queue_semop q sma) = sem_undos sma"
proof -
  have "map semval (base[n := (base ! n)\<lparr>sem_simple := l\<rparr>]) = map semval base" for base :: "sem list" and n l
    by (cases "n < length base") (simp_all add: map_update list_update_same_conv list_update_beyond not_less)
  then show "svals (queue_semop q sma) = svals sma"
    by (simp add: queue_semop_def svals_def Let_def)
qed (simp_all add: queue_semop_def Let_def)

lemma queue_wf:
  assumes wf: "sem_wf sma" and q: "q_ok sma q" "sleeper q \<notin> sleeper ` set (sem_pending sma)"
  shows "sem_wf (queue_semop q sma)"
proof -
  let ?s = "queue_semop q sma"
  have ok: "q_ok ?s p = q_ok sma p" for p
    by (simp add: q_ok_def queue_fields undo_of_def cong: option.case_cong)
  have simple: "sem_simple (sem_base ?s ! n) = filter (simple_on n) (sem_pending ?s)"
    if n: "n < length (sem_base ?s)" for n
  proof -
    have old: "sem_simple (sem_base sma ! n) = filter (simple_on n) (sem_pending sma)"
      using wf n by (simp add: sem_wf_def queue_fields)
    have "sem_simple (sem_base ?s ! n) = (if simple_on n q
        then (if q_alter q then sem_simple (sem_base sma ! n) @ [q] else q # sem_simple (sem_base sma ! n))
        else sem_simple (sem_base sma ! n))"
      using n by (auto simp: queue_semop_def Let_def simple_on_def nth_list_update)
    then show ?thesis unfolding old queue_fields by simp
  qed
  have count: "complex_count ?s = int (length (filter (\<lambda>q. length (q_sops q) \<noteq> 1) (sem_pending ?s)))"
    using wf unfolding queue_fields by (simp add: sem_wf_def queue_semop_def Let_def)
  show ?thesis
    unfolding sem_wf_def
  proof (intro conjI)
    show "undos_ok ?s" using wf by (simp add: sem_wf_def undos_ok_def queue_fields)
    show "distinct (map sleeper (sem_pending ?s))" using wf q(2) by (auto simp: sem_wf_def queue_fields)
    show "\<forall>p\<in>set (sem_pending ?s). q_ok ?s p" using wf q(1) by (auto simp: sem_wf_def queue_fields ok)
    show "zero_first (sem_pending ?s)"
      using wf by (auto simp: sem_wf_def zero_first_def queue_fields sorted_wrt_append)
  qed (use wf simple count in \<open>simp_all add: sem_wf_def queue_fields\<close>)
qed

lemma queue_quiet: "quiet sma \<Longrightarrow> blocked sma q \<Longrightarrow> quiet (queue_semop q sma)"
proof -
  have "blocked (queue_semop q sma) p = blocked sma p" for p
    by (rule blocked_cong) (simp_all add: queue_fields)
  then show "quiet sma \<Longrightarrow> blocked sma q \<Longrightarrow> quiet (queue_semop q sma)" by (auto simp: quiet_def queue_fields)
qed

text \<open>An outcome of a call that keeps the array in order, with the value changes it accounts for.\<close>

definition sem_good :: "sem_array \<Rightarrow> (nat \<Rightarrow> int) \<Rightarrow> sem_array \<Rightarrow> wakeups \<Rightarrow> bool" where
  "sem_good sma own sma' ws \<longleftrightarrow> sem_wf sma' \<and> quiet sma' \<and> length (sem_base sma') = length (sem_base sma) \<and>
    (\<forall>n<length (sem_base sma). svals sma' ! n = svals sma ! n + own n + wake_net n ws)"

lemma sem_good_same: "sem_wf sma' \<Longrightarrow> quiet sma' \<Longrightarrow> sem_base sma' = sem_base sma \<Longrightarrow> sem_good sma (\<lambda>_. 0) sma' []"
  by (simp add: sem_good_def wake_net_def svals_def)

text \<open>The operations of a call on an array where their accesses fit.\<close>

lemma perform_semop:
  assumes wf: "sem_wf sma" "quiet sma" and task: "task \<notin> sleeper ` set (sem_pending sma)" and ne: "sops \<noteq> []"
    and fit: "sops_fit (length (sem_base sma)) (undo_of sma un) sops" and un: "\<forall>u. un = Some u \<longrightarrow> sem_undos sma u \<noteq> None"
    and alter: "alter \<longleftrightarrow> list_ex (\<lambda>sop. sem_op sop \<noteq> 0) sops"
  obtains r sma2 where "try_atomic_semop sma sops un pid = Val (r, sma2)"
    "r = Semop_done \<and> alter \<Longrightarrow> \<exists>sma3 ws. do_smart_update t sma2 (Some sops) True [] = Val (sma3, ws) \<and>
       sem_good sma (\<lambda>n. net n sops) sma3 ws"
    "r = Semop_done \<and> \<not> alter \<Longrightarrow> sem_good sma (\<lambda>n. net n sops) sma2 []"
    "r \<noteq> Semop_done \<Longrightarrow> sma2 = sma"
    "r = Semop_sleep \<Longrightarrow> sem_good sma (\<lambda>_. 0)
       (queue_semop \<lparr>sleeper = task, q_undo = un, q_pid = pid, q_sops = sops, q_alter = alter\<rparr> sma2) []"
proof -
  obtain r sma2 where t: "try_atomic_semop sma sops un pid = Val (r, sma2)"
    "r = fst (ref_semop (svals sma) (undo_of sma un) sops)" "sem_wf sma2" "r \<noteq> Semop_done \<longrightarrow> sma2 = sma"
    "r = Semop_done \<longrightarrow> svals sma2 = snd (ref_semop (svals sma) (undo_of sma un) sops)" "same_queues sma sma2"
    "(\<forall>sop\<in>set sops. sem_op sop = 0) \<longrightarrow> sem_undos sma2 = sem_undos sma"
    by (rule try_wf [OF wf(1) fit, of pid]) blast
  have len: "length (sem_base sma2) = length (sem_base sma)" using t(6) by (simp add: same_queues_def)
  have vals: "\<forall>m<length (sem_base sma). svals sma2 ! m = svals sma ! m + net m sops" if "r = Semop_done"
    using t(2,5) that ref_semop_net [of "svals sma" "undo_of sma un" sops] by simp
  show ?thesis
  proof (rule that [OF t(1)])
    assume d: "r = Semop_done \<and> alter"
    have nums: "\<forall>sop\<in>set sops. sem_num sop < length (sem_base sma2)" using fit len by (simp add: sops_fit_def)
    have "\<forall>p\<in>set (sem_pending sma2). blocked sma2 p \<or> touched sops sma2 p" if "complex_count sma2 = 0"
      using performed_touched [OF wf t(3,6) that vals] d by blast
    from smart_update_touched [OF t(3) nums, of t True] this obtain sma3 ws where
      u: "do_smart_update t sma2 (Some sops) True [] = Val (sma3, ws)" "sem_wf sma3" "quiet sma3" "woken sma2 ws sma3"
      by blast
    have "length (sem_base sma3) = length (sem_base sma)"
      "\<forall>n<length (sem_base sma). svals sma3 ! n = svals sma ! n + net n sops + wake_net n ws"
      using woken_vals [OF u(4) t(3)] vals d len by (simp_all del: svals_nth)
    then show "\<exists>sma3 ws. do_smart_update t sma2 (Some sops) True [] = Val (sma3, ws) \<and>
        sem_good sma (\<lambda>n. net n sops) sma3 ws"
      using u by (simp add: sem_good_def del: svals_nth)
  next
    assume d: "r = Semop_done \<and> \<not> alter"
    then have z: "\<forall>sop\<in>set sops. sem_op sop = 0" using alter by (simp add: list_ex_iff)
    have "svals sma2 = svals sma"
      using t(2,5) d ref_semop_zero [OF _ z, of "svals sma" "undo_of sma un"] by simp
    then have "quiet sma2"
      using wf(2) t(6,7) z blocked_cong [of sma2 sma] by (simp add: quiet_def same_queues_def)
    then show "sem_good sma (\<lambda>n. net n sops) sma2 []"
      using t(3) len vals d by (simp add: sem_good_def wake_net_def)
  next
    assume "r \<noteq> Semop_done"
    then show "sma2 = sma" using t(4) by simp
  next
    let ?q = "\<lparr>sleeper = task, q_undo = un, q_pid = pid, q_sops = sops, q_alter = alter\<rparr>"
    assume s: "r = Semop_sleep"
    then have eq: "sma2 = sma" using t(4) by simp
    have sleep: "fst (ref_semop (svals sma) (undo_of sma un) sops) = Semop_sleep" using s t(2) by simp
    have b: "blocked sma ?q" using sleep by (simp add: blocked_def)
    have "sem_op (hd sops) \<le> 0 \<and> \<not> nowait_flag (hd sops)" if "length sops = 1"
    proof -
      from that obtain sop where sop: "sops = [sop]" by (cases sops) auto
      then have n: "sem_num sop < length (sem_base sma)" using fit by (simp add: sops_fit_def)
      have "svals sma ! sem_num sop \<in> set (svals sma)" by (rule nth_mem) (use n in simp)
      then have "0 \<le> svals sma ! sem_num sop" using wf(1) unfolding sem_wf_def in_range_def by blast
      then show ?thesis using sleep unfolding sop ref_semop_simple by auto
    qed
    then have "q_ok sma ?q" using ne fit alter un by (simp add: q_ok_def list_ex_iff)
    from queue_wf [OF wf(1) this] queue_quiet [OF wf(2) b] task
    show "sem_good sma (\<lambda>_. 0) (queue_semop ?q sma2) []"
      unfolding eq by (simp add: sem_good_def queue_fields wake_net_def del: svals_nth)
  qed
qed

definition own_net :: "sem_return \<Rightarrow> sembuf list \<Rightarrow> nat \<Rightarrow> int" where
  "own_net ret sops n = (if ret = Sem_value 0 then net n sops else 0)"

lemma own_net_simps [simp]:
  "own_net (Sem_value 0) sops = (\<lambda>n. net n sops)" "own_net (Sem_error e) sops = (\<lambda>_. 0)"
  "own_net Sem_sleeping sops = (\<lambda>_. 0)"
  by (auto simp: own_net_def)

text \<open>After the checks at the beginning of the call.\<close>

lemma semtimedop_locked:
  assumes wf: "sem_wf sma" "quiet sma" and task: "task \<notin> sleeper ` set (sem_pending sma)" and ne: "sops \<noteq> []"
    and un: "un = (if list_ex undo_flag sops then Some ulp else None)"
    and alloc: "list_ex undo_flag sops \<Longrightarrow> \<exists>a. sem_undos sma ulp = Some a \<and> length a = length (sem_base sma)"
    and nums: "\<not> list_ex (\<lambda>sop. sem_num sop \<ge> length (sem_base sma)) sops"
    and alter: "alter \<longleftrightarrow> list_ex (\<lambda>sop. sem_op sop \<noteq> 0) sops"
  shows "\<exists>ret sma' ws. semop_locked t task pid un alter sops sma =
      Val (ret, sma', ws) \<and> sem_good sma (own_net ret sops) sma' ws"
proof -
  have fit: "sops_fit (length (sem_base sma)) (undo_of sma un) sops"
    using nums alloc un by (auto simp: sops_fit_def list_ex_iff undo_of_def)
  have un': "\<forall>u. un = Some u \<longrightarrow> sem_undos sma u \<noteq> None" using un alloc by (auto split: if_splits)
  obtain r sma2 where p: "try_atomic_semop sma sops un pid = Val (r, sma2)"
    "r = Semop_done \<and> alter \<longrightarrow> (\<exists>sma3 ws. do_smart_update t sma2 (Some sops) True [] = Val (sma3, ws) \<and>
       sem_good sma (\<lambda>n. net n sops) sma3 ws)"
    "r = Semop_done \<and> \<not> alter \<longrightarrow> sem_good sma (\<lambda>n. net n sops) sma2 []"
    "r \<noteq> Semop_done \<longrightarrow> sma2 = sma"
    "r = Semop_sleep \<longrightarrow> sem_good sma (\<lambda>_. 0)
       (queue_semop \<lparr>sleeper = task, q_undo = un, q_pid = pid, q_sops = sops, q_alter = alter\<rparr> sma2) []"
    by (rule perform_semop [OF wf task ne fit un' alter, of pid t]) blast
  show ?thesis
  proof (cases r)
    case Semop_done
    then show ?thesis using p by (cases alter) (auto simp: semop_locked_def)
  next
    case Semop_sleep
    then show ?thesis using p by (auto simp: semop_locked_def)
  next
    case (Semop_fail e)
    then show ?thesis using p sem_good_same [OF wf] by (auto simp: semop_locked_def)
  qed
qed

lemma semtimedop_ok:
  assumes wf: "sem_wf sma" "quiet sma" and task: "task \<notin> sleeper ` set (sem_pending sma)"
  shows "\<exists>ret sma' ws. semtimedop env semid task pid ulp sops timeout sma = Val (ret, sma', ws) \<and>
    sem_good sma (own_net ret sops) sma' ws"
proof -
  let ?undos = "list_ex undo_flag sops"
  have same: "sem_good sma (own_net (Sem_error e) sops) sma []" for e
    using sem_good_same [OF wf] by simp
  show ?thesis
  proof (cases "semtimedop_args env semid sops timeout")
    case (Some e)
    then show ?thesis using same by (simp add: semtimedop_def)
  next
    case None
    then have ne: "sops \<noteq> []" by (auto simp: semtimedop_args_def)
    show ?thesis
    proof (cases "if ?undos then find_alloc_undo env ulp sma else Val sma")
      case (Err e)
      then show ?thesis using None same by (auto simp: semtimedop_def Let_def)
    next
      case Trap
      then show ?thesis by (auto simp: find_alloc_undo_def split: if_splits option.splits)
    next
      case (Val sma1)
      have s1: "sem_wf sma1" "quiet sma1" "sem_base sma1 = sem_base sma" "sem_pending sma1 = sem_pending sma"
        and al: "?undos \<Longrightarrow> \<exists>a. sem_undos sma1 ulp = Some a \<and> length a = length (sem_base sma1)"
        using Val find_alloc_undo_ok [OF wf, of env ulp sma1] wf by (auto split: if_splits)
      have good1: "sem_good sma f sma' ws \<longleftrightarrow> sem_good sma1 f sma' ws" for f sma' ws
        using s1(3) by (simp add: sem_good_def svals_def)
      have fail: "sem_good sma (own_net (Sem_error e) sops) sma1 []" for e
        using sem_good_same [OF s1(1-3)] by simp
      show ?thesis
      proof (cases "lock_check env \<noteq> None \<or> ?undos \<and> stale_undo env \<or> list_ex (\<lambda>sop. sem_num sop \<ge> length (sem_base sma1)) sops \<or>
          denied env (list_ex (\<lambda>sop. sem_op sop \<noteq> 0) sops) \<or> security env \<noteq> None")
        case True
        then show ?thesis
          using None Val fail unfolding semtimedop_def Let_def by (auto split: option.splits)
      next
        case ok: False
        have nums: "\<not> list_ex (\<lambda>sop. sem_num sop \<ge> length (sem_base sma1)) sops" using ok by blast
        from semtimedop_locked [OF s1(1,2) task [folded s1(4)] ne refl al nums refl, of "now env" pid]
        show ?thesis
          using None Val ok unfolding semtimedop_def Let_def good1 by (simp add: imp_conjL)
      qed
    qed
  qed
qed

subsection \<open>The other calls\<close>

lemma awake_ok:
  assumes wf: "sem_wf sma" "quiet sma" and q: "status = None \<Longrightarrow> q \<in> set (sem_pending sma)"
    and a: "semtimedop_awake q status timed_out signal_pending sma = (ret, sma')"
  shows "sem_good sma (\<lambda>_. 0) sma' []"
proof -
  have "sma' = sma \<or> q \<in> set (sem_pending sma) \<and> sma' = unlink_queue sma q"
    using a q by (auto simp: semtimedop_awake_def split: option.splits semop_result.splits if_splits)
  moreover have "sem_good sma (\<lambda>_. 0) (unlink_queue sma q) []" if "q \<in> set (sem_pending sma)"
  proof -
    have "quiet (unlink_queue sma q)" using wf(2) by (auto simp: quiet_def unlink_fields list_del_def)
    then show ?thesis
      using unlink_wf [OF wf(1) that] by (simp add: sem_good_def unlink_fields wake_net_def del: svals_nth)
  qed
  ultimately show ?thesis using sem_good_same [OF wf] by auto
qed

text \<open>Replacing values and adjustments keeps the queues, hence the invariant.\<close>

lemma update_all_wf:
  assumes "sem_wf sma" "same_queues sma sma'" "in_range (svals sma')" "undos_ok sma'"
  obtains sma'' ws where "do_smart_update t sma' None otime [] = Val (sma'', ws)" "sem_wf sma''" "quiet sma''"
    "length (sem_base sma'') = length (sem_base sma)"
    "\<forall>n<length (sem_base sma). svals sma'' ! n = svals sma' ! n + wake_net n ws"
proof -
  have wf': "sem_wf sma'" by (rule wf_same_queues [OF assms])
  have len: "length (sem_base sma') = length (sem_base sma)" using assms(2) by (simp add: same_queues_def)
  obtain sma'' ws where u: "do_smart_update t sma' None otime [] = Val (sma'', ws)" "sem_wf sma''" "quiet sma''"
    "woken sma' ws sma''"
    using smart_update_all [OF wf', of None t otime] by blast
  show ?thesis using that [OF u(1-3)] woken_vals [OF u(4) wf'] len by simp
qed

text \<open>The values that a command of \<open>semctl\<close> stores, before it wakes anybody up.\<close>

definition ctl_vals :: "int \<Rightarrow> semctl_cmd \<Rightarrow> sem_return \<Rightarrow> int list \<Rightarrow> int list" where
  "ctl_vals semnum cmd ret vals =
    (case (cmd, ret) of
       (SETVAL v, Sem_value _) \<Rightarrow> vals[nat semnum := v]
     | (SETALL vs, Sem_value _) \<Rightarrow> map uint vs
     | _ \<Rightarrow> vals)"

definition sem_set :: "sem_array \<Rightarrow> int list \<Rightarrow> sem_array \<Rightarrow> wakeups \<Rightarrow> bool" where
  "sem_set sma vals sma' ws \<longleftrightarrow> sem_wf sma' \<and> quiet sma' \<and> length (sem_base sma') = length (sem_base sma) \<and>
    (\<forall>n<length (sem_base sma). svals sma' ! n = vals ! n + wake_net n ws)"

lemma sem_set_same: "sem_wf sma \<Longrightarrow> quiet sma \<Longrightarrow> sem_set sma (svals sma) sma []"
  by (simp add: sem_set_def wake_net_def)

lemma undos_ok_map:
  assumes "undos_ok sma" "sem_undos sma' = (\<lambda>u. map_option f (sem_undos sma u))"
    "length (sem_base sma') = length (sem_base sma)"
    "\<And>a. length (f a) = length a" "\<And>a. \<forall>x\<in>set a. short_int x \<Longrightarrow> \<forall>x\<in>set (f a). short_int x"
  shows "undos_ok sma'"
  unfolding undos_ok_def adj_ok_def
proof (intro allI impI)
  fix u b assume "sem_undos sma' u = Some b"
  then obtain a where a: "sem_undos sma u = Some a" "b = f a" using assms(2) by auto
  then have "length a = length (sem_base sma)" "\<forall>x\<in>set a. short_int x"
    using assms(1) unfolding undos_ok_def adj_ok_def by auto
  then show "length b = length (sem_base sma') \<and> (\<forall>x\<in>set b. short_int x)"
    using assms(3-5) a(2) by simp
qed

lemma setval_ok:
  assumes wf: "sem_wf sma" and n: "n < length (sem_base sma)" and v: "0 \<le> v" "v \<le> SEMVMX"
  shows "\<exists>sma' ws. do_smart_update t
      (sma\<lparr>sem_undos := clear_undo_of n (sem_undos sma),
           sem_base := (sem_base sma)[n := (sem_base sma ! n)\<lparr>semval := v, sempid := pid\<rparr>],
           sem_ctime := t\<rparr>) None False [] = Val (sma', ws) \<and> sem_set sma ((svals sma)[n := v]) sma' ws"
proof -
  let ?s = "sma\<lparr>sem_undos := clear_undo_of n (sem_undos sma),
    sem_base := (sem_base sma)[n := (sem_base sma ! n)\<lparr>semval := v, sempid := pid\<rparr>], sem_ctime := t\<rparr>"
  have vals: "svals ?s = (svals sma)[n := v]" by (simp add: svals_def map_update)
  have "same_queues sma ?s"
    using n by (auto simp: same_queues_def map_update list_update_same_conv dom_def clear_undo_of_def)
  moreover have "in_range (svals ?s)"
    using wf v unfolding vals sem_wf_def in_range_def by (auto dest!: subsetD [OF set_update_subset_insert])
  moreover have "undos_ok ?s"
    by (rule undos_ok_map [of sma _ "\<lambda>a. a[n := 0]"])
      (use wf in \<open>auto simp: sem_wf_def clear_undo_of_def short_int_def dest: set_update_subset_insert [THEN subsetD]\<close>)
  ultimately show ?thesis
    using update_all_wf [OF wf, of ?s t False] vals unfolding sem_set_def by (metis (no_types, lifting))
qed

lemma setall_ok:
  assumes wf: "sem_wf sma" and l: "length vs = length (sem_base sma)" and v: "\<forall>v\<in>set vs. uint v \<le> SEMVMX"
  shows "\<exists>sma' ws. do_smart_update t
      (sma\<lparr>sem_base := set_values vs (sem_base sma), sem_undos := clear_undos (sem_undos sma), sem_ctime := t\<rparr>)
      None False [] = Val (sma', ws) \<and> sem_set sma (map uint vs) sma' ws"
proof -
  let ?s = "sma\<lparr>sem_base := set_values vs (sem_base sma), sem_undos := clear_undos (sem_undos sma), sem_ctime := t\<rparr>"
  have vals: "svals ?s = map uint vs"
    using l by (auto simp: svals_def set_values_def intro!: nth_equalityI)
  have "same_queues sma ?s"
    using l by (auto simp: same_queues_def set_values_def dom_def clear_undos_def intro!: nth_equalityI)
  moreover have "in_range (svals ?s)"
    using v unfolding vals in_range_def by auto
  moreover have "undos_ok ?s"
    by (rule undos_ok_map [of sma _ "map (\<lambda>_. 0)"])
      (use wf l in \<open>auto simp: sem_wf_def clear_undos_def set_values_def short_int_def\<close>)
  ultimately show ?thesis
    using update_all_wf [OF wf, of ?s t False] vals unfolding sem_set_def by (metis (no_types, lifting))
qed

lemma semctl_ok:
  assumes wf: "sem_wf sma" "quiet sma" and l: "\<forall>vs. cmd = SETALL vs \<longrightarrow> length vs = length (sem_base sma)"
  shows "\<exists>ret out sma' ws. semctl_main env pid semnum cmd sma = Val (ret, out, sma', ws) \<and>
    sem_set sma (ctl_vals semnum cmd ret (svals sma)) sma' ws"
proof -
  have same: "sem_set sma (ctl_vals semnum cmd (Sem_error e) (svals sma)) sma []" for e
    using sem_set_same [OF wf] by (simp add: ctl_vals_def split: semctl_cmd.split)
  show ?thesis
  proof (cases "lock_check env \<noteq> None \<or> security env \<noteq> None \<or>
      denied env (case cmd of SETVAL _ \<Rightarrow> True | SETALL _ \<Rightarrow> True | _ \<Rightarrow> False)")
    case True
    then show ?thesis using same unfolding semctl_main_def Let_def by (auto split: option.splits)
  next
    case ok: False
    show ?thesis
    proof (cases cmd)
      case (SETVAL v)
      have "nat semnum < length (sem_base sma)" if "\<not> (semnum < 0 \<or> semnum \<ge> int (length (sem_base sma)))"
        using that by linarith
      then show ?thesis
        using ok SETVAL same setval_ok [OF wf(1), of "nat semnum" v "now env" pid]
        by (cases "semnum < 0 \<or> semnum \<ge> int (length (sem_base sma)) \<or> v > SEMVMX \<or> v < 0")
          (auto simp: semctl_main_def ctl_vals_def Let_def)
    next
      case (SETALL vs)
      show ?thesis
      proof (cases "length (sem_base sma) > SEMMSL_FAST \<and> no_memory env \<or> bad_address env \<or>
          list_ex (\<lambda>v. uint v > SEMVMX) vs \<or> deleted env")
        case True
        then show ?thesis using ok SETALL same by (auto simp: semctl_main_def)
      next
        case False
        then have "\<forall>v\<in>set vs. uint v \<le> SEMVMX" by (auto simp: list_ex_iff not_less)
        from setall_ok [OF wf(1) _ this, of "now env"] l SETALL show ?thesis
          using ok False by (auto simp: semctl_main_def ctl_vals_def)
      qed
    qed (use ok same sem_set_same [OF wf] in \<open>auto simp: semctl_main_def Let_def ctl_vals_def\<close>)
  qed
qed

text \<open>The exit of the last task of an undo list adds the adjustments, within the range of a value.\<close>

definition exit_vals :: "int list option \<Rightarrow> int list \<Rightarrow> int list" where
  "exit_vals adj vals =
    (case adj of None \<Rightarrow> vals | Some a \<Rightarrow> map2 (\<lambda>d v. if d = 0 then v else min SEMVMX (max 0 (v + d))) a vals)"

lemma undo_adjust_ok:
  "length a = length base \<Longrightarrow> length (undo_adjust pid a base) = length base \<and>
    map sem_simple (undo_adjust pid a base) = map sem_simple base \<and>
    map semval (undo_adjust pid a base) = exit_vals (Some a) (map semval base)"
  by (induction pid a base rule: undo_adjust.induct) (auto simp: exit_vals_def SEMVMX_def Let_def)

lemma drop_undo_wf:
  assumes wf: "sem_wf sma" and q: "\<forall>q\<in>set (sem_pending sma). q_undo q \<noteq> Some u"
  shows "sem_wf (sma\<lparr>sem_undos := (sem_undos sma)(u := None)\<rparr>)"
proof -
  let ?s = "sma\<lparr>sem_undos := (sem_undos sma)(u := None)\<rparr>"
  have "q_ok ?s q" if "q \<in> set (sem_pending sma)" for q
  proof -
    have "undo_of ?s (q_undo q) = undo_of sma (q_undo q)" using q that by (auto simp: undo_of_def split: option.split)
    then show ?thesis using wf q that unfolding sem_wf_def q_ok_def by auto
  qed
  moreover have "undos_ok ?s" using wf by (auto simp: sem_wf_def undos_ok_def adj_ok_def)
  ultimately show ?thesis using wf by (simp add: sem_wf_def svals_def)
qed

lemma exit_ok:
  assumes wf: "sem_wf sma" "quiet sma" and q: "\<forall>q\<in>set (sem_pending sma). q_undo q \<noteq> Some ulp"
  shows "\<exists>sma' ws. exit_undo t pid ulp sma = Val (sma', ws) \<and>
    sem_set sma (exit_vals (sem_undos sma ulp) (svals sma)) sma' ws \<and> (sem_undos sma ulp = None \<longrightarrow> sma' = sma)"
proof (cases "sem_undos sma ulp")
  case None
  then show ?thesis using sem_set_same [OF wf] by (simp add: exit_undo_def exit_vals_def)
next
  case (Some a)
  let ?u = "sma\<lparr>sem_undos := (sem_undos sma)(ulp := None)\<rparr>"
  let ?s = "?u\<lparr>sem_base := undo_adjust pid a (sem_base sma)\<rparr>"
  have la: "length a = length (sem_base sma)"
    using wf(1) undos_ok_length [of sma "Some ulp" a] Some by (simp add: sem_wf_def undo_of_def)
  note adj = undo_adjust_ok [OF la, of pid]
  have vals: "svals ?s = exit_vals (Some a) (svals sma)" using adj by (simp add: svals_def)
  have wfu: "sem_wf ?u" by (rule drop_undo_wf [OF wf(1) q])
  have "same_queues ?u ?s" using adj by (simp add: same_queues_def)
  moreover have "in_range (svals ?s)"
    using wf(1) unfolding vals exit_vals_def sem_wf_def in_range_def
    by (auto simp: SEMVMX_def dest!: set_zip_rightD)
  moreover have "undos_ok ?s" using wfu adj by (simp add: sem_wf_def undos_ok_def)
  ultimately obtain sma' ws where "do_smart_update t ?s None True [] = Val (sma', ws)" "sem_wf sma'" "quiet sma'"
    "length (sem_base sma') = length (sem_base ?u)"
    "\<forall>n<length (sem_base ?u). svals sma' ! n = svals ?s ! n + wake_net n ws"
    by (rule update_all_wf [OF wfu]) blast
  then show ?thesis unfolding vals using Some la by (simp add: exit_undo_def sem_set_def del: svals_nth)
qed

text \<open>Removal of the array fails every sleeping operation, and no other.\<close>

lemma remove_all_ok:
  "\<lbrakk>distinct (map sleeper (sem_pending sma)); sem_pending sma = qs\<rbrakk> \<Longrightarrow>
   sem_pending (fst (remove_all qs sma tasks)) = [] \<and>
   snd (remove_all qs sma tasks) = tasks @ map (\<lambda>q. (q, Semop_fail EIDRM)) qs"
proof (induction qs arbitrary: sma tasks)
  case (Cons q qs)
  then have "list_del q (sem_pending sma) = qs"
    by (auto simp: list_del_def image_iff intro!: filter_True)
  with Cons.IH [of "unlink_queue sma q"] Cons.prems show ?case
    by (simp add: unlink_fields wake_up_sem_queue_prepare_def)
qed simp

lemma freeary_ok:
  assumes "sem_wf sma" "freeary used sma = (sma', tasks, used')"
  shows "sem_pending sma' = []" "tasks = map (\<lambda>q. (q, Semop_fail EIDRM)) (sem_pending sma)"
  using assms remove_all_ok [of "sma\<lparr>sem_undos := Map.empty\<rparr>" "sem_pending sma" "[]"]
  by (auto simp: freeary_def sem_wf_def split: prod.splits)

end
