(* ===== verification/Sem_Tasks.thy ===== *)
theory Sem_Tasks
  imports Sem_Calls
begin

text \<open>
  The tasks around a semaphore array: who sleeps on it, who holds which undo list, and the sequences
  of calls, forks and exits they make.  The reference counts of the undo lists are exact, so an undo
  list is freed, and its adjustments are applied, when its last task exits and no operation that
  uses it sleeps any more.
\<close>

subsection \<open>What the queue scans leave alone\<close>

definition shrinks :: "sem_array \<Rightarrow> sem_array \<Rightarrow> bool" where
  "shrinks sma sma' \<longleftrightarrow> set (sem_pending sma') \<subseteq> set (sem_pending sma) \<and> dom (sem_undos sma') = dom (sem_undos sma)"

lemma shrinks_refl [simp]: "shrinks sma sma"
  by (simp add: shrinks_def)

lemma shrinks_otime [simp]: "shrinks a (b\<lparr>sem_otime := t\<rparr>) = shrinks a b"
  by (simp add: shrinks_def)

lemma shrinks_trans: "shrinks a b \<Longrightarrow> shrinks b c \<Longrightarrow> shrinks a c"
  by (auto simp: shrinks_def)

lemma semop_commit_None: "semop_commit pid base adj dn = (base', adj') \<Longrightarrow> adj' = None \<longleftrightarrow> adj = None"
  by (induction pid base adj dn rule: semop_commit.induct) (auto split: if_splits)

lemma try_shrinks:
  assumes "try_atomic_semop sma sops un pid = Val (r, sma')"
  shows "sem_pending sma' = sem_pending sma" "dom (sem_undos sma') = dom (sem_undos sma)"
proof -
  have put: "dom (sem_undos (put_undo un adj (sma\<lparr>sem_base := base\<rparr>))) = dom (sem_undos sma) \<and>
      sem_pending (put_undo un adj (sma\<lparr>sem_base := base\<rparr>)) = sem_pending sma"
    if "semop_commit pid b (undo_of sma un) dn = (base, adj)" for adj base b dn
    using semop_commit_None [OF that] by (auto simp: put_undo_def undo_of_def split: option.splits)
  obtain stop base dn where l: "semop_loop (undo_of sma un) (sem_base sma) [] sops = Val (stop, base, dn)"
    using assms by (auto simp: try_atomic_semop_def)
  have "sem_pending sma' = sem_pending sma \<and> dom (sem_undos sma') = dom (sem_undos sma)"
  proof (cases stop)
    case Stop_done
    obtain b a where c: "semop_commit pid base (undo_of sma un) dn = (b, a)" by fastforce
    then have "sma' = put_undo un a (sma\<lparr>sem_base := b\<rparr>)"
      using assms l Stop_done by (simp add: try_atomic_semop_def)
    then show ?thesis using put [OF c] by simp
  qed (use assms l in \<open>auto simp: try_atomic_semop_def\<close>)
  then show "sem_pending sma' = sem_pending sma" "dom (sem_undos sma') = dom (sem_undos sma)" by simp_all
qed

lemma unlink_shrinks: "shrinks sma (unlink_queue sma q)"
  by (auto simp: shrinks_def unlink_fields list_del_def)

lemma update_walk_shrinks: "update_walk semnum walk sma pt c = Val (again, sma', pt', c') \<Longrightarrow> shrinks sma sma'"
proof (induction walk arbitrary: sma pt c)
  case (Cons q walk)
  have step: "shrinks sma (unlink_queue sma1 q)" "shrinks sma sma1"
    if "try_atomic_semop sma (q_sops q) (q_undo q) (q_pid q) = Val (r, sma1)" for r sma1
    using try_shrinks [OF that] unlink_shrinks [of sma1 q] by (simp_all add: shrinks_def)
  show ?case
  proof (cases "case semnum of None \<Rightarrow> False | Some n \<Rightarrow> semval (sem_base sma ! n) = 0 \<and> q_alter q")
    case True
    then show ?thesis using Cons.prems by simp
  next
    case go: False
    then obtain r sma1 where t: "try_atomic_semop sma (q_sops q) (q_undo q) (q_pid q) = Val (r, sma1)"
      using Cons.prems by auto
    show ?thesis
    proof (cases "r = Semop_sleep")
      case True
      then have "update_walk semnum walk sma1 pt c = Val (again, sma', pt', c')" using Cons.prems go t by simp
      from shrinks_trans [OF step(2) [OF t] Cons.IH [OF this]] show ?thesis .
    next
      case False
      then have "sma' = unlink_queue sma1 q \<or>
          update_walk semnum walk (unlink_queue sma1 q) (wake_up_sem_queue_prepare pt q r) (c \<or> r = Semop_done) =
            Val (again, sma', pt', c')"
        using Cons.prems go t by (auto simp: Let_def split: if_splits)
      then show ?thesis
        using step(1) [OF t] shrinks_trans [OF step(1) [OF t] Cons.IH] by blast
    qed
  qed
qed simp

lemma update_again_shrinks: "update_again fuel semnum sma pt c = Val (sma', pt', c') \<Longrightarrow> shrinks sma sma'"
proof (induction fuel semnum sma pt c rule: update_again.induct)
  case (2 fuel semnum sma pt completed)
  then obtain again s p d where w: "update_walk semnum (pending_list semnum sma) sma pt completed = Val (again, s, p, d)"
    by auto
  from update_walk_shrinks [OF w] 2 w show ?case
    using shrinks_trans by (cases again) auto
qed simp

lemma update_queue_shrinks: "update_queue sma semnum pt = Val (sma', pt', c) \<Longrightarrow> shrinks sma sma'"
  by (auto simp: update_queue_def Let_def simp del: update_again.simps dest: update_again_shrinks split: if_splits)

lemma smart_loop_shrinks: "smart_loop sops sma pt otime = Val (sma', pt', otime') \<Longrightarrow> shrinks sma sma'"
proof (induction sops sma pt otime rule: smart_loop.induct)
  case (2 sop sops sma pt otime)
  show ?case
  proof (cases "sem_op sop > 0 \<or> (sem_op sop < 0 \<and> semval (sem_base sma ! sem_num sop) = 0)")
    case True
    then obtain s p c where u: "update_queue sma (Some (sem_num sop)) pt = Val (s, p, c)"
      using 2 by (auto split: if_splits)
    from update_queue_shrinks [OF u] "2.prems" "2.IH" True u show ?thesis
      using shrinks_trans by (auto split: if_splits)
  qed (use 2 in \<open>auto split: if_splits\<close>)
qed simp

lemma smart_update_shrinks: "do_smart_update t sma sops otime pt = Val (sma', pt') \<Longrightarrow> shrinks sma sma'"
  by (auto simp: do_smart_update_def split: if_splits dest: update_queue_shrinks smart_loop_shrinks)

subsection \<open>Reference counts of the undo lists\<close>

definition holders :: "(nat \<rightharpoonup> nat option) \<Rightarrow> nat \<Rightarrow> nat set" where
  "holders l u = {t. l t = Some (Some u)}"

text \<open>Every undo list with a task is allocated and counts its tasks, and no other list is allocated.\<close>

definition exact :: "(nat \<rightharpoonup> nat option) \<Rightarrow> (nat \<rightharpoonup> int) \<Rightarrow> bool" where
  "exact l c \<longleftrightarrow> finite (dom l) \<and>
    (\<forall>u. c u = (if holders l u = {} then None else Some (int (card (holders l u)))))"

lemma holders_upd: "holders (l(t := x)) u = (if x = Some (Some u) then insert t (holders l u) else holders l u - {t})"
  by (auto simp: holders_def)

lemma finite_holders: "exact l c \<Longrightarrow> finite (holders l u)"
  unfolding exact_def by (auto simp: holders_def intro: finite_subset [of _ "dom l"])

lemma exact_fresh:
  assumes "exact l c" "c fresh = None" "l task = Some None"
  shows "exact (l(task \<mapsto> Some fresh)) (c(fresh \<mapsto> 1))"
proof -
  have "holders l fresh = {}" using assms(1,2) by (auto simp: exact_def split: if_splits)
  moreover have "task \<notin> holders l u" for u using assms(3) by (simp add: holders_def)
  ultimately show ?thesis using assms(1) by (auto simp: exact_def holders_upd)
qed

lemma exact_add:
  assumes e: "exact l c" and "c u = Some n" "l child = None"
  shows "exact (l(child \<mapsto> Some u)) (c(u \<mapsto> n + 1))"
proof -
  have h: "child \<notin> holders l v" for v using assms(3) by (simp add: holders_def)
  have "n = int (card (holders l u))" using assms(1,2) by (auto simp: exact_def split: if_splits)
  then show ?thesis using e h finite_holders [OF e] by (auto simp: exact_def holders_upd)
qed

lemma exact_add_none: "exact l c \<Longrightarrow> l child = None \<Longrightarrow> exact (l(child \<mapsto> None)) c"
  unfolding exact_def holders_upd by (auto simp: holders_def)

lemma exact_del_none: "exact l c \<Longrightarrow> l task = Some None \<Longrightarrow> exact (l(task := None)) c"
  unfolding exact_def holders_upd by (auto simp: holders_def)

lemma exact_del:
  assumes e: "exact l c" and "l task = Some (Some u)" "c u = Some n"
  shows "n - 1 \<noteq> 0 \<Longrightarrow> exact (l(task := None)) (c(u \<mapsto> n - 1))"
    "n - 1 = 0 \<Longrightarrow> exact (l(task := None)) (c(u := None)) \<and> holders l u = {task}"
proof -
  have t: "task \<in> holders l v \<longleftrightarrow> v = u" for v using assms(2) by (auto simp: holders_def)
  have n: "n = int (card (holders l u))" using assms(1,3) by (auto simp: exact_def split: if_splits)
  have c: "int (card (holders l u - {task})) = n - 1"
    using card_Suc_Diff1 [OF finite_holders [OF e], of task u] t n by simp
  have v: "holders l v - {task} = holders l v" if "v \<noteq> u" for v using t that by auto
  show "exact (l(task := None)) (c(u \<mapsto> n - 1))" if "n - 1 \<noteq> 0"
  proof -
    have "holders l u - {task} \<noteq> {}"
    proof
      assume "holders l u - {task} = {}"
      then have "card (holders l u - {task}) = 0" by (simp only: card.empty)
      then show False using c that by linarith
    qed
    then show ?thesis using e c v by (auto simp: exact_def holders_upd)
  qed
  show "exact (l(task := None)) (c(u := None)) \<and> holders l u = {task}" if "n - 1 = 0"
  proof -
    have "holders l u - {task} = {}" using c that finite_holders [OF e, of u] by simp
    then show ?thesis using e v t by (auto simp: exact_def holders_upd)
  qed
qed

subsection \<open>The invariant with tasks\<close>

text \<open>A call of \<open>semtimedop\<close> adds at most the entry of its own task and its own undo structure.\<close>

definition frame :: "nat \<Rightarrow> nat option \<Rightarrow> sem_array \<Rightarrow> sem_array \<Rightarrow> bool" where
  "frame task un sma sma' \<longleftrightarrow>
    (\<forall>q\<in>set (sem_pending sma'). q \<in> set (sem_pending sma) \<or> sleeper q = task \<and> q_undo q = un) \<and>
    dom (sem_undos sma') \<subseteq> dom (sem_undos sma) \<union> {u. un = Some u}"

lemma frame_shrinks: "frame task un sma sma' \<Longrightarrow> shrinks sma' sma'' \<Longrightarrow> frame task un sma sma''"
  unfolding frame_def shrinks_def by blast

lemma frame_refl [simp]: "frame task un sma sma"
  by (simp add: frame_def)

lemma locked_frame:
  assumes f: "frame task un sma sma1"
    and c: "semop_locked t task pid un alter sops sma1 = Val (ret, sma', ws)"
  shows "frame task un sma sma'"
proof -
  obtain r sma2 where t: "try_atomic_semop sma1 sops un pid = Val (r, sma2)" using c by (auto simp: semop_locked_def)
  have f2: "frame task un sma sma2" using try_shrinks [OF t] f by (simp add: frame_def)
  show ?thesis
  proof (cases r)
    case Semop_done
    then show ?thesis
      using c t f2 smart_update_shrinks frame_shrinks by (fastforce simp: semop_locked_def split: if_splits)
  next
    case Semop_sleep
    then have "sma' = queue_semop \<lparr>sleeper = task, q_undo = un, q_pid = pid, q_sops = sops, q_alter = alter\<rparr> sma2"
      using c t by (simp add: semop_locked_def)
    then show ?thesis using f2 unfolding frame_def by (auto simp: queue_fields)
  qed (use c t f2 in \<open>auto simp: semop_locked_def\<close>)
qed

lemma semtimedop_frame:
  assumes "semtimedop env semid task pid ulp sops timeout sma = Val (ret, sma', ws)"
  shows "sma' = sma \<or> semtimedop_args env semid sops timeout = None \<and> (list_ex undo_flag sops \<longrightarrow> undo_list env = None) \<and>
    frame task (if list_ex undo_flag sops then Some ulp else None) sma sma'"
proof (cases "semtimedop_args env semid sops timeout")
  case (Some e)
  then show ?thesis using assms by (simp add: semtimedop_def)
next
  case args: None
  let ?un = "if list_ex undo_flag sops then Some ulp else None"
  show ?thesis
  proof (cases "if list_ex undo_flag sops then find_alloc_undo env ulp sma else Val sma")
    case (Val sma1)
    then have f1: "frame task ?un sma sma1" "list_ex undo_flag sops \<longrightarrow> undo_list env = None"
      by (auto simp: find_alloc_undo_def frame_def split: option.splits if_splits)
    show ?thesis
    proof (cases "lock_check env \<noteq> None \<or> list_ex undo_flag sops \<and> stale_undo env \<or>
        list_ex (\<lambda>sop. sem_num sop \<ge> length (sem_base sma1)) sops \<or>
        denied env (list_ex (\<lambda>sop. sem_op sop \<noteq> 0) sops) \<or> security env \<noteq> None")
      case True
      then have "sma' = sma1"
        using assms args Val unfolding semtimedop_def Let_def by (auto split: if_splits option.splits)
      then show ?thesis using f1 args by simp
    next
      case False
      have "frame task ?un sma sma'"
        by (rule locked_frame [OF f1(1), where t = "now env" and sops = sops and pid = pid and ret = ret and ws = ws and
            alter = "list_ex (\<lambda>sop. sem_op sop \<noteq> 0) sops"])
          (use assms args Val False in \<open>cases "list_ex undo_flag sops"; simp add: semtimedop_def Let_def\<close>)
      then show ?thesis using f1 args by simp
    qed
  qed (use assms args in \<open>auto simp: semtimedop_def Let_def\<close>)
qed

lemma awake_shrinks: "semtimedop_awake q status timed_out signal_pending sma = (ret, sma') \<Longrightarrow> shrinks sma sma'"
  by (auto simp: semtimedop_awake_def unlink_shrinks split: option.splits semop_result.splits if_splits)

lemma semctl_shrinks:
  assumes "semctl_main env pid semnum cmd sma = Val (ret, out, sma', ws)"
  shows "shrinks sma sma'"
proof -
  have "sma' = sma \<or> (\<exists>s. shrinks sma s \<and> do_smart_update (now env) s None False [] = Val (sma', ws))"
  proof (cases cmd)
    case (SETVAL v)
    let ?s = "sma\<lparr>sem_undos := clear_undo_of (nat semnum) (sem_undos sma),
      sem_base := (sem_base sma)[nat semnum := (sem_base sma ! nat semnum)\<lparr>semval := v, sempid := pid\<rparr>],
      sem_ctime := now env\<rparr>"
    have "shrinks sma ?s" by (auto simp: shrinks_def clear_undo_of_def)
    then show ?thesis
      using assms SETVAL by (auto simp: semctl_main_def Let_def split: option.splits if_splits)
  next
    case (SETALL vs)
    let ?s = "sma\<lparr>sem_base := set_values vs (sem_base sma), sem_undos := clear_undos (sem_undos sma), sem_ctime := now env\<rparr>"
    have "shrinks sma ?s" by (auto simp: shrinks_def clear_undos_def)
    then show ?thesis
      using assms SETALL by (auto simp: semctl_main_def Let_def split: option.splits if_splits)
  qed (use assms in \<open>auto simp: semctl_main_def Let_def split: option.splits if_splits\<close>)
  then show ?thesis by (auto dest!: smart_update_shrinks intro: shrinks_trans)
qed

lemma exit_undo_frame:
  assumes "exit_undo t pid ulp sma = Val (sma', ws)"
  shows "set (sem_pending sma') \<subseteq> set (sem_pending sma)" "dom (sem_undos sma') = dom (sem_undos sma) - {ulp}"
proof -
  have "set (sem_pending sma') \<subseteq> set (sem_pending sma) \<and> dom (sem_undos sma') = dom (sem_undos sma) - {ulp}"
  proof (cases "sem_undos sma ulp")
    case None
    then show ?thesis using assms by (auto simp: exit_undo_def)
  next
    case (Some adj)
    from smart_update_shrinks [of t "sma\<lparr>sem_undos := (sem_undos sma)(ulp := None), sem_base := undo_adjust pid adj (sem_base sma)\<rparr>"
        None True "[]" sma' ws] show ?thesis
      using assms Some by (simp add: exit_undo_def shrinks_def split: if_splits)
  qed
  then show "set (sem_pending sma') \<subseteq> set (sem_pending sma)" "dom (sem_undos sma') = dom (sem_undos sma) - {ulp}"
    by simp_all
qed

text \<open>
  A sleeping task is alive and sleeps with its own undo list or with none; the array has undo
  structures of allocated lists only.
\<close>

definition sys_ok :: "sem_sys \<Rightarrow> bool" where
  "sys_ok sys \<longleftrightarrow> sem_wf (sys_array sys) \<and> quiet (sys_array sys) \<and> exact (undo_list_of sys) (undo_refcnt sys) \<and>
    (\<forall>q\<in>set (sem_pending (sys_array sys)). undo_list_of sys (sleeper q) \<noteq> None \<and>
      (\<forall>u. q_undo q = Some u \<longrightarrow> undo_list_of sys (sleeper q) = Some (Some u))) \<and>
    dom (sem_undos (sys_array sys)) \<subseteq> dom (undo_refcnt sys)"

lemma sys_ok_shrinks:
  assumes "sys_ok sys" "sem_wf sma" "quiet sma" "shrinks (sys_array sys) sma"
  shows "sys_ok (sys\<lparr>sys_array := sma\<rparr>)"
  using assms unfolding sys_ok_def shrinks_def by auto

lemma get_undo_list_ok:
  assumes ok: "sys_ok sys" and live: "undo_list_of sys task \<noteq> None" and fresh: "undo_refcnt sys fresh = None"
  shows "(\<exists>e. get_undo_list env fresh task sys = Err e) \<or>
    (\<exists>ulp sys'. get_undo_list env fresh task sys = Val (ulp, sys') \<and> sys_ok sys' \<and> sys_array sys' = sys_array sys \<and>
      undo_list_of sys' task = Some (Some ulp) \<and> undo_refcnt sys' ulp \<noteq> None \<and>
      (\<forall>t. undo_list_of sys' t = None \<longleftrightarrow> undo_list_of sys t = None))"
proof -
  obtain x where x: "undo_list_of sys task = Some x" using live by auto
  show ?thesis
  proof (cases x)
    case None
    have "sys_ok (sys\<lparr>undo_list_of := (undo_list_of sys)(task \<mapsto> Some fresh), undo_refcnt := (undo_refcnt sys)(fresh \<mapsto> 1)\<rparr>)"
      using ok x None exact_fresh [of "undo_list_of sys" "undo_refcnt sys" fresh task] fresh
      unfolding sys_ok_def by auto
    then show ?thesis using x None by (auto simp: get_undo_list_def)
  next
    case (Some u)
    then have "holders (undo_list_of sys) u \<noteq> {}" using x by (auto simp: holders_def)
    then have "undo_refcnt sys u \<noteq> None" using ok by (simp add: sys_ok_def exact_def)
    then show ?thesis using ok x Some by (simp add: get_undo_list_def)
  qed
qed

lemma sys_ok_frame:
  assumes "sys_ok sys" "sem_wf sma" "quiet sma" "frame task un (sys_array sys) sma" "undo_list_of sys task \<noteq> None"
    "\<forall>u. un = Some u \<longrightarrow> undo_list_of sys task = Some (Some u) \<and> undo_refcnt sys u \<noteq> None"
  shows "sys_ok (sys\<lparr>sys_array := sma\<rparr>)"
proof -
  have "dom (sem_undos sma) \<subseteq> dom (sem_undos (sys_array sys)) \<union> {u. un = Some u}"
    using assms(4) by (simp add: frame_def)
  also have "\<dots> \<subseteq> dom (undo_refcnt sys)" using assms(1,6) by (auto simp: sys_ok_def)
  finally show ?thesis using assms unfolding sys_ok_def frame_def by auto
qed

subsection \<open>The calls of tasks\<close>

text \<open>The call proper, once the undo list of the task is known.\<close>

lemma task_call_ok:
  assumes ok: "sys_ok sys" and live: "undo_list_of sys task \<noteq> None"
    and task: "task \<notin> sleeper ` set (sem_pending (sys_array sys))"
    and ulp: "semtimedop_args env semid sops timeout = None \<and> list_ex undo_flag sops \<and> undo_list env = None \<longrightarrow>
      undo_list_of sys task = Some (Some ulp) \<and> undo_refcnt sys ulp \<noteq> None"
  shows "\<exists>ret sma ws. semtimedop env semid task pid ulp sops timeout (sys_array sys) = Val (ret, sma, ws) \<and>
    sys_ok (sys\<lparr>sys_array := sma\<rparr>) \<and> sem_good (sys_array sys) (own_net ret sops) sma ws"
proof -
  have wf: "sem_wf (sys_array sys)" "quiet (sys_array sys)" using ok by (simp_all add: sys_ok_def)
  obtain ret sma ws where c: "semtimedop env semid task pid ulp sops timeout (sys_array sys) = Val (ret, sma, ws)"
    and g: "sem_good (sys_array sys) (own_net ret sops) sma ws"
    using semtimedop_ok [OF wf task, of env semid pid ulp sops timeout] by blast
  have "sys_ok (sys\<lparr>sys_array := sma\<rparr>)"
    using semtimedop_frame [OF c]
  proof
    assume "sma = sys_array sys"
    then show ?thesis using ok by simp
  next
    assume f: "semtimedop_args env semid sops timeout = None \<and> (list_ex undo_flag sops \<longrightarrow> undo_list env = None) \<and>
      frame task (if list_ex undo_flag sops then Some ulp else None) (sys_array sys) sma"
    show ?thesis
      by (rule sys_ok_frame [OF ok _ _ _ live, where un = "if list_ex undo_flag sops then Some ulp else None"])
        (use f g ulp in \<open>auto simp: sem_good_def split: if_splits\<close>)
  qed
  then show ?thesis using c g by blast
qed

lemma task_semtimedop_ok:
  assumes ok: "sys_ok sys" and live: "undo_list_of sys task \<noteq> None" and fresh: "undo_refcnt sys fresh = None"
    and task: "task \<notin> sleeper ` set (sem_pending (sys_array sys))"
  shows "\<exists>ret sys' ws. task_semtimedop env semid task pid fresh sops timeout sys = Val (ret, sys', ws) \<and>
    sys_ok sys' \<and> sem_good (sys_array sys) (own_net ret sops) (sys_array sys') ws"
proof (cases "semtimedop_args env semid sops timeout = None \<and> list_ex undo_flag sops")
  case False
  have a: "semtimedop_args (env\<lparr>undo_list := None\<rparr>) = semtimedop_args env"
    by (intro ext) (simp add: semtimedop_args_def)
  from task_call_ok [OF ok live task, of "env\<lparr>undo_list := None\<rparr>" semid sops timeout fresh pid] False
  show ?thesis by (auto simp: task_semtimedop_def a)
next
  case True
  from get_undo_list_ok [OF ok live fresh, of env] show ?thesis
  proof
    assume "\<exists>e. get_undo_list env fresh task sys = Err e"
    then obtain e where e: "get_undo_list env fresh task sys = Err e" by blast
    from task_call_ok [OF ok live task, of "env\<lparr>undo_list := Some e\<rparr>" semid sops timeout fresh pid] True e
    show ?thesis by (auto simp: task_semtimedop_def)
  next
    assume "\<exists>ulp sys'. get_undo_list env fresh task sys = Val (ulp, sys') \<and> sys_ok sys' \<and>
      sys_array sys' = sys_array sys \<and> undo_list_of sys' task = Some (Some ulp) \<and> undo_refcnt sys' ulp \<noteq> None \<and>
      (\<forall>t. undo_list_of sys' t = None \<longleftrightarrow> undo_list_of sys t = None)"
    then obtain ulp sys1 where g: "get_undo_list env fresh task sys = Val (ulp, sys1)" "sys_ok sys1"
      "sys_array sys1 = sys_array sys" "undo_list_of sys1 task = Some (Some ulp)" "undo_refcnt sys1 ulp \<noteq> None"
      by blast
    from task_call_ok [OF g(2), of task "env\<lparr>undo_list := None\<rparr>" semid sops timeout ulp pid] g task True
    show ?thesis by (auto simp: task_semtimedop_def)
  qed
qed

lemma copy_semundo_ok:
  assumes ok: "sys_ok sys" and live: "undo_list_of sys task \<noteq> None" and fresh: "undo_refcnt sys fresh = None"
    and child: "undo_list_of sys child = None"
  shows "(\<exists>e. copy_semundo env clone_sysvsem fresh task child sys = Err e) \<or>
    (\<exists>sys'. copy_semundo env clone_sysvsem fresh task child sys = Val sys' \<and> sys_ok sys' \<and>
      sys_array sys' = sys_array sys)"
proof -
  have add: "sys_ok (s\<lparr>undo_list_of := (undo_list_of s)(child \<mapsto> x), undo_refcnt := c\<rparr>)"
    if "sys_ok s" "exact ((undo_list_of s)(child \<mapsto> x)) c" "dom (undo_refcnt s) \<subseteq> dom c" "undo_list_of s child = None" for s x c
  proof -
    have "dom (sem_undos (sys_array s)) \<subseteq> dom c" using that(1,3) unfolding sys_ok_def by blast
    then show ?thesis using that(1,2,4) unfolding sys_ok_def by simp fastforce
  qed
  show ?thesis
  proof (cases clone_sysvsem)
    case False
    have "exact ((undo_list_of sys)(child \<mapsto> None)) (undo_refcnt sys)"
      using ok child by (simp add: sys_ok_def exact_add_none)
    from add [OF ok this] child False show ?thesis by (simp add: copy_semundo_def)
  next
    case True
    from get_undo_list_ok [OF ok live fresh, of env] show ?thesis
    proof
      assume "\<exists>ulp sys'. get_undo_list env fresh task sys = Val (ulp, sys') \<and> sys_ok sys' \<and>
        sys_array sys' = sys_array sys \<and> undo_list_of sys' task = Some (Some ulp) \<and> undo_refcnt sys' ulp \<noteq> None \<and>
        (\<forall>t. undo_list_of sys' t = None \<longleftrightarrow> undo_list_of sys t = None)"
      then obtain ulp s n where g: "get_undo_list env fresh task sys = Val (ulp, s)" "sys_ok s"
        "sys_array s = sys_array sys" "undo_refcnt s ulp = Some n" "undo_list_of s child = None"
        using child by auto
      have "exact ((undo_list_of s)(child \<mapsto> Some ulp)) ((undo_refcnt s)(ulp \<mapsto> n + 1))"
        using g by (simp add: sys_ok_def exact_add)
      from add [OF g(2) this] g True show ?thesis by (auto simp: copy_semundo_def)
    qed (use True in \<open>auto simp: copy_semundo_def\<close>)
  qed
qed

text \<open>
  The last task of an undo list that exits finds no sleeping operation with that list: its sleeper
  would be another task of the list.
\<close>

lemma last_exit_unused:
  assumes ok: "sys_ok sys" and h: "holders (undo_list_of sys) u = {task}"
    and task: "task \<notin> sleeper ` set (sem_pending (sys_array sys))"
  shows "\<forall>q\<in>set (sem_pending (sys_array sys)). q_undo q \<noteq> Some u"
proof
  fix q assume q: "q \<in> set (sem_pending (sys_array sys))"
  show "q_undo q \<noteq> Some u"
  proof
    assume "q_undo q = Some u"
    then have "sleeper q \<in> holders (undo_list_of sys) u" using ok q by (simp add: sys_ok_def holders_def)
    then show False using h task q by auto
  qed
qed

lemma exit_sem_ok:
  assumes ok: "sys_ok sys" and live: "undo_list_of sys task \<noteq> None"
    and task: "task \<notin> sleeper ` set (sem_pending (sys_array sys))"
  shows "\<exists>sys' ws. exit_sem t pid task sys = Val (sys', ws) \<and> sys_ok sys' \<and>
    length (sem_base (sys_array sys')) = length (sem_base (sys_array sys))"
proof -
  have e: "exact (undo_list_of sys) (undo_refcnt sys)" and wf: "sem_wf (sys_array sys)" "quiet (sys_array sys)"
    using ok by (simp_all add: sys_ok_def)
  obtain x where x: "undo_list_of sys task = Some x" using live by auto
  have del: "sys_ok (sys\<lparr>undo_list_of := (undo_list_of sys)(task := None), sys_array := sma, undo_refcnt := c\<rparr>)"
    if "exact ((undo_list_of sys)(task := None)) c" "sem_wf sma" "quiet sma"
      "set (sem_pending sma) \<subseteq> set (sem_pending (sys_array sys))" "dom (sem_undos sma) \<subseteq> dom c" for c sma
  proof -
    have "sleeper q \<noteq> task" if "q \<in> set (sem_pending sma)" for q
      using that \<open>set (sem_pending sma) \<subseteq> _\<close> task by blast
    then show ?thesis using that ok unfolding sys_ok_def by auto
  qed
  show ?thesis
  proof (cases x)
    case None
    have "exact ((undo_list_of sys)(task := None)) (undo_refcnt sys)"
      using e x None by (simp add: exact_del_none)
    from del [OF this, of "sys_array sys"] ok x None show ?thesis by (simp add: exit_sem_def sys_ok_def)
  next
    case (Some u)
    have "holders (undo_list_of sys) u \<noteq> {}" using x Some by (auto simp: holders_def)
    then obtain n where n: "undo_refcnt sys u = Some n" using e by (simp add: exact_def)
    note d = exact_del [OF e x [unfolded Some] n]
    show ?thesis
    proof (cases "n - 1 = 0")
      case False
      have "dom (sem_undos (sys_array sys)) \<subseteq> dom ((undo_refcnt sys)(u \<mapsto> n - 1))" using ok by (auto simp: sys_ok_def)
      from del [OF d(1) [OF False] wf subset_refl this] x Some n False show ?thesis
        by (simp add: exit_sem_def sys_ok_def)
    next
      case True
      have unused: "\<forall>q\<in>set (sem_pending (sys_array sys)). q_undo q \<noteq> Some u"
        using last_exit_unused [OF ok _ task] d(2) [OF True] by blast
      obtain sma ws where u: "exit_undo t pid u (sys_array sys) = Val (sma, ws)"
        "sem_set (sys_array sys) (exit_vals (sem_undos (sys_array sys) u) (svals (sys_array sys))) sma ws"
        using exit_ok [of "sys_array sys" u t pid] ok unused by (auto simp: sys_ok_def)
      have "dom (sem_undos sma) \<subseteq> dom ((undo_refcnt sys)(u := None))"
        using exit_undo_frame(2) [OF u(1)] ok by (auto simp: sys_ok_def)
      from del [OF conjunct1 [OF d(2) [OF True]], of sma] u exit_undo_frame [OF u(1)] this x Some n True show ?thesis
        by (simp add: exit_sem_def sem_set_def)
    qed
  qed
qed

subsection \<open>Sequences of events\<close>

text \<open>
  What happens to an array between its creation and its removal: \<open>Ev_semop\<close> is a call of
  \<open>semtimedop\<close>, \<open>Ev_awake\<close> a task that finds no status in its entry after a timeout or a signal.
\<close>

datatype sem_event =
    Ev_semop sem_env int nat int nat "sembuf list" "(int \<times> int) option"
  | Ev_awake sem_queue bool bool
  | Ev_ctl sem_env int int semctl_cmd
  | Ev_fork sem_env bool nat nat nat
  | Ev_exit int int nat

definition sem_exec :: "sem_event \<Rightarrow> sem_sys \<Rightarrow> (sem_sys \<times> wakeups) outcome" where
  "sem_exec ev sys =
    (case ev of
       Ev_semop env semid task pid fresh sops timeout \<Rightarrow>
         bind_outcome (task_semtimedop env semid task pid fresh sops timeout sys) (\<lambda>(ret, sys', ws). Val (sys', ws))
     | Ev_awake q timed_out signal_pending \<Rightarrow>
         Val (sys\<lparr>sys_array := snd (semtimedop_awake q None timed_out signal_pending (sys_array sys))\<rparr>, [])
     | Ev_ctl env pid semnum cmd \<Rightarrow>
         bind_outcome (semctl_main env pid semnum cmd (sys_array sys))
           (\<lambda>(ret, out, sma, ws). Val (sys\<lparr>sys_array := sma\<rparr>, ws))
     | Ev_fork env clone_sysvsem fresh task child \<Rightarrow>
         (case copy_semundo env clone_sysvsem fresh task child sys of
            Val sys' \<Rightarrow> Val (sys', []) | Err e \<Rightarrow> Val (sys, []) | Trap \<Rightarrow> Trap)
     | Ev_exit t pid task \<Rightarrow> exit_sem t pid task sys)"

text \<open>
  When an event can happen: calls are made by live tasks that do not sleep; \<open>kzalloc\<close> returns a list
  that is not allocated; a child is a new task; \<open>SETALL\<close> copies one value for each semaphore.
\<close>

definition running :: "sem_sys \<Rightarrow> nat \<Rightarrow> bool" where
  "running sys task \<longleftrightarrow> undo_list_of sys task \<noteq> None \<and> task \<notin> sleeper ` set (sem_pending (sys_array sys))"

definition ev_ok :: "sem_sys \<Rightarrow> sem_event \<Rightarrow> bool" where
  "ev_ok sys ev =
    (case ev of
       Ev_semop env semid task pid fresh sops timeout \<Rightarrow> running sys task \<and> undo_refcnt sys fresh = None
     | Ev_awake q timed_out signal_pending \<Rightarrow> q \<in> set (sem_pending (sys_array sys))
     | Ev_ctl env pid semnum cmd \<Rightarrow>
         (case cmd of SETALL vs \<Rightarrow> length vs = length (sem_base (sys_array sys)) | _ \<Rightarrow> True)
     | Ev_fork env clone_sysvsem fresh task child \<Rightarrow>
         running sys task \<and> undo_refcnt sys fresh = None \<and> undo_list_of sys child = None
     | Ev_exit t pid task \<Rightarrow> running sys task)"

text \<open>The array is new, and the tasks have no undo lists yet.\<close>

inductive sem_reachable :: "sem_sys \<Rightarrow> bool" where
  sem_new: "newary env used_sems sc_semmns addid nsems = Val (sma, used') \<Longrightarrow> finite live \<Longrightarrow>
    sem_reachable \<lparr>sys_array = sma, undo_list_of = (\<lambda>t. if t \<in> live then Some None else None), undo_refcnt = Map.empty\<rparr>"
| sem_event: "sem_reachable sys \<Longrightarrow> ev_ok sys ev \<Longrightarrow> sem_exec ev sys = Val (sys', ws) \<Longrightarrow> sem_reachable sys'"

lemma newary_ok: "newary env used_sems sc_semmns addid nsems = Val (sma, used') \<Longrightarrow>
    sem_wf sma \<and> quiet sma \<and> sem_pending sma = [] \<and> sem_undos sma = Map.empty"
  by (auto simp: newary_def sem_wf_def quiet_def svals_def in_range_def undos_ok_def adj_ok_def zero_first_def
      SEMVMX_def split: if_splits option.splits)

lemma sem_exec_ok:
  assumes ok: "sys_ok sys" and ev: "ev_ok sys ev"
  shows "\<exists>sys' ws. sem_exec ev sys = Val (sys', ws) \<and> sys_ok sys' \<and>
    length (sem_base (sys_array sys')) = length (sem_base (sys_array sys))"
proof -
  have wf: "sem_wf (sys_array sys)" "quiet (sys_array sys)" using ok by (simp_all add: sys_ok_def)
  show ?thesis
  proof (cases ev)
    case (Ev_semop env semid task pid fresh sops timeout)
    with task_semtimedop_ok [OF ok, of task fresh env semid pid sops timeout] ev show ?thesis
      by (auto simp: sem_exec_def sem_good_def ev_ok_def running_def)
  next
    case (Ev_awake q timed_out signal_pending)
    obtain ret sma where a: "semtimedop_awake q None timed_out signal_pending (sys_array sys) = (ret, sma)" by fastforce
    with awake_ok [OF wf _ a] awake_shrinks [OF a] Ev_awake ev sys_ok_shrinks [OF ok, of sma] show ?thesis
      by (auto simp: sem_exec_def sem_good_def ev_ok_def)
  next
    case (Ev_ctl env pid semnum cmd)
    then have "\<forall>vs. cmd = SETALL vs \<longrightarrow> length vs = length (sem_base (sys_array sys))" using ev by (auto simp: ev_ok_def)
    from semctl_ok [OF wf this, of env pid semnum] obtain ret out sma ws where
      c: "semctl_main env pid semnum cmd (sys_array sys) = Val (ret, out, sma, ws)"
      and s: "sem_wf sma" "quiet sma" "length (sem_base sma) = length (sem_base (sys_array sys))"
      by (auto simp: sem_set_def)
    from sys_ok_shrinks [OF ok s(1,2) semctl_shrinks [OF c]] c s(3) Ev_ctl show ?thesis by (auto simp: sem_exec_def)
  next
    case (Ev_fork env clone_sysvsem fresh task child)
    with copy_semundo_ok [OF ok, of task fresh child env clone_sysvsem] ev ok show ?thesis
      by (auto simp: sem_exec_def ev_ok_def running_def)
  next
    case (Ev_exit t pid task)
    with exit_sem_ok [OF ok, of task t pid] ev show ?thesis
      by (auto simp: sem_exec_def ev_ok_def running_def)
  qed
qed

lemma sem_reachable_ok: "sem_reachable sys \<Longrightarrow> sys_ok sys"
proof (induction rule: sem_reachable.induct)
  case (sem_new env used_sems sc_semmns addid nsems sma used' live)
  have "holders (\<lambda>t. if t \<in> live then Some None else None) u = {}" for u by (simp add: holders_def)
  then show ?case using sem_new newary_ok by (auto simp: sys_ok_def exact_def dom_def)
next
  case (sem_event sys ev sys' ws)
  with sem_exec_ok [of sys ev] show ?case by auto
qed

end
