(* ===== verification/Sem_Correct.thy ===== *)
theory Sem_Correct
  imports Sem_Tasks
begin

text \<open>
  The properties of semaphore arrays over whole sequences of calls: no wake-up is lost, no call
  leaves the arrays it accesses, sleeping operations are completed in order, the values are
  accounted for.
\<close>

subsection \<open>Consequences of the invariant\<close>

lemma blocked_try:
  assumes wf: "sem_wf sma" and q: "q \<in> set (sem_pending sma)" and b: "blocked sma q"
  shows "try_atomic_semop sma (q_sops q) (q_undo q) (q_pid q) = Val (Semop_sleep, sma)"
proof -
  have fit: "sops_fit (length (sem_base sma)) (undo_of sma (q_undo q)) (q_sops q)" and u: "undos_ok sma"
    using wf q by (simp_all add: sem_wf_def q_ok_def)
  show ?thesis
    by (rule try_atomic_ref [OF fit u, of "q_pid q"]) (use b in \<open>simp add: blocked_def\<close>)
qed

text \<open>A sleeping operation shows in the counts of waiting tasks.\<close>

lemma sum_list_member_le: "x \<in> set xs \<Longrightarrow> (f x :: nat) \<le> sum_list (map f xs)"
  by (induction xs) auto

lemma ref_semop_sleep:
  "fst (ref_semop vals adj sops) = Semop_sleep \<Longrightarrow> \<forall>v\<in>set vals. 0 \<le> v \<Longrightarrow>
   \<forall>sop\<in>set sops. sem_num sop < length vals \<Longrightarrow>
   \<exists>sop\<in>set sops. \<not> nowait_flag sop \<and> sem_op sop \<le> 0"
proof (induction sops arbitrary: vals)
  case (Cons sop sops)
  let ?v = "vals ! sem_num sop"
  have v: "0 \<le> ?v" using Cons.prems by auto
  show ?case
  proof (cases "sem_op sop = 0 \<and> ?v \<noteq> 0 \<or> ?v + sem_op sop < 0")
    case True
    then show ?thesis using Cons.prems(1) v by (auto simp: Let_def split: if_splits)
  next
    case False
    then have "fst (ref_semop (vals[sem_num sop := ?v + sem_op sop]) adj sops) = Semop_sleep"
      using Cons.prems(1) by (auto simp: Let_def split: if_splits)
    moreover have "\<forall>v\<in>set (vals[sem_num sop := ?v + sem_op sop]). 0 \<le> v"
      using Cons.prems(2) False by (auto dest!: subsetD [OF set_update_subset_insert])
    ultimately show ?thesis using Cons.IH Cons.prems(3) by fastforce
  qed
qed simp

lemma sleeping_counted:
  assumes wf: "sem_wf sma" "quiet sma" and q: "q \<in> set (sem_pending sma)"
  shows "\<exists>n<length (sem_base sma). 0 < count_semncnt sma n + count_semzcnt sma n"
proof -
  have fit: "\<forall>sop\<in>set (q_sops q). sem_num sop < length (svals sma)"
    using wf(1) q by (simp add: sem_wf_def q_ok_def sops_fit_def)
  have "\<forall>v\<in>set (svals sma). 0 \<le> v" using wf(1) by (simp add: sem_wf_def in_range_def)
  with fit wf(2) q obtain sop where sop: "sop \<in> set (q_sops q)" "\<not> nowait_flag sop" "sem_op sop \<le> 0"
    unfolding quiet_def blocked_def by (metis ref_semop_sleep)
  let ?n = "sem_num sop"
  let ?neg = "\<lambda>q. length (filter (\<lambda>s. sem_num s = ?n \<and> sem_op s < 0 \<and> \<not> nowait_flag s) (q_sops q))"
  let ?zero = "\<lambda>q. length (filter (\<lambda>s. sem_num s = ?n \<and> sem_op s = 0 \<and> \<not> nowait_flag s) (q_sops q))"
  have "0 < ?neg q + ?zero q"
    using sop by (cases "sem_op sop = 0") (force simp: filter_empty_conv)+
  also have "\<dots> \<le> count_semncnt sma ?n + count_semzcnt sma ?n"
    unfolding count_semncnt_def count_semzcnt_def by (intro add_mono sum_list_member_le q)
  finally show ?thesis using fit sop(1) by auto
qed

subsection \<open>What a completed call records\<close>

text \<open>The units a call takes with SEM_UNDO, by semaphore, are subtracted from the adjustment of the caller.\<close>

definition undo_net :: "nat \<Rightarrow> sembuf list \<Rightarrow> int" where
  "undo_net n sops = net n (filter undo_flag sops)"

definition adjusted :: "sembuf list \<Rightarrow> int list \<Rightarrow> int list" where
  "adjusted sops a = map (\<lambda>n. to_short (a ! n - undo_net n sops)) [0..<length a]"

lemma to_short_step: "to_short (to_short x - y) = to_short (x - y)"
proof -
  have "(to_short x - y + 32768) mod 65536 = ((x + 32768) mod 65536 - y) mod 65536" by (simp add: to_short_def)
  also have "\<dots> = (x - y + 32768) mod 65536" by (simp add: mod_diff_left_eq algebra_simps)
  finally show ?thesis by (simp add: to_short_def)
qed

lemma undo_net_Cons: "undo_net n (sop # sops) = (if undo_flag sop \<and> sem_num sop = n then sem_op sop else 0) + undo_net n sops"
  by (simp add: undo_net_def net_def)

lemma undo_net_rev: "undo_net n (rev sops) = undo_net n sops"
  by (simp add: undo_net_def net_def rev_filter [symmetric] rev_map [symmetric] sum_list_rev)

lemma adjusted_Cons:
  assumes "sem_num sop < length a"
  shows "adjusted dn (if undo_flag sop then a[sem_num sop := to_short (a ! sem_num sop - sem_op sop)] else a) = adjusted (sop # dn) a"
  using assms by (auto simp: adjusted_def undo_net_Cons nth_list_update to_short_step algebra_simps)

lemma semop_commit_records:
  "list_all (\<lambda>sop. sem_num sop < length base) dn \<Longrightarrow> adj_ok (length base) adj \<Longrightarrow>
   snd (semop_commit pid base adj dn) = map_option (adjusted dn) adj \<and>
   map sempid (fst (semop_commit pid base adj dn)) =
     map (\<lambda>n. if n \<in> sem_num ` set dn then pid else sempid (base ! n)) [0..<length base]"
proof (induction pid base adj dn rule: semop_commit.induct)
  case (1 pid base adj)
  have "adjusted [] a = a" if "adj = Some a" for a
  proof (rule nth_equalityI)
    fix n assume "n < length (adjusted [] a)"
    then show "adjusted [] a ! n = a ! n"
      using 1(2) that by (simp add: adjusted_def undo_net_def net_def adj_ok_def to_short_id)
  qed (simp add: adjusted_def)
  moreover have "map sempid base = map (\<lambda>n. sempid (base ! n)) [0..<length base]" by (rule nth_equalityI) simp_all
  ultimately show ?case by (cases adj) simp_all
next
  case (2 pid base adj sop dn)
  let ?adj = "if undo_flag sop then map_option (\<lambda>a. a[sem_num sop := to_short (a ! sem_num sop - sem_op sop)]) adj else adj"
  let ?b = "base[sem_num sop := (base ! sem_num sop)\<lparr>sempid := pid\<rparr>]"
  have fit: "list_all (\<lambda>sop. sem_num sop < length ?b) dn" "adj_ok (length ?b) ?adj"
    using 2(2,3) by (auto simp: adj_ok_to_short)
  have "map_option (adjusted dn) ?adj = map_option (adjusted (sop # dn)) adj"
    using 2(2,3) adjusted_Cons [of sop _ dn] by (cases adj) (auto simp: adj_ok_def)
  moreover have "(if n \<in> sem_num ` set dn then pid else sempid (?b ! n)) =
      (if n \<in> sem_num ` set (sop # dn) then pid else sempid (base ! n))" if "n < length base" for n
    using 2(2) by (auto simp: nth_list_update)
  ultimately show ?case using 2(1) [OF fit] by (simp cong: if_cong)
qed

lemma semop_loop_done:
  "semop_loop adj base dn sops = Val (Stop_done, base', dn') \<Longrightarrow>
   dn' = rev sops @ dn \<and> map sempid base' = map sempid base \<and> length base' = length base \<and>
   list_all (\<lambda>sop. sem_num sop < length base) sops"
proof (induction adj base dn sops rule: semop_loop.induct)
  case (2 adj base dn sop sops)
  let ?b = "base[sem_num sop := (base ! sem_num sop)\<lparr>semval := semval (base ! sem_num sop) + sem_op sop\<rparr>]"
  have "map sempid ?b = map sempid base" by (cases "sem_num sop < length base") (simp_all add: map_update list_update_same_conv list_update_beyond not_less)
  then show ?case using 2 by (auto simp: Let_def split: if_splits)
qed simp

lemma try_atomic_records:
  assumes "try_atomic_semop sma sops un pid = Val (Semop_done, sma')" and "undos_ok sma"
  shows "sem_undos sma' = (case un of None \<Rightarrow> sem_undos sma
      | Some u \<Rightarrow> (sem_undos sma)(u := map_option (adjusted sops) (sem_undos sma u)))"
    and "map sempid (sem_base sma') =
      map (\<lambda>n. if n \<in> sem_num ` set sops then pid else sempid (sem_base sma ! n)) [0..<length (sem_base sma)]"
proof -
  obtain stop base dn where l: "semop_loop (undo_of sma un) (sem_base sma) [] sops = Val (stop, base, dn)"
    using assms(1) by (auto simp: try_atomic_semop_def)
  then have st: "stop = Stop_done" using assms(1) by (auto simp: try_atomic_semop_def split: semop_stop.splits if_splits)
  note d = semop_loop_done [OF l [unfolded st]]
  have fit: "list_all (\<lambda>sop. sem_num sop < length base) dn" "adj_ok (length base) (undo_of sma un)"
    using d assms(2) by (auto simp: undos_ok_def undo_of_def list_all_iff split: option.splits) (auto simp: adj_ok_def)
  note c = conjunct1 [OF semop_commit_records [OF fit, of pid]] conjunct2 [OF semop_commit_records [OF fit, of pid]]
  have sma': "sma' = put_undo un (snd (semop_commit pid base (undo_of sma un) dn))
      (sma\<lparr>sem_base := fst (semop_commit pid base (undo_of sma un) dn)\<rparr>)"
    using assms(1) l st by (auto simp: try_atomic_semop_def split: prod.splits)
  have "adjusted dn = adjusted sops" using d by (simp add: adjusted_def undo_net_rev fun_eq_iff)
  then show "sem_undos sma' = (case un of None \<Rightarrow> sem_undos sma
      | Some u \<Rightarrow> (sem_undos sma)(u := map_option (adjusted sops) (sem_undos sma u)))"
    unfolding sma' c(1) by (auto simp: put_undo_def undo_of_def fun_upd_idem split: option.splits)
  have "sempid (base ! n) = sempid (sem_base sma ! n)" if "n < length (sem_base sma)" for n
    using d that by (metis nth_map)
  then show "map sempid (sem_base sma') =
      map (\<lambda>n. if n \<in> sem_num ` set sops then pid else sempid (sem_base sma ! n)) [0..<length (sem_base sma)]"
    unfolding sma' using c(2) d by (auto simp: put_undo_def split: option.splits)
qed

subsection \<open>An array with sleeping tasks\<close>

text \<open>
  Two semaphores, both 0.  Task 1 waits for one unit of the first, task 2 for one unit of each.
\<close>

definition ex_env :: sem_env where
  "ex_env = \<lparr>denied = (\<lambda>_. False), security = None, no_memory = False, bad_address = False, bad_timespec = False,
    undo_list = None, lock_check = None, deleted = False, stale_undo = False, now = 7, sc_semopm = 32\<rparr>"

definition mk_sop :: "nat \<Rightarrow> int \<Rightarrow> u16 \<Rightarrow> sembuf" where
  "mk_sop n d flg = \<lparr>sem_num = n, sem_op = d, sem_flg = flg\<rparr>"

definition ex_q1 :: sem_queue where
  "ex_q1 = \<lparr>sleeper = 1, q_undo = None, q_pid = 101, q_sops = [mk_sop 0 (- 1) 0], q_alter = True\<rparr>"

definition ex_q2 :: sem_queue where
  "ex_q2 = \<lparr>sleeper = 2, q_undo = None, q_pid = 102, q_sops = [mk_sop 0 (- 1) 0, mk_sop 1 (- 1) 0], q_alter = True\<rparr>"

definition ex_array :: "int \<Rightarrow> sem_queue list \<Rightarrow> sem_queue list \<Rightarrow> int \<Rightarrow> sem_array" where
  "ex_array v simple pending complex =
    \<lparr>sem_base = [\<lparr>semval = v, sempid = 0, sem_simple = simple\<rparr>, \<lparr>semval = 0, sempid = 0, sem_simple = []\<rparr>],
     sem_pending = pending, complex_count = complex, sem_undos = Map.empty, sem_otime = 0, sem_ctime = 7\<rparr>"

lemmas ex_defs = ex_env_def mk_sop_def ex_q1_def ex_q2_def ex_array_def undo_flag_def nowait_flag_def SEM_UNDO_def
  IPC_NOWAIT_def SEMVMX_def SEMAEM_def SEMOPM_FAST_def

definition ex_sys :: "sem_array \<Rightarrow> sem_sys" where
  "ex_sys sma = \<lparr>sys_array = sma, undo_list_of = (\<lambda>t. if t \<in> {1, 2, 4} then Some None else None), undo_refcnt = Map.empty\<rparr>"

lemmas ex_exec_defs = ex_defs ex_sys_def sem_exec_def task_semtimedop_def semtimedop_def semtimedop_args_def semop_locked_def
  bad_timeout_def try_atomic_semop_def undo_of_def queue_semop_def Let_def

abbreviation "ex_waiting \<equiv> ex_array 0 [ex_q1] [ex_q1, ex_q2] 1"

lemma ex_reachable: "sem_reachable (ex_sys ex_waiting)"
proof -
  have "newary ex_env 0 32000 None 2 = Val (ex_array 0 [] [] 0, 2)"
    by (simp add: newary_def to_int_def ex_defs numeral_2_eq_2)
  then have r0: "sem_reachable (ex_sys (ex_array 0 [] [] 0))" unfolding ex_sys_def by (rule sem_new) simp
  have "sem_exec (Ev_semop ex_env 0 1 101 1 (q_sops ex_q1) None) (ex_sys (ex_array 0 [] [] 0)) =
      Val (ex_sys (ex_array 0 [ex_q1] [ex_q1] 0), [])"
    by (simp add: ex_exec_defs del: bind_outcome_Val_iff)
  from sem_event [OF r0 _ this] have r1: "sem_reachable (ex_sys (ex_array 0 [ex_q1] [ex_q1] 0))"
    by (simp add: ev_ok_def running_def ex_sys_def ex_defs)
  have "sem_exec (Ev_semop ex_env 0 2 102 1 (q_sops ex_q2) None) (ex_sys (ex_array 0 [ex_q1] [ex_q1] 0)) =
      Val (ex_sys ex_waiting, [])"
    by (simp add: ex_exec_defs del: bind_outcome_Val_iff)
  from sem_event [OF r1 _ this] show ?thesis by (simp add: ev_ok_def running_def ex_sys_def ex_defs)
qed

subsection \<open>Properties\<close>

text \<open>C3. No wake-up is lost. After any sequence of events on an array (semaphore operations, timeouts and
  signals of sleeping tasks, semctl, forks, exits), no task sleeps on an operation that could be completed:
  trying a sleeping operation again gives sleep and changes nothing. So the shortcuts of check_restart,
  of the lists of simple operations and of do_smart_update never skip an operation they have enabled.\<close>

theorem sem_no_lost_wakeup:
  assumes "sem_reachable sys" "q \<in> set (sem_pending (sys_array sys))"
  shows "try_atomic_semop (sys_array sys) (q_sops q) (q_undo q) (q_pid q) = Val (Semop_sleep, sys_array sys)"
  using sem_reachable_ok [OF assms(1)] assms(2) by (auto simp: sys_ok_def quiet_def intro: blocked_try)

theorem sem_no_lost_wakeup_witness:
  "sem_reachable (ex_sys ex_waiting) \<and> ex_q2 \<in> set (sem_pending (sys_array (ex_sys ex_waiting))) \<and>
   try_atomic_semop (sys_array (ex_sys ex_waiting)) (q_sops ex_q2) (q_undo ex_q2) (q_pid ex_q2) =
     Val (Semop_sleep, sys_array (ex_sys ex_waiting))"
proof -
  have "ex_q2 \<in> set (sem_pending (sys_array (ex_sys ex_waiting)))" by (simp add: ex_sys_def ex_array_def)
  then show ?thesis using ex_reachable sem_no_lost_wakeup [OF ex_reachable, of ex_q2] by blast
qed

text \<open>C20. The calls are memory safe and total. On an array reached by any sequence of events, every further
  call returns (update_queue restarts at most once for each sleeping operation), accesses no semaphore,
  undo entry or queue entry outside its array, meets none of the BUG_ON conditions, and leaves every
  value between 0 and SEMVMX.\<close>

theorem sem_calls_safe:
  assumes "sem_reachable sys" "ev_ok sys ev"
  shows "\<exists>sys' ws. sem_exec ev sys = Val (sys', ws) \<and>
    length (sem_base (sys_array sys')) = length (sem_base (sys_array sys)) \<and>
    list_all (\<lambda>s. 0 \<le> semval s \<and> semval s \<le> SEMVMX) (sem_base (sys_array sys'))"
proof -
  obtain sys' ws where "sem_exec ev sys = Val (sys', ws)" "sys_ok sys'"
    "length (sem_base (sys_array sys')) = length (sem_base (sys_array sys))"
    using sem_exec_ok [of sys ev] sem_reachable_ok [OF assms(1)] assms(2) by blast
  then show ?thesis by (auto simp: sys_ok_def sem_wf_def in_range_def svals_def list_all_iff)
qed

theorem sem_calls_safe_witness:
  "ev_ok (ex_sys ex_waiting) (Ev_ctl ex_env 9 0 (SETVAL 1)) \<and>
   (\<exists>sys' ws. sem_exec (Ev_ctl ex_env 9 0 (SETVAL 1)) (ex_sys ex_waiting) = Val (sys', ws) \<and>
     length (sem_base (sys_array sys')) = length (sem_base (sys_array (ex_sys ex_waiting))) \<and>
     list_all (\<lambda>s. 0 \<le> semval s \<and> semval s \<le> SEMVMX) (sem_base (sys_array sys')))"
proof -
  have ok: "ev_ok (ex_sys ex_waiting) (Ev_ctl ex_env 9 0 (SETVAL 1))" by (simp add: ev_ok_def)
  from sem_calls_safe [OF ex_reachable ok] show ?thesis using ok by blast
qed

text \<open>C21. The reference count of every undo list is the number of live tasks that use it, a list without tasks is
  not allocated, and every sleeping operation that will record an adjustment has its undo structure and an
  allocated list: exit_sem never frees a list or an undo structure that is still in use.\<close>

theorem undo_refcounts_exact:
  assumes "sem_reachable sys"
  shows "undo_refcnt sys u =
      (if holders (undo_list_of sys) u = {} then None else Some (int (card (holders (undo_list_of sys) u)))) \<and>
    list_all (\<lambda>q. case q_undo q of None \<Rightarrow> True
      | Some v \<Rightarrow> sem_undos (sys_array sys) v \<noteq> None \<and> undo_refcnt sys v \<noteq> None \<and> sleeper q \<in> holders (undo_list_of sys) v)
      (sem_pending (sys_array sys))"
proof -
  have ok: "sys_ok sys" by (rule sem_reachable_ok [OF assms])
  then have e: "undo_refcnt sys v =
      (if holders (undo_list_of sys) v = {} then None else Some (int (card (holders (undo_list_of sys) v))))" for v
    by (simp add: sys_ok_def exact_def)
  have "sem_undos (sys_array sys) v \<noteq> None \<and> undo_refcnt sys v \<noteq> None \<and> sleeper q \<in> holders (undo_list_of sys) v"
    if q: "q \<in> set (sem_pending (sys_array sys))" "q_undo q = Some v" for q v
  proof -
    have "sem_undos (sys_array sys) v \<noteq> None" "sleeper q \<in> holders (undo_list_of sys) v"
      using ok q by (auto simp: sys_ok_def sem_wf_def q_ok_def holders_def)
    then show ?thesis using e [of v] by auto
  qed
  then show ?thesis using e by (simp add: list_all_iff split: option.split)
qed

text \<open>Task 4 has a child that shares its undo list, and sleeps on an operation with SEM_UNDO.\<close>

definition ex_q4 :: sem_queue where
  "ex_q4 = \<lparr>sleeper = 4, q_undo = Some 1, q_pid = 104, q_sops = [mk_sop 1 (- 1) SEM_UNDO], q_alter = True\<rparr>"

definition ex_shared :: "sem_array \<Rightarrow> sem_sys" where
  "ex_shared sma = \<lparr>sys_array = sma,
     undo_list_of = (\<lambda>t. if t \<in> {1, 2, 4} then Some None else None)(4 \<mapsto> Some 1, 5 \<mapsto> Some 1), undo_refcnt = [1 \<mapsto> 2]\<rparr>"

definition ex_undo_waiting :: sem_array where
  "ex_undo_waiting = \<lparr>sem_base = [\<lparr>semval = 0, sempid = 0, sem_simple = []\<rparr>, \<lparr>semval = 0, sempid = 0, sem_simple = [ex_q4]\<rparr>],
     sem_pending = [ex_q4], complex_count = 0, sem_undos = [1 \<mapsto> [0, 0]], sem_otime = 0, sem_ctime = 7\<rparr>"

lemma ex_shared_reachable: "sem_reachable (ex_shared ex_undo_waiting)"
proof -
  have "newary ex_env 0 32000 None 2 = Val (ex_array 0 [] [] 0, 2)"
    by (simp add: newary_def to_int_def ex_defs numeral_2_eq_2)
  then have r0: "sem_reachable (ex_sys (ex_array 0 [] [] 0))" unfolding ex_sys_def by (rule sem_new) simp
  have "sem_exec (Ev_fork ex_env True 1 4 5) (ex_sys (ex_array 0 [] [] 0)) = Val (ex_shared (ex_array 0 [] [] 0), [])"
    by (simp add: sem_exec_def copy_semundo_def get_undo_list_def ex_sys_def ex_shared_def ex_env_def del: bind_outcome_Val_iff)
  from sem_event [OF r0 _ this] have r1: "sem_reachable (ex_shared (ex_array 0 [] [] 0))"
    by (simp add: ev_ok_def running_def ex_sys_def ex_defs)
  have "sem_exec (Ev_semop ex_env 0 4 104 7 (q_sops ex_q4) None) (ex_shared (ex_array 0 [] [] 0)) =
      Val (ex_shared ex_undo_waiting, [])"
    by (simp add: ex_exec_defs get_undo_list_def find_alloc_undo_def undo_exceeds_def ex_q4_def ex_shared_def ex_undo_waiting_def
        del: bind_outcome_Val_iff)
  from sem_event [OF r1 _ this] show ?thesis by (simp add: ev_ok_def running_def ex_shared_def ex_defs)
qed

theorem undo_refcounts_exact_witness:
  "sem_reachable (ex_shared ex_undo_waiting) \<and> ex_q4 \<in> set (sem_pending (sys_array (ex_shared ex_undo_waiting))) \<and>
   card (holders (undo_list_of (ex_shared ex_undo_waiting)) 1) = 2 \<and> sleeper ex_q4 \<in> holders (undo_list_of (ex_shared ex_undo_waiting)) 1"
proof -
  have "undo_refcnt (ex_shared ex_undo_waiting) 1 = Some 2" by (simp add: ex_shared_def)
  moreover have "ex_q4 \<in> set (sem_pending (sys_array (ex_shared ex_undo_waiting)))" "q_undo ex_q4 = Some 1"
    by (simp_all add: ex_shared_def ex_undo_waiting_def ex_q4_def)
  ultimately show ?thesis using ex_shared_reachable undo_refcounts_exact [OF ex_shared_reachable, of 1]
    by (auto simp: list_all_iff split: if_splits)
qed

text \<open>C19. update_queue on the whole queue completes operations in the order of the queue: each entry it
  removes is, on the array at that moment, the first of the queue that does not have to sleep, it gets the
  result of its own operation, and the entries that stay all have to sleep.  update_queue always returns.\<close>

theorem update_queue_fifo:
  assumes "sem_wf sma"
  shows "\<exists>sma' ws completed. update_queue sma None pt = Val (sma', pt @ ws, completed) \<and> fifo_steps sma ws sma' \<and>
    list_all (\<lambda>q. try_atomic_semop sma' (q_sops q) (q_undo q) (q_pid q) = Val (Semop_sleep, sma')) (sem_pending sma')"
proof -
  obtain sma' ws c where u: "update_queue sma None pt = Val (sma', pt @ ws, c)"
    "walk_post None (\<lambda>_. False) sma ws sma'" "quiet sma'"
    using update_queue_all [OF assms, of None pt] by blast
  then show ?thesis by (auto simp: walk_post_def quiet_def list_all_iff intro: blocked_try)
qed

lemma ex_ready_wf: "sem_wf (ex_array 1 [ex_q1] [ex_q1, ex_q2] 1)"
  by (auto simp: sem_wf_def in_range_def svals_def undos_ok_def adj_ok_def q_ok_def sops_fit_def zero_first_def
      simple_on_def less_Suc_eq numeral_2_eq_2 ex_defs)

theorem update_queue_fifo_witness:
  "sem_wf (ex_array 1 [ex_q1] [ex_q1, ex_q2] 1) \<and>
   (\<exists>sma' ws completed. update_queue (ex_array 1 [ex_q1] [ex_q1, ex_q2] 1) None [] = Val (sma', [] @ ws, completed) \<and>
     fifo_steps (ex_array 1 [ex_q1] [ex_q1, ex_q2] 1) ws sma' \<and>
     list_all (\<lambda>q. try_atomic_semop sma' (q_sops q) (q_undo q) (q_pid q) = Val (Semop_sleep, sma')) (sem_pending sma'))"
  using ex_ready_wf update_queue_fifo [OF ex_ready_wf, of "[]"] by blast

text \<open>C25. try_atomic_semop performs the operations of a call in order, all of them or none: its result is
  that of the reference, with the values of the reference when it succeeds and the array unchanged
  (values, queues and adjustments) when the call has to sleep or fails.  When it succeeds, the adjustment of each
  semaphore in the undo structure of the call goes down by the sum of the SEM_UNDO operations on it, as a
  short, no other undo structure changes, and exactly the semaphores named in the call get the caller's pid.\<close>

theorem semop_all_or_nothing:
  assumes "sops_fit (length (sem_base sma)) (undo_of sma un) sops" "undos_ok sma"
  shows "\<exists>r sma'. try_atomic_semop sma sops un pid = Val (r, sma') \<and>
    r = fst (ref_semop (svals sma) (undo_of sma un) sops) \<and>
    (if r = Semop_done
     then svals sma' = snd (ref_semop (svals sma) (undo_of sma un) sops) \<and> sem_pending sma' = sem_pending sma \<and>
       sem_undos sma' = (case un of None \<Rightarrow> sem_undos sma
         | Some u \<Rightarrow> (sem_undos sma)(u := map_option (adjusted sops) (sem_undos sma u))) \<and>
       map sempid (sem_base sma') =
         map (\<lambda>n. if n \<in> sem_num ` set sops then pid else sempid (sem_base sma ! n)) [0..<length (sem_base sma)]
     else sma' = sma)"
proof -
  obtain r sma' where t: "try_atomic_semop sma sops un pid = Val (r, sma')" "r = fst (ref_semop (svals sma) (undo_of sma un) sops)"
      "r \<noteq> Semop_done \<longrightarrow> sma' = sma" "r = Semop_done \<longrightarrow> svals sma' = snd (ref_semop (svals sma) (undo_of sma un) sops)"
      "same_queues sma sma'"
    by (rule try_atomic_ref [OF assms, of pid]) blast
  then show ?thesis using try_atomic_records [OF _ assms(2), of sops un pid sma'] by (auto simp: same_queues_def)
qed

definition ex_undo :: sem_array where
  "ex_undo = (ex_array 5 [] [] 0)\<lparr>sem_undos := [1 \<mapsto> [0, 3]]\<rparr>"

theorem semop_all_or_nothing_witness:
  "\<exists>sma'. try_atomic_semop ex_undo [mk_sop 0 (- 2) SEM_UNDO, mk_sop 0 (- 1) 0] (Some 1) 102 = Val (Semop_done, sma') \<and>
     svals sma' = [2, 0] \<and> sem_undos sma' = [1 \<mapsto> [2, 3]] \<and> map sempid (sem_base sma') = [102, 0]"
proof -
  let ?sops = "[mk_sop 0 (- 2) SEM_UNDO, mk_sop 0 (- 1) 0]"
  have fit: "sops_fit (length (sem_base ex_undo)) (undo_of ex_undo (Some 1)) ?sops"
    by (simp add: sops_fit_def undo_of_def ex_undo_def ex_defs)
  have u: "undos_ok ex_undo" by (auto simp: undos_ok_def adj_ok_def short_int_def ex_undo_def ex_defs)
  have ref: "ref_semop (svals ex_undo) (undo_of ex_undo (Some 1)) ?sops = (Semop_done, [2, 0])"
    by (simp add: svals_def undo_of_def undo_exceeds_def ex_undo_def Let_def ex_defs)
  have adj: "(sem_undos ex_undo)(1 := map_option (adjusted ?sops) (sem_undos ex_undo 1)) = [1 \<mapsto> [2, 3]]"
    by (simp add: adjusted_def undo_net_def net_def to_short_def upt_rec ex_undo_def ex_defs)
  have pids: "map (\<lambda>n. if n \<in> sem_num ` set ?sops then 102 else sempid (sem_base ex_undo ! n)) [0..<length (sem_base ex_undo)] = [102, 0]"
    by (simp add: upt_rec ex_undo_def ex_defs)
  from semop_all_or_nothing [OF fit u, of 102, unfolded ref option.case adj pids fst_conv snd_conv] show ?thesis by auto
qed

text \<open>C26. Units of a semaphore are accounted for: a call of semtimedop changes each value by the sum of its own
  operations on it if it returns 0, by nothing if it fails or goes to sleep, and by the sums of the
  operations it completes for sleeping tasks, which are exactly those it wakes with success.\<close>

theorem sem_units_accounted:
  assumes "sem_reachable sys" "running sys task" "undo_refcnt sys fresh = None" "n < length (sem_base (sys_array sys))"
  shows "\<exists>ret sys' ws. task_semtimedop env semid task pid fresh sops timeout sys = Val (ret, sys', ws) \<and>
    semval (sem_base (sys_array sys') ! n) = semval (sem_base (sys_array sys) ! n) +
      (if ret = Sem_value 0 then net n sops else 0) + wake_net n ws"
proof -
  have "undo_list_of sys task \<noteq> None" "task \<notin> sleeper ` set (sem_pending (sys_array sys))"
    using assms(2) by (simp_all add: running_def)
  from task_semtimedop_ok [OF sem_reachable_ok [OF assms(1)] this(1) assms(3) this(2), of env semid pid sops timeout]
  show ?thesis using assms(4) by (auto simp: sem_good_def own_net_def)
qed

theorem sem_units_accounted_witness:
  "running (ex_sys ex_waiting) 4 \<and>
   (\<exists>ret sys' ws. task_semtimedop ex_env 0 4 104 1 [mk_sop 0 2 0] None (ex_sys ex_waiting) = Val (ret, sys', ws) \<and>
    semval (sem_base (sys_array sys') ! 0) = semval (sem_base (sys_array (ex_sys ex_waiting)) ! 0) +
      (if ret = Sem_value 0 then net 0 [mk_sop 0 2 0] else 0) + wake_net 0 ws)"
proof -
  have r: "running (ex_sys ex_waiting) 4" by (simp add: running_def ex_sys_def ex_defs)
  show ?thesis
    using r sem_units_accounted [OF ex_reachable r, of 1 0 ex_env 0 104 "[mk_sop 0 2 0]" None]
    by (simp add: ex_sys_def ex_array_def)
qed

text \<open>C39. The check of the undo range is made against the adjustment before the call, operation by operation,
  not against the adjustment that the call has built up: a call that takes 20000 units with SEM_UNDO,
  puts 20000 back and takes them with SEM_UNDO again passes it, and the short adjustment wraps from 40000
  to -25536.  At exit nothing is given back.\<close>

theorem undo_range_wraps:
  "\<exists>sma. try_atomic_semop
      \<lparr>sem_base = [\<lparr>semval = 20000, sempid = 0, sem_simple = []\<rparr>], sem_pending = [], complex_count = 0,
       sem_undos = [1 \<mapsto> [0]], sem_otime = 0, sem_ctime = 0\<rparr>
      [mk_sop 0 (- 20000) SEM_UNDO, mk_sop 0 20000 0, mk_sop 0 (- 20000) SEM_UNDO] (Some 1) 101 = Val (Semop_done, sma) \<and>
    sem_undos sma 1 = Some [- 25536] \<and> svals sma = [0] \<and>
    (\<exists>sma'. exit_undo 0 101 1 sma = Val (sma', []) \<and> svals sma' = [0])"
  by (simp add: try_atomic_semop_def undo_of_def put_undo_def undo_exceeds_def Let_def exit_undo_def svals_def
      do_smart_update_def update_queue_def pending_list_def to_short_def ex_defs)

end
