(* ===== verification/Rbtree.thy ===== *)
theory Rbtree
  imports KPrelude
begin

text \<open>
  Red-black trees: \<open>lib/rbtree.c\<close> and \<open>include/linux/rbtree.h\<close>.

  The heap maps addresses to nodes; \<open>0\<close> is the null pointer, and an access to it or to an address
  without a node is a \<open>Trap\<close>.  The parent pointer and the colour of a node share one word: the nodes
  are aligned, so the two low bits of an address are free.

  The code of insertion, removal, rotation and iteration is written twice, once for each side.  The model has
  the side as an argument: \<open>child L\<close> is \<open>rb_left\<close>, \<open>child R\<close> is \<open>rb_right\<close>, and the
  second copy in the code is the first one with the sides exchanged.

  The loops that climb the tree are \<open>partial_function\<close>s with the result \<open>None\<close> if they do not end.
\<close>

subsection \<open>Nodes\<close>

record rb_node =
  rb_parent_color :: u64
  rb_right :: u64
  rb_left :: u64

definition RB_RED :: u64 where "RB_RED = 0"
definition RB_BLACK :: u64 where "RB_BLACK = 1"

definition rb_parent :: "rb_node \<Rightarrow> u64" where
  "rb_parent r = rb_parent_color r AND NOT 3"

definition rb_color :: "rb_node \<Rightarrow> u64" where
  "rb_color r = rb_parent_color r AND 1"

definition rb_is_red :: "rb_node \<Rightarrow> bool" where
  "rb_is_red r \<longleftrightarrow> rb_color r = 0"

definition rb_is_black :: "rb_node \<Rightarrow> bool" where
  "rb_is_black r \<longleftrightarrow> rb_color r \<noteq> 0"

definition rb_set_red :: "rb_node \<Rightarrow> rb_node" where
  "rb_set_red r = r\<lparr>rb_parent_color := rb_parent_color r AND NOT 1\<rparr>"

definition rb_set_black :: "rb_node \<Rightarrow> rb_node" where
  "rb_set_black r = r\<lparr>rb_parent_color := rb_parent_color r OR 1\<rparr>"

definition rb_set_parent :: "u64 \<Rightarrow> rb_node \<Rightarrow> rb_node" where
  "rb_set_parent p rb = rb\<lparr>rb_parent_color := (rb_parent_color rb AND 3) OR p\<rparr>"

definition rb_set_color :: "u64 \<Rightarrow> rb_node \<Rightarrow> rb_node" where
  "rb_set_color color rb = rb\<lparr>rb_parent_color := (rb_parent_color rb AND NOT 1) OR color\<rparr>"

datatype side = L | R

primrec opp :: "side \<Rightarrow> side" where
  "opp L = R"
| "opp R = L"

primrec child :: "side \<Rightarrow> rb_node \<Rightarrow> u64" where
  "child L n = rb_left n"
| "child R n = rb_right n"

primrec set_child :: "side \<Rightarrow> u64 \<Rightarrow> rb_node \<Rightarrow> rb_node" where
  "set_child L a n = n\<lparr>rb_left := a\<rparr>"
| "set_child R a n = n\<lparr>rb_right := a\<rparr>"

text \<open>The heap and \<open>root->rb_node\<close>.\<close>

record rb_heap =
  nodes :: "u64 \<rightharpoonup> rb_node"
  root_node :: u64

definition node_at :: "u64 \<Rightarrow> rb_heap \<Rightarrow> rb_node outcome" where
  "node_at a h = (if a = 0 then Trap else case nodes h a of None \<Rightarrow> Trap | Some n \<Rightarrow> Val n)"

definition update :: "u64 \<Rightarrow> (rb_node \<Rightarrow> rb_node) \<Rightarrow> rb_heap \<Rightarrow> rb_heap outcome" where
  "update a f h = bind_outcome (node_at a h) (\<lambda>n. Val (h\<lparr>nodes := (nodes h)(a \<mapsto> f n)\<rparr>))"

text \<open>The code that makes \<open>new\<close> the child of \<open>parent\<close> in the place of \<open>old\<close>, or the root; \<open>d\<close> is the side it tests first.\<close>

definition change_child :: "side \<Rightarrow> u64 \<Rightarrow> u64 \<Rightarrow> u64 \<Rightarrow> rb_heap \<Rightarrow> rb_heap outcome" where
  "change_child d parent old new h =
    (if parent \<noteq> 0 then
       bind_outcome (node_at parent h) (\<lambda>p.
         if child d p = old then update parent (set_child d new) h
         else update parent (set_child (opp d) new) h)
     else Val (h\<lparr>root_node := new\<rparr>))"

definition set_parent_of :: "u64 \<Rightarrow> u64 \<Rightarrow> rb_heap \<Rightarrow> rb_heap outcome" where
  "set_parent_of a p h = (if a \<noteq> 0 then update a (rb_set_parent p) h else Val h)"

subsection \<open>Linking and rotation\<close>

text \<open>\<open>rb_link_node\<close> with the link that is the child pointer of \<open>parent\<close> on side \<open>d\<close>, or the root pointer.\<close>

definition rb_link_node :: "u64 \<Rightarrow> u64 \<Rightarrow> side \<Rightarrow> rb_heap \<Rightarrow> rb_heap outcome" where
  "rb_link_node node parent d h =
    bind_outcome (update node (\<lambda>n. \<lparr>rb_parent_color = parent, rb_right = 0, rb_left = 0\<rparr>) h) (\<lambda>h1.
      if parent \<noteq> 0 then update parent (set_child d node) h1 else Val (h1\<lparr>root_node := node\<rparr>))"

definition RB_EMPTY_NODE :: "u64 \<Rightarrow> rb_node \<Rightarrow> bool" where
  "RB_EMPTY_NODE node n \<longleftrightarrow> rb_parent n = node"

definition RB_CLEAR_NODE :: "u64 \<Rightarrow> rb_heap \<Rightarrow> rb_heap outcome" where
  "RB_CLEAR_NODE node h = update node (rb_set_parent node) h"

definition rb_init_node :: "u64 \<Rightarrow> rb_heap \<Rightarrow> rb_heap outcome" where
  "rb_init_node rb h =
    bind_outcome (update rb (\<lambda>n. \<lparr>rb_parent_color = 0, rb_right = 0, rb_left = 0\<rparr>) h) (RB_CLEAR_NODE rb)"

text \<open>\<open>rb_rotate L\<close> is \<open>__rb_rotate_left\<close>, \<open>rb_rotate R\<close> is \<open>__rb_rotate_right\<close>.\<close>

definition rb_rotate :: "side \<Rightarrow> u64 \<Rightarrow> rb_heap \<Rightarrow> rb_heap outcome" where
  "rb_rotate d node h =
    bind_outcome (node_at node h) (\<lambda>n.
    let right = child (opp d) n; parent = rb_parent n in
    bind_outcome (node_at right h) (\<lambda>r.
    bind_outcome (update node (set_child (opp d) (child d r)) h) (\<lambda>h1.
    bind_outcome (set_parent_of (child d r) node h1) (\<lambda>h2.
    bind_outcome (update right (set_child d node) h2) (\<lambda>h3.
    bind_outcome (update right (rb_set_parent parent) h3) (\<lambda>h4.
    bind_outcome (change_child d parent node right h4) (\<lambda>h5.
    update node (rb_set_parent right) h5)))))))"

subsection \<open>Insertion\<close>

text \<open>\<open>a && rb_is_red(a)\<close> and \<open>!a || rb_is_black(a)\<close>.\<close>

definition red_at :: "u64 \<Rightarrow> rb_heap \<Rightarrow> bool outcome" where
  "red_at a h = (if a = 0 then Val False else bind_outcome (node_at a h) (\<lambda>n. Val (rb_is_red n)))"

definition black_at :: "u64 \<Rightarrow> rb_heap \<Rightarrow> bool outcome" where
  "black_at a h = (if a = 0 then Val True else bind_outcome (node_at a h) (\<lambda>n. Val (rb_is_black n)))"

text \<open>
  The rest of the loop body of \<open>rb_insert_color\<close> when the uncle is not red, on the side \<open>d\<close> of the
  parent; the result is the node with which the loop goes on.
\<close>

definition insert_rotate :: "side \<Rightarrow> u64 \<Rightarrow> u64 \<Rightarrow> u64 \<Rightarrow> rb_heap \<Rightarrow> (rb_heap \<times> u64) outcome" where
  "insert_rotate d node parent gparent h =
    bind_outcome (node_at parent h) (\<lambda>p.
    bind_outcome
      (if child (opp d) p = node
       then bind_outcome (rb_rotate d parent h) (\<lambda>h1. Val (h1, node, parent))
       else Val (h, parent, node)) (\<lambda>(h1, parent, node).
    bind_outcome (update parent rb_set_black h1) (\<lambda>h2.
    bind_outcome (update gparent rb_set_red h2) (\<lambda>h3.
    bind_outcome (rb_rotate (opp d) gparent h3) (\<lambda>h4.
    Val (h4, node))))))"

text \<open>One evaluation of the condition and the body of the loop; \<open>Inr\<close> leaves the loop.\<close>

definition insert_step :: "u64 \<Rightarrow> rb_heap \<Rightarrow> (rb_heap \<times> u64 + rb_heap) outcome" where
  "insert_step node h =
    bind_outcome (node_at node h) (\<lambda>n.
    let parent = rb_parent n in
    if parent = 0 then Val (Inr h)
    else bind_outcome (node_at parent h) (\<lambda>p.
    if \<not> rb_is_red p then Val (Inr h)
    else let gparent = rb_parent p in
    bind_outcome (node_at gparent h) (\<lambda>g.
    let d = (if parent = rb_left g then L else R); uncle = child (opp d) g in
    bind_outcome (red_at uncle h) (\<lambda>red.
    if red then
      bind_outcome (update uncle rb_set_black h) (\<lambda>h1.
      bind_outcome (update parent rb_set_black h1) (\<lambda>h2.
      bind_outcome (update gparent rb_set_red h2) (\<lambda>h3.
      Val (Inl (h3, gparent)))))
    else
      bind_outcome (insert_rotate d node parent gparent h) (\<lambda>r. Val (Inl r))))))"

partial_function (option) insert_loop :: "u64 \<Rightarrow> rb_heap \<Rightarrow> rb_heap outcome option" where
  "insert_loop node h =
    (case insert_step node h of
       Val (Inl (h', node')) \<Rightarrow> insert_loop node' h'
     | Val (Inr h') \<Rightarrow> Some (Val h')
     | Err e \<Rightarrow> Some (Err e)
     | Trap \<Rightarrow> Some Trap)"

definition rb_insert_color :: "u64 \<Rightarrow> rb_heap \<Rightarrow> rb_heap outcome option" where
  "rb_insert_color node h =
    map_option (\<lambda>r. bind_outcome r (\<lambda>h'. update (root_node h') rb_set_black h')) (insert_loop node h)"

subsection \<open>Removal\<close>

text \<open>The first part of the loop body of \<open>__rb_erase_color\<close>: a red sibling is rotated away. The result is the sibling.\<close>

definition erase_sibling :: "side \<Rightarrow> u64 \<Rightarrow> rb_heap \<Rightarrow> (rb_heap \<times> u64) outcome" where
  "erase_sibling d parent h =
    bind_outcome (node_at parent h) (\<lambda>p.
    let other = child (opp d) p in
    bind_outcome (node_at other h) (\<lambda>on.
    if rb_is_red on then
      bind_outcome (update other rb_set_black h) (\<lambda>h1.
      bind_outcome (update parent rb_set_red h1) (\<lambda>h2.
      bind_outcome (rb_rotate d parent h2) (\<lambda>h3.
      bind_outcome (node_at parent h3) (\<lambda>p. Val (h3, child (opp d) p)))))
    else Val (h, other)))"

text \<open>The last part, when the sibling has a red child.\<close>

definition erase_rotate :: "side \<Rightarrow> u64 \<Rightarrow> u64 \<Rightarrow> rb_heap \<Rightarrow> rb_heap outcome" where
  "erase_rotate d parent other h =
    bind_outcome (node_at other h) (\<lambda>on.
    bind_outcome (black_at (child (opp d) on) h) (\<lambda>far_black.
    bind_outcome
      (if far_black then
         bind_outcome (update (child d on) rb_set_black h) (\<lambda>h1.
         bind_outcome (update other rb_set_red h1) (\<lambda>h2.
         bind_outcome (rb_rotate (opp d) other h2) (\<lambda>h3.
         bind_outcome (node_at parent h3) (\<lambda>p. Val (h3, child (opp d) p)))))
       else Val (h, other)) (\<lambda>(h4, other).
    bind_outcome (node_at parent h4) (\<lambda>p.
    bind_outcome (update other (rb_set_color (rb_color p)) h4) (\<lambda>h5.
    bind_outcome (update parent rb_set_black h5) (\<lambda>h6.
    bind_outcome (node_at other h6) (\<lambda>on.
    bind_outcome (update (child (opp d) on) rb_set_black h6) (\<lambda>h7.
    rb_rotate d parent h7))))))))"

text \<open>The condition and the body of the loop; \<open>Inr\<close> leaves it with the node to be coloured black.\<close>

definition erase_step :: "u64 \<Rightarrow> u64 \<Rightarrow> rb_heap \<Rightarrow> (rb_heap \<times> u64 \<times> u64 + rb_heap \<times> u64) outcome" where
  "erase_step node parent h =
    bind_outcome (black_at node h) (\<lambda>black.
    if \<not> (black \<and> node \<noteq> root_node h) then Val (Inr (h, node))
    else
      bind_outcome (node_at parent h) (\<lambda>p.
      let d = (if rb_left p = node then L else R) in
      bind_outcome (erase_sibling d parent h) (\<lambda>(h1, other).
      bind_outcome (node_at other h1) (\<lambda>on.
      bind_outcome (black_at (rb_left on) h1) (\<lambda>bl.
      bind_outcome (black_at (rb_right on) h1) (\<lambda>br.
      if bl \<and> br then
        bind_outcome (update other rb_set_red h1) (\<lambda>h2.
        bind_outcome (node_at parent h2) (\<lambda>p.
        Val (Inl (h2, parent, rb_parent p))))
      else
        bind_outcome (erase_rotate d parent other h1) (\<lambda>h2. Val (Inr (h2, root_node h2)))))))))"

partial_function (option) erase_loop :: "u64 \<Rightarrow> u64 \<Rightarrow> rb_heap \<Rightarrow> (rb_heap \<times> u64) outcome option" where
  "erase_loop node parent h =
    (case erase_step node parent h of
       Val (Inl (h', node', parent')) \<Rightarrow> erase_loop node' parent' h'
     | Val (Inr r) \<Rightarrow> Some (Val r)
     | Err e \<Rightarrow> Some (Err e)
     | Trap \<Rightarrow> Some Trap)"

definition rb_erase_color :: "u64 \<Rightarrow> u64 \<Rightarrow> rb_heap \<Rightarrow> rb_heap outcome option" where
  "rb_erase_color node parent h =
    map_option (\<lambda>r. bind_outcome r (\<lambda>(h', node'). if node' \<noteq> 0 then update node' rb_set_black h' else Val h'))
      (erase_loop node parent h)"

text \<open>Down the tree on side \<open>d\<close> as far as possible.\<close>

partial_function (option) descend :: "side \<Rightarrow> u64 \<Rightarrow> rb_heap \<Rightarrow> u64 outcome option" where
  "descend d node h =
    (case node_at node h of
       Val n \<Rightarrow> if child d n \<noteq> 0 then descend d (child d n) h else Some (Val node)
     | Err e \<Rightarrow> Some (Err e)
     | Trap \<Rightarrow> Some Trap)"

text \<open>
  Taking the node \<open>old\<close> with two children out of the tree: \<open>node\<close> is the first node of its right
  subtree and takes its place.  The result is the child, the parent and the colour with which
  \<open>rb_erase\<close> goes on.
\<close>

definition erase_two :: "u64 \<Rightarrow> u64 \<Rightarrow> rb_heap \<Rightarrow> (rb_heap \<times> u64 \<times> u64 \<times> u64) outcome" where
  "erase_two old node h =
    bind_outcome (node_at old h) (\<lambda>on.
    bind_outcome (change_child L (rb_parent on) old node h) (\<lambda>h1.
    bind_outcome (node_at node h1) (\<lambda>n.
    let chd = rb_right n; parent = rb_parent n; color = rb_color n in
    bind_outcome
      (if parent = old then Val (h1, node)
       else
         bind_outcome (set_parent_of chd parent h1) (\<lambda>h2.
         bind_outcome (update parent (set_child L chd) h2) (\<lambda>h3.
         bind_outcome (node_at old h3) (\<lambda>on.
         bind_outcome (update node (set_child R (rb_right on)) h3) (\<lambda>h4.
         bind_outcome (update (rb_right on) (rb_set_parent node) h4) (\<lambda>h5.
         Val (h5, parent))))))) (\<lambda>(h5, parent).
    bind_outcome (node_at old h5) (\<lambda>on.
    bind_outcome (update node (\<lambda>n. n\<lparr>rb_parent_color := rb_parent_color on\<rparr>) h5) (\<lambda>h6.
    bind_outcome (update node (set_child L (rb_left on)) h6) (\<lambda>h7.
    bind_outcome (update (rb_left on) (rb_set_parent node) h7) (\<lambda>h8.
    Val (h8, chd, parent, color)))))))))"

definition erase_one :: "u64 \<Rightarrow> u64 \<Rightarrow> rb_heap \<Rightarrow> (rb_heap \<times> u64 \<times> u64 \<times> u64) outcome" where
  "erase_one node chd h =
    bind_outcome (node_at node h) (\<lambda>n.
    let parent = rb_parent n; color = rb_color n in
    bind_outcome (set_parent_of chd parent h) (\<lambda>h1.
    bind_outcome (change_child L parent node chd h1) (\<lambda>h2.
    Val (h2, chd, parent, color))))"

definition erase_rest :: "(rb_heap \<times> u64 \<times> u64 \<times> u64) outcome \<Rightarrow> rb_heap outcome option" where
  "erase_rest r =
    (case r of
       Val (h, chd, parent, color) \<Rightarrow> if color = RB_BLACK then rb_erase_color chd parent h else Some (Val h)
     | Err e \<Rightarrow> Some (Err e)
     | Trap \<Rightarrow> Some Trap)"

definition rb_erase :: "u64 \<Rightarrow> rb_heap \<Rightarrow> rb_heap outcome option" where
  "rb_erase node h =
    (case node_at node h of
       Val n \<Rightarrow>
         if rb_left n = 0 then erase_rest (erase_one node (rb_right n) h)
         else if rb_right n = 0 then erase_rest (erase_one node (rb_left n) h)
         else Option.bind (descend L (rb_right n) h) (\<lambda>r. erase_rest (bind_outcome r (\<lambda>succ. erase_two node succ h)))
     | Err e \<Rightarrow> Some (Err e)
     | Trap \<Rightarrow> Some Trap)"

subsection \<open>Iteration and replacement\<close>

text \<open>\<open>rb_end L\<close> is \<open>rb_first\<close>, \<open>rb_end R\<close> is \<open>rb_last\<close>.\<close>

definition rb_end :: "side \<Rightarrow> rb_heap \<Rightarrow> u64 outcome option" where
  "rb_end d h = (if root_node h = 0 then Some (Val 0) else descend d (root_node h) h)"

text \<open>Up the tree as long as the node is the child of its parent on side \<open>d\<close>; the result is the parent then.\<close>

partial_function (option) ascend :: "side \<Rightarrow> u64 \<Rightarrow> rb_heap \<Rightarrow> u64 outcome option" where
  "ascend d node h =
    (case node_at node h of
       Val n \<Rightarrow>
         if rb_parent n = 0 then Some (Val 0)
         else (case node_at (rb_parent n) h of
                 Val p \<Rightarrow> if node = child d p then ascend d (rb_parent n) h else Some (Val (rb_parent n))
               | Err e \<Rightarrow> Some (Err e)
               | Trap \<Rightarrow> Some Trap)
     | Err e \<Rightarrow> Some (Err e)
     | Trap \<Rightarrow> Some Trap)"

text \<open>\<open>rb_step R\<close> is \<open>rb_next\<close>, \<open>rb_step L\<close> is \<open>rb_prev\<close>.\<close>

definition rb_step :: "side \<Rightarrow> u64 \<Rightarrow> rb_heap \<Rightarrow> u64 outcome option" where
  "rb_step d node h =
    (case node_at node h of
       Val n \<Rightarrow>
         if rb_parent n = node then Some (Val 0)
         else if child d n \<noteq> 0 then descend (opp d) (child d n) h
         else ascend d node h
     | Err e \<Rightarrow> Some (Err e)
     | Trap \<Rightarrow> Some Trap)"

definition rb_replace_node :: "u64 \<Rightarrow> u64 \<Rightarrow> rb_heap \<Rightarrow> rb_heap outcome" where
  "rb_replace_node victim new h =
    bind_outcome (node_at victim h) (\<lambda>v.
    bind_outcome (change_child L (rb_parent v) victim new h) (\<lambda>h1.
    bind_outcome (set_parent_of (rb_left v) new h1) (\<lambda>h2.
    bind_outcome (set_parent_of (rb_right v) new h2) (\<lambda>h3.
    bind_outcome (node_at victim h3) (\<lambda>v.
    update new (\<lambda>_. v) h3)))))"

end
