(* ===== verification/Rbtree_Shape.thy ===== *)
theory Rbtree_Shape
  imports Rbtree "HOL-Library.Multiset"
begin

text \<open>
  The trees that the heaps of theory \<open>Rbtree\<close> hold: coloured binary trees over addresses, positions in
  them, the red-black conditions, and when a heap represents a tree.

  A position is a subtree with the list of frames above it, the innermost first.  A frame
  \<open>(d, c, x, u)\<close> is a node \<open>x\<close> of colour \<open>c\<close> with the position on its side \<open>d\<close> and the tree \<open>u\<close> on the other.
\<close>

subsection \<open>Trees and positions\<close>

datatype color = Red | Black

datatype tree = Lf | Nd color tree u64 tree

type_synonym frame = "side \<times> color \<times> u64 \<times> tree"

primrec join :: "side \<Rightarrow> color \<Rightarrow> tree \<Rightarrow> u64 \<Rightarrow> tree \<Rightarrow> tree" where
  "join L c t x u = Nd c t x u"
| "join R c t x u = Nd c u x t"

fun plug :: "tree \<Rightarrow> frame list \<Rightarrow> tree" where
  "plug t [] = t"
| "plug t ((d, c, x, u) # ctx) = plug (join d c t x u) ctx"

fun ptr :: "tree \<Rightarrow> u64" where
  "ptr Lf = 0"
| "ptr (Nd c l x r) = x"

fun inorder :: "tree \<Rightarrow> u64 list" where
  "inorder Lf = []"
| "inorder (Nd c l x r) = inorder l @ x # inorder r"

fun parent_of :: "frame list \<Rightarrow> u64" where
  "parent_of [] = 0"
| "parent_of ((d, c, x, u) # ctx) = x"

definition caddrs :: "frame list \<Rightarrow> u64 list" where
  "caddrs ctx = concat (map (\<lambda>(d, c, x, u). x # inorder u) ctx)"

lemma opp_opp [simp]: "opp (opp d) = d"
  by (cases d) simp_all

lemma opp_neq [simp]: "opp d \<noteq> d" "d \<noteq> opp d"
  by (cases d; simp)+

lemma join_not_Lf [simp]: "join d c t x u \<noteq> Lf" "Lf \<noteq> join d c t x u"
  by (cases d; simp)+

lemma ptr_join [simp]: "ptr (join d c t x u) = x"
  by (cases d) simp_all

lemma join_opp: "join (opp d) c t x u = join d c u x t"
  by (cases d) simp_all

lemma join_eq [simp]: "join d c t x u = join d c' t' x' u' \<longleftrightarrow> c = c' \<and> t = t' \<and> x = x' \<and> u = u'"
  by (cases d) auto

lemma tree_join_cases:
  obtains "t = Lf" | c a x b where "t = join d c a x b"
  by (cases t; cases d) auto

lemma mset_inorder_join [simp]: "mset (inorder (join d c t x u)) = add_mset x (mset (inorder t) + mset (inorder u))"
  by (cases d) simp_all

lemma set_inorder_join [simp]: "set (inorder (join d c t x u)) = insert x (set (inorder t) \<union> set (inorder u))"
  by (cases d) auto

lemma inorder_join_cong:
  "inorder t = inorder t' \<Longrightarrow> inorder u = inorder u' \<Longrightarrow> inorder (join d c t x u) = inorder (join d c' t' x u')"
  by (cases d) simp_all

lemma inorder_rotate: "inorder (join d c a x (join d c' b y e)) = inorder (join d k' (join d k a x b) y e)"
  by (cases d) simp_all

lemma caddrs_simps [simp]: "caddrs [] = []" "caddrs ((d, c, x, u) # ctx) = x # inorder u @ caddrs ctx"
  by (simp_all add: caddrs_def)

lemma mset_plug: "mset (inorder (plug t ctx)) = mset (inorder t) + mset (caddrs ctx)"
  by (induction t ctx rule: plug.induct) (auto simp: ac_simps)

lemma set_plug [simp]: "set (inorder (plug t ctx)) = set (inorder t) \<union> set (caddrs ctx)"
  using mset_plug [of t ctx] by (metis mset_append set_append set_mset_mset)

lemma distinct_plug: "distinct (inorder (plug t ctx)) \<longleftrightarrow> distinct (inorder t @ caddrs ctx)"
  by (intro mset_eq_imp_distinct_iff) (simp add: mset_plug)

lemma distinct_join [simp]: "distinct (inorder (join d c t x u)) \<longleftrightarrow>
    distinct (inorder t) \<and> distinct (inorder u) \<and> x \<notin> set (inorder t) \<and> x \<notin> set (inorder u) \<and>
    set (inorder t) \<inter> set (inorder u) = {}"
  by (cases d) auto

lemma inorder_plug_cong: "inorder t = inorder t' \<Longrightarrow> inorder (plug t ctx) = inorder (plug t' ctx)"
proof (induction t ctx arbitrary: t' rule: plug.induct)
  case (2 t d c x u ctx)
  from "2.IH" [of "join d c t' x u"] "2.prems" show ?case by (simp add: inorder_join_cong)
qed simp

lemma plug_append: "plug t (c1 @ c2) = plug (plug t c1) c2"
  by (induction t c1 rule: plug.induct) simp_all

lemma plug_Lf [simp]: "plug t ctx = Lf \<longleftrightarrow> t = Lf \<and> ctx = []"
  by (induction t ctx rule: plug.induct) auto

lemma ptr_plug: "ptr (plug t ctx) = (if ctx = [] then ptr t else parent_of [last ctx])"
  by (induction t ctx rule: plug.induct) (auto split: prod.split)

text \<open>Every node of a tree is at a position.\<close>

lemma node_position:
  "x \<in> set (inorder T) \<Longrightarrow> \<exists>c l r ctx. T = plug (Nd c l x r) ctx"
proof (induction T)
  case (Nd c l y r)
  then consider "x = y" | "x \<in> set (inorder l)" | "x \<in> set (inorder r)" by auto
  then show ?case
  proof cases
    case 1
    then have "Nd c l y r = plug (Nd c l x r) []" by simp
    then show ?thesis by blast
  next
    case 2
    then obtain c' l' r' ctx where "l = plug (Nd c' l' x r') ctx" using Nd by blast
    then have "Nd c l y r = plug (Nd c' l' x r') (ctx @ [(L, c, y, r)])" by (simp add: plug_append)
    then show ?thesis by blast
  next
    case 3
    then obtain c' l' r' ctx where "r = plug (Nd c' l' x r') ctx" using Nd by blast
    then have "Nd c l y r = plug (Nd c' l' x r') (ctx @ [(R, c, y, l)])" by (simp add: plug_append)
    then show ?thesis by blast
  qed
qed simp

subsection \<open>The red-black conditions\<close>

fun tcolor :: "tree \<Rightarrow> color" where
  "tcolor Lf = Black"
| "tcolor (Nd c l x r) = c"

fun invc :: "tree \<Rightarrow> bool" where
  "invc Lf = True"
| "invc (Nd c l x r) \<longleftrightarrow> invc l \<and> invc r \<and> (c = Red \<longrightarrow> tcolor l = Black \<and> tcolor r = Black)"

fun bh :: "tree \<Rightarrow> nat" where
  "bh Lf = 0"
| "bh (Nd c l x r) = (if c = Black then Suc (bh l) else bh l)"

fun invh :: "tree \<Rightarrow> bool" where
  "invh Lf = True"
| "invh (Nd c l x r) \<longleftrightarrow> invh l \<and> invh r \<and> bh l = bh r"

definition rbt :: "tree \<Rightarrow> bool" where
  "rbt t \<longleftrightarrow> invc t \<and> invh t \<and> tcolor t = Black"

lemma tcolor_join [simp]: "tcolor (join d c t x u) = c"
  by (cases d) simp_all

lemma red_join:
  assumes "tcolor t = Red"
  obtains a x b where "t = join d Red a x b"
  using assms by (cases t rule: tree_join_cases [where d = d]) auto

lemma invc_join [simp]: "invc (join d c t x u) \<longleftrightarrow>
    invc t \<and> invc u \<and> (c = Red \<longrightarrow> tcolor t = Black \<and> tcolor u = Black)"
  by (cases d) auto

lemma invh_join [simp]: "invh (join d c t x u) \<longleftrightarrow> invh t \<and> invh u \<and> bh t = bh u"
  by (cases d) auto

lemma bh_join [simp]: "bh t = bh u \<Longrightarrow> bh (join d c t x u) = (if c = Black then Suc (bh t) else bh t)"
  by (cases d) auto

text \<open>What the frames around a position of black height \<open>k\<close> have to satisfy.\<close>

fun cinv :: "frame list \<Rightarrow> nat \<Rightarrow> bool" where
  "cinv [] k = True"
| "cinv ((d, c, x, u) # ctx) k \<longleftrightarrow> invc u \<and> invh u \<and> bh u = k \<and>
    (c = Red \<longrightarrow> tcolor u = Black \<and> (case ctx of [] \<Rightarrow> False | (d', c', x', u') # _ \<Rightarrow> c' = Black)) \<and>
    cinv ctx (if c = Black then Suc k else k)"

definition fits :: "color \<Rightarrow> frame list \<Rightarrow> bool" where
  "fits c ctx \<longleftrightarrow> c = Red \<longrightarrow> (case ctx of [] \<Rightarrow> False | (d', c', x', u') # _ \<Rightarrow> c' = Black)"

lemma fits_Black [simp]: "fits Black ctx"
  by (simp add: fits_def)

lemma cinv_Cons: "cinv ((d, c, x, u) # ctx) k \<longleftrightarrow> invc u \<and> invh u \<and> bh u = k \<and>
    (c = Red \<longrightarrow> tcolor u = Black) \<and> fits c ctx \<and> cinv ctx (if c = Black then Suc k else k)"
  by (auto simp: fits_def)

lemma rbt_plug: "rbt (plug t ctx) \<longleftrightarrow> invc t \<and> invh t \<and> fits (tcolor t) ctx \<and> cinv ctx (bh t)"
proof (induction t ctx rule: plug.induct)
  case (1 t)
  then show ?case by (cases "tcolor t") (auto simp: rbt_def fits_def)
next
  case (2 t d c x u ctx)
  show ?case
    unfolding plug.simps 2 cinv_Cons fits_def
    by (cases "tcolor t"; cases c) (auto simp: fits_def)
qed

subsection \<open>Height\<close>

fun height :: "tree \<Rightarrow> nat" where
  "height Lf = 0"
| "height (Nd c l x r) = Suc (max (height l) (height r))"

lemma height_bh: "invc t \<Longrightarrow> invh t \<Longrightarrow> height t \<le> 2 * bh t + (if tcolor t = Red then 1 else 0)"
proof (induction t)
  case (Nd c l x r)
  then show ?case by (cases c) (auto split: if_splits)
qed simp

lemma bh_size: "invh t \<Longrightarrow> 2 ^ bh t \<le> Suc (length (inorder t))"
  by (induction t) (auto split: if_splits)

lemma rbt_height: "rbt t \<Longrightarrow> 2 ^ height t \<le> (Suc (length (inorder t)))\<^sup>2"
proof -
  assume "rbt t"
  then have "height t \<le> bh t * 2" "2 ^ bh t \<le> Suc (length (inorder t))" using height_bh [of t] bh_size [of t] by (auto simp: rbt_def)
  then have "2 ^ height t \<le> (2 :: nat) ^ (bh t * 2)" "(2 ^ bh t)\<^sup>2 \<le> (Suc (length (inorder t)))\<^sup>2"
    by (auto intro: power_increasing power_mono)
  then show ?thesis unfolding power_mult by (rule le_trans)
qed

end
