(* ===== verification/Rbtree_Heap.thy ===== *)
theory Rbtree_Heap
  imports Rbtree_Shape
begin

text \<open>
  When a heap of theory \<open>Rbtree\<close> holds a tree, and what reading a node, changing a colour, a link or a
  parent pointer, and a rotation do to the tree it holds.
\<close>

subsection \<open>The word with parent and colour\<close>

definition aligned :: "u64 \<Rightarrow> bool" where
  "aligned a \<longleftrightarrow> a AND 3 = 0"

definition col :: "rb_node \<Rightarrow> color" where
  "col n = (if rb_is_red n then Red else Black)"

lemma aligned_bits: "aligned a \<Longrightarrow> \<not> bit a 0 \<and> \<not> bit a (Suc 0)"
proof -
  assume "aligned a"
  then have "bit (a AND mask 2) n = False" for n by (simp add: aligned_def mask_eq_exp_minus_1)
  from this [of 0] this [of 1] show ?thesis by (simp add: bit_simps)
qed

lemma aligned_and: "aligned a \<Longrightarrow> a AND NOT 3 = a"
proof -
  assume "aligned a"
  then have "\<not> bit a k" if "k < 2" for k using aligned_bits [of a] that by (auto simp: less_2_cases_iff)
  then have "a AND NOT (mask 2) = a" by (intro bit_word_eqI) (auto simp: bit_simps)
  then show ?thesis by (simp add: mask_eq_exp_minus_1)
qed

lemma three_mask: "(3 :: u64) = mask 2" and one_mask: "(1 :: u64) = mask 1"
  by (simp_all add: mask_eq_exp_minus_1)

lemma aligned_0 [simp]: "aligned 0"
  by (simp add: aligned_def)

lemma parent_aligned [simp]: "aligned (rb_parent n)"
  unfolding aligned_def rb_parent_def three_mask by (rule bit_word_eqI) (auto simp: bit_simps)

lemma color_cases: "rb_color n = 0 \<or> rb_color n = 1"
  unfolding rb_color_def by (simp add: and_one_eq mod2_eq_if)

lemma red_iff [simp]: "rb_is_red n \<longleftrightarrow> col n = Red" and black_iff [simp]: "rb_is_black n \<longleftrightarrow> col n = Black"
  and color_black [simp]: "rb_color n = RB_BLACK \<longleftrightarrow> col n = Black"
  using color_cases [of n] by (auto simp: col_def rb_is_red_def rb_is_black_def RB_BLACK_def)

lemma parent_simps [simp]:
  "aligned p \<Longrightarrow> rb_parent (rb_set_parent p n) = p"
  "rb_parent (rb_set_red n) = rb_parent n"
  "rb_parent (rb_set_black n) = rb_parent n"
  "rb_parent (rb_set_color (rb_color m) n) = rb_parent n"
  "rb_parent (set_child d a n) = rb_parent n"
proof -
  have "((w AND 3) OR p) AND NOT 3 = p AND NOT 3" for w :: u64
    unfolding three_mask by (rule bit_word_eqI) (auto simp: bit_simps)
  then show "aligned p \<Longrightarrow> rb_parent (rb_set_parent p n) = p"
    using aligned_and [of p] by (simp add: rb_parent_def rb_set_parent_def)
  show "rb_parent (rb_set_color (rb_color m) n) = rb_parent n"
    unfolding rb_parent_def rb_set_color_def rb_color_def three_mask one_mask
    by (rule bit_word_eqI) (auto simp: bit_simps)
  show "rb_parent (set_child d a n) = rb_parent n" by (cases d) (simp_all add: rb_parent_def)
qed (unfold rb_parent_def rb_set_red_def rb_set_black_def three_mask one_mask,
     (rule bit_word_eqI; auto simp: bit_simps)+)

lemma col_bit: "col n = (if bit (rb_parent_color n) 0 then Black else Red)"
  by (simp add: col_def rb_is_red_def rb_color_def and_one_eq mod2_eq_if bit_0 del: red_iff)

lemma col_simps [simp]:
  "aligned p \<Longrightarrow> col (rb_set_parent p n) = col n"
  "col (rb_set_red n) = Red"
  "col (rb_set_black n) = Black"
  "col (rb_set_color (rb_color m) n) = col m"
  "col (set_child d a n) = col n"
proof -
  show "aligned p \<Longrightarrow> col (rb_set_parent p n) = col n"
    using aligned_bits [of p] unfolding col_bit rb_set_parent_def three_mask by (simp add: bit_simps)
  show "col (rb_set_color (rb_color m) n) = col m"
    unfolding col_bit rb_set_color_def rb_color_def one_mask by (simp add: bit_simps)
  show "col (rb_set_red n) = Red" unfolding col_bit rb_set_red_def one_mask by (simp add: bit_simps)
  show "col (rb_set_black n) = Black" unfolding col_bit rb_set_black_def one_mask by (simp add: bit_simps)
  show "col (set_child d a n) = col n" by (cases d) (simp_all add: col_bit)
qed

lemma child_simps [simp]:
  "child d (set_child d a n) = a" "child (opp d) (set_child d a n) = child (opp d) n"
  "child d (set_child (opp d) a n) = child d n"
  "child d (rb_set_parent p n) = child d n" "child d (rb_set_red n) = child d n"
  "child d (rb_set_black n) = child d n" "child d (rb_set_color c n) = child d n"
  by (cases d; simp add: rb_set_parent_def rb_set_red_def rb_set_black_def rb_set_color_def)+

subsection \<open>Trees on the heap\<close>

definition cell :: "(u64 \<rightharpoonup> rb_node) \<Rightarrow> side \<Rightarrow> u64 \<Rightarrow> u64 \<Rightarrow> color \<Rightarrow> u64 \<Rightarrow> u64 \<Rightarrow> bool" where
  "cell H d x p c a b \<longleftrightarrow>
    (\<exists>n. H x = Some n \<and> rb_parent n = p \<and> col n = c \<and> child d n = a \<and> child (opp d) n = b)"

fun tr :: "(u64 \<rightharpoonup> rb_node) \<Rightarrow> u64 \<Rightarrow> tree \<Rightarrow> bool" where
  "tr H p Lf = True"
| "tr H p (Nd c l x r) \<longleftrightarrow> cell H L x p c (ptr l) (ptr r) \<and> tr H x l \<and> tr H x r"

fun cx :: "(u64 \<rightharpoonup> rb_node) \<Rightarrow> u64 \<Rightarrow> frame list \<Rightarrow> bool" where
  "cx H a [] = True"
| "cx H a ((d, c, x, u) # ctx) \<longleftrightarrow> cell H d x (parent_of ctx) c a (ptr u) \<and> tr H x u \<and> cx H x ctx"

definition good :: "u64 \<Rightarrow> bool" where
  "good a \<longleftrightarrow> a \<noteq> 0 \<and> aligned a"

definition rep :: "rb_heap \<Rightarrow> tree \<Rightarrow> bool" where
  "rep h T \<longleftrightarrow> distinct (inorder T) \<and> (\<forall>a\<in>set (inorder T). good a) \<and> root_node h = ptr T \<and> tr (nodes h) 0 T"

lemma cell_opp: "cell H (opp d) x p c a b = cell H d x p c b a"
  by (auto simp: cell_def)

lemma tr_join [simp]: "tr H p (join d c t x u) \<longleftrightarrow> cell H d x p c (ptr t) (ptr u) \<and> tr H x t \<and> tr H x u"
  using cell_opp [of H L] by (cases d) auto

lemma cell_cong: "H x = H' x \<Longrightarrow> cell H d x p c a b = cell H' d x p c a b"
  by (simp add: cell_def)

lemma tr_cong: "\<forall>z\<in>set (inorder t). H' z = H z \<Longrightarrow> tr H p t \<Longrightarrow> tr H' p t"
  by (induction H p t rule: tr.induct) (auto simp: cell_def)

lemma cx_cong: "\<forall>z\<in>set (caddrs ctx). H' z = H z \<Longrightarrow> cx H a ctx \<Longrightarrow> cx H' a ctx"
proof (induction H a ctx rule: cx.induct)
  case (2 H a d c x u ctx)
  then show ?case using cell_cong [of H' x H] tr_cong [of u H' H x] by auto
qed simp

lemma tr_plug: "tr H 0 (plug t ctx) \<longleftrightarrow> tr H (parent_of ctx) t \<and> cx H (ptr t) ctx"
  by (induction t ctx rule: plug.induct) auto

lemma rep_plug: "rep h (plug t ctx) \<longleftrightarrow> distinct (inorder t @ caddrs ctx) \<and>
    (\<forall>a\<in>set (inorder t) \<union> set (caddrs ctx). good a) \<and> root_node h = (if ctx = [] then ptr t else parent_of [last ctx]) \<and>
    tr (nodes h) (parent_of ctx) t \<and> cx (nodes h) (ptr t) ctx"
  unfolding rep_def distinct_plug ptr_plug tr_plug by simp

lemma node_atI: "H x = Some n \<Longrightarrow> x \<noteq> 0 \<Longrightarrow> nodes h = H \<Longrightarrow> node_at x h = Val n"
  by (simp add: node_at_def)

lemma update_Val: "nodes h x = Some n \<Longrightarrow> x \<noteq> 0 \<Longrightarrow> update x f h = Val (h\<lparr>nodes := (nodes h)(x \<mapsto> f n)\<rparr>)"
  by (simp add: update_def node_at_def)

lemma good_top: "\<forall>a\<in>set (caddrs ctx). good a \<Longrightarrow> aligned (parent_of ctx)" "\<forall>a\<in>set (inorder t). good a \<Longrightarrow> aligned (ptr t)"
  by (cases ctx; auto simp: good_def) (cases t; auto simp: good_def)

lemma ptr_Lf: "\<forall>a\<in>set (inorder t). good a \<Longrightarrow> ptr t = 0 \<longleftrightarrow> t = Lf"
  by (cases t) (auto simp: good_def)

lemma ptr_in: "t \<noteq> Lf \<Longrightarrow> ptr t \<in> set (inorder t)"
  by (cases t) auto

subsection \<open>Reading and changing one node\<close>

lemma rep_node:
  assumes "rep h (plug (join d c a x b) ctx)"
  obtains n where "nodes h x = Some n" "x \<noteq> 0" "node_at x h = Val n" "rb_parent n = parent_of ctx" "col n = c"
    "child d n = ptr a" "child (opp d) n = ptr b"
proof -
  from assms obtain n where "nodes h x = Some n" "rb_parent n = parent_of ctx" "col n = c" "child d n = ptr a" "child (opp d) n = ptr b"
    unfolding rep_plug by (auto simp: cell_def)
  moreover have "x \<noteq> 0" using assms unfolding rep_plug by (auto simp: good_def)
  ultimately show ?thesis using that by (simp add: node_at_def)
qed

definition outside :: "u64 set \<Rightarrow> rb_heap \<Rightarrow> rb_heap \<Rightarrow> bool" where
  "outside S h h' \<longleftrightarrow> (\<forall>z. z \<notin> S \<longrightarrow> nodes h' z = nodes h z)"

lemma outside_refl [simp]: "outside S h h"
  by (simp add: outside_def)

lemma outside_trans: "outside S h h' \<Longrightarrow> outside S h' h'' \<Longrightarrow> outside S h h''"
  by (simp add: outside_def)

lemma outside_mono: "outside S h h' \<Longrightarrow> S \<subseteq> S' \<Longrightarrow> outside S' h h'"
  unfolding outside_def by blast

lemma rep_recolor:
  assumes r: "rep h (plug (join d c a x b) ctx)"
    and f: "\<And>n. rb_parent (f n) = rb_parent n" "\<And>n. col n = c \<Longrightarrow> col (f n) = c'" "\<And>n d. child d (f n) = child d n"
  obtains h' where "update x f h = Val h'" "rep h' (plug (join d c' a x b) ctx)" "outside {x} h h'"
    "root_node h' = root_node h"
proof -
  obtain n where n: "nodes h x = Some n" "x \<noteq> 0" "rb_parent n = parent_of ctx" "col n = c" "child d n = ptr a" "child (opp d) n = ptr b"
    by (rule rep_node [OF r])
  let ?h = "h\<lparr>nodes := (nodes h)(x \<mapsto> f n)\<rparr>"
  have dist: "x \<notin> set (inorder a)" "x \<notin> set (inorder b)" "x \<notin> set (caddrs ctx)" using r unfolding rep_plug by auto
  have "tr (nodes ?h) x a" "tr (nodes ?h) x b" "cx (nodes ?h) x ctx"
    using r dist tr_cong [of a "nodes ?h" "nodes h" x] tr_cong [of b "nodes ?h" "nodes h" x]
      cx_cong [of ctx "nodes ?h" "nodes h" x] unfolding rep_plug by auto
  moreover have "cell (nodes ?h) d x (parent_of ctx) c' (ptr a) (ptr b)" using n f by (simp add: cell_def)
  ultimately have "rep ?h (plug (join d c' a x b) ctx)" using r unfolding rep_plug by simp
  then show ?thesis using that update_Val [OF n(1,2)] by (simp add: outside_def)
qed

subsection \<open>Links\<close>

lemma change_child_ok:
  assumes cx: "cx (nodes h) a ctx" and a: "a \<noteq> 0" "a \<notin> set (caddrs ctx)"
    and ctx: "distinct (caddrs ctx)" "\<forall>z\<in>set (caddrs ctx). good z"
  obtains h' where "change_child d (parent_of ctx) a b h = Val h'" "cx (nodes h') b ctx" "outside (set (caddrs ctx)) h h'"
    "root_node h' = (if ctx = [] then b else root_node h)"
proof (cases ctx)
  case Nil
  then show ?thesis using that [of "h\<lparr>root_node := b\<rparr>"] by (simp add: change_child_def outside_def)
next
  case (Cons f ctx')
  obtain d' c x u where f: "f = (d', c, x, u)" by (cases f)
  obtain n where n: "nodes h x = Some n" "rb_parent n = parent_of ctx'" "col n = c" "child d' n = a" "child (opp d') n = ptr u"
    using cx unfolding Cons f by (auto simp: cell_def)
  have x: "x \<noteq> 0" "x \<notin> set (inorder u)" "x \<notin> set (caddrs ctx')" using ctx unfolding Cons f by (auto simp: good_def)
  have u: "ptr u \<noteq> a" using a ptr_in [of u] unfolding Cons f by (cases "u = Lf") auto
  let ?h = "h\<lparr>nodes := (nodes h)(x \<mapsto> set_child d' b n)\<rparr>"
  have "child d n = a \<longleftrightarrow> d = d'" using n u by (cases d; cases d') auto
  moreover have "d \<noteq> d' \<Longrightarrow> opp d = d'" by (cases d; cases d') auto
  ultimately have "change_child d x a b h = Val ?h"
    using x(1) n(1) update_Val [OF n(1) x(1)] by (auto simp: change_child_def node_at_def)
  moreover have "tr (nodes ?h) x u" "cx (nodes ?h) x ctx'"
    using cx x tr_cong [of u "nodes ?h" "nodes h" x] cx_cong [of ctx' "nodes ?h" "nodes h" x] unfolding Cons f by auto
  moreover have "cell (nodes ?h) d' x (parent_of ctx') c b (ptr u)" using n by (simp add: cell_def)
  ultimately show ?thesis using that [of ?h] unfolding Cons f by (simp add: outside_def)
qed

lemma set_parent_ok:
  assumes t: "tr (nodes h) p t" "distinct (inorder t)" "\<forall>z\<in>set (inorder t). good z" and q: "aligned q"
  obtains h' where "set_parent_of (ptr t) q h = Val h'" "tr (nodes h') q t" "outside (set (inorder t)) h h'"
    "root_node h' = root_node h"
proof (cases t)
  case Lf
  then show ?thesis using that [of h] by (simp add: set_parent_of_def)
next
  case (Nd c l x r)
  obtain n where n: "nodes h x = Some n" "col n = c" "rb_left n = ptr l" "rb_right n = ptr r"
    using t(1) unfolding Nd by (auto simp: cell_def)
  have x: "x \<noteq> 0" "x \<notin> set (inorder l)" "x \<notin> set (inorder r)" using t unfolding Nd by (auto simp: good_def)
  let ?h = "h\<lparr>nodes := (nodes h)(x \<mapsto> rb_set_parent q n)\<rparr>"
  have "tr (nodes ?h) x l" "tr (nodes ?h) x r"
    using t(1) x tr_cong [of l "nodes ?h" "nodes h" x] tr_cong [of r "nodes ?h" "nodes h" x] unfolding Nd by auto
  moreover have "cell (nodes ?h) L x q c (ptr l) (ptr r)"
    using n q by (simp add: cell_def) (simp add: rb_set_parent_def)
  ultimately show ?thesis using that [of ?h] x(1) update_Val [OF n(1) x(1)] unfolding Nd by (simp add: set_parent_of_def outside_def)
qed

lemma rep_rotate:
  assumes r: "rep h (plug (join d c a x (join d c' b y e)) ctx)"
  obtains h' where "rb_rotate d x h = Val h'" "rep h' (plug (join d c' (join d c a x b) y e) ctx)"
    "outside (set (inorder (plug (join d c a x (join d c' b y e)) ctx))) h h'"
proof -
  have dist: "distinct (inorder a)" "distinct (inorder b)" "distinct (inorder e)" "distinct (caddrs ctx)"
    "x \<notin> set (inorder a)" "x \<notin> set (inorder b)" "x \<notin> set (inorder e)" "x \<notin> set (caddrs ctx)" "x \<noteq> y"
    "y \<notin> set (inorder a)" "y \<notin> set (inorder b)" "y \<notin> set (inorder e)" "y \<notin> set (caddrs ctx)"
    "set (inorder a) \<inter> set (inorder b) = {}" "set (inorder a) \<inter> set (inorder e) = {}" "set (inorder b) \<inter> set (inorder e) = {}"
    "set (inorder a) \<inter> set (caddrs ctx) = {}" "set (inorder b) \<inter> set (caddrs ctx) = {}" "set (inorder e) \<inter> set (caddrs ctx) = {}"
    using r unfolding rep_plug by auto
  have gd: "\<forall>z\<in>set (inorder b). good z" "\<forall>z\<in>set (caddrs ctx). good z" "good x" "good y"
    using r unfolding rep_plug by auto
  then have nz: "x \<noteq> 0" "y \<noteq> 0" "aligned x" "aligned y" "aligned (parent_of ctx)" using good_top by (auto simp: good_def)
  have trs: "tr (nodes h) x a" "tr (nodes h) y b" "tr (nodes h) y e" "cx (nodes h) x ctx" using r unfolding rep_plug by auto
  obtain n where n: "nodes h x = Some n" "rb_parent n = parent_of ctx" "col n = c" "child d n = ptr a" "child (opp d) n = y"
    using r unfolding rep_plug by (auto simp: cell_def)
  obtain m where m: "nodes h y = Some m" "rb_parent m = x" "col m = c'" "child d m = ptr b" "child (opp d) m = ptr e"
    using r unfolding rep_plug by (auto simp: cell_def)
  let ?n = "set_child (opp d) (ptr b) n" and ?m = "rb_set_parent (parent_of ctx) (set_child d x m)"
  define h1 where "h1 = h\<lparr>nodes := (nodes h)(x \<mapsto> ?n)\<rparr>"
  have "tr (nodes h1) y b" using tr_cong [of b "nodes h1" "nodes h" y] trs(2) dist by (auto simp: h1_def)
  then obtain h2 where h2: "set_parent_of (ptr b) x h1 = Val h2" "tr (nodes h2) x b" "outside (set (inorder b)) h1 h2"
      "root_node h2 = root_node h1"
    by (rule set_parent_ok [OF _ dist(2) gd(1) nz(3)])
  have at2: "nodes h2 z = nodes h1 z" if "z \<notin> set (inorder b)" for z using h2(3) that by (simp add: outside_def)
  define h4 where "h4 = h2\<lparr>nodes := (nodes h2)(y \<mapsto> ?m)\<rparr>"
  have at4: "nodes h4 z = (if z = y then Some ?m else nodes h2 z)" for z by (simp add: h4_def)
  have "z \<notin> set (inorder b)" "z \<noteq> x" "z \<noteq> y" if "z \<in> set (caddrs ctx)" for z using that dist by auto
  then have "cx (nodes h4) x ctx" by (intro cx_cong [OF _ trs(4)]) (simp add: at4 at2 h1_def)
  then obtain h5 where h5: "change_child d (parent_of ctx) x y h4 = Val h5" "cx (nodes h5) y ctx" "outside (set (caddrs ctx)) h4 h5"
      "root_node h5 = (if ctx = [] then y else root_node h4)"
    by (rule change_child_ok [OF _ nz(1) dist(8,4) gd(2)])
  have at5: "nodes h5 z = nodes h4 z" if "z \<notin> set (caddrs ctx)" for z using h5(3) that by (simp add: outside_def)
  define h6 where "h6 = h5\<lparr>nodes := (nodes h5)(x \<mapsto> rb_set_parent y ?n)\<rparr>"
  have x5: "nodes h5 x = Some ?n" using at5 at4 at2 dist by (simp add: h1_def)
  have y2: "nodes h2 y = Some m" using at2 dist m by (simp add: h1_def)
  have "rb_rotate d x h = Val h6"
    unfolding rb_rotate_def
    using n m nz h2(1) [unfolded h1_def] h5(1) [unfolded h4_def] x5 y2
    by (simp add: node_at_def update_def Let_def h6_def del: bind_outcome_Val_iff)
  moreover have "rep h6 (plug (join d c' (join d c a x b) y e) ctx)"
  proof -
    have z6: "nodes h6 z = nodes h z" if "z \<notin> insert x (insert y (set (inorder b) \<union> set (caddrs ctx)))" for z
      using at5 [of z] at4 [of z] at2 [of z] that by (simp add: h6_def h1_def)
    have ae: "nodes h6 z = nodes h z" if "z \<in> set (inorder a) \<union> set (inorder e)" for z
      using z6 [of z] that dist by blast
    have inb: "nodes h6 z = nodes h2 z" if "z \<in> set (inorder b)" for z
    proof -
      have "z \<noteq> x" "z \<noteq> y" "z \<notin> set (caddrs ctx)" using that dist by auto
      then show ?thesis using at5 [of z] at4 [of z] by (simp add: h6_def)
    qed
    have "tr (nodes h6) x a" by (rule tr_cong [OF _ trs(1)]) (use ae in simp)
    moreover have "tr (nodes h6) y e" by (rule tr_cong [OF _ trs(3)]) (use ae in simp)
    moreover have "tr (nodes h6) x b" by (rule tr_cong [OF _ h2(2)]) (use inb in simp)
    moreover have "cx (nodes h6) y ctx" by (rule cx_cong [OF _ h5(2)]) (use dist in \<open>auto simp: h6_def\<close>)
    moreover have "cell (nodes h6) d x y c (ptr a) (ptr b)" using n nz by (simp add: cell_def h6_def)
    moreover have "cell (nodes h6) d y (parent_of ctx) c' x (ptr e)" using m nz dist at5 at4 by (simp add: cell_def h6_def)
    ultimately show ?thesis using r h5(4) h2(4) unfolding rep_plug by (auto simp: h6_def h4_def h1_def)
  qed
  moreover have "outside (set (inorder (plug (join d c a x (join d c' b y e)) ctx))) h h6"
    using at5 at4 at2 by (auto simp: outside_def h6_def h1_def)
  ultimately show ?thesis by (rule that)
qed

end
