(* ===== verification/Rbtree_Insert.thy ===== *)
theory Rbtree_Insert
  imports Rbtree_Heap
begin

text \<open>
  Insertion into a red-black tree on the heap: \<open>rb_insert_color\<close> after \<open>rb_link_node\<close> ends, restores the
  red-black conditions and keeps the order of the nodes.
\<close>

subsection \<open>Steps between positions\<close>

lemmas rep_set_black = rep_recolor [where f = rb_set_black and c' = Black, simplified]
lemmas rep_set_red = rep_recolor [where f = rb_set_red and c' = Red, simplified]

lemma ptr_not_in: "x \<notin> set (inorder u) \<Longrightarrow> x \<noteq> 0 \<Longrightarrow> ptr u \<noteq> x"
  using ptr_in [of u] by (cases "u = Lf") auto

text \<open>The node, its parent and the child pointers of the parent, at a position below a frame.\<close>

lemma rep_frame:
  assumes "rep h (plug t ((d, c, p, u) # ctx))"
  obtains n where "nodes h p = Some n" "p \<noteq> 0" "node_at p h = Val n" "rb_parent n = parent_of ctx" "col n = c"
    "child d n = ptr t" "child (opp d) n = ptr u"
  by (rule rep_node [of h d c t p u ctx]) (use assms in auto)

lemma frame_side:
  assumes r: "rep h (plug t ((d, c, p, u) # ctx))" and t: "t \<noteq> Lf" and n: "nodes h p = Some n"
  shows "child s n = ptr t \<longleftrightarrow> s = d"
proof -
  have "ptr t \<in> set (inorder t)" "ptr t \<noteq> 0" using r ptr_in [OF t] unfolding rep_plug by (auto simp: good_def)
  then have "ptr u \<noteq> ptr t" using r ptr_not_in [of "ptr t" u] unfolding rep_plug by auto
  moreover have "child d n = ptr t" "child (opp d) n = ptr u" using r n unfolding rep_plug by (auto simp: cell_def)
  ultimately show ?thesis by (cases s; cases d) auto
qed

definition ins_ok :: "tree \<Rightarrow> frame list \<Rightarrow> bool" where
  "ins_ok t ctx \<longleftrightarrow> invc t \<and> invh t \<and> tcolor t = Red \<and> cinv ctx (bh t)"

lemma red_at_ok:
  assumes "rep h (plug t ctx)"
  shows "red_at (ptr t) h = Val (tcolor t = Red)" "black_at (ptr t) h = Val (tcolor t = Black)"
proof -
  have "red_at (ptr t) h = Val (tcolor t = Red) \<and> black_at (ptr t) h = Val (tcolor t = Black)"
  proof (cases t rule: tree_join_cases [where d = L])
    case 1
    then show ?thesis by (simp add: red_at_def black_at_def)
  next
    case (2 c a x b)
    obtain n where "nodes h x = Some n" "x \<noteq> 0" "node_at x h = Val n" "rb_parent n = parent_of ctx" "col n = c"
        "child L n = ptr a" "child (opp L) n = ptr b"
      by (rule rep_node [OF assms [unfolded 2]])
    then show ?thesis using 2 by (simp add: red_at_def black_at_def)
  qed
  then show "red_at (ptr t) h = Val (tcolor t = Red)" "black_at (ptr t) h = Val (tcolor t = Black)" by simp_all
qed

text \<open>The view of a node's other child as a position.\<close>

lemma plug_other: "plug t ((d, c, x, u) # ctx) = plug u ((opp d, c, x, t) # ctx)"
  by (simp add: join_opp)

text \<open>A red uncle: the two move up.\<close>

lemma insert_recolor:
  assumes r: "rep h (plug t ((d1, Red, p, u1) # (d2, Black, g, u2) # ctx))" and u2: "u2 = join s Red a q b"
  obtains h1 h2 h3 where "update q rb_set_black h = Val h1" "update p rb_set_black h1 = Val h2" "update g rb_set_red h2 = Val h3"
    "rep h3 (plug (join d2 Red (join d1 Black t p u1) g (join s Black a q b)) ctx)"
    "outside (set (inorder (plug t ((d1, Red, p, u1) # (d2, Black, g, u2) # ctx)))) h h3"
proof -
  have "rep h (plug (join s Red a q b) ((opp d2, Black, g, join d1 Red t p u1) # ctx))"
    using r unfolding u2 by (simp add: join_opp)
  then obtain h1 where h1: "update q rb_set_black h = Val h1" "outside {q} h h1"
      "rep h1 (plug (join s Black a q b) ((opp d2, Black, g, join d1 Red t p u1) # ctx))"
    by (rule rep_set_black)
  then have "rep h1 (plug (join d1 Red t p u1) ((d2, Black, g, join s Black a q b) # ctx))" by (simp add: join_opp)
  then obtain h2 where h2: "update p rb_set_black h1 = Val h2" "outside {p} h1 h2"
      "rep h2 (plug (join d1 Black t p u1) ((d2, Black, g, join s Black a q b) # ctx))"
    by (rule rep_set_black)
  then have "rep h2 (plug (join d2 Black (join d1 Black t p u1) g (join s Black a q b)) ctx)" by simp
  then obtain h3 where h3: "update g rb_set_red h2 = Val h3" "outside {g} h2 h3"
      "rep h3 (plug (join d2 Red (join d1 Black t p u1) g (join s Black a q b)) ctx)"
    by (rule rep_set_red)
  have "outside (set (inorder (plug t ((d1, Red, p, u1) # (d2, Black, g, u2) # ctx)))) h h3"
    using h1(2) h2(2) h3(2) u2 by (auto simp: outside_def)
  then show ?thesis by (rule that [OF h1(1) h2(1) h3(1,3)])
qed

text \<open>The last rotation, with the red node on the outer side of its parent.\<close>

lemma insert_outer:
  assumes r: "rep h (plug (join d Red t p b) ((d, Black, g, u) # ctx))"
  obtains h1 h2 h3 where "update p rb_set_black h = Val h1" "update g rb_set_red h1 = Val h2" "rb_rotate (opp d) g h2 = Val h3"
    "rep h3 (plug t ((d, Black, p, join d Red b g u) # ctx))"
    "outside (set (inorder (plug (join d Red t p b) ((d, Black, g, u) # ctx)))) h h3"
proof -
  obtain h1 where h1: "update p rb_set_black h = Val h1" "outside {p} h h1"
      "rep h1 (plug (join d Black t p b) ((d, Black, g, u) # ctx))"
    by (rule rep_set_black [OF r])
  then have "rep h1 (plug (join d Black (join d Black t p b) g u) ctx)" by simp
  then obtain h2 where h2: "update g rb_set_red h1 = Val h2" "outside {g} h1 h2"
      "rep h2 (plug (join d Red (join d Black t p b) g u) ctx)"
    by (rule rep_set_red)
  then have "rep h2 (plug (join (opp d) Red u g (join (opp d) Black b p t)) ctx)" by (simp add: join_opp)
  then obtain h3 where h3: "rb_rotate (opp d) g h2 = Val h3"
      "rep h3 (plug (join (opp d) Black (join (opp d) Red u g b) p t) ctx)"
      "outside (set (inorder (plug (join (opp d) Red u g (join (opp d) Black b p t)) ctx))) h2 h3"
    by (rule rep_rotate)
  have "rep h3 (plug t ((d, Black, p, join d Red b g u) # ctx))" using h3(2) by (simp add: join_opp)
  moreover have "outside (set (inorder (plug (join d Red t p b) ((d, Black, g, u) # ctx)))) h h3"
    using h1(2) h2(2) h3(3) by (auto simp: outside_def)
  ultimately show ?thesis by (rule that [OF h1(1) h2(1) h3(1)])
qed

lemma insert_rotate_ok:
  assumes r: "rep h (plug t ((d1, Red, p, u1) # (d2, Black, g, u2) # ctx))"
    and i: "ins_ok t ((d1, Red, p, u1) # (d2, Black, g, u2) # ctx)" and u2: "tcolor u2 = Black"
  obtains h' t' x u where "insert_rotate d2 (ptr t) p g h = Val (h', ptr t')" "rep h' (plug t' ((d2, Black, x, u) # ctx))"
    "ins_ok t' ((d2, Black, x, u) # ctx)"
    "inorder (plug t' ((d2, Black, x, u) # ctx)) = inorder (plug t ((d1, Red, p, u1) # (d2, Black, g, u2) # ctx))"
    "outside (set (inorder (plug t ((d1, Red, p, u1) # (d2, Black, g, u2) # ctx)))) h h'"
proof -
  have "tcolor t = Red" using i by (simp add: ins_ok_def)
  then obtain a x b where t: "t = join d2 Red a x b" by (rule red_join)
  obtain n where n: "nodes h p = Some n" "p \<noteq> 0" "node_at p h = Val n" by (rule rep_frame [OF r])
  have side: "child (opp d2) n = ptr t \<longleftrightarrow> opp d2 = d1" by (rule frame_side [OF r _ n(1)]) (simp add: t)
  show ?thesis
  proof (cases "opp d2 = d1")
    case True
    then have "rep h (plug (join d2 Red u1 p (join d2 Red a x b)) ((d2, Black, g, u2) # ctx))"
      using r unfolding t by (auto simp: join_opp)
    then obtain h1 where h1: "rb_rotate d2 p h = Val h1" "rep h1 (plug (join d2 Red (join d2 Red u1 p a) x b) ((d2, Black, g, u2) # ctx))"
        "outside (set (inorder (plug (join d2 Red u1 p (join d2 Red a x b)) ((d2, Black, g, u2) # ctx)))) h h1"
      by (rule rep_rotate)
    obtain h2 h3 h4 where h2: "update x rb_set_black h1 = Val h2" "update g rb_set_red h2 = Val h3" "rb_rotate (opp d2) g h3 = Val h4"
        "rep h4 (plug (join d2 Red u1 p a) ((d2, Black, x, join d2 Red b g u2) # ctx))"
        "outside (set (inorder (plug (join d2 Red (join d2 Red u1 p a) x b) ((d2, Black, g, u2) # ctx)))) h1 h4"
      by (rule insert_outer [OF h1(2)])
    show ?thesis
    proof (rule that [of h4 "join d2 Red u1 p a" x "join d2 Red b g u2"])
      show "insert_rotate d2 (ptr t) p g h = Val (h4, ptr (join d2 Red u1 p a))"
        using n side True h1(1) h2(1-3) by (simp add: insert_rotate_def t)
      show "ins_ok (join d2 Red u1 p a) ((d2, Black, x, join d2 Red b g u2) # ctx)"
        using i u2 unfolding t ins_ok_def cinv_Cons by auto
      show "inorder (plug (join d2 Red u1 p a) ((d2, Black, x, join d2 Red b g u2) # ctx)) =
          inorder (plug t ((d1, Red, p, u1) # (d2, Black, g, u2) # ctx))"
        unfolding t plug.simps True [symmetric] by (intro inorder_plug_cong) (cases d2; simp)
      show "outside (set (inorder (plug t ((d1, Red, p, u1) # (d2, Black, g, u2) # ctx)))) h h4"
        using h1(3) h2(5) unfolding t by (auto simp: outside_def)
    qed (rule h2(4))
  next
    case False
    then have d: "d1 = d2" by (cases d1; cases d2) auto
    have "rep h (plug (join d2 Red t p u1) ((d2, Black, g, u2) # ctx))" using r unfolding d by simp
    then obtain h2 h3 h4 where h2: "update p rb_set_black h = Val h2" "update g rb_set_red h2 = Val h3" "rb_rotate (opp d2) g h3 = Val h4"
        "rep h4 (plug t ((d2, Black, p, join d2 Red u1 g u2) # ctx))"
        "outside (set (inorder (plug (join d2 Red t p u1) ((d2, Black, g, u2) # ctx)))) h h4"
      by (rule insert_outer)
    show ?thesis
    proof (rule that [of h4 t p "join d2 Red u1 g u2"])
      show "insert_rotate d2 (ptr t) p g h = Val (h4, ptr t)"
        using n side False h2(1-3) by (simp add: insert_rotate_def)
      show "ins_ok t ((d2, Black, p, join d2 Red u1 g u2) # ctx)"
        using i u2 unfolding ins_ok_def cinv_Cons by auto
      show "inorder (plug t ((d2, Black, p, join d2 Red u1 g u2) # ctx)) =
          inorder (plug t ((d1, Red, p, u1) # (d2, Black, g, u2) # ctx))"
        unfolding plug.simps d by (intro inorder_plug_cong) (cases d2; simp)
      show "outside (set (inorder (plug t ((d1, Red, p, u1) # (d2, Black, g, u2) # ctx)))) h h4"
        using h2(5) unfolding d by (auto simp: outside_def)
    qed (rule h2(4))
  qed
qed

subsection \<open>The loop\<close>

lemma insert_step_ok:
  assumes r: "rep h (plug t ctx)" and i: "ins_ok t ctx"
  shows "insert_step (ptr t) h = Val (Inr h) \<and> (ctx = [] \<or> fits Red ctx) \<or>
    (\<exists>h' t' ctx'. insert_step (ptr t) h = Val (Inl (h', ptr t')) \<and> rep h' (plug t' ctx') \<and> ins_ok t' ctx' \<and>
      inorder (plug t' ctx') = inorder (plug t ctx) \<and> outside (set (inorder (plug t ctx))) h h' \<and> length ctx' < length ctx)"
proof -
  have "tcolor t = Red" using i by (simp add: ins_ok_def)
  then obtain a x b where t: "t = join L Red a x b" by (rule red_join)
  obtain n where n: "nodes h x = Some n" "x \<noteq> 0" "node_at x h = Val n" "rb_parent n = parent_of ctx"
    by (rule rep_node [OF r [unfolded t]])
  show ?thesis
  proof (cases ctx)
    case Nil
    then show ?thesis using n unfolding t by (simp add: insert_step_def)
  next
    case (Cons f ctx1)
    obtain d1 c1 p u1 where f: "f = (d1, c1, p, u1)" by (cases f)
    obtain pn where p: "nodes h p = Some pn" "p \<noteq> 0" "node_at p h = Val pn" "rb_parent pn = parent_of ctx1" "col pn = c1"
      by (rule rep_frame [OF r [unfolded Cons f]])
    show ?thesis
    proof (cases c1)
      case Black
      then show ?thesis using n p unfolding t Cons f by (simp add: insert_step_def fits_def)
    next
      case Red
      then obtain d2 g u2 ctx2 where c1: "ctx1 = (d2, Black, g, u2) # ctx2"
        using i unfolding ins_ok_def Cons f cinv_Cons by (auto simp: fits_def split: list.splits)
      note r' = r [unfolded Cons f Red c1]
      note i' = i [unfolded Cons f Red c1]
      have rg: "rep h (plug (join d1 Red t p u1) ((d2, Black, g, u2) # ctx2))" using r' by simp
      obtain gn where g: "nodes h g = Some gn" "g \<noteq> 0" "node_at g h = Val gn" "child (opp d2) gn = ptr u2"
        by (rule rep_frame [OF rg])
      have side: "(if p = rb_left gn then L else R) = d2"
        using frame_side [OF rg _ g(1), of L] by (cases d2) auto
      have red: "red_at (ptr u2) h = Val (tcolor u2 = Red)"
        by (rule red_at_ok [where ctx = "(opp d2, Black, g, join d1 Red t p u1) # ctx2"]) (use rg in \<open>simp add: join_opp\<close>)
      show ?thesis
      proof (cases "tcolor u2 = Red")
        case True
        then obtain a' q b' where u2: "u2 = join L Red a' q b'" by (rule red_join)
        let ?t = "join d2 Red (join d1 Black t p u1) g (join L Black a' q b')"
        obtain h1 h2 h3 where h: "update q rb_set_black h = Val h1" "update p rb_set_black h1 = Val h2" "update g rb_set_red h2 = Val h3"
            "rep h3 (plug ?t ctx2)"
            "outside (set (inorder (plug t ((d1, Red, p, u1) # (d2, Black, g, u2) # ctx2)))) h h3"
          by (rule insert_recolor [OF r' u2])
        have "insert_step (ptr t) h = Val (Inl (h3, ptr ?t))"
          using n p g side red True h(1-3) Red unfolding t Cons f c1 by (simp add: insert_step_def Let_def u2)
        moreover have "ins_ok ?t ctx2" using i' unfolding ins_ok_def cinv_Cons u2 by auto
        moreover have "inorder (plug ?t ctx2) = inorder (plug t ctx)"
          unfolding Cons f Red c1 plug.simps u2 by (intro inorder_plug_cong) (cases d1; cases d2; simp)
        ultimately show ?thesis
          using h(4,5) unfolding Cons f Red c1 by (intro disjI2 exI [of _ h3] exI [of _ ?t] exI [of _ ctx2]) simp
      next
        case False
        then have "tcolor u2 = Black" by (cases "tcolor u2") auto
        then obtain h' t' x' u' where ok: "insert_rotate d2 (ptr t) p g h = Val (h', ptr t')"
          "rep h' (plug t' ((d2, Black, x', u') # ctx2))" "ins_ok t' ((d2, Black, x', u') # ctx2)"
          "inorder (plug t' ((d2, Black, x', u') # ctx2)) = inorder (plug t ((d1, Red, p, u1) # (d2, Black, g, u2) # ctx2))"
          "outside (set (inorder (plug t ((d1, Red, p, u1) # (d2, Black, g, u2) # ctx2)))) h h'"
          by (rule insert_rotate_ok [OF r' i'])
        have "insert_step (ptr t) h = Val (Inl (h', ptr t'))"
          using n p g side red False ok(1) Red unfolding t Cons f c1 by (simp add: insert_step_def Let_def)
        then show ?thesis
          using ok(2-5) unfolding Cons f Red c1
          by (intro disjI2 exI [of _ h'] exI [of _ t'] exI [of _ "(d2, Black, x', u') # ctx2"]) simp
      qed
    qed
  qed
qed

lemma insert_loop_ok:
  "rep h (plug t ctx) \<Longrightarrow> ins_ok t ctx \<Longrightarrow>
    \<exists>h' T. insert_loop (ptr t) h = Some (Val h') \<and> rep h' T \<and> T \<noteq> Lf \<and> invc T \<and> invh T \<and> inorder T = inorder (plug t ctx) \<and>
      outside (set (inorder (plug t ctx))) h h'"
proof (induction "length ctx" arbitrary: h t ctx rule: less_induct)
  case less
  from insert_step_ok [OF less.prems] show ?case
  proof (elim disjE exE conjE)
    assume s: "insert_step (ptr t) h = Val (Inr h)"
    assume f: "ctx = []"
    have "invc (plug t ctx)" "invh (plug t ctx)" "plug t ctx \<noteq> Lf" using less.prems(2) f by (auto simp: ins_ok_def)
    moreover have "insert_loop (ptr t) h = Some (Val h)" using s by (simp add: insert_loop.simps)
    ultimately show ?thesis using less.prems(1) by (intro exI [of _ h] exI [of _ "plug t ctx"]) simp
  next
    assume s: "insert_step (ptr t) h = Val (Inr h)"
    assume f: "fits Red ctx"
    have "rbt (plug t ctx)" using less.prems(2) f unfolding rbt_plug by (simp add: ins_ok_def)
    moreover have "plug t ctx \<noteq> Lf" using less.prems(2) by (auto simp: ins_ok_def)
    moreover have "insert_loop (ptr t) h = Some (Val h)" using s by (simp add: insert_loop.simps)
    ultimately show ?thesis using less.prems(1) by (intro exI [of _ h] exI [of _ "plug t ctx"]) (simp add: rbt_def)
  next
    fix h' t' ctx' assume s: "insert_step (ptr t) h = Val (Inl (h', ptr t'))" and r: "rep h' (plug t' ctx')" "ins_ok t' ctx'"
      and o: "inorder (plug t' ctx') = inorder (plug t ctx)" "outside (set (inorder (plug t ctx))) h h'" "length ctx' < length ctx"
    have "insert_loop (ptr t) h = insert_loop (ptr t') h'" using s by (simp add: insert_loop.simps [of "ptr t" h])
    moreover obtain h'' T where "insert_loop (ptr t') h' = Some (Val h'')" "rep h'' T" "T \<noteq> Lf" "invc T" "invh T"
        "inorder T = inorder (plug t' ctx')" "outside (set (inorder (plug t' ctx'))) h' h''"
      using less.hyps [OF o(3) r] by blast
    ultimately show ?thesis using o(1,2) by (auto intro: outside_trans)
  qed
qed

lemma rb_insert_color_ok:
  assumes r: "rep h (plug t ctx)" and i: "ins_ok t ctx"
  shows "\<exists>h' T. rb_insert_color (ptr t) h = Some (Val h') \<and> rep h' T \<and> rbt T \<and> inorder T = inorder (plug t ctx) \<and>
    outside (set (inorder T)) h h'"
proof -
  obtain h1 T where l: "insert_loop (ptr t) h = Some (Val h1)" "rep h1 T" "T \<noteq> Lf" "invc T" "invh T"
    "inorder T = inorder (plug t ctx)" "outside (set (inorder (plug t ctx))) h h1"
    using insert_loop_ok [OF r i] by blast
  obtain c a x b where T: "T = join L c a x b" using l(3) by (cases T rule: tree_join_cases [where d = L]) auto
  have "rep h1 (plug (join L c a x b) [])" using l(2) T by simp
  then obtain h2 where h2: "update x rb_set_black h1 = Val h2" "rep h2 (plug (join L Black a x b) [])" "outside {x} h1 h2"
    by (rule rep_set_black)
  have "rbt (join L Black a x b)" using l(4,5) T by (simp add: rbt_def)
  moreover have "root_node h1 = x" using l(2) T by (simp add: rep_def)
  moreover have "inorder (join L Black a x b) = inorder (plug t ctx)" using l(6) T by simp
  moreover have "outside (set (inorder (join L Black a x b))) h h2"
  proof -
    have "set (inorder (join L Black a x b)) = set (inorder (plug t ctx))" "x \<in> set (inorder (plug t ctx))"
      using arg_cong [OF l(6), of set] T by auto
    then show ?thesis using l(7) h2(3) by (auto simp: outside_def simp del: set_plug)
  qed
  ultimately show ?thesis using l(1) h2 by (intro exI [of _ h2] exI [of _ "join L Black a x b"]) (simp add: rb_insert_color_def)
qed

text \<open>
  A new node, linked below an empty child of a node or into an empty tree.
\<close>

lemma rb_link_ok:
  assumes r: "rep h (plug Lf ctx)" and n: "nodes h x = Some n" "good x" "x \<notin> set (caddrs ctx)"
    and d: "\<forall>f\<in>set (take 1 ctx). fst f = d"
  shows "\<exists>h'. rb_link_node x (parent_of ctx) d h = Val h' \<and> rep h' (plug (Nd Red Lf x Lf) ctx) \<and>
    outside (insert x (set (caddrs ctx))) h h'"
proof -
  let ?n = "\<lparr>rb_parent_color = parent_of ctx, rb_right = 0, rb_left = 0\<rparr>"
  define h1 where "h1 = h\<lparr>nodes := (nodes h)(x \<mapsto> ?n)\<rparr>"
  have u: "update x (\<lambda>_. ?n) h = Val h1" using n by (simp add: update_def node_at_def good_def h1_def)
  have al: "aligned (parent_of ctx)" using r good_top(1) [of ctx] unfolding rep_plug by blast
  have bits: "rb_parent ?n = parent_of ctx" "col ?n = Red"
    using aligned_bits [OF al] aligned_and [OF al] unfolding rb_parent_def col_bit by simp_all
  have cx1: "cx (nodes h1) 0 ctx"
    by (rule cx_cong [of ctx _ "nodes h"]) (use r n(3) in \<open>auto simp: rep_plug h1_def\<close>)
  show ?thesis
  proof (cases ctx)
    case Nil
    have "rep (h1\<lparr>root_node := x\<rparr>) (Nd Red Lf x Lf)"
      using n(2) bits Nil by (simp add: rep_def cell_def h1_def)
    then show ?thesis using u Nil by (simp add: rb_link_node_def outside_def h1_def)
  next
    case (Cons f ctx')
    obtain c p u where f: "f = (d, c, p, u)" using d Cons by (cases f) auto
    obtain pn where p: "nodes h1 p = Some pn" "rb_parent pn = parent_of ctx'" "col pn = c" "child d pn = 0" "child (opp d) pn = ptr u"
      using cx1 unfolding Cons f by (auto simp: cell_def)
    let ?h = "h1\<lparr>nodes := (nodes h1)(p \<mapsto> set_child d x pn)\<rparr>"
    have pz: "p \<noteq> 0" "p \<notin> set (inorder u)" "p \<notin> set (caddrs ctx')" "x \<noteq> p"
      using r n(3) unfolding rep_plug Cons f by (auto simp: good_def)
    have "tr (nodes ?h) p u" "cx (nodes ?h) p ctx'"
      using cx1 pz tr_cong [of u "nodes ?h" "nodes h1" p] cx_cong [of ctx' "nodes ?h" "nodes h1" p] unfolding Cons f by auto
    moreover have "cell (nodes ?h) d p (parent_of ctx') c x (ptr u)" using p by (simp add: cell_def)
    moreover have "cell (nodes ?h) L x p Red 0 0" using bits pz Cons f by (simp add: cell_def h1_def)
    ultimately have "rep ?h (plug (Nd Red Lf x Lf) ctx)"
      using r n unfolding rep_plug Cons f by (auto simp: h1_def)
    moreover have "rb_link_node x p d h = Val ?h"
      using u Cons f update_Val [OF p(1) pz(1)] pz(1) by (simp add: rb_link_node_def)
    ultimately show ?thesis unfolding Cons f by (auto simp: outside_def h1_def)
  qed
qed

end
