(* ===== verification/Rbtree_Erase.thy ===== *)
theory Rbtree_Erase
  imports Rbtree_Insert
begin

text \<open>
  Removal from a red-black tree on the heap: the rebalancing of \<open>__rb_erase_color\<close>, and the two ways in
  which \<open>rb_erase\<close> takes a node out.
\<close>

subsection \<open>Rebalancing\<close>

fun blacken :: "tree \<Rightarrow> tree" where
  "blacken Lf = Lf"
| "blacken (Nd c l x r) = Nd Black l x r"

lemma blacken_join [simp]: "blacken (join d c a x b) = join d Black a x b"
  by (cases d) simp_all

lemma inorder_blacken [simp]: "inorder (blacken t) = inorder t"
  by (cases t) simp_all

lemma invh_blacken [simp]: "invh (blacken t) = invh t"
  by (cases t) simp_all

lemma blacken_black: "tcolor t = Black \<Longrightarrow> blacken t = t"
  by (cases t) simp_all

lemma tcolor_blacken [simp]: "tcolor (blacken t) = Black"
  by (cases t) simp_all

lemma bh_blacken: "tcolor t = Red \<Longrightarrow> bh (blacken t) = Suc (bh t)"
  by (cases t) simp_all

text \<open>The subtree at the position is one black node too low; a red root may have a red child.\<close>

definition del_ok :: "tree \<Rightarrow> frame list \<Rightarrow> bool" where
  "del_ok t ctx \<longleftrightarrow> invc (blacken t) \<and> invh t \<and> cinv ctx (Suc (bh t))"

text \<open>The end of the loop.\<close>

definition finished :: "rb_heap \<Rightarrow> tree \<Rightarrow> rb_heap \<Rightarrow> u64 \<Rightarrow> bool" where
  "finished h T h' node \<longleftrightarrow>
    (\<exists>h'' T'. (if node \<noteq> 0 then update node rb_set_black h' else Val h') = Val h'' \<and> rep h'' T' \<and> rbt T' \<and>
      inorder T' = inorder T \<and> outside (set (inorder T)) h h'')"

lemma rep_blacken:
  assumes r: "rep h (plug t ctx)"
  shows "\<exists>h''. (if ptr t \<noteq> 0 then update (ptr t) rb_set_black h else Val h) = Val h'' \<and> rep h'' (plug (blacken t) ctx) \<and>
    outside (set (inorder (plug t ctx))) h h''"
proof (cases t rule: tree_join_cases [where d = L])
  case 1
  then show ?thesis using r by auto
next
  case (2 c a x b)
  have "rep h (plug (join L c a x b) ctx)" using r 2 by simp
  then obtain h1 where "update x rb_set_black h = Val h1" "rep h1 (plug (join L Black a x b) ctx)" "outside {x} h h1"
    by (rule rep_set_black)
  moreover have "x \<noteq> 0" using r 2 unfolding rep_plug by (auto simp: good_def)
  moreover have "{x} \<subseteq> set (inorder (plug t ctx))" using 2 by auto
  ultimately show ?thesis using 2 outside_mono [of "{x}" h h1] by auto
qed

lemma del_finished:
  assumes r: "rep h (plug t ctx)" and i: "del_ok t ctx" and e: "tcolor t = Red \<or> ctx = []"
  shows "finished h (plug t ctx) h (ptr t)"
proof -
  have "rbt (plug (blacken t) ctx)"
  proof (cases "tcolor t = Red")
    case True
    then show ?thesis using i unfolding rbt_plug by (simp add: del_ok_def bh_blacken)
  next
    case False
    then have "ctx = []" using e by simp
    then show ?thesis using i by (simp add: del_ok_def rbt_def)
  qed
  moreover have "inorder (plug (blacken t) ctx) = inorder (plug t ctx)" by (rule inorder_plug_cong) simp
  ultimately show ?thesis using rep_blacken [OF r] unfolding finished_def by blast
qed

lemma rbt_finished:
  assumes r: "rep h' T'" and T: "rbt T'" "inorder T' = inorder T" and o: "outside (set (inorder T)) h h'"
  shows "finished h T h' (root_node h')"
proof -
  have root: "root_node h' = ptr T'" using r by (simp add: rep_def)
  have "blacken T' = T'" using T(1) by (simp add: rbt_def blacken_black)
  with rep_blacken [of h' T' "[]"] r obtain h'' where
    "(if ptr T' \<noteq> 0 then update (ptr T') rb_set_black h' else Val h') = Val h''" "rep h'' T'" "outside (set (inorder T')) h' h''"
    by auto
  then show ?thesis using T o root outside_trans [of _ h h' h''] unfolding finished_def by metis
qed

text \<open>A red sibling is rotated above the parent.\<close>

lemma erase_sibling_ok:
  assumes r: "rep h (plug t ((d, c, p, u) # ctx))" and i: "cinv ((d, c, p, u) # ctx) (Suc (bh t))"
  obtains h1 c' u' ctx' where "erase_sibling d p h = Val (h1, ptr u')" "rep h1 (plug t ((d, c', p, u') # ctx'))"
    "cinv ((d, c', p, u') # ctx') (Suc (bh t))" "tcolor u' = Black" "c' = Red \<or> ctx' = ctx"
    "inorder (plug t ((d, c', p, u') # ctx')) = inorder (plug t ((d, c, p, u) # ctx))"
    "outside (set (inorder (plug t ((d, c, p, u) # ctx)))) h h1"
proof -
  obtain n where n: "nodes h p = Some n" "p \<noteq> 0" "node_at p h = Val n" "child (opp d) n = ptr u" by (rule rep_frame [OF r])
  have "u \<noteq> Lf" using i by auto
  then obtain cu a q b where u: "u = join d cu a q b" by (cases u rule: tree_join_cases [where d = d]) auto
  have ro: "rep h (plug (join d cu a q b) ((opp d, c, p, t) # ctx))" using r u by (simp add: join_opp)
  obtain m where m: "nodes h q = Some m" "q \<noteq> 0" "node_at q h = Val m" "col m = cu" by (rule rep_node [OF ro])
  show ?thesis
  proof (cases cu)
    case Black
    then show ?thesis
      using that [of h u c ctx] r i n m u by (simp add: erase_sibling_def)
  next
    case Red
    then have c: "c = Black" using i u by (cases c) auto
    obtain h1 where h1: "update q rb_set_black h = Val h1" "outside {q} h h1"
        "rep h1 (plug (join d Black a q b) ((opp d, c, p, t) # ctx))"
      by (rule rep_set_black [OF ro])
    then have "rep h1 (plug (join d Black t p (join d Black a q b)) ctx)" using c by (simp add: join_opp)
    then obtain h2 where h2: "update p rb_set_red h1 = Val h2" "outside {p} h1 h2"
        "rep h2 (plug (join d Red t p (join d Black a q b)) ctx)"
      by (rule rep_set_red)
    obtain h3 where h3: "rb_rotate d p h2 = Val h3" "rep h3 (plug (join d Black (join d Red t p a) q b) ctx)"
        "outside (set (inorder (plug (join d Red t p (join d Black a q b)) ctx))) h2 h3"
      by (rule rep_rotate [OF h2(3)])
    have r3: "rep h3 (plug t ((d, Red, p, a) # (d, Black, q, b) # ctx))" using h3(2) by simp
    obtain n3 where n3: "node_at p h3 = Val n3" "child (opp d) n3 = ptr a" by (rule rep_frame [OF r3])
    show ?thesis
    proof (rule that [OF _ r3])
      show "erase_sibling d p h = Val (h3, ptr a)"
        using n m h1(1) h2(1) h3(1) n3 u Red by (simp add: erase_sibling_def)
      show "cinv ((d, Red, p, a) # (d, Black, q, b) # ctx) (Suc (bh t))" "tcolor a = Black"
        using i unfolding u Red c cinv_Cons by (auto simp: fits_def)
      show "inorder (plug t ((d, Red, p, a) # (d, Black, q, b) # ctx)) = inorder (plug t ((d, c, p, u) # ctx))"
        unfolding plug.simps u by (intro inorder_plug_cong) (cases d; simp)
      show "outside (set (inorder (plug t ((d, c, p, u) # ctx)))) h h3"
        using h1(2) h2(2) h3(3) u by (auto simp: outside_def)
    qed simp
  qed
qed

text \<open>The last rotation, with a red child of the sibling on the outer side.\<close>

lemma erase_outer:
  assumes r: "rep h (plug t ((d, c, p, join d Black a q (join d Red f1 z f2)) # ctx))"
  obtains n h1 h2 n2 h3 h4 where "node_at p h = Val n" "update q (rb_set_color (rb_color n)) h = Val h1" "update p rb_set_black h1 = Val h2"
    "node_at q h2 = Val n2" "child (opp d) n2 = z" "update z rb_set_black h2 = Val h3" "rb_rotate d p h3 = Val h4"
    "rep h4 (plug (join d c (join d Black t p a) q (join d Black f1 z f2)) ctx)"
    "outside (set (inorder (plug t ((d, c, p, join d Black a q (join d Red f1 z f2)) # ctx)))) h h4"
proof -
  let ?f = "join d Red f1 z f2"
  obtain n where n: "nodes h p = Some n" "p \<noteq> 0" "node_at p h = Val n" "col n = c" by (rule rep_frame [OF r])
  have "rep h (plug (join d Black a q ?f) ((opp d, c, p, t) # ctx))" using r by (simp add: join_opp)
  then obtain h1 where h1: "update q (rb_set_color (rb_color n)) h = Val h1" "outside {q} h h1"
      "rep h1 (plug (join d c a q ?f) ((opp d, c, p, t) # ctx))"
    by (rule rep_recolor [where f = "rb_set_color (rb_color n)" and c' = c]) (use n(4) in simp_all)
  then have "rep h1 (plug (join d c t p (join d c a q ?f)) ctx)" by (simp add: join_opp)
  then obtain h2 where h2: "update p rb_set_black h1 = Val h2" "outside {p} h1 h2"
      "rep h2 (plug (join d Black t p (join d c a q ?f)) ctx)"
    by (rule rep_set_black)
  have "rep h2 (plug (join d c a q ?f) ((opp d, Black, p, t) # ctx))" using h2(3) by (simp add: join_opp)
  then obtain n2 where n2: "node_at q h2 = Val n2" "child (opp d) n2 = ptr ?f" by (rule rep_node)
  have "rep h2 (plug ?f ((opp d, c, q, a) # (opp d, Black, p, t) # ctx))" using h2(3) by (simp add: join_opp)
  then obtain h3 where h3: "update z rb_set_black h2 = Val h3" "outside {z} h2 h3"
      "rep h3 (plug (join d Black f1 z f2) ((opp d, c, q, a) # (opp d, Black, p, t) # ctx))"
    by (rule rep_set_black)
  then have "rep h3 (plug (join d Black t p (join d c a q (join d Black f1 z f2))) ctx)" by (simp add: join_opp)
  then obtain h4 where h4: "rb_rotate d p h3 = Val h4" "rep h4 (plug (join d c (join d Black t p a) q (join d Black f1 z f2)) ctx)"
      "outside (set (inorder (plug (join d Black t p (join d c a q (join d Black f1 z f2))) ctx))) h3 h4"
    by (rule rep_rotate)
  have "outside (set (inorder (plug t ((d, c, p, join d Black a q ?f) # ctx)))) h h4"
    using h1(2) h2(2) h3(2) h4(3) by (auto simp: outside_def)
  then show ?thesis using that [OF n(3) h1(1) h2(1) n2(1) _ h3(1) h4(1,2)] n2(2) by simp
qed

text \<open>The rotation before it, when only the inner child is red.\<close>

lemma erase_inner:
  assumes r: "rep h (plug t ((d, c, p, join d Black (join d Red a1 w a2) q b) # ctx))"
  obtains h1 h2 h3 n3 where "update w rb_set_black h = Val h1" "update q rb_set_red h1 = Val h2" "rb_rotate (opp d) q h2 = Val h3"
    "node_at p h3 = Val n3" "child (opp d) n3 = w" "rep h3 (plug t ((d, c, p, join d Black a1 w (join d Red a2 q b)) # ctx))"
    "outside (set (inorder (plug t ((d, c, p, join d Black (join d Red a1 w a2) q b) # ctx)))) h h3"
proof -
  have "rep h (plug (join d Red a1 w a2) ((d, Black, q, b) # (opp d, c, p, t) # ctx))" using r by (simp add: join_opp)
  then obtain h1 where h1: "update w rb_set_black h = Val h1" "outside {w} h h1"
      "rep h1 (plug (join d Black a1 w a2) ((d, Black, q, b) # (opp d, c, p, t) # ctx))"
    by (rule rep_set_black)
  then have "rep h1 (plug (join d Black (join d Black a1 w a2) q b) ((opp d, c, p, t) # ctx))" by simp
  then obtain h2 where h2: "update q rb_set_red h1 = Val h2" "outside {q} h1 h2"
      "rep h2 (plug (join d Red (join d Black a1 w a2) q b) ((opp d, c, p, t) # ctx))"
    by (rule rep_set_red)
  then have "rep h2 (plug (join (opp d) Red b q (join (opp d) Black a2 w a1)) ((opp d, c, p, t) # ctx))" by (simp add: join_opp)
  then obtain h3 where h3: "rb_rotate (opp d) q h2 = Val h3"
      "rep h3 (plug (join (opp d) Black (join (opp d) Red b q a2) w a1) ((opp d, c, p, t) # ctx))"
      "outside (set (inorder (plug (join (opp d) Red b q (join (opp d) Black a2 w a1)) ((opp d, c, p, t) # ctx)))) h2 h3"
    by (rule rep_rotate)
  then have r3: "rep h3 (plug t ((d, c, p, join d Black a1 w (join d Red a2 q b)) # ctx))" by (simp add: join_opp)
  obtain n3 where n3: "node_at p h3 = Val n3" "child (opp d) n3 = ptr (join d Black a1 w (join d Red a2 q b))" by (rule rep_frame [OF r3])
  have "outside (set (inorder (plug t ((d, c, p, join d Black (join d Red a1 w a2) q b) # ctx)))) h h3"
    using h1(2) h2(2) h3(3) by (auto simp: outside_def)
  then show ?thesis using that [OF h1(1) h2(1) h3(1) n3(1) _ r3] n3(2) by simp
qed

lemma erase_rotate_ok:
  assumes r: "rep h (plug t ((d, c, p, join d Black a q b) # ctx))"
    and i: "cinv ((d, c, p, join d Black a q b) # ctx) (Suc (bh t))" "invc t" "invh t"
    and red: "\<not> (tcolor a = Black \<and> tcolor b = Black)"
  shows "\<exists>h' T'. erase_rotate d p q h = Val h' \<and> rep h' T' \<and> rbt T' \<and>
    inorder T' = inorder (plug t ((d, c, p, join d Black a q b) # ctx)) \<and>
    outside (set (inorder (plug t ((d, c, p, join d Black a q b) # ctx)))) h h'"
proof -
  have rq: "rep h (plug (join d Black a q b) ((opp d, c, p, t) # ctx))" using r by (simp add: join_opp)
  obtain n where n: "node_at q h = Val n" "child d n = ptr a" "child (opp d) n = ptr b" by (rule rep_node [OF rq])
  have far: "black_at (ptr b) h = Val (tcolor b = Black)"
    by (rule red_at_ok [where ctx = "(opp d, Black, q, a) # (opp d, c, p, t) # ctx"]) (use rq in \<open>simp add: join_opp\<close>)
  show ?thesis
  proof (cases "tcolor b = Black")
    case False
    then have "tcolor b = Red" by (cases "tcolor b") auto
    then obtain f1 z f2 where b: "b = join d Red f1 z f2" by (rule red_join)
    let ?T = "plug (join d c (join d Black t p a) q (join d Black f1 z f2)) ctx"
    have "rbt ?T" using i unfolding b rbt_plug cinv_Cons by (auto simp: fits_def)
    moreover have "inorder ?T = inorder (plug t ((d, c, p, join d Black a q b) # ctx))"
      unfolding plug.simps b by (intro inorder_plug_cong) (cases d; simp)
    moreover obtain n0 h1 h2 n2 h3 h4 where "node_at p h = Val n0" "update q (rb_set_color (rb_color n0)) h = Val h1"
        "update p rb_set_black h1 = Val h2" "node_at q h2 = Val n2" "child (opp d) n2 = z" "update z rb_set_black h2 = Val h3"
        "rb_rotate d p h3 = Val h4" "rep h4 ?T"
        "outside (set (inorder (plug t ((d, c, p, join d Black a q (join d Red f1 z f2)) # ctx)))) h h4"
      by (rule erase_outer [OF r [unfolded b]])
    moreover have "erase_rotate d p q h = Val h4"
      using n far False calculation by (simp add: erase_rotate_def)
    ultimately show ?thesis unfolding b by blast
  next
    case True
    then have "tcolor a = Red" using red by (cases "tcolor a") auto
    then obtain a1 w a2 where a: "a = join d Red a1 w a2" by (rule red_join)
    let ?T = "plug (join d c (join d Black t p a1) w (join d Black a2 q b)) ctx"
    have "rbt ?T" using i True unfolding a rbt_plug cinv_Cons by (auto simp: fits_def)
    moreover have "inorder ?T = inorder (plug t ((d, c, p, join d Black a q b) # ctx))"
      unfolding plug.simps a by (intro inorder_plug_cong) (cases d; simp)
    moreover obtain g1 g2 g3 m3 where g: "update w rb_set_black h = Val g1" "update q rb_set_red g1 = Val g2"
        "rb_rotate (opp d) q g2 = Val g3" "node_at p g3 = Val m3" "child (opp d) m3 = w"
        "rep g3 (plug t ((d, c, p, join d Black a1 w (join d Red a2 q b)) # ctx))"
        "outside (set (inorder (plug t ((d, c, p, join d Black (join d Red a1 w a2) q b) # ctx)))) h g3"
      by (rule erase_inner [OF r [unfolded a]])
    moreover obtain n0 h1 h2 n2 h3 h4 where o: "node_at p g3 = Val n0" "update w (rb_set_color (rb_color n0)) g3 = Val h1"
        "update p rb_set_black h1 = Val h2" "node_at w h2 = Val n2" "child (opp d) n2 = q" "update q rb_set_black h2 = Val h3"
        "rb_rotate d p h3 = Val h4" "rep h4 ?T"
        "outside (set (inorder (plug t ((d, c, p, join d Black a1 w (join d Red a2 q b)) # ctx)))) g3 h4"
      by (rule erase_outer [OF g(6)])
    moreover have "erase_rotate d p q h = Val h4"
      using n far True calculation a by (simp add: erase_rotate_def)
    moreover have "outside (set (inorder (plug t ((d, c, p, join d Black a q b) # ctx)))) h h4"
      using g(7) o(9) unfolding a by (auto simp: outside_def)
    ultimately show ?thesis by blast
  qed
qed

subsection \<open>The loop of the rebalancing\<close>

lemma at_root:
  assumes r: "rep h (plug t ctx)"
  shows "ptr t = root_node h \<longleftrightarrow> ctx = []"
proof (cases ctx rule: rev_cases)
  case Nil
  then show ?thesis using r by (simp add: rep_def)
next
  case (snoc ctx' f)
  obtain d c x u where f: "f = (d, c, x, u)" by (cases f)
  have "root_node h = x" using r unfolding rep_plug snoc f by simp
  moreover have "x \<in> set (caddrs ctx)" unfolding snoc f by (simp add: caddrs_def)
  ultimately have "ptr t \<noteq> root_node h"
    using r ptr_in [of t] unfolding rep_plug by (cases "t = Lf") (auto simp: good_def)
  then show ?thesis using snoc by simp
qed

text \<open>The parent's left child pointer tells the side, because the sibling is not empty.\<close>

lemma erase_side:
  assumes r: "rep h (plug t ((d, c, p, u) # ctx))" and u: "u \<noteq> Lf" and n: "nodes h p = Some n"
  shows "(if rb_left n = ptr t then L else R) = d"
proof -
  have "ptr u \<in> set (inorder u)" "ptr u \<noteq> 0" using r ptr_in [OF u] unfolding rep_plug by (auto simp: good_def)
  then have "ptr t \<noteq> ptr u" using r ptr_not_in [of "ptr u" t] unfolding rep_plug by auto
  moreover have "child d n = ptr t" "child (opp d) n = ptr u" using r n unfolding rep_plug by (auto simp: cell_def)
  ultimately show ?thesis by (cases d) auto
qed

definition weight :: "tree \<Rightarrow> frame list \<Rightarrow> nat" where
  "weight t ctx = (if tcolor t = Red then 0 else Suc (length ctx))"

lemma erase_step_ok:
  assumes r: "rep h (plug t ctx)" and i: "del_ok t ctx"
  shows "(\<exists>h' node. erase_step (ptr t) (parent_of ctx) h = Val (Inr (h', node)) \<and> finished h (plug t ctx) h' node) \<or>
    (\<exists>h' t' ctx'. erase_step (ptr t) (parent_of ctx) h = Val (Inl (h', ptr t', parent_of ctx')) \<and> rep h' (plug t' ctx') \<and>
      del_ok t' ctx' \<and> inorder (plug t' ctx') = inorder (plug t ctx) \<and> outside (set (inorder (plug t ctx))) h h' \<and>
      weight t' ctx' < weight t ctx)"
proof (cases "tcolor t = Red \<or> ctx = []")
  case True
  then have "erase_step (ptr t) (parent_of ctx) h = Val (Inr (h, ptr t))"
    using red_at_ok(2) [OF r] at_root [OF r] by (auto simp: erase_step_def)
  then show ?thesis using del_finished [OF r i True] by blast
next
  case False
  then have black: "tcolor t = Black" by (cases "tcolor t") auto
  obtain d c p u ctx1 where ctx: "ctx = (d, c, p, u) # ctx1" using False by (cases ctx) auto
  have it: "invc t" "invh t" "cinv ((d, c, p, u) # ctx1) (Suc (bh t))"
    using i black unfolding ctx by (simp_all add: del_ok_def blacken_black)
  then have "u \<noteq> Lf" by auto
  obtain n where n: "nodes h p = Some n" "node_at p h = Val n" by (rule rep_frame [OF r [unfolded ctx]])
  note side = erase_side [OF r [unfolded ctx] \<open>u \<noteq> Lf\<close> n(1)]
  obtain h1 c' u' ctx' where s: "erase_sibling d p h = Val (h1, ptr u')" "rep h1 (plug t ((d, c', p, u') # ctx'))"
    "cinv ((d, c', p, u') # ctx') (Suc (bh t))" "tcolor u' = Black" "c' = Red \<or> ctx' = ctx1"
    "inorder (plug t ((d, c', p, u') # ctx')) = inorder (plug t ((d, c, p, u) # ctx1))"
    "outside (set (inorder (plug t ((d, c, p, u) # ctx1)))) h h1"
    by (rule erase_sibling_ok [OF r [unfolded ctx] it(3)])
  obtain a q b where u': "u' = join d Black a q b" using s(3,4) by (cases u' rule: tree_join_cases [where d = d]) auto
  have rq: "rep h1 (plug (join d Black a q b) ((opp d, c', p, t) # ctx'))" using s(2) u' by (simp add: join_opp)
  obtain m where m: "node_at q h1 = Val m" "child d m = ptr a" "child (opp d) m = ptr b" by (rule rep_node [OF rq])
  have "black_at (ptr a) h1 = Val (tcolor a = Black)"
    by (rule red_at_ok [where ctx = "(d, Black, q, b) # (opp d, c', p, t) # ctx'"]) (use rq in simp)
  moreover have "black_at (ptr b) h1 = Val (tcolor b = Black)"
    by (rule red_at_ok [where ctx = "(opp d, Black, q, a) # (opp d, c', p, t) # ctx'"]) (use rq in \<open>simp add: join_opp\<close>)
  ultimately obtain bl br where nephews: "black_at (rb_left m) h1 = Val bl" "black_at (rb_right m) h1 = Val br"
    "bl \<and> br \<longleftrightarrow> tcolor a = Black \<and> tcolor b = Black"
    using m(2,3) by (cases d) auto
  note start = red_at_ok(2) [OF r] at_root [OF r] black ctx n side s(1) u' m(1) nephews
  show ?thesis
  proof (cases "tcolor a = Black \<and> tcolor b = Black")
    case True
    obtain h2 where h2: "update q rb_set_red h1 = Val h2" "outside {q} h1 h2" "rep h2 (plug (join d Red a q b) ((opp d, c', p, t) # ctx'))"
      by (rule rep_set_red [OF rq])
    let ?t = "join d c' t p (join d Red a q b)"
    have r2: "rep h2 (plug ?t ctx')" using h2(3) by (simp add: join_opp)
    then obtain n2 where n2: "node_at p h2 = Val n2" "rb_parent n2 = parent_of ctx'" by (rule rep_node)
    have "erase_step (ptr t) (parent_of ctx) h = Val (Inl (h2, ptr ?t, parent_of ctx'))"
      using start h2(1) n2 True by (simp add: erase_step_def Let_def)
    moreover have "del_ok ?t ctx'"
      using s(3) it True unfolding u' cinv_Cons by (cases c') (auto simp: del_ok_def)
    moreover have "inorder (plug ?t ctx') = inorder (plug t ctx)"
      using s(6) inorder_plug_cong [of ?t "join d c' t p u'" ctx'] unfolding ctx u' by (cases d) auto
    moreover have "weight ?t ctx' < weight t ctx" using s(5) black ctx by (cases c') (auto simp: weight_def)
    moreover have "outside (set (inorder (plug t ctx))) h h2"
    proof -
      have "q \<in> set (inorder (plug t ((d, c', p, u') # ctx')))" unfolding u' by simp
      then have "{q} \<subseteq> set (inorder (plug t ctx))" unfolding s(6) ctx by simp
      then show ?thesis using s(7) outside_mono [OF h2(2)] outside_trans unfolding ctx by blast
    qed
    ultimately show ?thesis using r2 by blast
  next
    case False
    obtain h2 T' where e: "erase_rotate d p q h1 = Val h2" "rep h2 T'" "rbt T'"
      "inorder T' = inorder (plug t ((d, c', p, u') # ctx'))" "outside (set (inorder (plug t ((d, c', p, u') # ctx')))) h1 h2"
      using erase_rotate_ok [OF s(2) [unfolded u'] s(3) [unfolded u'] it(1,2) False] unfolding u' by blast
    have "erase_step (ptr t) (parent_of ctx) h = Val (Inr (h2, root_node h2))"
      using start e(1) False by (simp add: erase_step_def Let_def)
    moreover have "finished h (plug t ctx) h2 (root_node h2)"
      unfolding ctx by (rule rbt_finished [OF e(2,3) e(4) [unfolded s(6)] outside_trans [OF s(7) e(5) [unfolded s(6)]]])
    ultimately show ?thesis by blast
  qed
qed

lemma finished_trans:
  "finished h' T' h'' node \<Longrightarrow> inorder T' = inorder T \<Longrightarrow> outside (set (inorder T)) h h' \<Longrightarrow> finished h T h'' node"
  unfolding finished_def using outside_trans by metis

lemma erase_loop_ok:
  "rep h (plug t ctx) \<Longrightarrow> del_ok t ctx \<Longrightarrow>
    \<exists>h' node. erase_loop (ptr t) (parent_of ctx) h = Some (Val (h', node)) \<and> finished h (plug t ctx) h' node"
proof (induction "weight t ctx" arbitrary: h t ctx rule: less_induct)
  case less
  from erase_step_ok [OF less.prems] show ?case
  proof (elim disjE exE conjE)
    fix h' node assume "erase_step (ptr t) (parent_of ctx) h = Val (Inr (h', node))" "finished h (plug t ctx) h' node"
    then show ?thesis by (simp add: erase_loop.simps)
  next
    fix h' t' ctx' assume s: "erase_step (ptr t) (parent_of ctx) h = Val (Inl (h', ptr t', parent_of ctx'))"
      and r: "rep h' (plug t' ctx')" "del_ok t' ctx'" and w: "weight t' ctx' < weight t ctx"
      and o: "inorder (plug t' ctx') = inorder (plug t ctx)" "outside (set (inorder (plug t ctx))) h h'"
    have "erase_loop (ptr t) (parent_of ctx) h = erase_loop (ptr t') (parent_of ctx') h'"
      using s by (simp add: erase_loop.simps [of "ptr t"])
    then show ?thesis using less.hyps [OF w r] finished_trans [OF _ o] by metis
  qed
qed

lemma rb_erase_color_ok:
  assumes "rep h (plug t ctx)" "del_ok t ctx"
  shows "\<exists>h' T. rb_erase_color (ptr t) (parent_of ctx) h = Some (Val h') \<and> rep h' T \<and> rbt T \<and>
    inorder T = inorder (plug t ctx) \<and> outside (set (inorder T)) h h'"
proof -
  obtain h' node where "erase_loop (ptr t) (parent_of ctx) h = Some (Val (h', node))" "finished h (plug t ctx) h' node"
    using erase_loop_ok [OF assms] by blast
  then obtain h'' T where "rb_erase_color (ptr t) (parent_of ctx) h = Some (Val h'')" "rep h'' T" "rbt T"
    "inorder T = inorder (plug t ctx)" "outside (set (inorder (plug t ctx))) h h''"
    unfolding finished_def rb_erase_color_def by auto
  then show ?thesis by metis
qed

end
