(* ===== verification/Rbtree_Remove.thy ===== *)
theory Rbtree_Remove
  imports Rbtree_Erase
begin

text \<open>
  \<open>rb_erase\<close>: taking out a node with at most one child, replacing a node with two children by the next
  one, and the whole operation.
\<close>

subsection \<open>Going down\<close>

lemma descend_ok:
  "rep h (plug t ctx) \<Longrightarrow> t \<noteq> Lf \<Longrightarrow>
    \<exists>c y u ctx'. descend d (ptr t) h = Some (Val y) \<and> t = plug (join d c Lf y u) ctx' \<and> (\<forall>f\<in>set ctx'. fst f = d)"
proof (induction "size t" arbitrary: t ctx rule: less_induct)
  case less
  obtain c a x b where t: "t = join d c a x b" using less.prems(2) by (cases t rule: tree_join_cases [where d = d]) auto
  obtain n where n: "node_at x h = Val n" "child d n = ptr a" by (rule rep_node [OF less.prems(1) [unfolded t]])
  have ga: "ptr a = 0 \<longleftrightarrow> a = Lf" using less.prems(1) ptr_Lf [of a] unfolding t rep_plug by auto
  show ?case
  proof (cases "a = Lf")
    case True
    then have "descend d (ptr t) h = Some (Val x)" using n t by (simp add: descend.simps [of d x])
    moreover have "t = plug (join d c Lf x b) []" using t True by simp
    ultimately show ?thesis by fastforce
  next
    case False
    have "rep h (plug a ((d, c, x, b) # ctx))" using less.prems(1) t by simp
    moreover have "size a < size t" unfolding t by (cases d) auto
    ultimately obtain c' y u ctx' where "descend d (ptr a) h = Some (Val y)" "a = plug (join d c' Lf y u) ctx'" "\<forall>f\<in>set ctx'. fst f = d"
      using less.hyps [of a] False by blast
    moreover have "descend d (ptr t) h = descend d (ptr a) h" using n t ga False by (simp add: descend.simps [of d x])
    moreover have "t = plug a [(d, c, x, b)]" using t by simp
    ultimately show ?thesis
      by (intro exI [of _ c'] exI [of _ y] exI [of _ u] exI [of _ "ctx' @ [(d, c, x, b)]"]) (simp add: plug_append)
  qed
qed

subsection \<open>At most one child\<close>

lemma inorder_plug_split: "\<exists>pre post. \<forall>t. inorder (plug t ctx) = pre @ inorder t @ post"
proof (induction ctx)
  case Nil
  have "\<forall>t. inorder (plug t []) = [] @ inorder t @ []" by simp
  then show ?case by blast
next
  case (Cons f ctx)
  obtain d c x u where f: "f = (d, c, x, u)" by (cases f)
  from Cons obtain pre post where p: "\<forall>t. inorder (plug t ctx) = pre @ inorder t @ post" by blast
  show ?case
  proof (cases d)
    case L
    then have "\<forall>t. inorder (plug t (f # ctx)) = pre @ inorder t @ (x # inorder u @ post)" using p f by simp
    then show ?thesis by blast
  next
    case R
    then have "\<forall>t. inorder (plug t (f # ctx)) = (pre @ inorder u @ [x]) @ inorder t @ post" using p f by simp
    then show ?thesis by blast
  qed
qed

lemma erase_one_ok:
  assumes r: "rep h (plug (join d c u x Lf) ctx)"
  shows "\<exists>h' k. erase_one x (ptr u) h = Val (h', ptr u, parent_of ctx, k) \<and> (k = RB_BLACK \<longleftrightarrow> c = Black) \<and>
    rep h' (plug u ctx) \<and> outside (set (inorder (plug u ctx))) h h'"
proof -
  have dist: "distinct (inorder u)" "distinct (caddrs ctx)" "x \<notin> set (caddrs ctx)" "set (inorder u) \<inter> set (caddrs ctx) = {}"
    and gd: "\<forall>z\<in>set (inorder u). good z" "\<forall>z\<in>set (caddrs ctx). good z" "x \<noteq> 0"
    and trs: "tr (nodes h) x u" "cx (nodes h) x ctx"
    using r unfolding rep_plug by (auto simp: good_def)
  obtain n where n: "node_at x h = Val n" "rb_parent n = parent_of ctx" "col n = c" by (rule rep_node [OF r])
  obtain h1 where h1: "set_parent_of (ptr u) (parent_of ctx) h = Val h1" "tr (nodes h1) (parent_of ctx) u"
      "outside (set (inorder u)) h h1" "root_node h1 = root_node h"
    by (rule set_parent_ok [OF trs(1) dist(1) gd(1) good_top(1) [OF gd(2)]])
  have "cx (nodes h1) x ctx" by (rule cx_cong [OF _ trs(2)]) (use h1(3) dist(4) in \<open>auto simp: outside_def\<close>)
  then obtain h2 where h2: "change_child L (parent_of ctx) x (ptr u) h1 = Val h2" "cx (nodes h2) (ptr u) ctx"
      "outside (set (caddrs ctx)) h1 h2" "root_node h2 = (if ctx = [] then ptr u else root_node h1)"
    by (rule change_child_ok [OF _ gd(3) dist(3,2) gd(2)])
  have "tr (nodes h2) (parent_of ctx) u" by (rule tr_cong [OF _ h1(2)]) (use h2(3) dist(4) in \<open>auto simp: outside_def\<close>)
  then have "rep h2 (plug u ctx)" using r h2(2,4) h1(4) unfolding rep_plug by auto
  moreover have "erase_one x (ptr u) h = Val (h2, ptr u, parent_of ctx, rb_color n)"
    using n(1,2) h1(1) h2(1) by (simp add: erase_one_def)
  moreover have "outside (set (inorder (plug u ctx))) h h2" using h1(3) h2(3) by (auto simp: outside_def)
  ultimately show ?thesis using n(3) by auto
qed

subsection \<open>Two children\<close>

text \<open>Frames inside a subtree whose root has the parent \<open>q\<close>.\<close>

fun cxq :: "(u64 \<rightharpoonup> rb_node) \<Rightarrow> u64 \<Rightarrow> frame list \<Rightarrow> u64 \<Rightarrow> bool" where
  "cxq H a [] q = True"
| "cxq H a ((d, c, x, u) # ctx) q \<longleftrightarrow>
    cell H d x (if ctx = [] then q else parent_of ctx) c a (ptr u) \<and> tr H x u \<and> cxq H x ctx q"

lemma tr_plug_q: "tr H q (plug t ctx) \<longleftrightarrow> tr H (if ctx = [] then q else parent_of ctx) t \<and> cxq H (ptr t) ctx q"
  by (induction t ctx rule: plug.induct) auto

lemma cxq_cong: "\<forall>z\<in>set (caddrs ctx). H' z = H z \<Longrightarrow> cxq H a ctx q \<Longrightarrow> cxq H' a ctx q"
proof (induction H a ctx q rule: cxq.induct)
  case (2 H a d c x u ctx q)
  then show ?case using cell_cong [of H' x H] tr_cong [of u H' H x] by auto
qed simp

text \<open>The first node \<open>y\<close> of a subtree with parent \<open>q\<close> is taken out below its parent \<open>p\<close>.\<close>

lemma take_first:
  assumes t: "tr (nodes h) q (plug (Nd cy Lf y ry) ((L, c, p, u) # rc))"
    and d: "distinct (inorder (plug (Nd cy Lf y ry) ((L, c, p, u) # rc)))"
    and g: "\<forall>z\<in>set (inorder (plug (Nd cy Lf y ry) ((L, c, p, u) # rc))). good z"
  obtains h1 h2 where "set_parent_of (ptr ry) p h = Val h1" "update p (set_child L (ptr ry)) h1 = Val h2"
    "tr (nodes h2) q (plug ry ((L, c, p, u) # rc))" "outside (set (inorder (plug ry ((L, c, p, u) # rc)))) h h2"
    "root_node h2 = root_node h"
proof -
  let ?q = "if rc = [] then q else parent_of rc"
  have dist: "distinct (inorder ry)" "p \<notin> set (inorder ry)" "p \<notin> set (inorder u)" "p \<notin> set (caddrs rc)" "p \<noteq> y"
    "set (inorder ry) \<inter> set (inorder u) = {}" "set (inorder ry) \<inter> set (caddrs rc) = {}"
    using d unfolding distinct_plug by auto
  have gd: "\<forall>z\<in>set (inorder ry). good z" "good p" using g by auto
  have trs: "tr (nodes h) y ry" "cell (nodes h) L p ?q c y (ptr u)" "tr (nodes h) p u" "cxq (nodes h) p rc q"
    using t unfolding tr_plug_q by auto
  obtain h1 where h1: "set_parent_of (ptr ry) p h = Val h1" "tr (nodes h1) p ry" "outside (set (inorder ry)) h h1"
      "root_node h1 = root_node h"
    by (rule set_parent_ok [OF trs(1) dist(1) gd(1), of p]) (use gd(2) in \<open>simp_all add: good_def\<close>)
  obtain n where n: "nodes h p = Some n" "rb_parent n = ?q" "col n = c" "rb_right n = ptr u" using trs(2) by (auto simp: cell_def)
  have n1: "nodes h1 p = Some n" using n(1) h1(3) dist(2) by (simp add: outside_def)
  let ?h = "h1\<lparr>nodes := (nodes h1)(p \<mapsto> set_child L (ptr ry) n)\<rparr>"
  have eq: "nodes ?h z = nodes h z" if "z \<in> set (inorder u) \<union> set (caddrs rc)" for z
  proof -
    have "z \<notin> set (inorder ry)" "z \<noteq> p" using that dist by auto
    then show ?thesis using h1(3) by (simp add: outside_def)
  qed
  have "tr (nodes ?h) p ry" by (rule tr_cong [OF _ h1(2)]) (use dist(2) in auto)
  moreover have "tr (nodes ?h) p u" by (rule tr_cong [OF _ trs(3)]) (use eq in simp)
  moreover have "cxq (nodes ?h) p rc q" by (rule cxq_cong [OF _ trs(4)]) (use eq in simp)
  moreover have "cell (nodes ?h) L p ?q c (ptr ry) (ptr u)"
    unfolding cell_def using n(2-4) parent_simps(5) [of L "ptr ry" n] col_simps(5) [of L "ptr ry" n]
    by (intro exI [of _ "set_child L (ptr ry) n"]) simp
  ultimately have "tr (nodes ?h) q (plug ry ((L, c, p, u) # rc))" unfolding tr_plug_q by simp
  moreover have "update p (set_child L (ptr ry)) h1 = Val ?h" by (rule update_Val [OF n1]) (use gd(2) in \<open>simp add: good_def\<close>)
  moreover have "outside (set (inorder (plug ry ((L, c, p, u) # rc)))) h ?h" using h1(3) by (auto simp: outside_def)
  ultimately show ?thesis using that [OF h1(1)] h1(4) by simp
qed

text \<open>The node \<open>y\<close> gets the parent, the colour and the left subtree of \<open>x\<close>.\<close>

lemma take_place:
  assumes on: "nodes h x = Some on" "rb_parent on = parent_of ctx" "col on = c" "rb_left on = ptr l"
    and m: "nodes h y = Some m" "rb_right m = ptr r"
    and trs: "tr (nodes h) y r" "tr (nodes h) x l" "cx (nodes h) y ctx" and l: "l \<noteq> Lf"
    and d: "distinct (inorder (plug (join R c r y l) ctx))" "\<forall>z\<in>set (inorder (plug (join R c r y l) ctx)). good z"
    and root: "root_node h = (if ctx = [] then y else parent_of [last ctx])"
  shows "\<exists>h1 h2 h3. update y (\<lambda>n. n\<lparr>rb_parent_color := rb_parent_color on\<rparr>) h = Val h1 \<and>
    update y (set_child L (rb_left on)) h1 = Val h2 \<and> update (rb_left on) (rb_set_parent y) h2 = Val h3 \<and>
    rep h3 (plug (join R c r y l) ctx) \<and> outside (set (inorder (plug (join R c r y l) ctx))) h h3"
proof -
  have dist: "distinct (inorder l)" "y \<notin> set (inorder l)" "y \<notin> set (inorder r)" "y \<notin> set (caddrs ctx)"
    "set (inorder l) \<inter> set (inorder r) = {}" "set (inorder l) \<inter> set (caddrs ctx) = {}"
    using d(1) unfolding distinct_plug by auto
  have gd: "\<forall>z\<in>set (inorder l). good z" "y \<noteq> 0" "aligned y" using d(2) by (auto simp: good_def)
  let ?m = "m\<lparr>rb_parent_color := rb_parent_color on, rb_left := ptr l\<rparr>"
  let ?h1 = "h\<lparr>nodes := (nodes h)(y \<mapsto> m\<lparr>rb_parent_color := rb_parent_color on\<rparr>)\<rparr>"
  let ?h2 = "h\<lparr>nodes := (nodes h)(y \<mapsto> ?m)\<rparr>"
  have "tr (nodes ?h2) x l" by (rule tr_cong [OF _ trs(2)]) (use dist(2) in auto)
  then obtain h3 where h3: "set_parent_of (ptr l) y ?h2 = Val h3" "tr (nodes h3) y l" "outside (set (inorder l)) ?h2 h3"
      "root_node h3 = root_node ?h2"
    by (rule set_parent_ok [OF _ dist(1) gd(1,3)])
  have ops: "update y (\<lambda>n. n\<lparr>rb_parent_color := rb_parent_color on\<rparr>) h = Val ?h1"
    "update y (set_child L (rb_left on)) ?h1 = Val ?h2" "update (rb_left on) (rb_set_parent y) ?h2 = Val h3"
    using m(1) gd(2) on(4) h3(1) ptr_Lf [OF gd(1)] l by (simp_all add: update_def node_at_def set_parent_of_def)
  have eq: "nodes h3 z = nodes h z" if "z \<in> set (inorder r) \<union> set (caddrs ctx)" for z
  proof -
    have "z \<noteq> y" "z \<notin> set (inorder l)" using that dist by auto
    then show ?thesis using h3(3) by (simp add: outside_def)
  qed
  have y3: "nodes h3 y = Some ?m" using h3(3) dist(2) by (simp add: outside_def)
  have "tr (nodes h3) y r" by (rule tr_cong [OF _ trs(1)]) (use eq in simp)
  moreover have "cx (nodes h3) y ctx" by (rule cx_cong [OF _ trs(3)]) (use eq in simp)
  moreover have "rb_parent ?m = rb_parent on" "col ?m = col on" by (simp_all add: rb_parent_def col_bit)
  then have "cell (nodes h3) L y (parent_of ctx) c (ptr l) (ptr r)"
    using y3 on m(2) unfolding cell_def by (intro exI [of _ ?m]) simp
  ultimately have "rep h3 (plug (join R c r y l) ctx)"
    using d h3(2,4) root unfolding rep_plug distinct_plug by simp
  moreover have "outside (set (inorder (plug (join R c r y l) ctx))) h h3" using h3(3) by (auto simp: outside_def)
  ultimately show ?thesis using ops by blast
qed

lemma erase_two_ok:
  assumes r: "rep h (plug (Nd c l x (plug (Nd cy Lf y ry) rc)) ctx)" and l: "l \<noteq> Lf" and rc: "\<forall>f\<in>set rc. fst f = L"
  shows "\<exists>h' k. erase_two x y h = Val (h', ptr ry, parent_of (rc @ [(R, c, y, l)]), k) \<and> (k = RB_BLACK \<longleftrightarrow> cy = Black) \<and>
    rep h' (plug ry (rc @ (R, c, y, l) # ctx)) \<and> outside (set (inorder (plug ry (rc @ (R, c, y, l) # ctx)))) h h'"
proof -
  let ?r = "plug (Nd cy Lf y ry) rc" and ?r' = "plug ry rc"
  have r0: "rep h (plug (join R c ?r x l) ctx)" using r by simp
  have dist: "distinct (inorder l)" "distinct (inorder ?r)" "distinct (caddrs ctx)" "x \<notin> set (inorder l)" "x \<notin> set (inorder ?r)"
    "x \<notin> set (caddrs ctx)" "set (inorder l) \<inter> set (inorder ?r) = {}" "set (inorder l) \<inter> set (caddrs ctx) = {}"
    "set (inorder ?r) \<inter> set (caddrs ctx) = {}"
    and gd: "\<forall>z\<in>set (inorder l). good z" "\<forall>z\<in>set (inorder ?r). good z" "\<forall>z\<in>set (caddrs ctx). good z" "x \<noteq> 0"
    and trs: "tr (nodes h) x l" "tr (nodes h) x ?r" "cx (nodes h) x ctx"
    using r0 unfolding rep_plug by (auto simp: good_def simp del: set_plug)
  obtain on where on: "nodes h x = Some on" "node_at x h = Val on" "rb_parent on = parent_of ctx" "col on = c"
      "rb_right on = ptr ?r" "rb_left on = ptr l"
    by (rule rep_node [OF r0]) auto
  have inr: "set (inorder ?r) = insert y (set (inorder ?r'))" "y \<in> set (inorder ?r)" by auto
  have yr': "y \<notin> set (inorder ?r')" "distinct (inorder ?r')" using dist(2) unfolding distinct_plug by auto
  obtain h1 where h1: "change_child L (parent_of ctx) x y h = Val h1" "cx (nodes h1) y ctx" "outside (set (caddrs ctx)) h h1"
      "root_node h1 = (if ctx = [] then y else root_node h)"
    by (rule change_child_ok [OF trs(3) gd(4) dist(6,3) gd(3)])
  have same: "nodes h1 z = nodes h z" if "z \<in> insert x (set (inorder l) \<union> set (inorder ?r))" for z
    using h1(3) that dist by (auto simp: outside_def simp del: set_plug)
  have t1: "tr (nodes h1) x l" "tr (nodes h1) x ?r"
    using tr_cong [OF _ trs(1), of "nodes h1"] tr_cong [OF _ trs(2), of "nodes h1"] same by blast+
  have root1: "root_node h1 = (if ctx = [] then y else parent_of [last ctx])" using h1(4) r0 unfolding rep_plug by auto
  have "distinct (inorder (join R c ?r' y l) @ caddrs ctx)" using dist yr' inr by (auto simp del: set_plug)
  then have T': "distinct (inorder (plug (join R c ?r' y l) ctx))" by (simp only: distinct_plug)
  have T'g: "\<forall>z\<in>set (inorder (plug (join R c ?r' y l) ctx)). good z" using gd inr by auto
  have x1: "nodes h1 x = Some on" using same on(1) by simp
  show ?thesis
  proof (cases rc)
    case Nil
    obtain n where n: "nodes h1 y = Some n" "rb_parent n = x" "col n = cy" "rb_right n = ptr ry"
      using t1(2) unfolding Nil by (auto simp: cell_def)
    have "tr (nodes h1) y ?r'" using t1(2) unfolding Nil by simp
    from take_place [OF x1 on(3,4,6) n(1) _ this t1(1) h1(2) l T' T'g root1] n(4) Nil obtain h2 h3 h4 where
      p: "update y (\<lambda>n. n\<lparr>rb_parent_color := rb_parent_color on\<rparr>) h1 = Val h2" "update y (set_child L (rb_left on)) h2 = Val h3"
        "update (rb_left on) (rb_set_parent y) h3 = Val h4" "rep h4 (plug (join R c ?r' y l) ctx)"
        "outside (set (inorder (plug (join R c ?r' y l) ctx))) h1 h4"
      by auto
    have yz: "y \<noteq> 0" using gd(2) inr(2) by (auto simp: good_def)
    have "erase_two x y h = Val (h4, ptr ry, y, rb_color n)"
      using on h1(1) n yz x1 gd(4) p(1-3) by (simp add: erase_two_def Let_def node_at_def)
    moreover have "outside (set (inorder (plug (join R c ?r' y l) ctx))) h h4" using h1(3) p(5) by (auto simp: outside_def)
    ultimately show ?thesis using p(4) n(3) Nil by auto
  next
    case (Cons f rc')
    obtain c1 p u where f: "f = (L, c1, p, u)" using rc Cons by (cases f) auto
    note rcf = Cons [unfolded f]
    obtain n where n: "nodes h1 y = Some n" "rb_parent n = p" "col n = cy" "rb_right n = ptr ry"
      using t1(2) unfolding rcf tr_plug_q by (auto simp: cell_def)
    obtain h2 h3 where h3: "set_parent_of (ptr ry) p h1 = Val h2" "update p (set_child L (ptr ry)) h2 = Val h3"
        "tr (nodes h3) x ?r'" "outside (set (inorder ?r')) h1 h3" "root_node h3 = root_node h1"
      using take_first [OF t1(2) [unfolded rcf] dist(2) [unfolded rcf] gd(2) [unfolded rcf]] unfolding rcf by metis
    have "ptr ?r' = ptr ?r" unfolding ptr_plug using Cons by simp
    then have pr: "rb_right on = ptr ?r'" using on(5) by simp
    have x3: "nodes h3 x = Some on" and y3: "nodes h3 y = Some n"
      using x1 n(1) h3(4) dist(5) inr yr' by (auto simp: outside_def simp del: set_plug)
    define h4 where "h4 = h3\<lparr>nodes := (nodes h3)(y \<mapsto> n\<lparr>rb_right := ptr ?r'\<rparr>)\<rparr>"
    have yz: "y \<noteq> 0" "aligned y" using gd(2) inr(2) by (auto simp: good_def)
    have "tr (nodes h4) x ?r'" by (rule tr_cong [OF _ h3(3)]) (use yr' in \<open>auto simp: h4_def simp del: set_plug\<close>)
    moreover have gr': "\<forall>z\<in>set (inorder ?r'). good z" using gd(2) inr by blast
    ultimately obtain h5 where h5: "set_parent_of (ptr ?r') y h4 = Val h5" "tr (nodes h5) y ?r'" "outside (set (inorder ?r')) h4 h5"
        "root_node h5 = root_node h4"
      by (rule set_parent_ok [OF _ yr'(2) _ yz(2)])
    have out5: "nodes h5 z = nodes h1 z" if "z \<notin> insert y (set (inorder ?r'))" for z
      using that h5(3) h3(4) by (simp add: outside_def h4_def del: set_plug)
    have x5: "nodes h5 x = Some on" using out5 [of x] x1 dist(5) inr(1) by simp
    have y5: "nodes h5 y = Some (n\<lparr>rb_right := ptr ?r'\<rparr>)" using h5(3) yr'(1) by (simp add: outside_def h4_def del: set_plug)
    have "tr (nodes h5) x l" by (rule tr_cong [OF _ t1(1)]) (use out5 dist(7) inr(1) in blast)
    moreover have "cx (nodes h5) y ctx" by (rule cx_cong [OF _ h1(2)]) (use out5 dist(9) inr(1) in blast)
    moreover have "root_node h5 = (if ctx = [] then y else parent_of [last ctx])" using root1 h5(4) h3(5) by (simp add: h4_def)
    ultimately obtain h6 h7 h8 where
      p: "update y (\<lambda>n. n\<lparr>rb_parent_color := rb_parent_color on\<rparr>) h5 = Val h6" "update y (set_child L (rb_left on)) h6 = Val h7"
        "update (rb_left on) (rb_set_parent y) h7 = Val h8" "rep h8 (plug (join R c ?r' y l) ctx)"
        "outside (set (inorder (plug (join R c ?r' y l) ctx))) h5 h8"
      using take_place [OF x5 on(3,4,6) y5 _ h5(2) _ _ l T' T'g] by auto
    have r'z: "ptr ?r' \<noteq> 0" using ptr_Lf [OF gr'] Cons by simp
    have u4: "update y (set_child R (rb_right on)) h3 = Val h4" using update_Val [OF y3 yz(1)] pr by (simp add: h4_def)
    have u5: "update (rb_right on) (rb_set_parent y) h4 = Val h5" using h5(1) pr r'z by (simp add: set_parent_of_def)
    have at: "node_at y h1 = Val n" "node_at x h3 = Val on" "node_at x h5 = Val on"
      using n(1) x3 x5 yz(1) gd(4) by (simp_all add: node_at_def)
    have "p \<noteq> x" using dist(5) rcf by auto
    then have "erase_two x y h = Val (h8, ptr ry, p, rb_color n)"
      using on(2,3) h1(1) n(2,4) at h3(1,2) u4 u5 p(1-3)
      by (simp add: erase_two_def Let_def del: bind_outcome_Val_iff set_child.simps)
    moreover have "outside (set (inorder (plug (join R c ?r' y l) ctx))) h h8"
      using h1(3) out5 p(5) by (auto simp: outside_def)
    ultimately show ?thesis using p(4) n(3) rcf by (auto simp: plug_append)
  qed
qed

subsection \<open>The whole removal\<close>

lemma removal_inv:
  assumes "rbt (plug (join d c u y Lf) ctx)"
  shows "c = Black \<Longrightarrow> del_ok u ctx" "c = Red \<Longrightarrow> rbt (plug u ctx)"
proof -
  have "invc (blacken u)" if "invc u" using that by (cases u) auto
  then show "c = Black \<Longrightarrow> del_ok u ctx" "c = Red \<Longrightarrow> rbt (plug u ctx)"
    using assms unfolding rbt_plug by (auto simp: del_ok_def)
qed

lemma cinv_readdress: "cinv (rc @ (d, c, x, l) # ctx) k = cinv (rc @ (d, c, y, l) # ctx) k"
proof (induction rc arbitrary: k)
  case Nil
  then show ?case by (simp only: append_Nil cinv_Cons)
next
  case (Cons f rc)
  obtain d' c' x' u' where f: "f = (d', c', x', u')" by (cases f)
  have "fits c' (rc @ (d, c, x, l) # ctx) = fits c' (rc @ (d, c, y, l) # ctx)" by (cases rc) (auto simp: fits_def)
  then show ?case using Cons unfolding f append_Cons cinv_Cons by simp
qed

lemma rbt_readdress: "rbt (plug t (rc @ (d, c, x, l) # ctx)) = rbt (plug t (rc @ (d, c, y, l) # ctx))"
  unfolding rbt_plug cinv_readdress [of rc d c x l ctx _ y] by (cases rc) (auto simp: fits_def)

lemma erase_rest_ok:
  assumes r: "rep h (plug u ctx)" and k: "k = RB_BLACK \<longleftrightarrow> c = Black"
    and i: "c = Black \<Longrightarrow> del_ok u ctx" "c = Red \<Longrightarrow> rbt (plug u ctx)"
  shows "\<exists>h' T. erase_rest (Val (h, ptr u, parent_of ctx, k)) = Some (Val h') \<and> rep h' T \<and> rbt T \<and>
    inorder T = inorder (plug u ctx) \<and> outside (set (inorder T)) h h'"
proof (cases c)
  case Black
  then show ?thesis using rb_erase_color_ok [OF r i(1)] k by (simp add: erase_rest_def)
next
  case Red
  then show ?thesis using r i(2) k by (intro exI [of _ h] exI [of _ "plug u ctx"]) (simp add: erase_rest_def)
qed

lemma inorder_leftmost: "\<forall>f\<in>set rc. fst f = L \<Longrightarrow> \<exists>post. \<forall>t. inorder (plug t rc) = inorder t @ post"
proof (induction rc)
  case Nil
  have "\<forall>t. inorder (plug t []) = inorder t @ []" by simp
  then show ?case by blast
next
  case (Cons f rc)
  obtain c x u where f: "f = (L, c, x, u)" using Cons.prems by (cases f) auto
  obtain post where "\<forall>t. inorder (plug t rc) = inorder t @ post" using Cons by auto
  then have "\<forall>t. inorder (plug t (f # rc)) = inorder t @ (x # inorder u @ post)" using f by simp
  then show ?case by blast
qed

lemma remove1_plug:
  assumes d: "distinct (inorder (plug t ctx))" and x: "x \<in> set (inorder t)" and u: "inorder u = remove1 x (inorder t)"
  shows "inorder (plug u ctx) = remove1 x (inorder (plug t ctx))"
proof -
  obtain pre post where "\<forall>t. inorder (plug t ctx) = pre @ inorder t @ post" using inorder_plug_split by blast
  then have eq: "inorder (plug t ctx) = pre @ inorder t @ post" "inorder (plug u ctx) = pre @ inorder u @ post" by auto
  have "x \<notin> set pre" using d x unfolding eq(1) by auto
  then show ?thesis using x u unfolding eq by (simp add: remove1_append)
qed

lemma rb_erase_one:
  assumes r: "rep h (plug (join d c u x Lf) ctx)" and i: "rbt (plug (join d c u x Lf) ctx)"
  shows "\<exists>h' T. erase_rest (erase_one x (ptr u) h) = Some (Val h') \<and> rep h' T \<and> rbt T \<and>
    inorder T = remove1 x (inorder (plug (join d c u x Lf) ctx)) \<and> outside (set (inorder (plug (join d c u x Lf) ctx))) h h'"
proof -
  obtain h1 k where e: "erase_one x (ptr u) h = Val (h1, ptr u, parent_of ctx, k)" "k = RB_BLACK \<longleftrightarrow> c = Black"
    "rep h1 (plug u ctx)" "outside (set (inorder (plug u ctx))) h h1"
    using erase_one_ok [OF r] by blast
  obtain h2 T where t: "erase_rest (Val (h1, ptr u, parent_of ctx, k)) = Some (Val h2)" "rep h2 T" "rbt T"
    "inorder T = inorder (plug u ctx)" "outside (set (inorder T)) h1 h2"
    using erase_rest_ok [OF e(3,2) removal_inv [OF i]] by blast
  have eq: "inorder u = remove1 x (inorder (join d c u x Lf))"
    using r unfolding rep_plug by (cases d) (auto simp: remove1_append remove1_idem)
  have "inorder (plug u ctx) = remove1 x (inorder (plug (join d c u x Lf) ctx))"
    by (rule remove1_plug [OF _ _ eq]) (use r in \<open>simp_all add: rep_def\<close>)
  moreover have "outside (set (inorder (plug (join d c u x Lf) ctx))) h h2"
    using e(4) t(5) arg_cong [OF t(4), of set] by (auto simp: outside_def)
  ultimately show ?thesis using t e(1) by auto
qed

lemma rb_erase_two:
  assumes r: "rep h (plug (Nd c l x r) ctx)" and i: "rbt (plug (Nd c l x r) ctx)" and ne: "l \<noteq> Lf" "r \<noteq> Lf"
  shows "\<exists>y h' T. descend L (ptr r) h = Some (Val y) \<and> erase_rest (erase_two x y h) = Some (Val h') \<and> rep h' T \<and> rbt T \<and>
    inorder T = remove1 x (inorder (plug (Nd c l x r) ctx)) \<and> outside (set (inorder (plug (Nd c l x r) ctx))) h h'"
proof -
  have "rep h (plug r ((R, c, x, l) # ctx))" using r by simp
  from descend_ok [OF this ne(2), of L] obtain cy y ry rc where
    d: "descend L (ptr r) h = Some (Val y)" "r = plug (Nd cy Lf y ry) rc" "\<forall>f\<in>set rc. fst f = L" by auto
  let ?C = "rc @ (R, c, y, l) # ctx"
  obtain h1 k where e: "erase_two x y h = Val (h1, ptr ry, parent_of (rc @ [(R, c, y, l)]), k)" "k = RB_BLACK \<longleftrightarrow> cy = Black"
    "rep h1 (plug ry ?C)" "outside (set (inorder (plug ry ?C))) h h1"
    using erase_two_ok [OF r [unfolded d(2)] ne(1) d(3)] by blast
  have "plug (Nd c l x r) ctx = plug (join R cy ry y Lf) (rc @ (R, c, x, l) # ctx)" by (simp add: d(2) plug_append)
  then have iy: "rbt (plug (join R cy ry y Lf) ?C)"
    using i rbt_readdress [of "join R cy ry y Lf" rc R c x l ctx y] by metis
  have p: "parent_of (rc @ [(R, c, y, l)]) = parent_of ?C" by (cases rc) auto
  obtain h2 T where t: "erase_rest (Val (h1, ptr ry, parent_of ?C, k)) = Some (Val h2)" "rep h2 T" "rbt T"
    "inorder T = inorder (plug ry ?C)" "outside (set (inorder T)) h1 h2"
    using erase_rest_ok [OF e(3,2) removal_inv [OF iy]] by blast
  obtain post where "\<forall>t. inorder (plug t rc) = inorder t @ post" using inorder_leftmost [OF d(3)] by blast
  then have "inorder (plug ry (rc @ [(R, c, y, l)])) = inorder l @ inorder r" by (simp add: d(2) plug_append)
  moreover have "x \<notin> set (inorder l)" using r unfolding rep_plug by auto
  ultimately have "inorder (plug ry (rc @ [(R, c, y, l)])) = remove1 x (inorder (Nd c l x r))" by (simp add: remove1_append)
  then have o: "inorder (plug ry ?C) = remove1 x (inorder (plug (Nd c l x r) ctx))"
    using remove1_plug [of "Nd c l x r" ctx x "plug ry (rc @ [(R, c, y, l)])"] r by (simp add: rep_def plug_append)
  have "set (inorder (plug ry ?C)) \<subseteq> set (inorder (plug (Nd c l x r) ctx))" unfolding o by (rule set_remove1_subset)
  then have "outside (set (inorder (plug (Nd c l x r) ctx))) h h2"
    using outside_trans [OF e(4) t(5) [unfolded t(4)]] outside_mono by blast
  then show ?thesis using d(1) e(1) t o p by auto
qed

lemma rb_erase_ok:
  assumes r: "rep h T" and i: "rbt T" and x: "x \<in> set (inorder T)"
  shows "\<exists>h' T'. rb_erase x h = Some (Val h') \<and> rep h' T' \<and> rbt T' \<and> inorder T' = remove1 x (inorder T) \<and>
    outside (set (inorder T)) h h'"
proof -
  obtain c l u ctx where T: "T = plug (Nd c l x u) ctx" using node_position [OF x] by blast
  have rj: "rep h (plug (join L c l x u) ctx)" using r T by simp
  obtain n where n: "node_at x h = Val n" "rb_left n = ptr l" "rb_right n = ptr u" by (rule rep_node [OF rj]) auto
  have z: "ptr l = 0 \<longleftrightarrow> l = Lf" "ptr u = 0 \<longleftrightarrow> u = Lf" using rj ptr_Lf unfolding rep_plug by auto
  consider "l = Lf" | "l \<noteq> Lf" "u = Lf" | "l \<noteq> Lf" "u \<noteq> Lf" by blast
  then show ?thesis
  proof cases
    case 1
    then have "T = plug (join R c u x Lf) ctx" using T by simp
    with rb_erase_one [of h R c u x ctx] r i n z 1 show ?thesis by (simp add: rb_erase_def)
  next
    case 2
    then have "T = plug (join L c l x Lf) ctx" using T by simp
    with rb_erase_one [of h L c l x ctx] r i n z 2 show ?thesis by (simp add: rb_erase_def)
  next
    case 3
    with rb_erase_two [of h c l x u ctx] r i n z T show ?thesis by (auto simp: rb_erase_def)
  qed
qed

end
