(* ===== verification/Rbtree_Iter.thy ===== *)
theory Rbtree_Iter
  imports Rbtree_Remove
begin

text \<open>
  Iteration in both directions, and the replacement of a node.
\<close>

subsection \<open>Order\<close>

text \<open>The nodes in ascending (\<open>R\<close>) or descending (\<open>L\<close>) order, and what comes before and after a position.\<close>

primrec dord :: "side \<Rightarrow> tree \<Rightarrow> u64 list" where
  "dord R t = inorder t"
| "dord L t = rev (inorder t)"

fun first_of :: "u64 list \<Rightarrow> u64" where
  "first_of [] = 0"
| "first_of (x # xs) = x"

fun cpre :: "side \<Rightarrow> frame list \<Rightarrow> u64 list" where
  "cpre d [] = []"
| "cpre d ((s, c, x, u) # ctx) = cpre d ctx @ (if s = d then dord d u @ [x] else [])"

fun cpost :: "side \<Rightarrow> frame list \<Rightarrow> u64 list" where
  "cpost d [] = []"
| "cpost d ((s, c, x, u) # ctx) = (if s = d then [] else x # dord d u) @ cpost d ctx"

lemma dord_Lf [simp]: "dord d Lf = []"
  by (cases d) simp_all

lemma set_dord [simp]: "set (dord d t) = set (inorder t)"
  by (cases d) simp_all

lemma distinct_dord [simp]: "distinct (dord d t) = distinct (inorder t)"
  by (cases d) simp_all

lemma dord_join: "dord d (join s c t x u) = (if s = d then dord d u @ x # dord d t else dord d t @ x # dord d u)"
  by (cases d; cases s) simp_all

lemma dord_plug: "dord d (plug t ctx) = cpre d ctx @ dord d t @ cpost d ctx"
  by (induction t ctx rule: plug.induct) (simp_all add: dord_join)

lemma cpost_same: "\<forall>f\<in>set ctx. fst f = opp d \<Longrightarrow> cpre d ctx = []"
proof (induction ctx)
  case (Cons f ctx)
  then show ?case by (cases f) auto
qed simp

subsection \<open>rb_first, rb_last, rb_next, rb_prev\<close>

lemma descend_first:
  assumes "rep h (plug t ctx)" "t \<noteq> Lf"
  shows "descend (opp d) (ptr t) h = Some (Val (first_of (dord d t)))"
proof -
  obtain c y u ctx' where "descend (opp d) (ptr t) h = Some (Val y)" and t: "t = plug (join (opp d) c Lf y u) ctx'"
    and f: "\<forall>f\<in>set ctx'. fst f = opp d"
    using descend_ok [OF assms, of "opp d"] by blast
  moreover have "dord d t = y # dord d u @ cpost d ctx'" unfolding t dord_plug cpost_same [OF f] by (simp add: dord_join)
  ultimately show ?thesis by simp
qed

lemma ascend_ok: "rep h (plug t ctx) \<Longrightarrow> t \<noteq> Lf \<Longrightarrow> ascend d (ptr t) h = Some (Val (first_of (cpost d ctx)))"
proof (induction ctx arbitrary: t)
  case Nil
  obtain c a x b where t: "t = join L c a x b" using Nil.prems(2) by (cases t rule: tree_join_cases [where d = L]) auto
  obtain n where "node_at x h = Val n" "rb_parent n = parent_of []" by (rule rep_node [OF Nil.prems(1) [unfolded t]])
  then show ?case using t by (simp add: ascend.simps [of d x])
next
  case (Cons f ctx)
  obtain s c' p u where f: "f = (s, c', p, u)" by (cases f)
  obtain c a x b where t: "t = join L c a x b" using Cons.prems(2) by (cases t rule: tree_join_cases [where d = L]) auto
  obtain n where n: "node_at x h = Val n" "rb_parent n = parent_of (f # ctx)" by (rule rep_node [OF Cons.prems(1) [unfolded t]])
  obtain m where m: "nodes h p = Some m" "p \<noteq> 0" "node_at p h = Val m" by (rule rep_frame [OF Cons.prems(1) [unfolded f]])
  have side: "child d m = x \<longleftrightarrow> d = s"
    using frame_side [OF Cons.prems(1) [unfolded f] Cons.prems(2) m(1), of d] t by simp
  have "rep h (plug (join s c' t p u) ctx)" using Cons.prems(1) f by simp
  from Cons.IH [OF this] have up: "ascend d p h = Some (Val (first_of (cpost d ctx)))" by simp
  show ?case
    using n m side up f t by (auto simp: ascend.simps [of d x])
qed

lemma rb_step_ok:
  assumes r: "rep h T" and s: "dord d T = as @ x # bs"
  shows "rb_step d x h = Some (Val (first_of bs))"
proof -
  have "x \<in> set (dord d T)" using s by simp
  then have "x \<in> set (inorder T)" by simp
  then obtain c l u ctx where T: "T = plug (Nd c l x u) ctx" using node_position by blast
  obtain a b where j: "Nd c l x u = join d c a x b" by (cases d) auto
  have rj: "rep h (plug (join d c a x b) ctx)" using r T j by simp
  obtain n where n: "x \<noteq> 0" "node_at x h = Val n" "rb_parent n = parent_of ctx" "child d n = ptr a" by (rule rep_node [OF rj])
  have za: "ptr a = 0 \<longleftrightarrow> a = Lf" using rj ptr_Lf unfolding rep_plug by auto
  have px: "parent_of ctx \<noteq> x" using rj n(1) unfolding rep_plug by (cases ctx) auto
  have eq: "dord d T = (cpre d ctx @ dord d b) @ x # (dord d a @ cpost d ctx)" unfolding T j dord_plug by (simp add: dord_join)
  have "distinct (dord d T)" using r by (simp add: rep_def)
  then have bs: "bs = dord d a @ cpost d ctx" using eq s
    by (metis append_Cons_eq_iff distinct.simps(2) distinct_append not_distinct_conv_prefix)
  show ?thesis
  proof (cases "a = Lf")
    case True
    then show ?thesis using n px za bs ascend_ok [OF rj, of d] by (simp add: rb_step_def)
  next
    case False
    have "rep h (plug a ((d, c, x, b) # ctx))" using rj by simp
    from descend_first [OF this False] have "descend (opp d) (ptr a) h = Some (Val (first_of (dord d a)))" .
    moreover have "first_of (dord d a @ cpost d ctx) = first_of (dord d a)"
      using False by (cases a; cases "dord d a") (auto simp: dord_join, cases d, auto)
    ultimately show ?thesis using n px za False bs by (simp add: rb_step_def)
  qed
qed

lemma rb_end_ok:
  assumes "rep h T"
  shows "rb_end (opp d) h = Some (Val (first_of (dord d T)))"
proof (cases "T = Lf")
  case True
  then show ?thesis using assms by (simp add: rb_end_def rep_def)
next
  case False
  have "root_node h = ptr T" "ptr T \<noteq> 0" using assms ptr_Lf [of T] False by (auto simp: rep_def)
  then show ?thesis using descend_first [of h T "[]" d] assms False by (simp add: rb_end_def)
qed

subsection \<open>Replacement\<close>

lemma rb_replace_ok:
  assumes r: "rep h (plug (Nd c l x u) ctx)" and y: "good y" "y \<notin> set (inorder (plug (Nd c l x u) ctx))" "nodes h y = Some ny"
  shows "\<exists>h'. rb_replace_node x y h = Val h' \<and> rep h' (plug (Nd c l y u) ctx) \<and>
    outside (insert y (set (inorder (plug (Nd c l x u) ctx)))) h h'"
proof -
  have dist: "distinct (inorder l)" "distinct (inorder u)" "distinct (caddrs ctx)" "x \<notin> set (inorder l)" "x \<notin> set (inorder u)"
    "x \<notin> set (caddrs ctx)" "set (inorder l) \<inter> set (inorder u) = {}" "set (inorder l) \<inter> set (caddrs ctx) = {}"
    "set (inorder u) \<inter> set (caddrs ctx) = {}"
    and gd: "\<forall>z\<in>set (inorder l). good z" "\<forall>z\<in>set (inorder u). good z" "\<forall>z\<in>set (caddrs ctx). good z" "x \<noteq> 0"
    and trs: "tr (nodes h) x l" "tr (nodes h) x u" "cx (nodes h) x ctx"
    using r unfolding rep_plug by (auto simp: good_def)
  have yn: "y \<noteq> x" "y \<notin> set (inorder l)" "y \<notin> set (inorder u)" "y \<notin> set (caddrs ctx)" "y \<noteq> 0" "aligned y"
    using y by (auto simp: good_def)
  have rj: "rep h (plug (join L c l x u) ctx)" using r by simp
  obtain v where v: "nodes h x = Some v" "node_at x h = Val v" "rb_parent v = parent_of ctx" "col v = c" "rb_left v = ptr l" "rb_right v = ptr u"
    by (rule rep_node [OF rj]) auto
  obtain h1 where h1: "change_child L (parent_of ctx) x y h = Val h1" "cx (nodes h1) y ctx" "outside (set (caddrs ctx)) h h1"
      "root_node h1 = (if ctx = [] then y else root_node h)"
    by (rule change_child_ok [OF trs(3) gd(4) dist(6,3) gd(3)])
  have o1: "nodes h1 z = nodes h z" if "z \<notin> set (caddrs ctx)" for z using h1(3) that by (simp add: outside_def)
  have "tr (nodes h1) x l" by (rule tr_cong [OF _ trs(1)]) (use o1 dist in blast)
  then obtain h2 where h2: "set_parent_of (ptr l) y h1 = Val h2" "tr (nodes h2) y l" "outside (set (inorder l)) h1 h2" "root_node h2 = root_node h1"
    by (rule set_parent_ok [OF _ dist(1) gd(1) yn(6)])
  have o2: "nodes h2 z = nodes h1 z" if "z \<notin> set (inorder l)" for z using h2(3) that by (simp add: outside_def)
  have "\<forall>z\<in>set (inorder u). nodes h2 z = nodes h z" using o2 o1 dist by (metis disjoint_iff)
  then have "tr (nodes h2) x u" by (rule tr_cong [OF _ trs(2)])
  then obtain h3 where h3: "set_parent_of (ptr u) y h2 = Val h3" "tr (nodes h3) y u" "outside (set (inorder u)) h2 h3" "root_node h3 = root_node h2"
    by (rule set_parent_ok [OF _ dist(2) gd(2) yn(6)])
  have o3: "nodes h3 z = nodes h2 z" if "z \<notin> set (inorder u)" for z using h3(3) that by (simp add: outside_def)
  have x3: "nodes h3 x = Some v" using o1 o2 o3 dist v(1) by simp
  define h4 where "h4 = h3\<lparr>nodes := (nodes h3)(y \<mapsto> v)\<rparr>"
  have "nodes h3 y = Some ny" using o1 o2 o3 yn y(3) by simp
  then have u4: "update y (\<lambda>_. v) h3 = Val h4" using yn(5) by (simp add: h4_def update_def node_at_def)
  have "tr (nodes h4) y l" by (rule tr_cong [OF _ h2(2)]) (use o3 dist yn in \<open>auto simp: h4_def disjoint_iff\<close>)
  moreover have "tr (nodes h4) y u" by (rule tr_cong [OF _ h3(2)]) (use yn in \<open>auto simp: h4_def\<close>)
  moreover have "\<forall>z\<in>set (caddrs ctx). nodes h3 z = nodes h1 z" using o2 o3 dist(8,9) by (metis disjoint_iff)
  then have "\<forall>z\<in>set (caddrs ctx). nodes h4 z = nodes h1 z" using yn(4) by (auto simp: h4_def)
  then have "cx (nodes h4) y ctx" by (rule cx_cong [OF _ h1(2)])
  moreover have "cell (nodes h4) L y (parent_of ctx) c (ptr l) (ptr u)" using v by (auto simp: cell_def h4_def)
  ultimately have "rep h4 (plug (Nd c l y u) ctx)"
    using r yn(1-4) y(1) h1(4) h2(4) h3(4) unfolding rep_plug by (auto simp: h4_def)
  moreover have "rb_replace_node x y h = Val h4"
    using v h1(1) h2(1) h3(1) u4 x3 gd(4) by (simp add: rb_replace_node_def node_at_def)
  moreover have "outside (insert y (set (inorder (plug (Nd c l x u) ctx)))) h h4"
    using o1 o2 o3 by (auto simp: outside_def h4_def)
  ultimately show ?thesis by blast
qed

subsection \<open>Insertion at a position\<close>

lemma rb_insert_at:
  assumes r: "rep h (plug Lf ctx)" and t: "rbt (plug Lf ctx)"
    and x: "nodes h x = Some n" "good x" "x \<notin> set (caddrs ctx)" and d: "\<forall>f\<in>set (take 1 ctx). fst f = d"
  shows "\<exists>h1 h2 T. rb_link_node x (parent_of ctx) d h = Val h1 \<and> rb_insert_color x h1 = Some (Val h2) \<and> rep h2 T \<and> rbt T \<and>
    inorder T = cpre R ctx @ x # cpost R ctx \<and> outside (insert x (set (caddrs ctx))) h h2"
proof -
  obtain h1 where h1: "rb_link_node x (parent_of ctx) d h = Val h1" "rep h1 (plug (Nd Red Lf x Lf) ctx)"
    "outside (insert x (set (caddrs ctx))) h h1"
    using rb_link_ok [OF r x d] by blast
  have "ins_ok (Nd Red Lf x Lf) ctx" using t by (simp add: ins_ok_def rbt_plug)
  then obtain h2 T where h2: "rb_insert_color x h1 = Some (Val h2)" "rep h2 T" "rbt T"
    "inorder T = inorder (plug (Nd Red Lf x Lf) ctx)" "outside (set (inorder T)) h1 h2"
    using rb_insert_color_ok [OF h1(2)] by auto
  have "inorder T = cpre R ctx @ x # cpost R ctx" using h2(4) dord_plug [of R "Nd Red Lf x Lf" ctx] by simp
  moreover have "set (inorder T) = insert x (set (caddrs ctx))" using h2(4) by simp
  then have "outside (insert x (set (caddrs ctx))) h h2" using outside_trans [OF h1(3)] h2(5) by simp
  ultimately show ?thesis using h1(1) h2(1-3) by blast
qed

subsection \<open>Allocated nodes\<close>

text \<open>No operation changes which addresses have a node.\<close>

definition allocated :: "rb_heap \<Rightarrow> u64 set" where
  "allocated h = dom (nodes h)"

lemma allocated_root [simp]: "allocated (h\<lparr>root_node := a\<rparr>) = allocated h"
  by (simp add: allocated_def)

lemma update_dom: "update a f h = Val h' \<Longrightarrow> allocated h' = allocated h"
  by (auto simp: allocated_def update_def node_at_def split: if_splits option.splits)

lemma set_parent_dom: "set_parent_of a p h = Val h' \<Longrightarrow> allocated h' = allocated h"
  by (auto simp: set_parent_of_def split: if_splits dest: update_dom)

lemma change_child_dom: "change_child d p a b h = Val h' \<Longrightarrow> allocated h' = allocated h"
  by (auto simp: change_child_def split: if_splits dest: update_dom)

lemmas link_dom = update_dom set_parent_dom change_child_dom

lemma rb_link_dom: "rb_link_node x p d h = Val h' \<Longrightarrow> allocated h' = allocated h"
proof -
  assume "rb_link_node x p d h = Val h'"
  then obtain h1 where "update x (\<lambda>n. \<lparr>rb_parent_color = p, rb_right = 0, rb_left = 0\<rparr>) h = Val h1"
    "(if p \<noteq> 0 then update p (set_child d x) h1 else Val (h1\<lparr>root_node := x\<rparr>)) = Val h'"
    unfolding rb_link_node_def bind_outcome_Val_iff by blast
  then show ?thesis using update_dom [of x _ h h1] update_dom [of p "set_child d x" h1 h'] by (cases "p = 0") auto
qed

lemma rb_rotate_dom: "rb_rotate d x h = Val h' \<Longrightarrow> allocated h' = allocated h"
    unfolding rb_rotate_def Let_def bind_outcome_Val_iff
  by (elim exE conjE) (drule update_dom set_parent_dom change_child_dom, simp)+

lemma insert_rotate_dom: "insert_rotate d x p g h = Val (h', y) \<Longrightarrow> allocated h' = allocated h"
  unfolding insert_rotate_def by (auto split: if_splits dest!: update_dom rb_rotate_dom)

lemma insert_step_dom:
  "insert_step x h = Val (Inl (h', y)) \<Longrightarrow> allocated h' = allocated h"
  "insert_step x h = Val (Inr h') \<Longrightarrow> allocated h' = allocated h"
  by (auto simp: insert_step_def Let_def split: if_split_asm dest!: update_dom insert_rotate_dom)

lemma insert_loop_dom: "insert_loop x h = Some r \<Longrightarrow> \<forall>h'. r = Val h' \<longrightarrow> allocated h' = allocated h"
  by (rule insert_loop.raw_induct [where P = "\<lambda>x h r. \<forall>h'. r = Val h' \<longrightarrow> allocated h' = allocated h"])
    (auto split: outcome.splits sum.splits prod.splits dest!: insert_step_dom)

lemma rb_insert_color_dom: "rb_insert_color x h = Some (Val h') \<Longrightarrow> allocated h' = allocated h"
  unfolding rb_insert_color_def by (auto dest!: insert_loop_dom update_dom)

lemma erase_sibling_dom: "erase_sibling d p h = Val (h', x) \<Longrightarrow> allocated h' = allocated h"
  unfolding erase_sibling_def Let_def by (auto split: if_splits dest!: update_dom rb_rotate_dom)

lemma erase_rotate_dom: "erase_rotate d p x h = Val h' \<Longrightarrow> allocated h' = allocated h"
  unfolding erase_rotate_def by (auto split: if_splits dest!: update_dom rb_rotate_dom)

lemma erase_step_dom:
  "erase_step x p h = Val (Inl (h', y)) \<Longrightarrow> allocated h' = allocated h"
  "erase_step x p h = Val (Inr (h', z)) \<Longrightarrow> allocated h' = allocated h"
  unfolding erase_step_def Let_def by (auto split: if_splits dest!: update_dom erase_sibling_dom erase_rotate_dom)+

lemma erase_loop_dom: "erase_loop x p h = Some r \<Longrightarrow> \<forall>h' z. r = Val (h', z) \<longrightarrow> allocated h' = allocated h"
  by (rule erase_loop.raw_induct [where P = "\<lambda>x p h r. \<forall>h' z. r = Val (h', z) \<longrightarrow> allocated h' = allocated h"])
    (auto split: outcome.splits sum.splits prod.splits dest!: erase_step_dom)

lemma rb_erase_color_dom: "rb_erase_color x p h = Some (Val h') \<Longrightarrow> allocated h' = allocated h"
  unfolding rb_erase_color_def by (auto split: if_splits dest!: erase_loop_dom update_dom)

lemma erase_one_dom: "erase_one x c h = Val (h', r) \<Longrightarrow> allocated h' = allocated h"
  unfolding erase_one_def Let_def by (auto dest!: link_dom)

lemma erase_two_dom: "erase_two x s h = Val (h', r) \<Longrightarrow> allocated h' = allocated h"
  unfolding erase_two_def Let_def by (auto split: if_splits dest!: link_dom)

lemma erase_rest_dom:
  "erase_rest r = Some (Val h') \<Longrightarrow> (\<And>h1 s. r = Val (h1, s) \<Longrightarrow> allocated h1 = allocated h) \<Longrightarrow> allocated h' = allocated h"
  by (cases r) (auto simp: erase_rest_def split: if_splits dest!: rb_erase_color_dom)

lemma rb_erase_dom: "rb_erase x h = Some (Val h') \<Longrightarrow> allocated h' = allocated h"
  unfolding rb_erase_def
  by (auto simp: bind_eq_Some_conv split: outcome.splits if_splits dest!: erase_one_dom erase_two_dom elim!: erase_rest_dom)

end
