(* ===== verification/Timerqueue.thy ===== *)
theory Timerqueue
  imports Rbtree_Iter
begin

text \<open>
  The queue of timers ordered by expiry time: \<open>lib/timerqueue.c\<close> and \<open>include/linux/timerqueue.h\<close>, on the
  red-black trees of theory \<open>Rbtree\<close>.

  A \<open>timerqueue_node\<close> begins with its \<open>rb_node\<close>, so both have one address.  The state is one head with its
  tree and the cached earliest timer, the expiry times of all timers, and whether a \<open>WARN_ON_ONCE\<close> has fired.
\<close>

subsection \<open>The queue\<close>

record timerqueue =
  head :: rb_heap
  expires :: "u64 \<Rightarrow> u64"
  head_next :: u64
  warned :: bool

text \<open>Calls that may not return, as in theory \<open>Rbtree\<close>, in sequence.\<close>

definition bind_run :: "'a outcome option \<Rightarrow> ('a \<Rightarrow> 'b outcome option) \<Rightarrow> 'b outcome option" where
  "bind_run r f = Option.bind r (\<lambda>v. case v of Val a \<Rightarrow> f a | Err e \<Rightarrow> Some (Err e) | Trap \<Rightarrow> Some Trap)"

lemma bind_run_Val [simp]: "bind_run (Some (Val a)) f = f a"
  by (simp add: bind_run_def)

text \<open>\<open>a->expires.tv64\<close>, a signed number.\<close>

definition expires_at :: "u64 \<Rightarrow> timerqueue \<Rightarrow> int outcome" where
  "expires_at a q = bind_outcome (node_at a (head q)) (\<lambda>n. Val (sint (expires q a)))"

text \<open>The search for the link: \<open>p\<close> is the pointer in the link, \<open>d\<close> the side of \<open>parent\<close> it is on.\<close>

definition add_side :: "u64 \<Rightarrow> timerqueue \<Rightarrow> u64 \<Rightarrow> (side \<times> u64) outcome" where
  "add_side node q p =
    bind_outcome (node_at p (head q)) (\<lambda>n.
    bind_outcome (expires_at node q) (\<lambda>e.
    bind_outcome (expires_at p q) (\<lambda>f.
    Val (if e < f then (L, rb_left n) else (R, rb_right n)))))"

partial_function (option) add_search :: "u64 \<Rightarrow> timerqueue \<Rightarrow> u64 \<Rightarrow> u64 \<Rightarrow> side \<Rightarrow> (u64 \<times> side) outcome option" where
  "add_search node q p parent d =
    (if p = 0 then Some (Val (parent, d))
     else (case add_side node q p of
             Val (d', p') \<Rightarrow> add_search node q p' p d'
           | Err e \<Rightarrow> Some (Err e)
           | Trap \<Rightarrow> Some Trap))"

definition timerqueue_add :: "u64 \<Rightarrow> timerqueue \<Rightarrow> timerqueue outcome option" where
  "timerqueue_add node q =
    bind_run (Some (node_at node (head q))) (\<lambda>n.
    let q = (if \<not> RB_EMPTY_NODE node n then q\<lparr>warned := True\<rparr> else q) in
    bind_run (add_search node q (root_node (head q)) 0 L) (\<lambda>(parent, d).
    bind_run (Some (rb_link_node node parent d (head q))) (\<lambda>h1.
    bind_run (rb_insert_color node h1) (\<lambda>h2.
    let q = q\<lparr>head := h2\<rparr> in
    if head_next q = 0 then Some (Val (q\<lparr>head_next := node\<rparr>))
    else
      bind_run (Some (expires_at node q)) (\<lambda>e.
      bind_run (Some (expires_at (head_next q) q)) (\<lambda>f.
      Some (Val (if e < f then q\<lparr>head_next := node\<rparr> else q))))))))"

definition timerqueue_del :: "u64 \<Rightarrow> timerqueue \<Rightarrow> timerqueue outcome option" where
  "timerqueue_del node q =
    bind_run (Some (node_at node (head q))) (\<lambda>n.
    let q = (if RB_EMPTY_NODE node n then q\<lparr>warned := True\<rparr> else q) in
    bind_run
      (if head_next q = node
       then bind_run (rb_step R node (head q)) (\<lambda>rbn. Some (Val (q\<lparr>head_next := rbn\<rparr>)))
       else Some (Val q)) (\<lambda>q.
    bind_run (rb_erase node (head q)) (\<lambda>h1.
    bind_run (Some (RB_CLEAR_NODE node h1)) (\<lambda>h2.
    Some (Val (q\<lparr>head := h2\<rparr>))))))"

definition timerqueue_iterate_next :: "u64 \<Rightarrow> timerqueue \<Rightarrow> u64 outcome option" where
  "timerqueue_iterate_next node q = (if node = 0 then Some (Val 0) else rb_step R node (head q))"

definition timerqueue_getnext :: "timerqueue \<Rightarrow> u64" where
  "timerqueue_getnext q = head_next q"

definition timerqueue_init :: "u64 \<Rightarrow> timerqueue \<Rightarrow> timerqueue outcome" where
  "timerqueue_init node q = bind_outcome (rb_init_node node (head q)) (\<lambda>h. Val (q\<lparr>head := h\<rparr>))"

definition timerqueue_init_head :: "timerqueue \<Rightarrow> timerqueue" where
  "timerqueue_init_head q = q\<lparr>head := (head q)\<lparr>root_node := 0\<rparr>, head_next := 0\<rparr>"

subsection \<open>What it promises\<close>

text \<open>A list of timers in the order in which they expire; a new timer goes behind those with the same time.\<close>

abbreviation time :: "timerqueue \<Rightarrow> u64 \<Rightarrow> int" where
  "time q a \<equiv> sint (expires q a)"

definition enqueue :: "(u64 \<Rightarrow> int) \<Rightarrow> u64 \<Rightarrow> u64 list \<Rightarrow> u64 list" where
  "enqueue e x xs = takeWhile (\<lambda>y. e y \<le> e x) xs @ x # dropWhile (\<lambda>y. e y \<le> e x) xs"

definition holds :: "rb_heap \<Rightarrow> u64 list \<Rightarrow> bool" where
  "holds h xs \<longleftrightarrow> (\<exists>T. rep h T \<and> rbt T \<and> inorder T = xs)"

definition tq_ok :: "timerqueue \<Rightarrow> u64 list \<Rightarrow> bool" where
  "tq_ok q xs \<longleftrightarrow> holds (head q) xs \<and> sorted (map (time q) xs) \<and> head_next q = first_of xs"

definition idle :: "timerqueue \<Rightarrow> u64 \<Rightarrow> bool" where
  "idle q x \<longleftrightarrow> good x \<and> (\<exists>n. nodes (head q) x = Some n \<and> RB_EMPTY_NODE x n)"

lemma set_enqueue [simp]: "set (enqueue e x xs) = insert x (set xs)"
  unfolding enqueue_def using takeWhile_dropWhile_id [of "\<lambda>y. e y \<le> e x" xs]
  by (metis Un_insert_right list.simps(15) set_append)

lemma sorted_enqueue: "sorted (map e xs) \<Longrightarrow> sorted (map e (enqueue e x xs))"
proof (induction xs)
  case (Cons y xs)
  show ?case
  proof (cases "e y \<le> e x")
    case True
    then have "enqueue e x (y # xs) = y # enqueue e x xs" by (simp add: enqueue_def)
    then show ?thesis using Cons True by simp
  next
    case False
    then have "enqueue e x (y # xs) = x # y # xs" by (simp add: enqueue_def)
    then show ?thesis using Cons.prems False by fastforce
  qed
qed (simp add: enqueue_def)

lemma first_enqueue: "first_of (enqueue e x xs) = (if xs = [] \<or> e x < e (first_of xs) then x else first_of xs)"
  by (cases xs) (auto simp: enqueue_def)

subsection \<open>The operations\<close>

lemma takeWhile_sorted:
  "sorted (map e (ls @ y # rs)) \<Longrightarrow> takeWhile (\<lambda>z. e z \<le> (k :: int)) (ls @ y # rs) =
    (if k < e y then takeWhile (\<lambda>z. e z \<le> k) ls else ls @ y # takeWhile (\<lambda>z. e z \<le> k) rs)"
  by (induction ls) auto

lemma add_search_ok:
  assumes "rep (head q) (plug t ctx)" "sorted (map (time q) (inorder t))" "nodes (head q) x = Some n" "x \<noteq> 0"
    "\<forall>f\<in>set (take 1 ctx). fst f = d"
  shows "\<exists>ctx' d'. add_search x q (ptr t) (parent_of ctx) d = Some (Val (parent_of ctx', d')) \<and> plug t ctx = plug Lf ctx' \<and>
    (\<forall>f\<in>set (take 1 ctx'). fst f = d') \<and> cpre R ctx' = cpre R ctx @ takeWhile (\<lambda>y. time q y \<le> time q x) (inorder t)"
  using assms
proof (induction t arbitrary: ctx d)
  case Lf
  then show ?case by (auto simp: add_search.simps)
next
  case (Nd c l y r)
  obtain m where m: "nodes (head q) y = Some m" "y \<noteq> 0" "rb_left m = ptr l" "rb_right m = ptr r"
    by (rule rep_node [of "head q" L c l y r ctx]) (use Nd.prems(1) in auto)
  have step: "add_search x q y (parent_of ctx) d =
      (if time q x < time q y then add_search x q (ptr l) y L else add_search x q (ptr r) y R)"
    using m Nd.prems(3,4) by (subst add_search.simps) (simp add: add_side_def expires_at_def node_at_def)
  have tw: "takeWhile (\<lambda>z. time q z \<le> time q x) (inorder l @ y # inorder r) =
      (if time q x < time q y then takeWhile (\<lambda>z. time q z \<le> time q x) (inorder l)
       else inorder l @ y # takeWhile (\<lambda>z. time q z \<le> time q x) (inorder r))"
    by (rule takeWhile_sorted) (use Nd.prems(2) in simp)
  show ?case
  proof (cases "time q x < time q y")
    case True
    then show ?thesis using Nd.IH(1) [of "(L, c, y, r) # ctx" L] Nd.prems step tw by (simp add: sorted_append)
  next
    case False
    then show ?thesis using Nd.IH(2) [of "(R, c, y, l) # ctx" R] Nd.prems step tw by (simp add: sorted_append)
  qed
qed

lemma holds_nodes: "holds h xs \<Longrightarrow> x \<in> set xs \<Longrightarrow> \<exists>n. nodes h x = Some n \<and> good x"
proof -
  assume "holds h xs" "x \<in> set xs"
  then obtain T where T: "rep h T" "x \<in> set (inorder T)" by (auto simp: holds_def)
  then obtain c l r ctx where "T = plug (join L c l x r) ctx" using node_position [of x T] by auto
  then show ?thesis using T by (metis rep_def rep_node)
qed

lemma holds_distinct: "holds h xs \<Longrightarrow> distinct xs"
  by (auto simp: holds_def rep_def)

lemma holds_cong: "holds h xs \<Longrightarrow> \<forall>x\<in>set xs. nodes h' x = nodes h x \<Longrightarrow> root_node h' = root_node h \<Longrightarrow> holds h' xs"
  unfolding holds_def rep_def using tr_cong [of _ "nodes h'" "nodes h" 0] by metis

lemma timerqueue_add_ok:
  assumes q: "tq_ok q xs" and x: "idle q x" "x \<notin> set xs"
  shows "\<exists>q'. timerqueue_add x q = Some (Val q') \<and> tq_ok q' (enqueue (time q) x xs) \<and> expires q' = expires q \<and>
    warned q' = warned q \<and> outside (insert x (set xs)) (head q) (head q')"
proof -
  obtain T where T: "rep (head q) T" "rbt T" "inorder T = xs" and s: "sorted (map (time q) xs)" and nx: "head_next q = first_of xs"
    using q by (auto simp: tq_ok_def holds_def)
  obtain n where n: "nodes (head q) x = Some n" "good x" "RB_EMPTY_NODE x n" "x \<noteq> 0" using x by (auto simp: idle_def good_def)
  obtain ctx d where c: "add_search x q (root_node (head q)) 0 L = Some (Val (parent_of ctx, d))" "T = plug Lf ctx"
      "\<forall>f\<in>set (take 1 ctx). fst f = d" "cpre R ctx = takeWhile (\<lambda>y. time q y \<le> time q x) xs"
    using add_search_ok [of q T "[]" x n L] T s n by (auto simp: rep_def)
  have xs: "xs = cpre R ctx @ cpost R ctx" "set xs = set (caddrs ctx)"
    using T(3) c(2) dord_plug [of R Lf ctx] set_plug [of Lf ctx] by simp_all
  then have enq: "cpre R ctx @ x # cpost R ctx = enqueue (time q) x xs"
    unfolding enqueue_def c(4) [symmetric] by (metis append_eq_append_conv c(4) takeWhile_dropWhile_id)
  obtain h1 h2 T' where h: "rb_link_node x (parent_of ctx) d (head q) = Val h1" "rb_insert_color x h1 = Some (Val h2)" "rep h2 T'" "rbt T'"
      "inorder T' = enqueue (time q) x xs" "outside (insert x (set xs)) (head q) h2"
    using rb_insert_at [OF T(1,2) [unfolded c(2)] n(1,2) x(2) [unfolded xs(2)] c(3)] unfolding enq xs(2) by blast
  let ?q = "q\<lparr>head := h2, head_next := first_of (enqueue (time q) x xs)\<rparr>"
  have hl: "holds h2 (enqueue (time q) x xs)" using h(3-5) by (auto simp: holds_def)
  have e: "expires_at y (q\<lparr>head := h2\<rparr>) = Val (time q y)" if "y \<in> insert x (set xs)" for y
    using holds_nodes [OF hl, of y] that by (auto simp: expires_at_def node_at_def good_def)
  have nz: "first_of xs = 0 \<longleftrightarrow> xs = []" using holds_nodes [of "head q" xs] q by (cases xs) (auto simp: tq_ok_def good_def)
  have "timerqueue_add x q = Some (Val ?q)"
  proof (cases "xs = []")
    case True
    then show ?thesis using n c(1) h(1,2) nx by (simp add: timerqueue_add_def node_at_def first_enqueue)
  next
    case False
    then have "first_of xs \<in> set xs" by (cases xs) auto
    then show ?thesis using False n c(1) h(1,2) nx nz e by (simp add: timerqueue_add_def node_at_def first_enqueue)
  qed
  moreover have "tq_ok ?q (enqueue (time q) x xs)" using hl sorted_enqueue [OF s] by (simp add: tq_ok_def)
  ultimately show ?thesis using h(6) by auto
qed

lemma holds_step: "holds h (as @ x # bs) \<Longrightarrow> rb_step R x h = Some (Val (first_of bs))"
  using rb_step_ok [of h _ R as x bs] by (auto simp: holds_def)

lemma timerqueue_del_ok:
  assumes q: "tq_ok q xs" and x: "x \<in> set xs"
  shows "\<exists>q'. timerqueue_del x q = Some (Val q') \<and> tq_ok q' (remove1 x xs) \<and> expires q' = expires q \<and> warned q' = warned q \<and>
    idle q' x \<and> outside (set xs) (head q) (head q')"
proof -
  have hq: "holds (head q) xs" and s: "sorted (map (time q) xs)" and nx: "head_next q = first_of xs" using q by (auto simp: tq_ok_def)
  obtain n where n: "nodes (head q) x = Some n" "good x" using holds_nodes [OF hq x] by blast
  have ne: "\<not> RB_EMPTY_NODE x n"
  proof -
    obtain T where T: "rep (head q) T" "x \<in> set (inorder T)" using hq x by (auto simp: holds_def)
    then obtain c l r ctx where t: "rep (head q) (plug (join L c l x r) ctx)" using node_position [of x T] by auto
    then have "rb_parent n = parent_of ctx" using n(1) by (metis option.inject rep_node)
    moreover have "parent_of ctx \<noteq> x" using t n(2) unfolding rep_plug by (cases ctx) (auto simp: good_def)
    ultimately show ?thesis by (simp add: RB_EMPTY_NODE_def)
  qed
  obtain h1 where h1: "rb_erase x (head q) = Some (Val h1)" "holds h1 (remove1 x xs)" "outside (set xs) (head q) h1"
    using hq x rb_erase_ok [of "head q" _ x] unfolding holds_def by metis
  have "x \<in> allocated h1" using rb_erase_dom [OF h1(1)] n(1) by (auto simp: allocated_def)
  then obtain m where m: "nodes h1 x = Some m" by (auto simp: allocated_def)
  define h2 where "h2 = h1\<lparr>nodes := (nodes h1)(x \<mapsto> rb_set_parent x m)\<rparr>"
  have c: "RB_CLEAR_NODE x h1 = Val h2" using n(2) update_Val [OF m] by (simp add: RB_CLEAR_NODE_def good_def h2_def)
  have "x \<notin> set (remove1 x xs)" using holds_distinct [OF hq] by simp
  then have h2: "holds h2 (remove1 x xs)" by (intro holds_cong [OF h1(2)]) (auto simp: h2_def)
  let ?q = "q\<lparr>head := h2, head_next := first_of (remove1 x xs)\<rparr>"
  have "timerqueue_del x q = Some (Val ?q)"
  proof (cases xs)
    case (Cons y ys)
    show ?thesis
    proof (cases "y = x")
      case True
      then show ?thesis using holds_step [of "head q" "[]" x ys] hq Cons nx n ne h1(1) c
        by (simp add: timerqueue_del_def node_at_def good_def)
    next
      case False
      then show ?thesis using Cons nx n ne h1(1) c by (simp add: timerqueue_del_def node_at_def good_def)
    qed
  qed (use x in simp)
  moreover have "tq_ok ?q (remove1 x xs)" using h2 s by (simp add: tq_ok_def sorted_map_remove1)
  moreover have "idle ?q x" using n(2) by (simp add: idle_def h2_def RB_EMPTY_NODE_def good_def)
  moreover have "outside (set xs) (head q) (head ?q)" using h1(3) x by (auto simp: outside_def h2_def)
  ultimately show ?thesis by auto
qed

lemma timerqueue_init_ok:
  assumes q: "tq_ok q xs" and x: "good x" "x \<notin> set xs" and i: "timerqueue_init x q = Val q'"
  shows "tq_ok q' xs \<and> idle q' x \<and> expires q' = expires q \<and> warned q' = warned q \<and> outside {x} (head q) (head q')"
proof -
  obtain n where "node_at x (head q) = Val n"
    using i unfolding timerqueue_init_def rb_init_node_def update_def bind_outcome_Val_iff by blast
  then have n: "nodes (head q) x = Some n" "x \<noteq> 0" by (simp_all add: node_at_def split: if_splits option.splits)
  let ?n = "rb_set_parent x \<lparr>rb_parent_color = 0, rb_right = 0, rb_left = 0\<rparr>"
  have q': "q' = q\<lparr>head := (head q)\<lparr>nodes := (nodes (head q))(x \<mapsto> ?n)\<rparr>\<rparr>"
    using i n by (simp add: timerqueue_init_def rb_init_node_def RB_CLEAR_NODE_def update_Val [OF n]) (simp add: update_def node_at_def)
  have "holds (head q') xs" unfolding q' by (rule holds_cong [of "head q"]) (use q x(2) in \<open>auto simp: tq_ok_def\<close>)
  then show ?thesis using q x(1) by (auto simp: tq_ok_def q' idle_def outside_def RB_EMPTY_NODE_def good_def)
qed

text \<open>
  The use of a queue: \<open>uses q xs I\<close> says that the calls made so far lead to the state \<open>q\<close>, that the timers in
  the queue are \<open>xs\<close> in this order, and that \<open>I\<close> are initialized timers that are not in the queue.  A timer is
  initialized before its first use, its time changes only while it is not in the queue.
\<close>

inductive uses :: "timerqueue \<Rightarrow> u64 list \<Rightarrow> u64 set \<Rightarrow> bool" where
  start: "\<not> warned q \<Longrightarrow> uses (timerqueue_init_head q) [] {}"
| init: "uses q xs I \<Longrightarrow> good x \<Longrightarrow> x \<notin> set xs \<Longrightarrow> timerqueue_init x q = Val q' \<Longrightarrow> uses q' xs (insert x I)"
| set_time: "uses q xs I \<Longrightarrow> x \<notin> set xs \<Longrightarrow> uses (q\<lparr>expires := (expires q)(x := e)\<rparr>) xs I"
| add: "uses q xs I \<Longrightarrow> x \<in> I \<Longrightarrow> timerqueue_add x q = Some (Val q') \<Longrightarrow> uses q' (enqueue (time q) x xs) (I - {x})"
| del: "uses q xs I \<Longrightarrow> x \<in> set xs \<Longrightarrow> timerqueue_del x q = Some (Val q') \<Longrightarrow> uses q' (remove1 x xs) (insert x I)"

definition use_ok :: "timerqueue \<Rightarrow> u64 list \<Rightarrow> u64 set \<Rightarrow> bool" where
  "use_ok q xs I \<longleftrightarrow> tq_ok q xs \<and> \<not> warned q \<and> I \<inter> set xs = {} \<and> (\<forall>x\<in>I. idle q x)"

lemma idle_outside: "idle q x \<Longrightarrow> outside S (head q) (head q') \<Longrightarrow> x \<notin> S \<Longrightarrow> idle q' x"
  by (simp add: idle_def outside_def)

lemma uses_ok: "uses q xs I \<Longrightarrow> use_ok q xs I"
proof (induction rule: uses.induct)
  case (start q)
  have "rep ((head q)\<lparr>root_node := 0\<rparr>) Lf" "rbt Lf" by (simp_all add: rep_def rbt_def)
  then have "holds ((head q)\<lparr>root_node := 0\<rparr>) []" unfolding holds_def by (metis inorder.simps(1))
  then show ?case using start by (simp add: use_ok_def tq_ok_def timerqueue_init_head_def)
next
  case (init q xs I x q')
  then have "tq_ok q' xs \<and> idle q' x \<and> expires q' = expires q \<and> warned q' = warned q \<and> outside {x} (head q) (head q')"
    by (intro timerqueue_init_ok) (auto simp: use_ok_def)
  then show ?case using init idle_outside [of q _ "{x}" q'] by (auto simp: use_ok_def)
next
  case (set_time q xs I x e)
  then have "map (time (q\<lparr>expires := (expires q)(x := e)\<rparr>)) xs = map (time q) xs" by auto
  then have "sorted (map (time (q\<lparr>expires := (expires q)(x := e)\<rparr>)) xs)" using set_time.IH unfolding use_ok_def tq_ok_def by metis
  then show ?case using set_time.IH by (simp add: use_ok_def tq_ok_def idle_def)
next
  case (add q xs I x q')
  then have "tq_ok q xs" "idle q x" "x \<notin> set xs" by (auto simp: use_ok_def)
  then obtain q2 where "timerqueue_add x q = Some (Val q2)" "tq_ok q2 (enqueue (time q) x xs)" "warned q2 = warned q"
    "outside (insert x (set xs)) (head q) (head q2)" using timerqueue_add_ok by blast
  then show ?case using add idle_outside [of q _ "insert x (set xs)" q'] by (auto simp: use_ok_def)
next
  case (del q xs I x q')
  then have "tq_ok q xs" "x \<in> set xs" by (auto simp: use_ok_def)
  then obtain q2 where "timerqueue_del x q = Some (Val q2)" "tq_ok q2 (remove1 x xs)" "warned q2 = warned q"
    "idle q2 x" "outside (set xs) (head q) (head q2)" using timerqueue_del_ok by blast
  moreover have "distinct xs" using \<open>tq_ok q xs\<close> holds_distinct by (auto simp: tq_ok_def)
  ultimately show ?case using del idle_outside [of q _ "set xs" q'] by (auto simp: use_ok_def)
qed

lemma iterate_ok:
  assumes "tq_ok q xs" "i < length xs"
  shows "timerqueue_iterate_next (xs ! i) q = Some (Val (first_of (drop (Suc i) xs)))"
proof -
  have "holds (head q) xs" using assms by (simp add: tq_ok_def)
  then have "holds (head q) (take i xs @ xs ! i # drop (Suc i) xs)" by (subst (asm) id_take_nth_drop [OF assms(2)])
  then have "rb_step R (xs ! i) (head q) = Some (Val (first_of (drop (Suc i) xs)))" by (rule holds_step)
  moreover have "xs ! i \<noteq> 0" using assms holds_nodes [of "head q" xs "xs ! i"] by (auto simp: tq_ok_def good_def)
  ultimately show ?thesis by (simp add: timerqueue_iterate_next_def)
qed

end
