(* ===== verification/Rbtree_Correct.thy ===== *)
theory Rbtree_Correct
  imports Timerqueue
begin

text \<open>
  The correctness of the red-black trees of \<open>lib/rbtree.c\<close> and of the timer queue built on them.
\<close>

subsection \<open>Insertion\<close>

text \<open>The node \<open>p\<close> of the tree has no child on side \<open>d\<close>; in an empty tree the link is the root pointer.\<close>

definition free_link :: "rb_heap \<Rightarrow> tree \<Rightarrow> u64 \<Rightarrow> side \<Rightarrow> bool" where
  "free_link h T p d \<longleftrightarrow>
    (if T = Lf then p = 0 else p \<in> set (inorder T) \<and> (case nodes h p of None \<Rightarrow> False | Some n \<Rightarrow> child d n = 0))"

fun insert_after :: "u64 \<Rightarrow> u64 \<Rightarrow> u64 list \<Rightarrow> u64 list" where
  "insert_after p x [] = [x]"
| "insert_after p x (y # ys) = (if y = p then y # x # ys else y # insert_after p x ys)"

lemma insert_after_split: "p \<notin> set as \<Longrightarrow> insert_after p x (as @ p # bs) = as @ p # x # bs"
  by (induction as) auto

lemma free_link_position:
  assumes r: "rep h T" and f: "free_link h T p d"
  obtains ctx where "T = plug Lf ctx" "p = parent_of ctx" "\<forall>f\<in>set (take 1 ctx). fst f = d"
    "insert_after p x (dord d T) = cpre d ctx @ x # cpost d ctx"
proof (cases "T = Lf")
  case True
  then show ?thesis using that [of "[]"] f by (simp add: free_link_def)
next
  case False
  then have "p \<in> set (inorder T)" using f by (simp add: free_link_def)
  then obtain c l u ctx where "T = plug (Nd c l p u) ctx" using node_position by blast
  moreover obtain a b where "Nd c l p u = join d c a p b" by (cases d) auto
  ultimately have T: "T = plug (join d c a p b) ctx" by simp
  obtain n where "nodes h p = Some n" "child d n = ptr a" by (rule rep_node [OF r [unfolded T]])
  moreover have "\<forall>z\<in>set (inorder a). good z" using r unfolding T rep_plug by simp
  ultimately have "a = Lf" using f False ptr_Lf [of a] by (simp add: free_link_def)
  then have T': "T = plug Lf ((d, c, p, b) # ctx)" using T by simp
  have eq: "dord d T = (cpre d ctx @ dord d b) @ p # cpost d ctx" unfolding T' dord_plug by simp
  moreover have "distinct (dord d T)" using r by (simp add: rep_def)
  ultimately have "p \<notin> set (cpre d ctx @ dord d b)" by auto
  then show ?thesis using that [OF T'] unfolding eq by (simp add: insert_after_split [of p "cpre d ctx @ dord d b", simplified])
qed

lemma cpre_side: "cpre R ctx = rev (cpost L ctx)" "cpost R ctx = rev (cpre L ctx)"
proof (induction ctx)
  case (Cons f ctx)
  obtain s c x u where "f = (s, c, x, u)" by (cases f)
  then show "cpre R (f # ctx) = rev (cpost L (f # ctx))" "cpost R (f # ctx) = rev (cpre L (f # ctx))"
    using Cons by (cases s; simp)+
qed simp_all

lemma dord_eq: "inorder T = cpre R ctx @ x # cpost R ctx \<Longrightarrow> dord d T = cpre d ctx @ x # cpost d ctx"
  by (cases d) (simp_all add: cpre_side)

text \<open>
  C4. Insertion. In a red-black tree on the heap, linking a new node at a free link and calling
  \<open>rb_insert_color\<close> returns without touching memory other than the node and the tree.  The result
  is a red-black tree with the node directly behind its parent in the order (before it for a left link), all other nodes in
  their order, and it is balanced: its height is at most twice the logarithm of its size.
\<close>

theorem rb_insert_correct:
  assumes "rep h T" "rbt T" "free_link h T p d"
    and "nodes h x = Some n" "good x" "x \<notin> set (inorder T)"
  shows "\<exists>h1 h2 T'. rb_link_node x p d h = Val h1 \<and> rb_insert_color x h1 = Some (Val h2) \<and>
    rep h2 T' \<and> rbt T' \<and> dord d T' = insert_after p x (dord d T) \<and>
    2 ^ height T' \<le> (length (inorder T) + 2)\<^sup>2 \<and> outside (insert x (set (inorder T))) h h2"
proof -
  obtain ctx where c: "T = plug Lf ctx" "p = parent_of ctx" "\<forall>f\<in>set (take 1 ctx). fst f = d"
    "insert_after p x (dord d T) = cpre d ctx @ x # cpost d ctx" by (rule free_link_position [OF assms(1,3)])
  have s: "set (inorder T) = set (caddrs ctx)" using c(1) by simp
  obtain h1 h2 T' where h: "rb_link_node x p d h = Val h1" "rb_insert_color x h1 = Some (Val h2)" "rep h2 T'" "rbt T'"
    "inorder T' = cpre R ctx @ x # cpost R ctx" "outside (insert x (set (inorder T))) h h2"
    using rb_insert_at [OF assms(1,2) [unfolded c(1)] assms(4,5) assms(6) [unfolded s] c(3)] unfolding s c(2) by blast
  have "length (inorder T) = length (cpre R ctx @ cpost R ctx)" using c(1) dord_plug [of R Lf ctx] by simp
  then have "2 ^ height T' \<le> (length (inorder T) + 2)\<^sup>2" using rbt_height [OF h(4)] h(5) by simp
  then show ?thesis using h(1-4,6) dord_eq [OF h(5)] c(4) by auto
qed

text \<open>A heap with three nodes in a tree and a fourth one.\<close>

definition tree3 :: tree where
  "tree3 = Nd Black (Nd Red Lf 16 Lf) 8 (Nd Red Lf 24 Lf)"

definition heap3 :: rb_heap where
  "heap3 = \<lparr>nodes = [8 \<mapsto> \<lparr>rb_parent_color = 1, rb_right = 24, rb_left = 16\<rparr>,
      16 \<mapsto> \<lparr>rb_parent_color = 8, rb_right = 0, rb_left = 0\<rparr>,
      24 \<mapsto> \<lparr>rb_parent_color = 8, rb_right = 0, rb_left = 0\<rparr>,
      32 \<mapsto> \<lparr>rb_parent_color = 0, rb_right = 0, rb_left = 0\<rparr>], root_node = 8\<rparr>"

lemma heap3_tree3: "rep heap3 tree3" "rbt tree3"
  by (simp_all add: rep_def rbt_def heap3_def tree3_def cell_def good_def aligned_def rb_parent_def col_bit)

lemma heap3_free: "free_link heap3 tree3 24 L" "good 32" "32 \<notin> set (inorder tree3)"
  "nodes heap3 32 = Some \<lparr>rb_parent_color = 0, rb_right = 0, rb_left = 0\<rparr>"
  by (simp_all add: free_link_def heap3_def tree3_def good_def aligned_def)

theorem rb_insert_correct_witness:
  "\<exists>h1 h2 T'. rb_link_node 32 24 L heap3 = Val h1 \<and> rb_insert_color 32 h1 = Some (Val h2) \<and>
    rep h2 T' \<and> rbt T' \<and> dord L T' = [24, 32, 8, 16]"
proof -
  have "insert_after 24 32 (dord L tree3) = [24, 32, 8, 16]" by (simp add: tree3_def)
  then show ?thesis using rb_insert_correct [OF heap3_tree3 heap3_free(1,4,2,3)] by auto
qed

subsection \<open>Removal\<close>

text \<open>
  C7. Removal. For every node of a red-black tree on the heap \<open>rb_erase\<close> returns, touches nothing but the
  nodes of the tree, and leaves a red-black tree with the same nodes in the same order without this one.
\<close>

theorem rb_erase_correct:
  assumes "rep h T" "rbt T" "x \<in> set (inorder T)"
  shows "\<exists>h' T'. rb_erase x h = Some (Val h') \<and> rep h' T' \<and> rbt T' \<and> inorder T' = remove1 x (inorder T) \<and>
    outside (set (inorder T)) h h' \<and> allocated h' = allocated h"
  using rb_erase_ok [OF assms] rb_erase_dom [of x h] by blast

theorem rb_erase_correct_witness:
  "\<exists>h' T'. rb_erase 8 heap3 = Some (Val h') \<and> rep h' T' \<and> rbt T' \<and> inorder T' = [16, 24]"
proof -
  have "8 \<in> set (inorder tree3)" "remove1 8 (inorder tree3) = [16, 24]" by (simp_all add: tree3_def)
  then show ?thesis using rb_erase_correct [OF heap3_tree3, of 8] by auto
qed

subsection \<open>Iteration and replacement\<close>

text \<open>
  C33. Iteration. In the order of the tree and in the reverse order, \<open>rb_first\<close> (\<open>rb_last\<close>) returns the first
  node, null for an empty tree, and \<open>rb_next\<close> (\<open>rb_prev\<close>) of the node at a place returns the node at the next
  place, null at the end; so a loop over them meets each node once, in order, and ends.
\<close>

theorem rb_iteration_correct:
  assumes "rep h T"
  shows "rb_end (opp d) h = Some (Val (first_of (dord d T))) \<and>
    (i < length (dord d T) \<longrightarrow> rb_step d (dord d T ! i) h = Some (Val (first_of (drop (Suc i) (dord d T)))))"
  using rb_end_ok [OF assms] rb_step_ok [OF assms id_take_nth_drop [of i "dord d T"]] by simp

theorem rb_iteration_correct_witness:
  "rb_end L heap3 = Some (Val 16) \<and> rb_step R 8 heap3 = Some (Val 24) \<and> rb_step R 24 heap3 = Some (Val 0)"
  using rb_iteration_correct [OF heap3_tree3(1), of R 1] rb_iteration_correct [OF heap3_tree3(1), of R 2]
  by (simp add: tree3_def)

text \<open>
  C35. Replacement. \<open>rb_replace_node\<close> puts a new node into the place of one in the tree: the heap holds
  the same tree with the same colours, and only the old address is exchanged for the new one.
\<close>

theorem rb_replace_correct:
  assumes "rep h (plug (Nd c l x r) ctx)" "nodes h y = Some n" "good y" "y \<notin> set (inorder (plug (Nd c l x r) ctx))"
  shows "\<exists>h'. rb_replace_node x y h = Val h' \<and> rep h' (plug (Nd c l y r) ctx) \<and>
    outside (insert y (set (inorder (plug (Nd c l x r) ctx)))) h h'"
  using rb_replace_ok [OF assms(1,3,4,2)] .

theorem rb_replace_correct_witness:
  "\<exists>h'. rb_replace_node 24 32 heap3 = Val h' \<and> rep h' (Nd Black (Nd Red Lf 16 Lf) 8 (Nd Red Lf 32 Lf))"
proof -
  have "rep heap3 (plug (Nd Red Lf 24 Lf) [(R, Black, 8, Nd Red Lf 16 Lf)])" using heap3_tree3(1) by (simp add: tree3_def)
  moreover have "32 \<notin> set (inorder (plug (Nd Red Lf 24 Lf) [(R, Black, 8, Nd Red Lf 16 Lf)]))" by simp
  ultimately show ?thesis using rb_replace_correct [OF _ heap3_free(4,2)] by fastforce
qed

subsection \<open>The timer queue\<close>

text \<open>
  C8. The timer queue. After any sequence of calls that initializes timers before their use and changes the time of
  a timer only outside the queue, the queue is the list of its timers sorted by expiry time, timers
  with the same time in the order in which they were added.  \<open>timerqueue_getnext\<close> is its first timer, the iterator walks it,
  no warning has fired, and every further addition of an idle timer and every removal returns.
\<close>

theorem timerqueue_correct:
  assumes "uses q xs I"
  shows "timerqueue_getnext q = first_of xs \<and> sorted (map (time q) xs) \<and> distinct xs \<and> \<not> warned q \<and>
    (i < length xs \<longrightarrow> timerqueue_iterate_next (xs ! i) q = Some (Val (first_of (drop (Suc i) xs)))) \<and>
    (x \<in> I \<longrightarrow> (\<exists>q'. timerqueue_add x q = Some (Val q') \<and> uses q' (enqueue (time q) x xs) (I - {x}))) \<and>
    (x \<in> set xs \<longrightarrow> (\<exists>q'. timerqueue_del x q = Some (Val q') \<and> uses q' (remove1 x xs) (insert x I)))"
proof -
  have ok: "tq_ok q xs" "\<not> warned q" "x \<in> I \<Longrightarrow> idle q x \<and> x \<notin> set xs" using uses_ok [OF assms] by (auto simp: use_ok_def)
  have "x \<in> I \<longrightarrow> (\<exists>q'. timerqueue_add x q = Some (Val q') \<and> uses q' (enqueue (time q) x xs) (I - {x}))"
    using timerqueue_add_ok [OF ok(1)] ok(3) uses.add [OF assms] by metis
  moreover have "x \<in> set xs \<longrightarrow> (\<exists>q'. timerqueue_del x q = Some (Val q') \<and> uses q' (remove1 x xs) (insert x I))"
    using timerqueue_del_ok [OF ok(1)] uses.del [OF assms] by metis
  ultimately show ?thesis
    using ok(1,2) iterate_ok [OF ok(1)] holds_distinct [of "head q" xs] by (simp add: tq_ok_def timerqueue_getnext_def)
qed

definition queue0 :: timerqueue where
  "queue0 = \<lparr>head = heap3, expires = (\<lambda>a. if a = 8 then 5 else 7), head_next = 0, warned = False\<rparr>"

definition queue1 :: timerqueue where
  "queue1 = (timerqueue_init_head queue0)\<lparr>head := heap3\<lparr>root_node := 0,
     nodes := (nodes heap3)(16 \<mapsto> \<lparr>rb_parent_color = 16, rb_right = 0, rb_left = 0\<rparr>)\<rparr>\<rparr>"

lemma queue1_uses: "uses queue1 [] {16}"
proof -
  have "uses (timerqueue_init_head queue0) [] {}" by (rule uses.start) (simp add: queue0_def)
  moreover have "timerqueue_init 16 (timerqueue_init_head queue0) = Val queue1"
    by (simp add: queue1_def queue0_def timerqueue_init_def timerqueue_init_head_def rb_init_node_def RB_CLEAR_NODE_def
        update_def node_at_def heap3_def rb_set_parent_def del: bind_outcome_Val_iff)
  ultimately show ?thesis using uses.init [of "timerqueue_init_head queue0" "[]" "{}" 16 queue1]
    by (simp add: good_def aligned_def)
qed

theorem timerqueue_correct_witness:
  "timerqueue_getnext queue1 = 0 \<and> (\<exists>q'. timerqueue_add 16 queue1 = Some (Val q') \<and> uses q' [16] {} \<and> timerqueue_getnext q' = 16)"
  using timerqueue_correct [OF queue1_uses, of 0 16] timerqueue_correct [of _ "[16]" "{}"] by (auto simp: enqueue_def)

end
