(* ===== verification/Spec2Isabelle.thy ===== *)
theory Spec2Isabelle
  imports Seccomp Kfifo_Queue Memblock_Correct Acl_Correct Sem_Correct Rbtree_Correct
begin

text \<open>
  Verification of parts of the Linux kernel 3.5 (sources under \<open>src/linux-3.5\<close>).

  \<^bold>\<open>The program.\<close>  The kernel is far too large to be modelled as a whole.  This development takes six
  groups of files that can be read as a unit, whose code is all in the repository and whose correctness
  matters to the rest: the packet and system call filters, the generic ring buffer, the boot-time
  memory map, access control lists, System V semaphores, and red-black trees with the timer queue.  Each is modelled operation by operation from the C
  text, with the machine widths, error returns and early exits of the code.

  \<^bold>\<open>Conventions\<close> (theory \<open>KPrelude\<close>).  \<open>u8\<close> to \<open>u64\<close> are words; \<open>int\<close> is used where the C code uses signed
  integers in a range that cannot overflow, and the conversion is written out where it can.  \<open>unsigned long\<close>,
  \<open>size_t\<close> and pointers have 64 bits, fields in host order are little endian.  A C function that can fail returns
  an \<open>outcome\<close>: \<open>Val\<close>, \<open>Err\<close> with an error number, or \<open>Trap\<close>, which stands for everything the C
  code must never do: an access outside an object, a use after free, a null dereference, a \<open>BUG_ON\<close>, an
  undefined shift.  A theorem that a call is \<open>Val\<close> is therefore also a theorem about memory safety, with one exception:
  the \<open>memmove\<close> of \<open>memblock_merge_regions\<close> reads one entry past the end of a full array (\<open>merge_reads_past_array\<close>); that read is modelled
  as the value \<open>beyond\<close> instead of a \<open>Trap\<close>, so that the effect of the code can be stated.  Loops are
  recursive functions; those that need a bound get one from the data, and it is proved to be enough.  The loops over
  tree pointers have no such bound: they are partial functions with the result \<open>None\<close> if they do not end, and it is
  proved that they end.
  Functions outside the modelled files (allocators, user copies, capabilities, security modules, inode
  operations) are arguments, collected in a record per component.

  \<^bold>\<open>Filters.\<close>
  \<^item> \<open>Skbuff\<close>: \<open>include/linux/skbuff.h\<close>, \<open>net/core/skbuff.c\<close>.  Buffers with fragments and fragment lists;
    \<open>skb_copy_bits\<close>, \<open>skb_header_pointer\<close>, \<open>skb_put\<close>.  Shown: reads deliver exactly the bytes of the packet.
  \<^item> \<open>Reciprocal\<close>: \<open>lib/reciprocal_div.c\<close>.  Shown: when multiplication by the reciprocal is division.
  \<^item> \<open>Nlattr\<close>: \<open>lib/nlattr.c\<close>, \<open>include/net/netlink.h\<close>.  The attribute walk, validation, parsing, searching
    and appending.  The locales \<open>nla_body\<close> and \<open>nla_total_body\<close> are the contract between the walk and the loop bodies that
    use it.  Shown: walks stay inside the buffer and tables, what is put is visited and read back by the walk.
  \<^item> \<open>Bpf_Insn\<close>, \<open>Bpf_Run\<close>, \<open>Bpf_Check\<close>: \<open>include/linux/filter.h\<close>, \<open>net/core/filter.c\<close>.  Instruction
    set, interpreter \<open>sk_run_filter\<close> (a total function, because the program counter only grows), checker
    \<open>sk_chk_filter\<close>.  The locale \<open>filter_env\<close> is what a run needs of its environment; it is interpreted for sockets and for
    seccomp.  Shown: an accepted program never faults, apart from the two gaps that the checker leaves.
  \<^item> \<open>Seccomp\<close>: \<open>kernel/seccomp.c\<close>.  Uses the checker and the interpreter.  Shown: attached filters are safe, a
    chain gives its least action, modes are never left and nothing but a result with an undefined action becomes more permitted, filter
    reference counts are exact.

  \<^bold>\<open>Ring buffer.\<close>
  \<^item> \<open>Log2\<close>: \<open>include/linux/log2.h\<close>.
  \<^item> \<open>Kfifo\<close>, \<open>Kfifo_Queue\<close>: \<open>kernel/kfifo.c\<close>, \<open>include/linux/kfifo.h\<close>.  Free-running 32-bit counters, byte and
    record fifos, user space transfers.  The locale \<open>fifo_queue\<close> is the interface of a queue of bytes, \<open>step_refines\<close> that of
    operations which refine a function on the contents; byte fifos interpret the first, record fifos the second.  Shown: first in, first out
    across any sequence of operations and counter wrap-around; record fifos are bounded queues of records, for records whose length fits
    the header.

  \<^bold>\<open>Boot-time memory map.\<close>
  \<^item> \<open>Memblock\<close>, \<open>Memblock_Lists\<close>: region arrays of \<open>mm/memblock.c\<close> and the list functions they refine.
  \<^item> \<open>Memblock_Find\<close>: searching and the iterators over free ranges (at most \<open>iter_bound\<close> steps: the two counts
    and two more, since every step advances one of the two positions).
  \<^item> \<open>Memblock_Map\<close>, \<open>Memblock_Memory\<close>, \<open>Memblock_Correct\<close>: the operations.  A full array is doubled with an allocation from the
    map itself; the recursion is bounded by a nesting depth of 4, and \<open>reserve_growth\<close> is the contract
    under which one level is enough for the reservations, \<open>memory_growth\<close> the one for the memory array, which needs room in the
    reservations; at most 64 doublings are needed to make room.  Shown: the exact effect of add, remove, reserve
    and set_node on the set of addresses, allocations are free memory, the search finds memory if there is any.

  \<^bold>\<open>Access control lists.\<close>
  \<^item> \<open>Posix_Acl\<close>: \<open>fs/posix_acl.c\<close>.  The locale \<open>acl_shape\<close> fixes the parts of a valid ACL.
  \<^item> \<open>Acl_Cache\<close>: reference counts and the cached slots of \<open>include/linux/posix_acl.h\<close>, on an explicit heap.
  \<^item> \<open>Acl_Xattr\<close>: \<open>fs/xattr_acl.c\<close>, the byte form.
  \<^item> \<open>Permission\<close>: the permission checks of \<open>fs/namei.c\<close>, which use the cache and the decision.
  \<^item> \<open>Acl_Correct\<close>: the properties.  Shown: validity is a grammar, the decision is the POSIX one, the mode and the
    ACL stay in step, counts are exact and every ACL is freed, printing and parsing are inverse.

  \<^bold>\<open>Semaphores.\<close>
  \<^item> \<open>Sem\<close>: \<open>ipc/sem.c\<close> on one array and the tasks that use it: \<open>semtimedop\<close>, \<open>semctl\<close>, creation, removal,
    fork and exit.  Going to sleep ends a step; a later step wakes the task with a status, or the task wakes on its
    own after a timeout or a signal.
  \<^item> \<open>Sem_Atomic\<close>: \<open>try_atomic_semop\<close> refines the reference \<open>ref_semop\<close> on the values.
  \<^item> \<open>Sem_Wait\<close>: the invariant \<open>sem_wf\<close> of the queues, and that the partial scans of \<open>update_queue\<close> and
    \<open>do_smart_update\<close> leave no operation asleep that could go on.  A scan is restarted at most once for every entry of the queue, which
    is the bound of \<open>update_again\<close>.
  \<^item> \<open>Sem_Calls\<close>, \<open>Sem_Tasks\<close>: each call keeps the invariant; sequences of events, reference counts of undo lists.
  \<^item> \<open>Sem_Correct\<close>: the properties.

  \<^bold>\<open>Red-black trees.\<close>
  \<^item> \<open>Rbtree\<close>: \<open>lib/rbtree.c\<close>, \<open>include/linux/rbtree.h\<close>.  Nodes with the parent and the colour in one word, on
    an explicit heap.  The mirrored halves of the code are one definition with the side as argument.
  \<^item> \<open>Rbtree_Shape\<close>, \<open>Rbtree_Heap\<close>: trees and positions in them, the red-black conditions, \<open>rep h T\<close> (the heap
    holds the tree), and what one store, a link and a rotation do to it.
  \<^item> \<open>Rbtree_Insert\<close>, \<open>Rbtree_Erase\<close>, \<open>Rbtree_Remove\<close>, \<open>Rbtree_Iter\<close>: the loops of insertion and removal with their invariants
    and measures, the unlinking of a node, iteration and replacement.
  \<^item> \<open>Timerqueue\<close>: \<open>lib/timerqueue.c\<close>, a client of the trees, and the sequences of calls on it.
  \<^item> \<open>Rbtree_Correct\<close>: the properties.  Shown: every operation returns, keeps the tree red-black and balanced, has
    exactly its effect on the order of the nodes and touches no other memory; the timer queue is a stable priority queue.

  \<^bold>\<open>Faults.\<close>  Where the code does less than it means to, the fault is a theorem about a concrete
  input: the guards of the netlink attribute loads (\<open>Bpf_Check\<close>), the reciprocal of 1 (\<open>Reciprocal\<close>), the units of the
  copied count and records too long for their header (\<open>Kfifo_Queue\<close>), undefined seccomp actions (\<open>Seccomp\<close>), three places of the memory map (\<open>Memblock_Correct\<close>), the skipped empty mask
  (\<open>Acl_Correct\<close>) and the undo range of semaphores (\<open>Sem_Correct\<close>).

  \<^bold>\<open>Not modelled.\<close>  Concurrency inside an operation: every operation is one step, as it is under the lock the
  code holds; RCU grace periods end when memory leaves the heap of the model; memory barriers and lockless
  reader/writer pairs are left out.  The just-in-time compilers of filters, the scatter lists and DMA of the ring buffer, the typed
  wrappers of netlink attributes, path lookup, the identifiers and namespaces of System V IPC, trees with augmented nodes.  Drivers, architectures,
  file systems, protocols, the scheduler, virtual memory, cryptography, sound and the tools are not part of
  this development: they are separate programs of their own size, and most of their behaviour is that of hardware.
\<close>

end
